(* ===== verification/Prelude.thy ===== *)
theory Prelude
  imports Main "HOL-Library.Monad_Syntax" "HOL-Library.Word"
begin

text \<open>
  Shared vocabulary of the development.

  An operation of the C code is a function from the state to an option:
  \<^term>\<open>None\<close> stands for a run that yields no result, because it dereferences a pointer
  that is NULL or freed, writes outside an array, overflows an \<open>int64_t\<close>, or loops forever.  A theorem that an
  operation is \<^term>\<open>Some\<close> of something is therefore a statement of memory safety and of
  termination.  Sequencing is written with the \<open>do\<close> notation of the option monad.
\<close>

named_theorems mem_simps "reads and writes of the memory models"
named_theorems step_simps "equations that run one operation of the code"

type_synonym byte = "8 word"

type_synonym addr = nat  \<comment> \<open>address of an allocated object; a pointer is an \<open>addr option\<close>, NULL is None\<close>

text \<open>C integers are \<open>int\<close>; a conversion to a narrower signed type wraps around.\<close>

definition i32 :: "int \<Rightarrow> int" where
  "i32 x = (x + 2 ^ 31) mod 2 ^ 32 - 2 ^ 31"

lemma i32_id: "- (2 ^ 31) \<le> x \<Longrightarrow> x < 2 ^ 31 \<Longrightarrow> i32 x = x"
  by (simp add: i32_def)

lemma i32_range: "- (2 ^ 31) \<le> i32 x" "i32 x < 2 ^ 31"
  by (simp_all add: i32_def)

text \<open>
  The sums and products that the code computes in \<open>int64_t\<close>: an overflow is undefined behaviour
  in C, and has no result here.
\<close>

definition in_i64 :: "int \<Rightarrow> bool" where
  "in_i64 x \<longleftrightarrow> - (2 ^ 63) \<le> x \<and> x < 2 ^ 63"

definition i64 :: "int \<Rightarrow> int option" where
  "i64 x = (if in_i64 x then Some x else None)"

lemma i64_Some [mem_simps]: "in_i64 x \<Longrightarrow> i64 x = Some x"
  by (simp add: i64_def)

lemma i64_eq_Some: "i64 x = Some y \<longleftrightarrow> in_i64 x \<and> y = x"
  by (auto simp: i64_def)

lemma in_i64_add: "\<bar>a\<bar> < 2 ^ 62 \<Longrightarrow> \<bar>b\<bar> < 2 ^ 62 \<Longrightarrow> in_i64 (a + b)"
  unfolding in_i64_def by (rule conjI; simp; linarith)

lemma i32_small: "\<bar>i32 x\<bar> < 2 ^ 62"
  using i32_range [of x] by simp

text \<open>\<open>memcpy(dst, src, n)\<close> between two byte arrays: outside either array there is no result.\<close>

definition memcpy :: "byte list \<Rightarrow> byte list \<Rightarrow> int \<Rightarrow> byte list option" where
  "memcpy dst src n =
     (if 0 \<le> n \<and> nat n \<le> length src \<and> nat n \<le> length dst
      then Some (take (nat n) src @ drop (nat n) dst) else None)"

text \<open>Reading and writing one cell of an array.\<close>

definition rd :: "'a list \<Rightarrow> int \<Rightarrow> 'a option" where
  "rd xs i = (if 0 \<le> i \<and> nat i < length xs then Some (xs ! nat i) else None)"

definition wr :: "'a list \<Rightarrow> int \<Rightarrow> 'a \<Rightarrow> 'a list option" where
  "wr xs i v = (if 0 \<le> i \<and> nat i < length xs then Some (xs[nat i := v]) else None)"

lemma rd_Some [mem_simps]: "0 \<le> i \<Longrightarrow> nat i < length xs \<Longrightarrow> rd xs i = Some (xs ! nat i)"
  by (simp add: rd_def)

lemma wr_Some [mem_simps]: "0 \<le> i \<Longrightarrow> nat i < length xs \<Longrightarrow> wr xs i v = Some (xs[nat i := v])"
  by (simp add: wr_def)

text \<open>Option plumbing.\<close>

lemma bind_SomeE:
  assumes "Option.bind m f = Some y"
  obtains x where "m = Some x" "f x = Some y"
  using assms by (cases m) auto

lemma ex_Some_eq: "(\<exists>y. m = Some y) \<longleftrightarrow> m \<noteq> None"
  by auto

text \<open>
  Partial correctness: whenever a run has a result, the result satisfies the postcondition.
  The rules follow the shape of the program text.
\<close>

definition post :: "('a \<Rightarrow> bool) \<Rightarrow> 'a option \<Rightarrow> bool" where
  "post P m \<longleftrightarrow> (\<forall>x. m = Some x \<longrightarrow> P x)"

lemma postI: "(\<And>x. m = Some x \<Longrightarrow> P x) \<Longrightarrow> post P m"
  by (simp add: post_def)

lemma postD: "post P m \<Longrightarrow> m = Some x \<Longrightarrow> P x"
  by (simp add: post_def)

lemma post_None [simp]: "post P None"
  by (simp add: post_def)

lemma post_Some [simp]: "post P (Some x) = P x"
  by (simp add: post_def)

lemma post_mono: "post P m \<Longrightarrow> (\<And>x. P x \<Longrightarrow> Q x) \<Longrightarrow> post Q m"
  by (simp add: post_def)

lemma post_conj: "post P m \<Longrightarrow> post Q m \<Longrightarrow> post (\<lambda>x. P x \<and> Q x) m"
  by (simp add: post_def)

lemma post_bind: "post P m \<Longrightarrow> (\<And>x. P x \<Longrightarrow> post Q (f x)) \<Longrightarrow> post Q (Option.bind m f)"
  by (cases m) (auto simp: post_def)

lemma post_read: "(\<And>x. m = Some x \<Longrightarrow> post Q (f x)) \<Longrightarrow> post Q (Option.bind m f)"
  by (cases m) auto

lemma post_if: "(b \<Longrightarrow> post P m) \<Longrightarrow> (\<not> b \<Longrightarrow> post P k) \<Longrightarrow> post P (if b then m else k)"
  by simp

lemma post_prod: "(\<And>a b. x = (a, b) \<Longrightarrow> post P (f a b)) \<Longrightarrow> post P (case x of (a, b) \<Rightarrow> f a b)"
  by (cases x) simp

lemma post_option:
  "(x = None \<Longrightarrow> post P m) \<Longrightarrow> (\<And>a. x = Some a \<Longrightarrow> post P (f a)) \<Longrightarrow>
   post P (case x of None \<Rightarrow> m | Some a \<Rightarrow> f a)"
  by (cases x) simp_all

lemmas post_rules = post_if post_prod post_option

lemma map_of_insert:
  "k \<notin> fst ` set A \<Longrightarrow> map_of (A @ (k, v) # B) = (map_of (A @ B))(k \<mapsto> v)"
  by (induction A) (auto simp: fun_eq_iff)

lemma map_of_remove: "map_of (filter (\<lambda>x. fst x \<noteq> k) xs) = (map_of xs)(k := None)"
  by (induction xs) (auto simp: fun_eq_iff)

lemma dom_singleton_delete [simp]: "dom m = {a} \<Longrightarrow> m(a := None) = Map.empty"
  by (auto simp: fun_eq_iff dom_def)

end
