(* ===== verification/Rwb.thy ===== *)
theory Rwb
  imports Prelude
begin

text \<open>
  The queue of unsent bytes of a channel, src/src/mnet_core.c lines 122--133 and 271--344.

  \<open>rwb_head_t\<close> holds the first and the last of a singly linked list of blocks and their
  number; each block \<open>rwb_t\<close> owns a byte array of which the part from \<open>ptr\<close> to \<open>len\<close> is
  still unsent.  The blocks of one queue are reachable from its head only, so the model
  keeps them in a memory of the queue itself (\<open>rh_mem\<close>), with the allocator's next
  address; a freed block leaves the memory and reading it afterwards has no result.

  The lemmas show that the queue is a FIFO of bytes (append at the tail, drop at the
  head), that draining terminates, and when \<open>_rwb_destroy\<close> terminates.
\<close>

record rwb_t =
  rb_ptr :: int
  rb_len :: int
  rb_next :: "addr option"
  rb_buf :: "byte list"

record rwb_head_t =
  rh_head :: "addr option"
  rh_tail :: "addr option"
  rh_count :: int
  rh_mem :: "addr \<rightharpoonup> rwb_t"
  rh_brk :: addr

definition rwb_zero :: rwb_head_t where
  "rwb_zero = \<lparr>rh_head = None, rh_tail = None, rh_count = 0, rh_mem = Map.empty, rh_brk = 0\<rparr>"

definition min_of :: "int \<Rightarrow> int \<Rightarrow> int" where
  "min_of a b = (if a < b then a else b)"

definition rwb_count :: "rwb_head_t \<Rightarrow> int" where
  "rwb_count h = rh_count h"

definition rwb_buffered :: "rwb_head_t \<Rightarrow> addr option \<Rightarrow> int option" where
  "rwb_buffered h p =
     (case p of None \<Rightarrow> Some 0
      | Some a \<Rightarrow> do { b \<leftarrow> rh_mem h a; Some (rb_len b - rb_ptr b) })"

definition rwb_new :: "rwb_head_t \<Rightarrow> int \<Rightarrow> addr \<times> rwb_head_t" where
  "rwb_new h len =
     (rh_brk h,
      h\<lparr>rh_mem := (rh_mem h)(rh_brk h \<mapsto>
          \<lparr>rb_ptr = 0, rb_len = len, rb_next = None, rb_buf = replicate (nat len) 0\<rparr>),
        rh_brk := Suc (rh_brk h)\<rparr>)"

definition rwb_create_tail :: "rwb_head_t \<Rightarrow> int \<Rightarrow> (addr \<times> rwb_head_t) option" where
  "rwb_create_tail h len =
     (if rh_count h \<le> 0 then
        (let (b, h) = rwb_new h len
         in Some (b, h\<lparr>rh_head := Some b, rh_tail := Some b, rh_count := rh_count h + 1\<rparr>))
      else do {
        t \<leftarrow> rh_tail h;
        let (b, h) = rwb_new h len;
        tb \<leftarrow> rh_mem h t;
        Some (b, h\<lparr>rh_mem := (rh_mem h)(t \<mapsto> tb\<lparr>rb_next := Some b\<rparr>),
                   rh_tail := Some b, rh_count := rh_count h + 1\<rparr>)
      })"

definition rwb_destroy_head :: "rwb_head_t \<Rightarrow> rwb_head_t option" where
  "rwb_destroy_head h = do {
     n \<leftarrow> rwb_buffered h (rh_head h);
     if n \<le> 0 then do {
       a \<leftarrow> rh_head h;
       b \<leftarrow> rh_mem h a;
       let h = h\<lparr>rh_head := rb_next b, rh_mem := (rh_mem h)(a := None),
                 rh_count := rh_count h - 1\<rparr>;
       Some (if rh_count h \<le> 0 then h\<lparr>rh_head := None, rh_tail := None\<rparr> else h)
     } else Some h
   }"

definition rwb_cache :: "rwb_head_t \<Rightarrow> byte list \<Rightarrow> int \<Rightarrow> rwb_head_t option" where
  "rwb_cache h buf buf_len = do {
     (a, h) \<leftarrow> rwb_create_tail h buf_len;
     b \<leftarrow> rh_mem h a;
     bs \<leftarrow> memcpy (rb_buf b) buf buf_len;
     Some (h\<lparr>rh_mem := (rh_mem h)(a \<mapsto> b\<lparr>rb_buf := bs\<rparr>)\<rparr>)
   }"

text \<open>The pointer \<open>&b->buf[b->ptr]\<close> is rendered as the bytes from there to the end of the block.\<close>

definition rwb_drain_param :: "rwb_head_t \<Rightarrow> (byte list \<times> int) option" where
  "rwb_drain_param h = do {
     len \<leftarrow> rwb_buffered h (rh_head h);
     a \<leftarrow> rh_head h;
     b \<leftarrow> rh_mem h a;
     Some (drop (nat (rb_ptr b)) (rb_buf b), len)
   }"

partial_function (option) rwb_drain :: "rwb_head_t \<Rightarrow> int \<Rightarrow> rwb_head_t option" where
  "rwb_drain h drain_len =
     (if rh_count h > 0 \<and> drain_len > 0 then do {
        n \<leftarrow> rwb_buffered h (rh_head h);
        let len = min_of drain_len n;
        a \<leftarrow> rh_head h;
        b \<leftarrow> rh_mem h a;
        h \<leftarrow> rwb_destroy_head (h\<lparr>rh_mem := (rh_mem h)(a \<mapsto> b\<lparr>rb_ptr := rb_ptr b + len\<rparr>)\<rparr>);
        rwb_drain h (drain_len - len)
      } else Some h)"

partial_function (option) rwb_destroy :: "rwb_head_t \<Rightarrow> rwb_head_t option" where
  "rwb_destroy h =
     (if rh_count h > 0 then do {
        h \<leftarrow> rwb_destroy_head h;
        rwb_destroy h
      } else Some h)"

subsection \<open>Abstraction to a list of bytes, and the invariant\<close>

primrec rwb_path :: "(addr \<rightharpoonup> rwb_t) \<Rightarrow> addr option \<Rightarrow> addr list \<Rightarrow> bool" where
  "rwb_path m p [] \<longleftrightarrow> p = None"
| "rwb_path m p (a # as) \<longleftrightarrow> p = Some a \<and> (\<exists>b. m a = Some b \<and> rwb_path m (rb_next b) as)"

primrec rwb_walk :: "(addr \<rightharpoonup> rwb_t) \<Rightarrow> addr option \<Rightarrow> nat \<Rightarrow> addr list" where
  "rwb_walk m p 0 = []"
| "rwb_walk m p (Suc n) =
     (case p of None \<Rightarrow> []
      | Some a \<Rightarrow> (case m a of None \<Rightarrow> [] | Some b \<Rightarrow> a # rwb_walk m (rb_next b) n))"

definition block_bytes :: "rwb_t \<Rightarrow> byte list" where
  "block_bytes b = drop (nat (rb_ptr b)) (rb_buf b)"

definition blocks_bytes :: "(addr \<rightharpoonup> rwb_t) \<Rightarrow> addr list \<Rightarrow> byte list" where
  "blocks_bytes m as = concat (map (\<lambda>a. case m a of None \<Rightarrow> [] | Some b \<Rightarrow> block_bytes b) as)"

definition rwb_addrs :: "rwb_head_t \<Rightarrow> addr list" where
  "rwb_addrs h = rwb_walk (rh_mem h) (rh_head h) (nat (rh_count h))"

text \<open>The unsent bytes of a queue, first byte first.\<close>

definition rwb_bytes :: "rwb_head_t \<Rightarrow> byte list" where
  "rwb_bytes h = blocks_bytes (rh_mem h) (rwb_addrs h)"

definition block_ok :: "rwb_t \<Rightarrow> bool" where
  "block_ok b \<longleftrightarrow> 0 \<le> rb_ptr b \<and> rb_ptr b < rb_len b \<and> length (rb_buf b) = nat (rb_len b)"

definition rwb_rep :: "rwb_head_t \<Rightarrow> addr list \<Rightarrow> bool" where
  "rwb_rep h as \<longleftrightarrow>
     rwb_path (rh_mem h) (rh_head h) as \<and> distinct as \<and> dom (rh_mem h) = set as \<and>
     rh_count h = int (length as) \<and>
     rh_tail h = (if as = [] then None else Some (last as)) \<and>
     (\<forall>a b. rh_mem h a = Some b \<longrightarrow> block_ok b \<and> a < rh_brk h)"

definition rwb_inv :: "rwb_head_t \<Rightarrow> bool" where
  "rwb_inv h \<longleftrightarrow> rwb_rep h (rwb_addrs h)"

lemma rwb_path_walk: "rwb_path m p as \<Longrightarrow> rwb_walk m p (length as) = as"
  by (induction as arbitrary: p) auto

lemma rwb_rep_addrs: "rwb_rep h as \<Longrightarrow> rwb_addrs h = as"
  by (auto simp: rwb_rep_def rwb_addrs_def rwb_path_walk)

lemma rwb_rep_inv: "rwb_rep h as \<Longrightarrow> rwb_inv h"
  by (simp add: rwb_inv_def rwb_rep_addrs)

lemma rwb_rep_bytes: "rwb_rep h as \<Longrightarrow> rwb_bytes h = blocks_bytes (rh_mem h) as"
  by (simp add: rwb_bytes_def rwb_rep_addrs)

lemma rwb_path_upd [simp]: "a \<notin> set as \<Longrightarrow> rwb_path (m(a := x)) p as = rwb_path m p as"
  by (induction as arbitrary: p) auto

lemma blocks_bytes_Nil [simp]: "blocks_bytes m [] = []"
  by (simp add: blocks_bytes_def)

lemma blocks_bytes_Cons [simp]:
  "blocks_bytes m (a # as) = (case m a of None \<Rightarrow> [] | Some b \<Rightarrow> block_bytes b) @ blocks_bytes m as"
  by (simp add: blocks_bytes_def)

lemma blocks_bytes_append [simp]: "blocks_bytes m (as @ bs) = blocks_bytes m as @ blocks_bytes m bs"
  by (simp add: blocks_bytes_def)

lemma blocks_bytes_upd [simp]: "a \<notin> set as \<Longrightarrow> blocks_bytes (m(a := x)) as = blocks_bytes m as"
  by (induction as) auto

lemma blocks_bytes_relink:
  "m t = Some tb \<Longrightarrow> blocks_bytes (m(t \<mapsto> tb\<lparr>rb_next := q\<rparr>)) as = blocks_bytes m as"
  by (induction as) (auto simp: block_bytes_def)

lemma rwb_path_snoc:
  assumes "rwb_path m p as" "as \<noteq> []" "m (last as) = Some tb" "distinct as"
    and "n \<notin> set as" "rb_next nb = None"
  shows "rwb_path (m(n \<mapsto> nb, last as \<mapsto> tb\<lparr>rb_next := Some n\<rparr>)) p (as @ [n])"
  using assms
proof (induction as arbitrary: p)
  case (Cons a as)
  show ?case
  proof (cases "as = []")
    case False
    then have "a \<noteq> last as" using Cons.prems(4) by auto
    with False Cons show ?thesis by auto
  qed (use Cons in auto)
qed simp

lemma rwb_rep_zero: "rwb_rep rwb_zero []"
  by (simp add: rwb_rep_def rwb_zero_def)

subsection \<open>Appending\<close>

lemma rwb_cache_rep:
  assumes rep: "rwb_rep h as" and len: "0 < n" "nat n \<le> length buf"
  shows "\<exists>h'. rwb_cache h buf n = Some h' \<and> rwb_rep h' (as @ [rh_brk h]) \<and>
    blocks_bytes (rh_mem h') (as @ [rh_brk h]) = blocks_bytes (rh_mem h) as @ take (nat n) buf"
proof (cases "as = []")
  case True
  with rep len show ?thesis
    by (auto simp: rwb_cache_def rwb_create_tail_def rwb_new_def rwb_rep_def memcpy_def block_ok_def
        block_bytes_def)
next
  case False
  let ?n = "rh_brk h"
  from rep have fresh: "?n \<notin> set as" by (auto simp: rwb_rep_def)
  from rep False obtain tb where tb: "rh_mem h (last as) = Some tb"
    by (auto simp: rwb_rep_def) (metis domIff last_in_set option.exhaust)
  have ne: "last as \<noteq> ?n" using fresh False by (metis last_in_set)
  let ?nb = "\<lparr>rb_ptr = 0, rb_len = n, rb_next = None, rb_buf = take (nat n) buf\<rparr>"
  let ?m = "(rh_mem h)(?n \<mapsto> ?nb, last as \<mapsto> tb\<lparr>rb_next := Some ?n\<rparr>)"
  let ?h = "h\<lparr>rh_mem := ?m, rh_brk := Suc ?n, rh_tail := Some ?n, rh_count := rh_count h + 1\<rparr>"
  have run: "rwb_cache h buf n = Some ?h"
    using rep len False tb ne
    by (auto simp: rwb_cache_def rwb_create_tail_def rwb_new_def rwb_rep_def memcpy_def fun_upd_twist
        split: if_splits)
  have path: "rwb_path ?m (rh_head h) (as @ [?n])"
    using rep False tb fresh by (intro rwb_path_snoc) (auto simp: rwb_rep_def)
  have "rwb_rep ?h (as @ [?n])"
    using rep path fresh tb len False
    by (auto simp: rwb_rep_def block_ok_def less_Suc_eq split: if_splits)
  moreover have "blocks_bytes ?m (as @ [?n]) = blocks_bytes (rh_mem h) as @ take (nat n) buf"
    using fresh ne tb blocks_bytes_relink [of "(rh_mem h)(?n \<mapsto> ?nb)" "last as" tb "Some ?n"]
    by (simp add: block_bytes_def)
  ultimately show ?thesis using run by auto
qed

lemma rwb_cache_ok:
  assumes "rwb_inv h" "0 < n" "nat n \<le> length buf"
  shows "\<exists>h'. rwb_cache h buf n = Some h' \<and> rwb_inv h' \<and>
    rwb_bytes h' = rwb_bytes h @ take (nat n) buf \<and> rwb_count h' = rwb_count h + 1"
proof -
  from rwb_cache_rep [OF assms(1) [unfolded rwb_inv_def] assms(2,3)] obtain h' where
    h': "rwb_cache h buf n = Some h'" "rwb_rep h' (rwb_addrs h @ [rh_brk h])"
    "blocks_bytes (rh_mem h') (rwb_addrs h @ [rh_brk h]) = rwb_bytes h @ take (nat n) buf"
    by (auto simp: rwb_bytes_def)
  moreover have "rwb_count h' = rwb_count h + 1"
    using h'(2) assms(1) by (simp add: rwb_rep_def rwb_inv_def rwb_count_def)
  ultimately show ?thesis by (auto simp: rwb_rep_inv rwb_rep_bytes)
qed

subsection \<open>Draining\<close>

lemma rwb_rep_hd:
  assumes "rwb_rep h (a # as)"
  obtains b where "rh_head h = Some a" "rh_mem h a = Some b" "block_ok b"
    "rwb_path (rh_mem h) (rb_next b) as" "0 < rh_count h"
  using assms by (auto simp: rwb_rep_def)

lemma rwb_destroy_head_keep:
  assumes "rh_head h = Some a" "rh_mem h a = Some b" "rb_ptr b < rb_len b"
  shows "rwb_destroy_head h = Some h"
  using assms by (simp add: rwb_destroy_head_def rwb_buffered_def)

lemma rwb_destroy_head_free:
  assumes rep: "rwb_rep h (a # as)" and b: "rh_mem h a = Some b"
  shows "\<exists>h'. rwb_destroy_head (h\<lparr>rh_mem := (rh_mem h)(a \<mapsto> b\<lparr>rb_ptr := rb_len b\<rparr>)\<rparr>) = Some h' \<and>
    rwb_rep h' as \<and> blocks_bytes (rh_mem h') as = blocks_bytes (rh_mem h) as"
proof -
  from rep b have "rh_head h = Some a" by (auto simp: rwb_rep_def)
  with rep b show ?thesis
    by (cases "as = []")
      (auto simp: rwb_destroy_head_def rwb_buffered_def rwb_rep_def)
qed

lemma rwb_rep_advance:
  assumes "rwb_rep h (a # as)" "rh_mem h a = Some b" "0 < d" "rb_ptr b + d < rb_len b"
  shows "rwb_rep (h\<lparr>rh_mem := (rh_mem h)(a \<mapsto> b\<lparr>rb_ptr := rb_ptr b + d\<rparr>)\<rparr>) (a # as)"
  using assms by (auto simp: rwb_rep_def block_ok_def)

lemma block_ok_nonempty [simp]: "block_ok b \<Longrightarrow> block_bytes b \<noteq> []"
  by (auto simp: block_ok_def block_bytes_def)

lemma rwb_drain_stop [simp]: "d \<le> 0 \<or> rh_count h \<le> 0 \<Longrightarrow> rwb_drain h d = Some h"
  by (subst rwb_drain.simps) auto

lemma rwb_drain_rep:
  "rwb_rep h as \<Longrightarrow> \<exists>h' as'. rwb_drain h d = Some h' \<and> rwb_rep h' as' \<and>
     blocks_bytes (rh_mem h') as' = drop (nat d) (blocks_bytes (rh_mem h) as)"
proof (induction as arbitrary: h d)
  case Nil
  then have "rwb_drain h d = Some h" by (simp add: rwb_rep_def)
  with Nil show ?case by force
next
  case (Cons a as)
  from Cons.prems obtain b where b: "rh_head h = Some a" "rh_mem h a = Some b" "block_ok b" "0 < rh_count h"
    by (rule rwb_rep_hd)
  define n where "n = rb_len b - rb_ptr b"
  have n: "0 < n" "length (block_bytes b) = nat n"
    using b(3) by (auto simp: n_def block_ok_def block_bytes_def nat_diff_distrib)
  have bytes: "blocks_bytes (rh_mem h) (a # as) = block_bytes b @ blocks_bytes (rh_mem h) as"
    using b by simp
  consider "d \<le> 0" | "0 < d" "d < n" | "n \<le> d" by linarith
  then show ?case
  proof cases
    case 1
    with Cons.prems show ?thesis by auto
  next
    case 2
    let ?h = "h\<lparr>rh_mem := (rh_mem h)(a \<mapsto> b\<lparr>rb_ptr := rb_ptr b + d\<rparr>)\<rparr>"
    have rep: "rwb_rep ?h (a # as)"
      using 2 b Cons.prems by (intro rwb_rep_advance) (auto simp: n_def)
    have "rwb_destroy_head ?h = Some ?h"
      using 2 b by (intro rwb_destroy_head_keep) (auto simp: n_def)
    then have "rwb_drain h d = Some ?h"
      using 2 b by (subst rwb_drain.simps) (simp add: rwb_buffered_def min_of_def n_def)
    moreover have "blocks_bytes (rh_mem ?h) (a # as) = drop (nat d) (blocks_bytes (rh_mem h) (a # as))"
      using 2 b Cons.prems n(2)
      by (auto simp: bytes rwb_rep_def block_bytes_def block_ok_def nat_add_distrib add.commute)
    ultimately show ?thesis using rep by blast
  next
    case 3
    from rwb_destroy_head_free [OF Cons.prems b(2)] obtain h1 where h1:
      "rwb_destroy_head (h\<lparr>rh_mem := (rh_mem h)(a \<mapsto> b\<lparr>rb_ptr := rb_len b\<rparr>)\<rparr>) = Some h1"
      "rwb_rep h1 as" "blocks_bytes (rh_mem h1) as = blocks_bytes (rh_mem h) as" by blast
    have "rwb_drain h d = rwb_drain h1 (d - n)"
      using 3 n b h1(1) by (subst rwb_drain.simps) (simp add: rwb_buffered_def min_of_def n_def)
    with Cons.IH [OF h1(2), of "d - n"] h1(3) n 3 b(2) show ?thesis
      by (auto simp: nat_diff_distrib)
  qed
qed

lemma rwb_inv_empty_iff: "rwb_inv h \<Longrightarrow> rwb_bytes h = [] \<longleftrightarrow> rwb_count h = 0"
proof -
  assume inv: "rwb_inv h"
  show ?thesis
  proof (cases "rwb_addrs h")
    case (Cons a as)
    with inv obtain b where "rh_mem h a = Some b" "block_ok b"
      by (auto simp: rwb_inv_def rwb_rep_def)
    with Cons inv show ?thesis
      by (auto simp: rwb_bytes_def rwb_inv_def rwb_rep_def rwb_count_def)
  qed (use inv in \<open>auto simp: rwb_bytes_def rwb_inv_def rwb_rep_def rwb_count_def\<close>)
qed

lemma rwb_inv_count_nonneg: "rwb_inv h \<Longrightarrow> 0 \<le> rwb_count h"
  by (simp add: rwb_inv_def rwb_rep_def rwb_count_def)

lemma rwb_drain_ok:
  assumes "rwb_inv h"
  shows "\<exists>h'. rwb_drain h d = Some h' \<and> rwb_inv h' \<and> rwb_bytes h' = drop (nat d) (rwb_bytes h)"
  using rwb_drain_rep [OF assms [unfolded rwb_inv_def], of d]
  by (auto simp: rwb_bytes_def rwb_rep_inv rwb_rep_addrs)

lemma rwb_drain_param_ok:
  assumes "rwb_inv h" "0 < rwb_count h"
  shows "\<exists>bs rest. rwb_drain_param h = Some (bs, int (length bs)) \<and> bs \<noteq> [] \<and>
    rwb_bytes h = bs @ rest"
proof -
  from assms obtain a as where as: "rwb_addrs h = a # as"
    by (cases "rwb_addrs h") (auto simp: rwb_inv_def rwb_rep_def rwb_count_def)
  from assms(1) obtain b where b: "rh_head h = Some a" "rh_mem h a = Some b" "block_ok b"
    unfolding rwb_inv_def as by (rule rwb_rep_hd)
  then have "rwb_drain_param h = Some (block_bytes b, int (length (block_bytes b)))"
    by (auto simp: rwb_drain_param_def rwb_buffered_def block_bytes_def block_ok_def)
  with b show ?thesis
    by (auto simp: rwb_bytes_def as block_bytes_def block_ok_def)
qed

subsection \<open>Destroying\<close>

lemma rwb_destroy_empty: "rh_count h \<le> 0 \<Longrightarrow> rwb_destroy h = Some h"
  by (subst rwb_destroy.simps) simp

text \<open>A queue whose first block still has unsent bytes is a fixpoint of the loop body.\<close>

lemma rwb_destroy_stuck:
  assumes "0 < rh_count h" "rwb_destroy_head h = Some h"
  shows "rwb_destroy h = None"
proof (rule ccontr)
  assume "rwb_destroy h \<noteq> None"
  then obtain r where "rwb_destroy h = Some r" by blast
  then have "\<not> (0 < rh_count h \<and> rwb_destroy_head h = Some h)"
  proof (rule rwb_destroy.raw_induct [rotated])
    fix f h r
    assume IH: "\<And>h r. f h = Some r \<Longrightarrow> \<not> (0 < rh_count h \<and> rwb_destroy_head h = Some h)"
      and eq: "(if 0 < rh_count h then rwb_destroy_head h \<bind> f else Some h) = Some r"
    show "\<not> (0 < rh_count h \<and> rwb_destroy_head h = Some h)"
      using IH eq by (auto split: if_splits)
  qed
  with assms show False by blast
qed

lemma rwb_destroy_inv:
  assumes "rwb_inv h"
  shows "rwb_destroy h = (if rwb_count h = 0 then Some h else None)"
proof (cases "rwb_addrs h")
  case Nil
  with assms have "rh_count h = 0" by (simp add: rwb_inv_def rwb_rep_def)
  then show ?thesis by (simp add: rwb_destroy_empty rwb_count_def)
next
  case (Cons a as)
  from assms obtain b where b: "rh_head h = Some a" "rh_mem h a = Some b" "block_ok b" "0 < rh_count h"
    unfolding rwb_inv_def Cons by (rule rwb_rep_hd)
  then have "rwb_destroy_head h = Some h"
    by (intro rwb_destroy_head_keep) (auto simp: block_ok_def)
  with b show ?thesis by (simp add: rwb_destroy_stuck rwb_count_def)
qed

subsection \<open>The interface the channel code relies on\<close>

text \<open>
  What the sending side of a channel needs of its queue: bytes go in at the back, come
  out at the front, and the first block can be sent in part.
\<close>

locale byte_fifo =
  fixes cache :: "'q \<Rightarrow> byte list \<Rightarrow> int \<Rightarrow> 'q option"
    and drain :: "'q \<Rightarrow> int \<Rightarrow> 'q option"
    and front :: "'q \<Rightarrow> (byte list \<times> int) option"
    and count :: "'q \<Rightarrow> int"
    and bytes :: "'q \<Rightarrow> byte list"
    and invar :: "'q \<Rightarrow> bool"
  assumes cache_law: "invar q \<Longrightarrow> 0 < n \<Longrightarrow> nat n \<le> length buf \<Longrightarrow>
      \<exists>q'. cache q buf n = Some q' \<and> invar q' \<and> bytes q' = bytes q @ take (nat n) buf \<and>
        count q' = count q + 1"
    and drain_law: "invar q \<Longrightarrow> \<exists>q'. drain q d = Some q' \<and> invar q' \<and> bytes q' = drop (nat d) (bytes q)"
    and front_law: "invar q \<Longrightarrow> 0 < count q \<Longrightarrow>
      \<exists>bs rest. front q = Some (bs, int (length bs)) \<and> bs \<noteq> [] \<and> bytes q = bs @ rest"
    and empty_law: "invar q \<Longrightarrow> bytes q = [] \<longleftrightarrow> count q = 0"
    and count_law: "invar q \<Longrightarrow> 0 \<le> count q"
begin

text \<open>Sending a prefix of the first block and draining as much keeps the byte sequence.\<close>

lemma send_front:
  assumes "invar q" "front q = Some (bs, len)" "0 < count q" "0 \<le> r" "r \<le> len"
  shows "\<exists>q'. drain q r = Some q' \<and> invar q' \<and> bytes q = take (nat r) bs @ bytes q' \<and>
    length (bytes q') + nat r = length (bytes q)"
proof -
  from front_law [OF assms(1,3)] assms(2) obtain rest where
    rest: "len = int (length bs)" "bytes q = bs @ rest" by auto
  from drain_law [OF assms(1), of r] obtain q' where
    q': "drain q r = Some q'" "invar q'" "bytes q' = drop (nat r) (bytes q)" by blast
  have "nat r \<le> length bs" using assms(4,5) rest by simp
  then show ?thesis using q' rest by (auto simp: append_assoc [symmetric] simp del: append_assoc)
qed

lemma drained_iff: "invar q \<Longrightarrow> (count q \<le> 0) = (bytes q = [])"
  using empty_law count_law by fastforce

end

interpretation rwb: byte_fifo rwb_cache rwb_drain rwb_drain_param rwb_count rwb_bytes rwb_inv
  by unfold_locales
    (erule (2) rwb_cache_ok | erule rwb_drain_ok | erule (1) rwb_drain_param_ok |
     erule rwb_inv_empty_iff | erule rwb_inv_count_nonneg)+

subsection \<open>Properties\<close>

text \<open>Sequences of the two operations, on the queue and on the list of bytes it stands for.\<close>

datatype rwb_op = Cache "byte list" | Drain nat

primrec rwb_step :: "rwb_op \<Rightarrow> rwb_head_t \<Rightarrow> rwb_head_t option" where
  "rwb_step (Cache bs) h = rwb_cache h bs (int (length bs))"
| "rwb_step (Drain k) h = rwb_drain h (int k)"

primrec rwb_run :: "rwb_op list \<Rightarrow> rwb_head_t \<Rightarrow> rwb_head_t option" where
  "rwb_run [] h = Some h"
| "rwb_run (x # xs) h = do { h \<leftarrow> rwb_step x h; rwb_run xs h }"

primrec fifo_step :: "rwb_op \<Rightarrow> byte list \<Rightarrow> byte list" where
  "fifo_step (Cache bs) q = q @ bs"
| "fifo_step (Drain k) q = drop k q"

lemma rwb_step_fifo:
  assumes "rwb_inv h" "x \<noteq> Cache []"
  shows "\<exists>h'. rwb_step x h = Some h' \<and> rwb_inv h' \<and> rwb_bytes h' = fifo_step x (rwb_bytes h)"
proof (cases x)
  case (Cache bs)
  then show ?thesis using rwb.cache_law [OF assms(1), of "int (length bs)" bs] assms(2) by auto
next
  case (Drain k)
  then show ?thesis using rwb.drain_law [OF assms(1), of "int k"] by auto
qed

lemma rwb_run_fifo:
  "rwb_inv h \<Longrightarrow> Cache [] \<notin> set ops \<Longrightarrow>
   \<exists>h'. rwb_run ops h = Some h' \<and> rwb_inv h' \<and> rwb_bytes h' = fold fifo_step ops (rwb_bytes h)"
proof (induction ops arbitrary: h)
  case (Cons x ops)
  from rwb_step_fifo [OF Cons.prems(1), of x] Cons.prems(2) obtain h1 where
    h1: "rwb_step x h = Some h1" "rwb_inv h1" "rwb_bytes h1 = fifo_step x (rwb_bytes h)" by auto
  with Cons.IH [OF h1(2)] Cons.prems(2) show ?case by auto
qed simp

text \<open>
  C3: the queue of unsent bytes refines a FIFO of bytes.  Any sequence of
  \<open>_rwb_cache\<close> calls (of at least one byte) and \<open>_rwb_drain\<close> calls on an empty queue runs
  without a memory fault, ends, keeps the block list well formed (linked from head to tail,
  counted, no freed block reachable), and leaves exactly the bytes a list would hold on which
  caching appends and draining drops from the front.
\<close>

theorem rwb_refines_fifo:
  assumes "Cache [] \<notin> set ops"
  shows "\<exists>h. rwb_run ops rwb_zero = Some h \<and> rwb_inv h \<and> rwb_bytes h = fold fifo_step ops []"
proof -
  have "rwb_bytes rwb_zero = []" by (simp add: rwb_bytes_def rwb_addrs_def rwb_zero_def)
  then show ?thesis using rwb_run_fifo [OF rwb_rep_inv [OF rwb_rep_zero] assms] by simp
qed

theorem rwb_refines_fifo_witness:
  "Cache [] \<notin> set [Cache [1, 2, 3], Cache [4], Drain 2, Cache [6]] \<and>
   (\<exists>h. rwb_run [Cache [1, 2, 3], Cache [4], Drain 2, Cache [6]] rwb_zero = Some h \<and> rwb_inv h \<and> rwb_bytes h = [3, 4, 6])"
  using rwb_refines_fifo [of "[Cache [1, 2, 3], Cache [4], Drain 2, Cache [6]]"] by simp

text \<open>
  C28: \<open>_rwb_destroy\<close> ends exactly on a queue without unsent bytes.
  Its loop only frees a head block that is fully sent, so on a queue with unsent bytes it
  makes no progress and runs forever.
\<close>

theorem rwb_destroy_terminates_iff:
  assumes "rwb_inv h"
  shows "rwb_destroy h = (if rwb_bytes h = [] then Some h else None)"
  using rwb_destroy_inv [OF assms] rwb.empty_law [OF assms] by simp

definition one_block :: rwb_head_t where
  "one_block = \<lparr>rh_head = Some 0, rh_tail = Some 0, rh_count = 1,
     rh_mem = [0 \<mapsto> \<lparr>rb_ptr = 1, rb_len = 2, rb_next = None, rb_buf = [7, 8]\<rparr>], rh_brk = 1\<rparr>"

theorem rwb_destroy_terminates_iff_witness:
  "rwb_inv one_block \<and> rwb_bytes one_block = [8] \<and> rwb_destroy one_block = None \<and> rwb_destroy rwb_zero = Some rwb_zero"
proof -
  have "rwb_inv one_block"
    by (rule rwb_rep_inv [of _ "[0]"]) (simp add: rwb_rep_def one_block_def block_ok_def)
  moreover have "rwb_bytes one_block = [8]"
    by (simp add: rwb_bytes_def rwb_addrs_def one_block_def block_bytes_def)
  moreover have "rwb_inv rwb_zero" "rwb_bytes rwb_zero = []"
    using rwb_rep_inv [OF rwb_rep_zero] by (simp_all add: rwb_bytes_def rwb_addrs_def rwb_zero_def)
  ultimately show ?thesis
    using rwb_destroy_terminates_iff [of one_block] rwb_destroy_terminates_iff [of rwb_zero] by simp
qed

end
