(* ===== verification/Chain.thy ===== *)
theory Chain
  imports Prelude
begin

text \<open>
  Doubly linked chains, shared by the skip list of the timers and the queues of the
  Windows event port: a chain from one link to another through a list of links, over the
  \<open>next\<close> and \<open>prev\<close> fields of a memory, and what inserting and deleting a link do to it.
\<close>

subsection \<open>Chains of links\<close>

primrec chain :: "('a \<Rightarrow> 'a option) \<Rightarrow> ('a \<Rightarrow> 'a option) \<Rightarrow> 'a \<Rightarrow> 'a list \<Rightarrow> 'a \<Rightarrow> bool" where
  "chain nx pv a [] b \<longleftrightarrow> nx a = Some b \<and> pv b = Some a"
| "chain nx pv a (x # xs) b \<longleftrightarrow> nx a = Some x \<and> pv x = Some a \<and> chain nx pv x xs b"

lemma chain_append: "chain nx pv a (xs @ y # ys) b \<longleftrightarrow> chain nx pv a xs y \<and> chain nx pv y ys b"
  by (induction xs arbitrary: a) auto

lemma chain_cong:
  "(\<And>x. x = a \<or> x \<in> set xs \<Longrightarrow> nx x = nx' x) \<Longrightarrow> (\<And>x. x = b \<or> x \<in> set xs \<Longrightarrow> pv x = pv' x) \<Longrightarrow>
   chain nx pv a xs b = chain nx' pv' a xs b"
  by (induction xs arbitrary: a) auto

lemma chain_first: "chain nx pv a xs b \<Longrightarrow> nx a = Some (hd (xs @ [b]))"
  by (cases xs) auto

lemma chain_last: "chain nx pv a xs b \<Longrightarrow> pv b = Some (last (a # xs))"
  by (induction xs arbitrary: a) auto

lemma chain_last_next: "chain nx pv a xs b \<Longrightarrow> nx (last (a # xs)) = Some b"
  by (induction xs arbitrary: a) auto

lemma chain_redirect_end:
  "chain nx pv a xs c \<Longrightarrow> distinct (a # xs) \<Longrightarrow> p \<notin> set xs \<Longrightarrow>
   chain (nx(last (a # xs) := Some p)) (pv(p := Some (last (a # xs)))) a xs p"
proof (induction xs arbitrary: a)
  case (Cons x xs)
  then have "a \<noteq> last (x # xs)" by (metis distinct.simps(2) last_in_set list.distinct(1))
  with Cons show ?case by auto
qed simp

lemma chain_redirect_start:
  assumes "chain nx pv c ys b" "distinct (ys @ [b])" "p \<notin> set ys"
  shows "chain (nx(p := Some (hd (ys @ [b])))) (pv(hd (ys @ [b]) := Some p)) p ys b"
proof (cases ys)
  case (Cons y zs)
  have "chain (nx(p := Some y)) (pv(y := Some p)) y zs b = chain nx pv y zs b"
    using assms Cons by (intro chain_cong) auto
  with assms Cons show ?thesis by simp
qed simp

lemma chain_insert:
  assumes ch: "chain nx pv a (xs @ ys) b" and d: "distinct (a # xs @ ys)" "b \<notin> set (xs @ ys)"
    and p: "p \<notin> set (xs @ ys)" "p \<noteq> a" "p \<noteq> b"
    and ends: "prv = last (a # xs)" "nxt = hd (ys @ [b])"
  shows "chain (nx(p := Some nxt, prv := Some p)) (pv(p := Some prv, nxt := Some p)) a (xs @ p # ys) b"
proof -
  have c: "chain nx pv a xs nxt" "chain nx pv (last (a # xs)) ys b"
  proof -
    show "chain nx pv a xs nxt"
      using ch ends by (cases ys) (auto simp: chain_append)
    then show "chain nx pv (last (a # xs)) ys b"
      using ch ends chain_last [of nx pv a xs nxt] chain_last_next [of nx pv a xs nxt]
      by (cases ys) (auto simp: chain_append)
  qed
  have nxt: "nxt \<notin> set xs" "nxt \<noteq> p" using d p ends by (cases ys; auto)+
  have prv: "prv \<noteq> p" "prv \<notin> set ys" using d p ends by (cases xs rule: rev_cases; auto)+
  have "chain (nx(prv := Some p)) (pv(p := Some prv)) a xs p"
    using chain_redirect_end [OF c(1), of p] d p ends by simp
  then have 1: "chain (nx(p := Some nxt, prv := Some p)) (pv(p := Some prv, nxt := Some p)) a xs p"
    using nxt p by (subst chain_cong [where nx' = "nx(prv := Some p)" and pv' = "pv(p := Some prv)"]) auto
  have "chain (nx(p := Some nxt)) (pv(nxt := Some p)) p ys b"
    using chain_redirect_start [OF c(2), of p] d p ends by simp
  then have 2: "chain (nx(p := Some nxt, prv := Some p)) (pv(p := Some prv, nxt := Some p)) p ys b"
    using prv p by (subst chain_cong [where nx' = "nx(p := Some nxt)" and pv' = "pv(nxt := Some p)"]) auto
  from 1 2 show ?thesis by (simp add: chain_append)
qed

lemma chain_delete:
  assumes ch: "chain nx pv a (xs @ p # ys) b" and d: "distinct (a # xs @ p # ys)" "b \<notin> set (xs @ p # ys)"
    and ends: "prv = last (a # xs)" "nxt = hd (ys @ [b])"
  shows "chain (nx(prv := Some nxt)) (pv(nxt := Some prv)) a (xs @ ys) b"
proof -
  from ch have c: "chain nx pv a xs p" "chain nx pv p ys b" by (auto simp: chain_append)
  have "nxt \<notin> set xs" using d ends by (cases ys) auto
  then have 1: "chain (nx(prv := Some nxt)) (pv(nxt := Some prv)) a xs nxt"
    using chain_redirect_end [OF c(1), of nxt] d ends by simp
  show ?thesis
  proof (cases ys)
    case (Cons y zs)
    have "prv \<noteq> y" "prv \<notin> set zs" using d ends Cons by (cases xs rule: rev_cases; auto)+
    then have "chain (nx(prv := Some nxt)) (pv(nxt := Some prv)) y zs b = chain nx pv y zs b"
      using d ends Cons by (intro chain_cong) auto
    with c(2) 1 Cons ends show ?thesis by (simp add: chain_append)
  qed (use 1 ends in simp)
qed

end
