(* ===== verification/Skiplist.thy ===== *)
theory Skiplist
  imports Chain
begin

unbundle bit_operations_syntax

text \<open>
  The skip list that orders the timers, src/src/mnet_core.c lines 105--120 and 346--485.

  A \<open>struct sk_link\<close> is a pair of pointers inside a larger object: the element \<open>head[i]\<close> of
  the list, or the element \<open>link[i]\<close> of a node.  Its address is therefore a value of
  \<open>link\<close>, and \<open>list_entry\<close> and the pointer decrements of \<open>skiplist_insert\<close> are functions
  on such addresses.  The two pointer fields are kept as maps from addresses, NULL being
  None; the nodes are reachable from their list only and live in a memory of the list.
  A node keeps its value inside, since the value is reachable from its node only.
  Reading or writing a link of a freed node has no result.
\<close>

definition SKIPLIST_MAX_LEVEL :: nat where
  "SKIPLIST_MAX_LEVEL = 32"

datatype link = Head nat | Link addr nat

record 'v skipnode_t =
  sn_key :: int
  sn_value :: 'v
  sn_level :: nat

record 'v skiplist_t =
  sl_level :: int
  sl_count :: int
  sl_prev :: "link \<Rightarrow> link option"
  sl_next :: "link \<Rightarrow> link option"
  sl_nodes :: "addr \<rightharpoonup> 'v skipnode_t"
  sl_brk :: addr

text \<open>Memory access: a link can be read and written while the object that holds it is allocated.\<close>

fun link_ok :: "'v skiplist_t \<Rightarrow> link \<Rightarrow> bool" where
  "link_ok l (Head i) = (i < SKIPLIST_MAX_LEVEL)"
| "link_ok l (Link a i) = (case sl_nodes l a of None \<Rightarrow> False | Some nd \<Rightarrow> i < sn_level nd)"

definition get_next :: "'v skiplist_t \<Rightarrow> link \<Rightarrow> link option" where
  "get_next l p = (if link_ok l p then sl_next l p else None)"

definition get_prev :: "'v skiplist_t \<Rightarrow> link \<Rightarrow> link option" where
  "get_prev l p = (if link_ok l p then sl_prev l p else None)"

definition set_next :: "'v skiplist_t \<Rightarrow> link \<Rightarrow> link \<Rightarrow> 'v skiplist_t option" where
  "set_next l p q = (if link_ok l p then Some (l\<lparr>sl_next := (sl_next l)(p := Some q)\<rparr>) else None)"

definition set_prev :: "'v skiplist_t \<Rightarrow> link \<Rightarrow> link \<Rightarrow> 'v skiplist_t option" where
  "set_prev l p q = (if link_ok l p then Some (l\<lparr>sl_prev := (sl_prev l)(p := Some q)\<rparr>) else None)"

definition list_init :: "'v skiplist_t \<Rightarrow> link \<Rightarrow> 'v skiplist_t option" where
  "list_init l p = do { l \<leftarrow> set_next l p p; set_prev l p p }"

text \<open>\<open>__list_add\<close> and \<open>__list_del\<close>, the four and the two stores in the code's order.\<close>

definition list_add :: "'v skiplist_t \<Rightarrow> link \<Rightarrow> link \<Rightarrow> link \<Rightarrow> 'v skiplist_t option" where
  "list_add l p prv nxt = do {
     l \<leftarrow> set_next l p nxt;
     l \<leftarrow> set_prev l p prv;
     l \<leftarrow> set_prev l nxt p;
     set_next l prv p
   }"

definition list_del2 :: "'v skiplist_t \<Rightarrow> link \<Rightarrow> link \<Rightarrow> 'v skiplist_t option" where
  "list_del2 l prv nxt = do {
     l \<leftarrow> set_next l prv nxt;
     set_prev l nxt prv
   }"

definition list_del :: "'v skiplist_t \<Rightarrow> link \<Rightarrow> 'v skiplist_t option" where
  "list_del l p = do {
     prv \<leftarrow> get_prev l p;
     nxt \<leftarrow> get_next l p;
     l \<leftarrow> list_del2 l prv nxt;
     list_init l p
   }"

definition list_empty :: "'v skiplist_t \<Rightarrow> link \<Rightarrow> bool option" where
  "list_empty l p = do { q \<leftarrow> get_next l p; Some (q = p) }"

text \<open>\<open>list_entry(pos, skipnode_t, link[i])\<close>: the node around a link of that index.\<close>

fun list_entry :: "nat \<Rightarrow> link \<Rightarrow> addr option" where
  "list_entry i (Link a j) = (if i = j then Some a else None)"
| "list_entry i (Head j) = None"

text \<open>\<open>pos--\<close>: the link of the same object one level down.\<close>

fun link_dec :: "link \<Rightarrow> link" where
  "link_dec (Head i) = Head (i - 1)"
| "link_dec (Link a i) = Link a (i - 1)"

definition skipnode_create :: "'v skiplist_t \<Rightarrow> nat \<Rightarrow> int \<Rightarrow> 'v \<Rightarrow> addr \<times> 'v skiplist_t" where
  "skipnode_create l level key value =
     (sl_brk l,
      l\<lparr>sl_nodes := (sl_nodes l)(sl_brk l \<mapsto> \<lparr>sn_key = key, sn_value = value, sn_level = level\<rparr>),
        sl_brk := Suc (sl_brk l)\<rparr>)"

definition skipnode_destroy :: "'v skiplist_t \<Rightarrow> addr \<Rightarrow> 'v skiplist_t" where
  "skipnode_destroy l a = l\<lparr>sl_nodes := (sl_nodes l)(a := None)\<rparr>"

primrec skiplist_init_heads :: "'v skiplist_t \<Rightarrow> nat \<Rightarrow> 'v skiplist_t option" where
  "skiplist_init_heads l 0 = Some l"
| "skiplist_init_heads l (Suc n) = do { l \<leftarrow> skiplist_init_heads l n; list_init l (Head n) }"

definition skiplist_create :: "'v skiplist_t option" where
  "skiplist_create =
     skiplist_init_heads
       \<lparr>sl_level = 1, sl_count = 0, sl_prev = (\<lambda>_. None), sl_next = (\<lambda>_. None),
        sl_nodes = Map.empty, sl_brk = 0\<rparr> SKIPLIST_MAX_LEVEL"

text \<open>
  \<open>skiplist_foreach_safe\<close> over level 0: the successor is read before the node is freed.
\<close>

partial_function (option) skiplist_destroy_loop ::
    "'v skiplist_t \<Rightarrow> link \<Rightarrow> link \<Rightarrow> 'v skiplist_t option" where
  "skiplist_destroy_loop l pos n =
     (if pos \<noteq> Head 0 then do {
        a \<leftarrow> list_entry 0 pos;
        _ \<leftarrow> sl_nodes l a;
        let l = skipnode_destroy l a;
        n' \<leftarrow> get_next l n;
        skiplist_destroy_loop l n n'
      } else Some l)"

definition skiplist_destroy :: "'v skiplist_t \<Rightarrow> 'v skiplist_t option" where
  "skiplist_destroy l = do {
     pos \<leftarrow> get_next l (Head 0);
     n \<leftarrow> get_next l pos;
     skiplist_destroy_loop l pos n
   }"

text \<open>
  The random source is a parameter: a draw from a world.  The comparison with
  \<open>0xffff * 0.25\<close> = 16383.75 is a comparison with 16383 for integers.
\<close>

definition rand_low :: "32 word \<Rightarrow> bool" where
  "rand_low r \<longleftrightarrow> unat (r AND 0xffff) \<le> 16383"

partial_function (option) skiplist_random_loop ::
    "('w \<Rightarrow> 32 word \<times> 'w) \<Rightarrow> 'w \<Rightarrow> int \<Rightarrow> (int \<times> 'w) option" where
  "skiplist_random_loop rnd w level =
     (let (r, w) = rnd w
      in if rand_low r then skiplist_random_loop rnd w (level + 1) else Some (level, w))"

definition skiplist_random_level :: "('w \<Rightarrow> 32 word \<times> 'w) \<Rightarrow> 'w \<Rightarrow> (nat \<times> 'w) option" where
  "skiplist_random_level rnd w = do {
     (level, w) \<leftarrow> skiplist_random_loop rnd w 1;
     Some (if level > int SKIPLIST_MAX_LEVEL then SKIPLIST_MAX_LEVEL else nat level, w)
   }"

text \<open>The inner loop of \<open>skiplist_insert\<close>: walk from \<open>pos\<close> to the first key not below \<open>key\<close>.\<close>

partial_function (option) insert_scan ::
    "'v skiplist_t \<Rightarrow> nat \<Rightarrow> int \<Rightarrow> link \<Rightarrow> link \<Rightarrow> link option" where
  "insert_scan l i key pos endp =
     (if pos \<noteq> endp then do {
        a \<leftarrow> list_entry i pos;
        nd \<leftarrow> sl_nodes l a;
        if sn_key nd \<ge> key then Some (Link a i)
        else do { pos \<leftarrow> get_next l pos; insert_scan l i key pos endp }
      } else Some endp)"

text \<open>The outer loop, \<open>for (; i >= 0; i--)\<close>, with \<open>i = n - 1\<close>.\<close>

primrec insert_levels ::
    "'v skiplist_t \<Rightarrow> int \<Rightarrow> nat \<Rightarrow> addr \<Rightarrow> nat \<Rightarrow> link \<Rightarrow> link \<Rightarrow> 'v skiplist_t option" where
  "insert_levels l key level node 0 pos endp = Some l"
| "insert_levels l key level node (Suc i) pos endp = do {
     pos \<leftarrow> get_next l pos;
     endp \<leftarrow> insert_scan l i key pos endp;
     pos \<leftarrow> get_prev l endp;
     l \<leftarrow> (if i < level then list_add l (Link node i) pos endp else Some l);
     insert_levels l key level node i (link_dec pos) (link_dec endp)
   }"

definition skiplist_insert ::
    "('w \<Rightarrow> 32 word \<times> 'w) \<Rightarrow> 'w \<Rightarrow> 'v skiplist_t \<Rightarrow> int \<Rightarrow> 'v \<Rightarrow>
     (addr \<times> 'w \<times> 'v skiplist_t) option" where
  "skiplist_insert rnd w l key value = do {
     (level, w) \<leftarrow> skiplist_random_level rnd w;
     let l = (if int level > sl_level l then l\<lparr>sl_level := int level\<rparr> else l);
     let (node, l) = skipnode_create l level key value;
     let i = sl_level l - 1;
     l \<leftarrow> insert_levels l key level node (nat (i + 1)) (Head (nat i)) (Head (nat i));
     Some (node, w, l\<lparr>sl_count := sl_count l + 1\<rparr>)
   }"

primrec remove_levels :: "'v skiplist_t \<Rightarrow> addr \<Rightarrow> nat \<Rightarrow> 'v skiplist_t option" where
  "remove_levels l node 0 = Some l"
| "remove_levels l node (Suc i) = do {
     l \<leftarrow> remove_levels l node i;
     l \<leftarrow> list_del l (Link node i);
     e \<leftarrow> list_empty l (Head i);
     Some (if e then l\<lparr>sl_level := sl_level l - 1\<rparr> else l)
   }"

definition skiplist_remove_skipnode :: "'v skiplist_t \<Rightarrow> addr \<Rightarrow> 'v skiplist_t option" where
  "skiplist_remove_skipnode l node = do {
     nd \<leftarrow> sl_nodes l node;
     l \<leftarrow> remove_levels l node (sn_level nd);
     let l = skipnode_destroy l node;
     Some (l\<lparr>sl_count := sl_count l - 1\<rparr>)
   }"

subsection \<open>Representation of a sorted sequence of nodes\<close>

definition node_lev :: "(addr \<rightharpoonup> 'v skipnode_t) \<Rightarrow> addr \<Rightarrow> nat" where
  "node_lev m a = (case m a of None \<Rightarrow> 0 | Some nd \<Rightarrow> sn_level nd)"

definition node_key :: "(addr \<rightharpoonup> 'v skipnode_t) \<Rightarrow> addr \<Rightarrow> int" where
  "node_key m a = (case m a of None \<Rightarrow> 0 | Some nd \<Rightarrow> sn_key nd)"

text \<open>The links of level \<open>i\<close>, in the order of the nodes.\<close>

definition lane :: "(addr \<rightharpoonup> 'v skipnode_t) \<Rightarrow> nat \<Rightarrow> addr list \<Rightarrow> link list" where
  "lane m i L = map (\<lambda>a. Link a i) (filter (\<lambda>a. i < node_lev m a) L)"

definition ring :: "'v skiplist_t \<Rightarrow> nat \<Rightarrow> addr list \<Rightarrow> bool" where
  "ring l i L \<longleftrightarrow> chain (sl_next l) (sl_prev l) (Head i) (lane (sl_nodes l) i L) (Head i)"

text \<open>
  \<open>level\<close> is the height of the tallest node; an empty list has 1 before the first
  insertion and 0 after its last node is removed.
\<close>

definition level_ok :: "'v skiplist_t \<Rightarrow> addr list \<Rightarrow> bool" where
  "level_ok l L \<longleftrightarrow>
     (if L = [] then sl_level l = 0 \<or> sl_level l = 1
      else sl_level l = int (Max (node_lev (sl_nodes l) ` set L)))"

definition nodes_ok :: "'v skiplist_t \<Rightarrow> addr list \<Rightarrow> bool" where
  "nodes_ok l L \<longleftrightarrow>
     distinct L \<and> dom (sl_nodes l) = set L \<and>
     (\<forall>a\<in>set L. 1 \<le> node_lev (sl_nodes l) a \<and> node_lev (sl_nodes l) a \<le> SKIPLIST_MAX_LEVEL \<and> a < sl_brk l)"

definition sk_rep :: "'v skiplist_t \<Rightarrow> addr list \<Rightarrow> bool" where
  "sk_rep l L \<longleftrightarrow>
     nodes_ok l L \<and> sorted (map (node_key (sl_nodes l)) L) \<and> (\<forall>i<SKIPLIST_MAX_LEVEL. ring l i L) \<and>
     sl_count l = int (length L) \<and> level_ok l L"

lemma link_ok_Link [simp]: "link_ok l (Link a i) \<longleftrightarrow> i < node_lev (sl_nodes l) a"
  by (simp add: node_lev_def split: option.splits)

declare link_ok.simps(2) [simp del]

lemma link_ok_cong: "sl_nodes l = sl_nodes l' \<Longrightarrow> link_ok l p = link_ok l' p"
  by (cases p) auto

lemma link_ok_upd [simp]:
  "link_ok (l\<lparr>sl_next := f\<rparr>) p = link_ok l p"
  "link_ok (l\<lparr>sl_prev := f\<rparr>) p = link_ok l p"
  "link_ok (l\<lparr>sl_level := n\<rparr>) p = link_ok l p"
  "link_ok (l\<lparr>sl_count := n\<rparr>) p = link_ok l p"
  by (rule link_ok_cong, simp)+

lemma lane_simps [simp]:
  "lane m i [] = []"
  "lane m i (a # L) = (if i < node_lev m a then Link a i # lane m i L else lane m i L)"
  "lane m i (L @ M) = lane m i L @ lane m i M"
  by (auto simp: lane_def)

lemma set_lane: "set (lane m i L) = {Link a i | a. a \<in> set L \<and> i < node_lev m a}"
  by (auto simp: lane_def)

lemma Head_notin_lane [simp]: "Head j \<notin> set (lane m i L)"
  by (auto simp: set_lane)

lemma distinct_lane: "distinct L \<Longrightarrow> distinct (lane m i L)"
  by (induction L) (auto simp: set_lane)

lemma lane_cong: "(\<And>a. a \<in> set L \<Longrightarrow> node_lev m a = node_lev m' a) \<Longrightarrow> lane m i L = lane m' i L"
  by (induction L) auto

lemma node_lev_upd [simp]: "node_lev (m(a \<mapsto> nd)) b = (if b = a then sn_level nd else node_lev m b)"
  by (simp add: node_lev_def)

lemma node_key_upd [simp]: "node_key (m(a \<mapsto> nd)) b = (if b = a then sn_key nd else node_key m b)"
  by (simp add: node_key_def)

lemma node_lev_None [simp]: "node_lev (m(a := None)) b = (if b = a then 0 else node_lev m b)"
  by (simp add: node_lev_def)

lemma node_key_None [simp]: "node_key (m(a := None)) b = (if b = a then 0 else node_key m b)"
  by (simp add: node_key_def)

lemma list_add_eq [mem_simps]:
  assumes "link_ok l p" "link_ok l prv" "link_ok l nxt"
  shows "list_add l p prv nxt = Some
    (l\<lparr>sl_next := (sl_next l)(p := Some nxt, prv := Some p),
       sl_prev := (sl_prev l)(p := Some prv, nxt := Some p)\<rparr>)"
  using assms by (simp add: list_add_def set_next_def set_prev_def)

lemma list_del_eq [mem_simps]:
  assumes "link_ok l p" "sl_prev l p = Some prv" "sl_next l p = Some nxt" "link_ok l prv" "link_ok l nxt"
  shows "list_del l p = Some
    (l\<lparr>sl_next := (sl_next l)(prv := Some nxt, p := Some p),
       sl_prev := (sl_prev l)(nxt := Some prv, p := Some p)\<rparr>)"
  using assms
  by (simp add: list_del_def list_del2_def list_init_def get_prev_def get_next_def set_next_def set_prev_def)

lemma list_init_eq [mem_simps]:
  "link_ok l p \<Longrightarrow> list_init l p = Some (l\<lparr>sl_next := (sl_next l)(p := Some p), sl_prev := (sl_prev l)(p := Some p)\<rparr>)"
  by (simp add: list_init_def set_next_def set_prev_def)

subsection \<open>Creation\<close>

lemma skiplist_init_heads_ok:
  "n \<le> SKIPLIST_MAX_LEVEL \<Longrightarrow> \<exists>l'. skiplist_init_heads l n = Some l' \<and>
     (\<forall>i<n. sl_next l' (Head i) = Some (Head i) \<and> sl_prev l' (Head i) = Some (Head i)) \<and>
     sl_nodes l' = sl_nodes l \<and> sl_level l' = sl_level l \<and> sl_count l' = sl_count l \<and> sl_brk l' = sl_brk l"
proof (induction n)
  case (Suc n)
  then obtain l' where "skiplist_init_heads l n = Some l'"
    "\<forall>i<n. sl_next l' (Head i) = Some (Head i) \<and> sl_prev l' (Head i) = Some (Head i)"
    "sl_nodes l' = sl_nodes l \<and> sl_level l' = sl_level l \<and> sl_count l' = sl_count l \<and> sl_brk l' = sl_brk l"
    by auto
  with Suc.prems show ?case by (simp add: list_init_eq less_Suc_eq)
qed simp

lemma skiplist_create_rep: "\<exists>l. skiplist_create = Some l \<and> sk_rep l []"
  using skiplist_init_heads_ok [of SKIPLIST_MAX_LEVEL
      "\<lparr>sl_level = 1, sl_count = 0, sl_prev = (\<lambda>_. None), sl_next = (\<lambda>_. None),
        sl_nodes = Map.empty, sl_brk = 0\<rparr>"]
  by (auto simp: skiplist_create_def sk_rep_def nodes_ok_def ring_def level_ok_def)

subsection \<open>Random levels\<close>

primrec draws :: "('w \<Rightarrow> 32 word \<times> 'w) \<Rightarrow> 'w \<Rightarrow> nat \<Rightarrow> 32 word" where
  "draws rnd w 0 = fst (rnd w)"
| "draws rnd w (Suc k) = draws rnd (snd (rnd w)) k"

text \<open>The random source gives, from every world, some draw that ends the loop.\<close>

definition rand_ends :: "('w \<Rightarrow> 32 word \<times> 'w) \<Rightarrow> bool" where
  "rand_ends rnd \<longleftrightarrow> (\<forall>w. \<exists>k. \<not> rand_low (draws rnd w k))"

lemma skiplist_random_loop_ok:
  "\<not> rand_low (draws rnd w k) \<Longrightarrow> \<exists>lev w'. skiplist_random_loop rnd w n = Some (lev, w') \<and> n \<le> lev"
proof (induction k arbitrary: w n)
  case 0
  then show ?case by (subst skiplist_random_loop.simps) (auto simp: case_prod_beta)
next
  case (Suc k)
  show ?case
  proof (cases "rand_low (fst (rnd w))")
    case True
    from Suc.IH [of "snd (rnd w)" "n + 1"] Suc.prems obtain lev w' where
      "skiplist_random_loop rnd (snd (rnd w)) (n + 1) = Some (lev, w')" "n + 1 \<le> lev" by auto
    with True show ?thesis by (subst skiplist_random_loop.simps) (auto simp: case_prod_beta)
  next
    case False
    then show ?thesis by (subst skiplist_random_loop.simps) (auto simp: case_prod_beta)
  qed
qed

lemma skiplist_random_level_ok:
  assumes "rand_ends rnd"
  shows "\<exists>level w'. skiplist_random_level rnd w = Some (level, w') \<and> 1 \<le> level \<and> level \<le> SKIPLIST_MAX_LEVEL"
proof -
  from assms obtain k where "\<not> rand_low (draws rnd w k)" by (auto simp: rand_ends_def)
  from skiplist_random_loop_ok [OF this, of 1] show ?thesis
    by (auto simp: skiplist_random_level_def SKIPLIST_MAX_LEVEL_def)
qed

subsection \<open>Insertion\<close>

fun link_lvl :: "link \<Rightarrow> nat" where
  "link_lvl (Head i) = i"
| "link_lvl (Link a i) = i"

lemma link_lvl_lane: "q \<in> set (lane m i L) \<Longrightarrow> link_lvl q = i"
  by (auto simp: set_lane)

lemma ring_cong:
  assumes "sl_nodes l' = sl_nodes l"
    and "\<And>p. link_lvl p = i \<Longrightarrow> sl_next l' p = sl_next l p \<and> sl_prev l' p = sl_prev l p"
  shows "ring l' i L = ring l i L"
  unfolding ring_def assms(1) using assms(2) by (intro chain_cong) (auto dest: link_lvl_lane)

lemma insert_scan_ok:
  assumes "chain (sl_next l) (sl_prev l) p vs t" "sl_next l p = Some q"
    and "\<And>x. x \<in> set vs \<Longrightarrow> \<exists>a nd. x = Link a i \<and> sl_nodes l a = Some nd \<and> i < sn_level nd \<and> sn_key nd < k"
    and "endp \<notin> set vs"
    and "t = endp \<or> (\<exists>a nd. t = Link a i \<and> sl_nodes l a = Some nd \<and> k \<le> sn_key nd)"
  shows "insert_scan l i k q endp = Some t"
  using assms
proof (induction vs arbitrary: p q)
  case Nil
  then show ?case by (subst insert_scan.simps) auto
next
  case (Cons v vs)
  from Cons.prems(3) [of v] obtain a nd where
    v: "v = Link a i" "sl_nodes l a = Some nd" "i < sn_level nd" "sn_key nd < k" by auto
  obtain q' where q': "sl_next l v = Some q'" using Cons.prems(1) by (auto dest: chain_first)
  from Cons.IH [OF _ q'] Cons.prems have "insert_scan l i k q' endp = Some t" by auto
  with v q' Cons.prems(1,2,4) show ?case
    by (subst insert_scan.simps) (auto simp: get_next_def node_lev_def)
qed

lemma chain_from:
  assumes "chain nx pv a (xs @ ys) b" "p = a \<or> p \<in> set xs"
  obtains vs where "chain nx pv p (vs @ ys) b" "set vs \<subseteq> set xs"
proof (cases "p = a")
  case True
  with assms that [of xs] show ?thesis by simp
next
  case False
  with assms(2) obtain us vs where "xs = us @ p # vs" by (meson split_list)
  with assms(1) that [of vs] show ?thesis by (auto simp: chain_append)
qed

lemma chain_upto_hd: "chain nx pv p (vs @ ys) b \<Longrightarrow> chain nx pv p vs (hd (ys @ [b]))"
  by (cases ys) (auto simp: chain_append)

text \<open>One level of the insertion: the scan stops at the first node of \<open>B\<close> on this level.\<close>

lemma insert_level_target:
  assumes ring: "ring l i (A @ B)" and i: "i < SKIPLIST_MAX_LEVEL"
    and dom: "set A \<union> set B \<subseteq> dom (sl_nodes l)" "set A \<inter> set B = {}"
    and keys: "\<And>a. a \<in> set A \<Longrightarrow> node_key (sl_nodes l) a < k" "\<And>b. b \<in> set B \<Longrightarrow> k \<le> node_key (sl_nodes l) b"
    and pos: "pos = Head i \<or> pos \<in> set (lane (sl_nodes l) i A)"
    and endp: "endp = Head i \<or> endp \<in> set (lane (sl_nodes l) i B)"
  defines "t \<equiv> hd (lane (sl_nodes l) i B @ [Head i])"
  shows "\<exists>q. get_next l pos = Some q \<and> insert_scan l i k q endp = Some t \<and>
    get_prev l t = Some (last (Head i # lane (sl_nodes l) i A))"
proof -
  let ?A = "lane (sl_nodes l) i A" and ?B = "lane (sl_nodes l) i B"
  have ch: "chain (sl_next l) (sl_prev l) (Head i) (?A @ ?B) (Head i)" using ring by (simp add: ring_def)
  from chain_from [OF ch] pos obtain vs where
    vs: "chain (sl_next l) (sl_prev l) pos (vs @ ?B) (Head i)" "set vs \<subseteq> set ?A" by blast
  have ch_t: "chain (sl_next l) (sl_prev l) pos vs t" using chain_upto_hd [OF vs(1)] by (simp add: t_def)
  obtain q where q: "sl_next l pos = Some q" using chain_first [OF ch_t] by blast
  have ok: "link_ok l pos" using pos i by (auto simp: set_lane)
  have t: "t = Head i \<and> ?B = [] \<or> t \<in> set ?B" by (cases ?B) (auto simp: t_def)
  have "insert_scan l i k q endp = Some t"
  proof (rule insert_scan_ok [OF ch_t q])
    fix x assume "x \<in> set vs"
    with vs(2) obtain a where a: "x = Link a i" "a \<in> set A" "i < node_lev (sl_nodes l) a"
      by (auto simp: set_lane)
    with dom obtain nd where "sl_nodes l a = Some nd" by blast
    with a keys(1) [OF a(2)] show "\<exists>a nd. x = Link a i \<and> sl_nodes l a = Some nd \<and> i < sn_level nd \<and> sn_key nd < k"
      by (auto simp: node_lev_def node_key_def)
  next
    show "endp \<notin> set vs" using endp vs(2) dom(2) by (auto simp: set_lane)
  next
    show "t = endp \<or> (\<exists>a nd. t = Link a i \<and> sl_nodes l a = Some nd \<and> k \<le> sn_key nd)"
      using t
    proof
      assume "t \<in> set ?B"
      then obtain b where b: "t = Link b i" "b \<in> set B" by (auto simp: set_lane)
      with dom obtain nd where "sl_nodes l b = Some nd" by blast
      with b keys(2) [OF b(2)] show ?thesis by (auto simp: node_key_def)
    qed (use endp in auto)
  qed
  moreover have "sl_prev l t = Some (last (Head i # ?A))"
    using chain_last [OF chain_upto_hd [OF ch]] by (simp add: t_def)
  moreover have "link_ok l t" using t i by (auto simp: set_lane)
  ultimately show ?thesis using q ok by (auto simp: get_next_def get_prev_def)
qed

lemma last_lane: "last (Head i # lane m i A) = Head i \<or> last (Head i # lane m i A) \<in> set (lane m i A)"
  by (metis last.simps last_in_set)

lemma hd_lane: "hd (lane m i B @ [Head i]) = Head i \<or> hd (lane m i B @ [Head i]) \<in> set (lane m i B)"
  by (cases "lane m i B") auto

lemma link_dec_lane:
  "q = Head (Suc i) \<or> q \<in> set (lane m (Suc i) A) \<Longrightarrow> link_dec q = Head i \<or> link_dec q \<in> set (lane m i A)"
  by (auto simp: set_lane)

lemma list_add_ring:
  assumes ring: "ring l i (A @ B)" and i: "i < SKIPLIST_MAX_LEVEL"
    and node: "i < node_lev (sl_nodes l) node" "node \<notin> set A \<union> set B" and d: "distinct (A @ B)"
  defines "q \<equiv> last (Head i # lane (sl_nodes l) i A)" and "t \<equiv> hd (lane (sl_nodes l) i B @ [Head i])"
  shows "\<exists>l1. list_add l (Link node i) q t = Some l1 \<and> sl_nodes l1 = sl_nodes l \<and>
    sl_level l1 = sl_level l \<and> sl_count l1 = sl_count l \<and> sl_brk l1 = sl_brk l \<and>
    ring l1 i (A @ node # B) \<and>
    (\<forall>p. link_lvl p \<noteq> i \<longrightarrow> sl_next l1 p = sl_next l p \<and> sl_prev l1 p = sl_prev l p)"
proof -
  let ?A = "lane (sl_nodes l) i A" and ?B = "lane (sl_nodes l) i B" and ?p = "Link node i"
  have q: "q = Head i \<or> q \<in> set ?A" unfolding q_def by (rule last_lane)
  have t: "t = Head i \<or> t \<in> set ?B" by (cases ?B) (auto simp: t_def)
  have ok: "link_ok l ?p" "link_ok l q" "link_ok l t" using node q t i by (auto simp: set_lane)
  have lvl: "link_lvl q = i" "link_lvl t = i" using q t by (auto dest: link_lvl_lane)
  have "chain ((sl_next l)(?p := Some t, q := Some ?p)) ((sl_prev l)(?p := Some q, t := Some ?p))
      (Head i) (?A @ ?p # ?B) (Head i)"
    using ring node(2) d
    by (intro chain_insert)
      (auto simp: ring_def q_def t_def set_lane distinct_lane)
  then show ?thesis
    using node(1) lvl by (auto simp: list_add_eq [OF ok] ring_def)
qed

lemma insert_levels_ok:
  assumes "n \<le> SKIPLIST_MAX_LEVEL" "\<And>j. j < n \<Longrightarrow> ring l j (A @ B)"
    and "sl_nodes l node = Some nd" "sn_level nd = level"
    and "node \<notin> set A \<union> set B" "distinct (A @ B)" "set A \<union> set B \<subseteq> dom (sl_nodes l)"
    and "\<And>a. a \<in> set A \<Longrightarrow> node_key (sl_nodes l) a < k" "\<And>b. b \<in> set B \<Longrightarrow> k \<le> node_key (sl_nodes l) b"
    and "\<And>i. n = Suc i \<Longrightarrow> (pos = Head i \<or> pos \<in> set (lane (sl_nodes l) i A)) \<and>
           (endp = Head i \<or> endp \<in> set (lane (sl_nodes l) i B))"
  shows "\<exists>l'. insert_levels l k level node n pos endp = Some l' \<and> sl_nodes l' = sl_nodes l \<and>
    sl_level l' = sl_level l \<and> sl_count l' = sl_count l \<and> sl_brk l' = sl_brk l \<and>
    (\<forall>j<n. ring l' j (A @ node # B)) \<and>
    (\<forall>p. n \<le> link_lvl p \<longrightarrow> sl_next l' p = sl_next l p \<and> sl_prev l' p = sl_prev l p)"
  using assms
proof (induction n arbitrary: l pos endp)
  case 0
  then show ?case by simp
next
  case (Suc i)
  note keys = Suc.prems(8,9)
  let ?q = "last (Head i # lane (sl_nodes l) i A)" and ?t = "hd (lane (sl_nodes l) i B @ [Head i])"
  from Suc.prems(1) have i: "i < SKIPLIST_MAX_LEVEL" by simp
  have ring_i: "ring l i (A @ B)" using Suc.prems(2) by simp
  have "\<exists>q. get_next l pos = Some q \<and> insert_scan l i k q endp = Some ?t \<and> get_prev l ?t = Some ?q"
    using Suc.prems i ring_i by (intro insert_level_target) auto
  then obtain q where q: "get_next l pos = Some q" "insert_scan l i k q endp = Some ?t" "get_prev l ?t = Some ?q"
    by blast
  have lev: "node_lev (sl_nodes l) node = level" using Suc.prems(3,4) by (simp add: node_lev_def)
  have "\<exists>l1. (if i < level then list_add l (Link node i) ?q ?t else Some l) = Some l1 \<and>
    sl_nodes l1 = sl_nodes l \<and> sl_level l1 = sl_level l \<and> sl_count l1 = sl_count l \<and> sl_brk l1 = sl_brk l \<and>
    ring l1 i (A @ node # B) \<and>
    (\<forall>p. link_lvl p \<noteq> i \<longrightarrow> sl_next l1 p = sl_next l p \<and> sl_prev l1 p = sl_prev l p)"
    using list_add_ring [OF ring_i i, of node] Suc.prems(5,6) lev ring_i by (auto simp: ring_def)
  then obtain l1 where l1: "(if i < level then list_add l (Link node i) ?q ?t else Some l) = Some l1"
    "sl_nodes l1 = sl_nodes l" "sl_level l1 = sl_level l" "sl_count l1 = sl_count l" "sl_brk l1 = sl_brk l"
    "ring l1 i (A @ node # B)"
    "\<And>p. link_lvl p \<noteq> i \<Longrightarrow> sl_next l1 p = sl_next l p \<and> sl_prev l1 p = sl_prev l p" by blast
  have rings: "ring l1 j (A @ B)" if "j < i" for j
    using that Suc.prems(2) [of j] ring_cong [OF l1(2), of j] l1(7) by auto
  have ends: "(link_dec ?q = Head m \<or> link_dec ?q \<in> set (lane (sl_nodes l1) m A)) \<and>
      (link_dec ?t = Head m \<or> link_dec ?t \<in> set (lane (sl_nodes l1) m B))" if "i = Suc m" for m
    unfolding l1(2) using that last_lane [of i "sl_nodes l" A] hd_lane [of "sl_nodes l" i B]
    by (intro conjI link_dec_lane) simp_all
  have "\<exists>l'. insert_levels l1 k level node i (link_dec ?q) (link_dec ?t) = Some l' \<and> sl_nodes l' = sl_nodes l1 \<and>
    sl_level l' = sl_level l1 \<and> sl_count l' = sl_count l1 \<and> sl_brk l' = sl_brk l1 \<and>
    (\<forall>j<i. ring l' j (A @ node # B)) \<and>
    (\<forall>p. i \<le> link_lvl p \<longrightarrow> sl_next l' p = sl_next l1 p \<and> sl_prev l' p = sl_prev l1 p)"
    using Suc.prems i l1(2) rings ends by (intro Suc.IH) auto
  then obtain l' where l': "insert_levels l1 k level node i (link_dec ?q) (link_dec ?t) = Some l'"
    "sl_nodes l' = sl_nodes l1" "sl_level l' = sl_level l1" "sl_count l' = sl_count l1" "sl_brk l' = sl_brk l1"
    "\<And>j. j < i \<Longrightarrow> ring l' j (A @ node # B)"
    "\<And>p. i \<le> link_lvl p \<Longrightarrow> sl_next l' p = sl_next l1 p \<and> sl_prev l' p = sl_prev l1 p" by blast
  have "ring l' i (A @ node # B)" using l1(6) ring_cong [OF l'(2), of i] l'(7) by auto
  with l' l1 q show ?case by (auto simp: less_Suc_eq)
qed

lemma sorted_dropWhile_ge:
  "sorted (map f L) \<Longrightarrow> b \<in> set (dropWhile (\<lambda>a. f a < (k::int)) L) \<Longrightarrow> k \<le> f b"
  by (induction L) (auto split: if_splits)

lemma level_ok_bounds:
  assumes "level_ok l L" "nodes_ok l L"
  shows "0 \<le> sl_level l" "sl_level l \<le> int SKIPLIST_MAX_LEVEL"
    "\<And>a. a \<in> set L \<Longrightarrow> int (node_lev (sl_nodes l) a) \<le> sl_level l"
proof -
  have fin: "finite (node_lev (sl_nodes l) ` set L)" by simp
  show "0 \<le> sl_level l" using assms by (auto simp: level_ok_def split: if_splits)
  show "sl_level l \<le> int SKIPLIST_MAX_LEVEL"
    using assms by (auto simp: level_ok_def nodes_ok_def SKIPLIST_MAX_LEVEL_def split: if_splits)
  show "\<And>a. a \<in> set L \<Longrightarrow> int (node_lev (sl_nodes l) a) \<le> sl_level l"
    using assms by (auto simp: level_ok_def split: if_splits)
qed

lemma level_ok_insert:
  assumes "level_ok l L" "nodes_ok l L" "node \<notin> set L" "1 \<le> level"
    and "set L' = insert node (set L)"
    and "sl_level l' = max (sl_level l) (int level)"
    and "sl_nodes l' = (sl_nodes l)(node \<mapsto> nd)" "sn_level nd = level"
  shows "level_ok l' L'"
proof -
  have L': "L' \<noteq> []" using assms(5) by auto
  have img: "node_lev (sl_nodes l') ` set L' = insert level (node_lev (sl_nodes l) ` set L)"
    using assms(3,5,7,8) by (auto simp: image_iff)
  show ?thesis
  proof (cases "L = []")
    case False
    then have "Max (insert level (node_lev (sl_nodes l) ` set L)) = max level (Max (node_lev (sl_nodes l) ` set L))"
      by (intro Max_insert) auto
    with False L' img assms(1,6) show ?thesis by (simp add: level_ok_def max.commute of_nat_max)
  qed (use L' img assms in \<open>auto simp: level_ok_def\<close>)
qed

text \<open>The list after the new node is allocated and \<open>level\<close> is raised, before it is linked.\<close>

definition sk_alloc :: "'v skiplist_t \<Rightarrow> nat \<Rightarrow> int \<Rightarrow> 'v \<Rightarrow> 'v skiplist_t" where
  "sk_alloc l level k v = l\<lparr>sl_level := max (sl_level l) (int level),
     sl_nodes := (sl_nodes l)(sl_brk l \<mapsto> \<lparr>sn_key = k, sn_value = v, sn_level = level\<rparr>),
     sl_brk := Suc (sl_brk l)\<rparr>"

lemma sk_alloc_ring:
  assumes "sl_brk l \<notin> set L"
  shows "ring (sk_alloc l level k v) j L = ring l j L"
proof -
  have "lane (sl_nodes (sk_alloc l level k v)) j L = lane (sl_nodes l) j L"
    using assms by (intro lane_cong) (auto simp: sk_alloc_def)
  then show ?thesis by (simp add: ring_def sk_alloc_def)
qed

lemma insert_levels_rings:
  fixes l :: "'v skiplist_t" and v :: 'v
  assumes nodes: "nodes_ok l (A @ B)" and rings: "\<And>i. i < SKIPLIST_MAX_LEVEL \<Longrightarrow> ring l i (A @ B)"
    and keys: "\<And>a. a \<in> set A \<Longrightarrow> node_key (sl_nodes l) a < k" "\<And>b. b \<in> set B \<Longrightarrow> k \<le> node_key (sl_nodes l) b"
    and lv: "1 \<le> level" "0 \<le> sl_level l" "max (sl_level l) (int level) \<le> int SKIPLIST_MAX_LEVEL"
  defines "l1 \<equiv> sk_alloc l level k v" and "x \<equiv> sl_brk l" and "n \<equiv> max (sl_level l) (int level)"
  shows "\<exists>l'. insert_levels l1 k level x (nat n) (Head (nat (n - 1))) (Head (nat (n - 1))) = Some l' \<and>
    sl_nodes l' = sl_nodes l1 \<and> sl_level l' = n \<and> sl_count l' = sl_count l \<and> sl_brk l' = Suc x \<and>
    (\<forall>j<SKIPLIST_MAX_LEVEL. ring l' j (A @ x # B))"
proof -
  have x: "x \<notin> set (A @ B)" using nodes by (auto simp: nodes_ok_def x_def)
  have n: "1 \<le> n" "n \<le> int SKIPLIST_MAX_LEVEL" using lv by (auto simp: n_def)
  have ring1: "ring l1 j (A @ B)" if "j < SKIPLIST_MAX_LEVEL" for j
    using rings [OF that] sk_alloc_ring [of l "A @ B"] x by (simp add: l1_def x_def)
  have key1: "node_key (sl_nodes l1) a = node_key (sl_nodes l) a" if "a \<in> set (A @ B)" for a
    using that x by (auto simp: l1_def sk_alloc_def x_def)
  have "\<exists>l'. insert_levels l1 k level x (nat n) (Head (nat (n - 1))) (Head (nat (n - 1))) = Some l' \<and>
      sl_nodes l' = sl_nodes l1 \<and> sl_level l' = sl_level l1 \<and> sl_count l' = sl_count l1 \<and> sl_brk l' = sl_brk l1 \<and>
      (\<forall>j<nat n. ring l' j (A @ x # B)) \<and>
      (\<forall>p. nat n \<le> link_lvl p \<longrightarrow> sl_next l' p = sl_next l1 p \<and> sl_prev l' p = sl_prev l1 p)"
  proof (rule insert_levels_ok)
    show "sl_nodes l1 x = Some \<lparr>sn_key = k, sn_value = v, sn_level = level\<rparr>"
      by (simp add: l1_def sk_alloc_def x_def)
    show "distinct (A @ B)" "set A \<union> set B \<subseteq> dom (sl_nodes l1)"
      using nodes by (auto simp: nodes_ok_def l1_def sk_alloc_def)
    show "\<And>a. a \<in> set A \<Longrightarrow> node_key (sl_nodes l1) a < k" using key1 keys(1) by simp
    show "\<And>b. b \<in> set B \<Longrightarrow> k \<le> node_key (sl_nodes l1) b" using key1 keys(2) by simp
  qed (use n ring1 x in auto)
  then obtain l' where l': "insert_levels l1 k level x (nat n) (Head (nat (n - 1))) (Head (nat (n - 1))) = Some l'"
    "sl_nodes l' = sl_nodes l1" "sl_level l' = n" "sl_count l' = sl_count l" "sl_brk l' = Suc x"
    "\<And>j. j < nat n \<Longrightarrow> ring l' j (A @ x # B)"
    "\<And>p. nat n \<le> link_lvl p \<Longrightarrow> sl_next l' p = sl_next l1 p \<and> sl_prev l' p = sl_prev l1 p"
    by (auto simp: l1_def sk_alloc_def n_def x_def)
  have "ring l' j (A @ x # B)" if j: "j < SKIPLIST_MAX_LEVEL" for j
  proof (cases "j < nat n")
    case False
    then have "lane (sl_nodes l') j (A @ x # B) = lane (sl_nodes l') j (A @ B)"
      by (simp add: l'(2) l1_def sk_alloc_def x_def n_def)
    moreover have "ring l' j (A @ B)"
      using ring1 [OF j] ring_cong [OF l'(2), of j] l'(7) False by auto
    ultimately show ?thesis by (simp add: ring_def)
  qed (use l'(6) in simp)
  with l' show ?thesis by blast
qed

lemma skiplist_insert_split:
  assumes rep: "sk_rep l (A @ B)" and rnd: "rand_ends rnd"
    and keys: "\<And>a. a \<in> set A \<Longrightarrow> node_key (sl_nodes l) a < k" "\<And>b. b \<in> set B \<Longrightarrow> k \<le> node_key (sl_nodes l) b"
  shows "\<exists>w' l' level. skiplist_insert rnd w l k v = Some (sl_brk l, w', l') \<and>
    sk_rep l' (A @ sl_brk l # B) \<and>
    sl_nodes l' = (sl_nodes l)(sl_brk l \<mapsto> \<lparr>sn_key = k, sn_value = v, sn_level = level\<rparr>)"
proof -
  from skiplist_random_level_ok [OF rnd, of w] obtain level w' where
    lv: "skiplist_random_level rnd w = Some (level, w')" "1 \<le> level" "level \<le> SKIPLIST_MAX_LEVEL" by blast
  let ?x = "sl_brk l" and ?n = "max (sl_level l) (int level)"
  from rep have ok: "nodes_ok l (A @ B)" "level_ok l (A @ B)" "sorted (map (node_key (sl_nodes l)) (A @ B))"
    "\<And>i. i < SKIPLIST_MAX_LEVEL \<Longrightarrow> ring l i (A @ B)" "sl_count l = int (length (A @ B))"
    by (auto simp: sk_rep_def)
  note lb = level_ok_bounds(1,2) [OF ok(2,1)]
  obtain l' where l':
    "insert_levels (sk_alloc l level k v) k level ?x (nat ?n) (Head (nat (?n - 1))) (Head (nat (?n - 1))) = Some l'"
    "sl_nodes l' = sl_nodes (sk_alloc l level k v)" "sl_level l' = ?n" "sl_count l' = sl_count l"
    "sl_brk l' = Suc ?x" "\<forall>j<SKIPLIST_MAX_LEVEL. ring l' j (A @ ?x # B)"
    using insert_levels_rings [OF ok(1) ok(4) keys lv(2) lb(1), where v = v] lb(2) lv(3) by auto
  let ?l = "l'\<lparr>sl_count := sl_count l + 1\<rparr>"
  have x: "?x \<notin> set (A @ B)" using ok(1) by (auto simp: nodes_ok_def)
  have nodes: "nodes_ok ?l (A @ ?x # B)"
    using ok(1) x lv l' by (auto simp: nodes_ok_def sk_alloc_def less_Suc_eq)
  have "level_ok ?l (A @ ?x # B)"
    by (rule level_ok_insert [OF ok(2,1) x lv(2), where nd = "\<lparr>sn_key = k, sn_value = v, sn_level = level\<rparr>"])
      (use l'(2,3) in \<open>simp_all add: sk_alloc_def\<close>)
  moreover have "sorted (map (node_key (sl_nodes ?l)) (A @ ?x # B))"
  proof -
    have eqs: "map (node_key (sl_nodes ?l)) A = map (node_key (sl_nodes l)) A"
      "map (node_key (sl_nodes ?l)) B = map (node_key (sl_nodes l)) B" "node_key (sl_nodes ?l) ?x = k"
      using x by (auto simp: l'(2) sk_alloc_def)
    show ?thesis
      unfolding map_append list.map eqs using ok(3) keys by (auto simp: sorted_append less_imp_le)
  qed
  ultimately have "sk_rep ?l (A @ ?x # B)"
    using nodes l' ok(5) by (auto simp: sk_rep_def ring_def)
  moreover have "skiplist_insert rnd w l k v = Some (?x, w', ?l)"
    using l'(1,4) lv(1)
    by (cases "sl_level l < int level")
      (simp_all add: skiplist_insert_def skipnode_create_def sk_alloc_def max_def)
  ultimately show ?thesis using l'(2) by (auto simp: sk_alloc_def)
qed

lemma skiplist_insert_rep:
  assumes rep: "sk_rep l L" and rnd: "rand_ends rnd"
  shows "\<exists>w' l' level. skiplist_insert rnd w l k v = Some (sl_brk l, w', l') \<and>
    sk_rep l' (takeWhile (\<lambda>a. node_key (sl_nodes l) a < k) L @
      sl_brk l # dropWhile (\<lambda>a. node_key (sl_nodes l) a < k) L) \<and>
    sl_nodes l' = (sl_nodes l)(sl_brk l \<mapsto> \<lparr>sn_key = k, sn_value = v, sn_level = level\<rparr>)"
proof (rule skiplist_insert_split [OF _ rnd])
  show "sk_rep l (takeWhile (\<lambda>a. node_key (sl_nodes l) a < k) L @ dropWhile (\<lambda>a. node_key (sl_nodes l) a < k) L)"
    using rep by simp
  show "\<And>a. a \<in> set (takeWhile (\<lambda>a. node_key (sl_nodes l) a < k) L) \<Longrightarrow> node_key (sl_nodes l) a < k"
    by (auto dest: set_takeWhileD)
  show "\<And>b. b \<in> set (dropWhile (\<lambda>a. node_key (sl_nodes l) a < k) L) \<Longrightarrow> k \<le> node_key (sl_nodes l) b"
    using rep by (intro sorted_dropWhile_ge [of "node_key (sl_nodes l)" L]) (auto simp: sk_rep_def)
qed

subsection \<open>Removal\<close>

lemma list_del_ring:
  assumes ring: "ring l i (A @ node # B)" and i: "i < SKIPLIST_MAX_LEVEL" "i < node_lev (sl_nodes l) node"
    and d: "distinct (A @ node # B)"
  shows "\<exists>l1. list_del l (Link node i) = Some l1 \<and> sl_nodes l1 = sl_nodes l \<and>
    sl_level l1 = sl_level l \<and> sl_count l1 = sl_count l \<and> sl_brk l1 = sl_brk l \<and> ring l1 i (A @ B) \<and>
    (\<forall>p. link_lvl p \<noteq> i \<longrightarrow> sl_next l1 p = sl_next l p \<and> sl_prev l1 p = sl_prev l p)"
proof -
  let ?A = "lane (sl_nodes l) i A" and ?B = "lane (sl_nodes l) i B" and ?p = "Link node i"
  let ?q = "last (Head i # ?A)" and ?t = "hd (?B @ [Head i])"
  have q: "?q = Head i \<or> ?q \<in> set ?A" by (rule last_lane)
  have t: "?t = Head i \<or> ?t \<in> set ?B" by (rule hd_lane)
  have ch: "chain (sl_next l) (sl_prev l) (Head i) (?A @ ?p # ?B) (Head i)" using ring i by (simp add: ring_def)
  then have pq: "sl_prev l ?p = Some ?q" "sl_next l ?p = Some ?t"
    by (auto simp: chain_append dest: chain_last chain_first)
  have ok: "link_ok l ?q" "link_ok l ?t" using q t i(1) by (auto simp: set_lane)
  have lvl: "link_lvl ?q = i" "link_lvl ?t = i" using q t by (auto dest: link_lvl_lane)
  let ?nx = "(sl_next l)(?q := Some ?t)" and ?pv = "(sl_prev l)(?t := Some ?q)"
  have notin: "?p \<notin> set (?A @ ?B)" using d by (auto simp: set_lane)
  have "chain ?nx ?pv (Head i) (?A @ ?B) (Head i)"
    by (rule chain_delete [OF ch]) (use d in \<open>auto simp: set_lane distinct_lane\<close>)
  then have "chain (?nx(?p := Some ?p)) (?pv(?p := Some ?p)) (Head i) (?A @ ?B) (Head i)"
    using notin by (subst chain_cong [where nx' = ?nx and pv' = ?pv]) auto
  with i(2) lvl show ?thesis by (auto simp: list_del_eq [OF _ pq ok] ring_def)
qed

lemma list_empty_head:
  assumes "ring l i L" "i < SKIPLIST_MAX_LEVEL"
  shows "list_empty l (Head i) = Some (lane (sl_nodes l) i L = [])"
  using assms chain_first [of "sl_next l" "sl_prev l" "Head i" "lane (sl_nodes l) i L" "Head i"]
    hd_in_set [of "lane (sl_nodes l) i L"] Head_notin_lane [of i "sl_nodes l" i L]
  by (cases "lane (sl_nodes l) i L") (auto simp: list_empty_def get_next_def ring_def)

lemma remove_levels_ok:
  assumes "n \<le> node_lev (sl_nodes l) node" "node_lev (sl_nodes l) node \<le> SKIPLIST_MAX_LEVEL"
    and "\<And>i. i < SKIPLIST_MAX_LEVEL \<Longrightarrow> ring l i (A @ node # B)" "distinct (A @ node # B)"
  shows "\<exists>l'. remove_levels l node n = Some l' \<and> sl_nodes l' = sl_nodes l \<and>
    sl_count l' = sl_count l \<and> sl_brk l' = sl_brk l \<and>
    sl_level l' = sl_level l - int (card {j. j < n \<and> lane (sl_nodes l) j (A @ B) = []}) \<and>
    (\<forall>j<n. ring l' j (A @ B)) \<and>
    (\<forall>p. n \<le> link_lvl p \<longrightarrow> sl_next l' p = sl_next l p \<and> sl_prev l' p = sl_prev l p)"
  using assms
proof (induction n)
  case (Suc n)
  let ?E = "\<lambda>n. {j. j < n \<and> lane (sl_nodes l) j (A @ B) = []}"
  from Suc obtain l1 where l1: "remove_levels l node n = Some l1" "sl_nodes l1 = sl_nodes l"
    "sl_count l1 = sl_count l" "sl_brk l1 = sl_brk l" "sl_level l1 = sl_level l - int (card (?E n))"
    "\<forall>j<n. ring l1 j (A @ B)"
    "\<forall>p. n \<le> link_lvl p \<longrightarrow> sl_next l1 p = sl_next l p \<and> sl_prev l1 p = sl_prev l p" by auto
  from Suc.prems have n: "n < SKIPLIST_MAX_LEVEL" "n < node_lev (sl_nodes l1) node" by (auto simp: l1)
  have "ring l1 n (A @ node # B)" using Suc.prems(3) [OF n(1)] ring_cong [OF l1(2), of n] l1(7) by auto
  from list_del_ring [OF this n Suc.prems(4)] obtain l2 where l2: "list_del l1 (Link node n) = Some l2"
    "sl_nodes l2 = sl_nodes l1" "sl_level l2 = sl_level l1" "sl_count l2 = sl_count l1" "sl_brk l2 = sl_brk l1"
    "ring l2 n (A @ B)"
    "\<forall>p. link_lvl p \<noteq> n \<longrightarrow> sl_next l2 p = sl_next l1 p \<and> sl_prev l2 p = sl_prev l1 p" by blast
  have rings: "ring l2 j (A @ B)" if "j < Suc n" for j
    using that l1(6) l2(6,7) ring_cong [OF l2(2), of j] by (cases "j = n") auto
  have "?E (Suc n) = (if lane (sl_nodes l) n (A @ B) = [] then insert n (?E n) else ?E n)"
    by (auto simp: less_Suc_eq)
  then have "card (?E (Suc n)) = card (?E n) + (if lane (sl_nodes l) n (A @ B) = [] then 1 else 0)" by simp
  with l1 l2 rings list_empty_head [OF l2(6) n(1)] show ?case by (auto simp: ring_def)
qed simp

lemma level_ok_remove:
  assumes "level_ok l (A @ node # B)" "nodes_ok l (A @ node # B)"
    and "sl_nodes l' = (sl_nodes l)(node := None)"
    and "sl_level l' = sl_level l - int (card {j. j < node_lev (sl_nodes l) node \<and> lane (sl_nodes l) j (A @ B) = []})"
  shows "level_ok l' (A @ B)"
proof -
  let ?lev = "node_lev (sl_nodes l)"
  have node: "node \<notin> set (A @ B)" using assms(2) by (auto simp: nodes_ok_def)
  have img: "node_lev (sl_nodes l') ` set (A @ B) = ?lev ` set (A @ B)"
    using node assms(3) by (intro image_cong) auto
  have empty_iff: "lane (sl_nodes l) j (A @ B) = [] \<longleftrightarrow> (\<forall>a\<in>set (A @ B). ?lev a \<le> j)" for j
    by (auto simp: lane_def filter_empty_conv not_less)
  show ?thesis
  proof (cases "A @ B = []")
    case True
    then have "sl_level l = int (?lev node)" "sl_level l' = sl_level l - int (card {..<?lev node})"
      using assms(1,4) by (simp_all add: level_ok_def lessThan_def)
    with True show ?thesis by (simp add: level_ok_def)
  next
    case False
    define M where "M = Max (?lev ` set (A @ B))"
    have iff: "lane (sl_nodes l) j (A @ B) = [] \<longleftrightarrow> M \<le> j" for j
      using False unfolding empty_iff M_def by (subst Max_le_iff) auto
    have "{j. j < ?lev node \<and> lane (sl_nodes l) j (A @ B) = []} = {M..<?lev node}"
      unfolding iff by auto
    moreover have "Max (insert (?lev node) (?lev ` set (A @ B))) = max (?lev node) M"
      unfolding M_def using False by (intro Max_insert) auto
    then have "sl_level l = int (max (?lev node) M)"
      using assms(1) by (simp add: level_ok_def)
    ultimately have "sl_level l' = int M" using assms(4) by simp
    with False img show ?thesis by (auto simp: level_ok_def M_def)
  qed
qed

lemma skiplist_remove_split:
  assumes rep: "sk_rep l (A @ node # B)"
  shows "\<exists>l'. skiplist_remove_skipnode l node = Some l' \<and> sk_rep l' (A @ B) \<and>
    sl_nodes l' = (sl_nodes l)(node := None)"
proof -
  from rep have ok: "nodes_ok l (A @ node # B)" "level_ok l (A @ node # B)"
    "sorted (map (node_key (sl_nodes l)) (A @ node # B))"
    "\<And>i. i < SKIPLIST_MAX_LEVEL \<Longrightarrow> ring l i (A @ node # B)" "sl_count l = int (length (A @ node # B))"
    by (auto simp: sk_rep_def)
  let ?lev = "node_lev (sl_nodes l) node"
  have node: "node \<notin> set (A @ B)" "distinct (A @ node # B)" "?lev \<le> SKIPLIST_MAX_LEVEL"
    using ok(1) by (auto simp: nodes_ok_def)
  have "node \<in> dom (sl_nodes l)" using ok(1) by (simp add: nodes_ok_def)
  then obtain nd where nd: "sl_nodes l node = Some nd" by blast
  from remove_levels_ok [OF order_refl node(3) ok(4) node(2)] obtain l1 where
    l1: "remove_levels l node ?lev = Some l1" "sl_nodes l1 = sl_nodes l" "sl_count l1 = sl_count l"
    "sl_brk l1 = sl_brk l"
    "sl_level l1 = sl_level l - int (card {j. j < ?lev \<and> lane (sl_nodes l) j (A @ B) = []})"
    "\<forall>j<?lev. ring l1 j (A @ B)"
    "\<forall>p. ?lev \<le> link_lvl p \<longrightarrow> sl_next l1 p = sl_next l p \<and> sl_prev l1 p = sl_prev l p" by blast
  let ?l = "(skipnode_destroy l1 node)\<lparr>sl_count := sl_count l1 - 1\<rparr>"
  have lanes: "lane (sl_nodes ?l) j (A @ B) = lane (sl_nodes l) j (A @ B)" for j
    using node by (intro lane_cong) (auto simp: skipnode_destroy_def l1)
  have "ring l1 j (A @ B)" if j: "j < SKIPLIST_MAX_LEVEL" for j
  proof (cases "j < ?lev")
    case False
    then have "ring l1 j (A @ node # B)" using ok(4) [OF j] ring_cong [OF l1(2)] l1(7) by auto
    with False show ?thesis by (simp add: ring_def l1)
  qed (use l1(6) in simp)
  then have rings: "ring ?l j (A @ B)" if "j < SKIPLIST_MAX_LEVEL" for j
    using that by (simp only: ring_def lanes) (simp add: ring_def skipnode_destroy_def l1)
  have keys: "map (node_key (sl_nodes ?l)) (A @ B) = map (node_key (sl_nodes l)) (A @ B)"
    using node by (auto simp: skipnode_destroy_def l1)
  have "level_ok ?l (A @ B)"
    by (rule level_ok_remove [OF ok(2,1)]) (use l1 in \<open>simp_all add: skipnode_destroy_def\<close>)
  moreover have "nodes_ok ?l (A @ B)" using ok(1) node l1 by (auto simp: nodes_ok_def skipnode_destroy_def)
  moreover have "sorted (map (node_key (sl_nodes ?l)) (A @ B))"
    unfolding keys using ok(3) by (auto simp: sorted_append)
  ultimately have "sk_rep ?l (A @ B)" using rings ok(5) l1 by (auto simp: sk_rep_def skipnode_destroy_def)
  moreover have "skiplist_remove_skipnode l node = Some ?l"
    using nd l1(1) by (simp add: skiplist_remove_skipnode_def node_lev_def Let_def skipnode_destroy_def)
  ultimately show ?thesis by (auto simp: skipnode_destroy_def l1)
qed

subsection \<open>Destruction\<close>

lemma sk_rep_lane0:
  assumes "sk_rep l L"
  shows "chain (sl_next l) (sl_prev l) (Head 0) (map (\<lambda>a. Link a 0) L) (Head 0)"
proof -
  have "lane (sl_nodes l) 0 L = map (\<lambda>a. Link a 0) L"
    using assms by (auto simp: sk_rep_def nodes_ok_def lane_def Suc_le_eq intro!: filter_True)
  moreover have "ring l 0 L" using assms by (simp add: sk_rep_def SKIPLIST_MAX_LEVEL_def)
  ultimately show ?thesis by (simp add: ring_def)
qed

lemma skiplist_destroy_loop_step:
  assumes "sl_nodes l a = Some nd" "get_next (skipnode_destroy l a) n = Some n'"
  shows "skiplist_destroy_loop l (Link a 0) n = skiplist_destroy_loop (skipnode_destroy l a) n n'"
  using assms by (subst skiplist_destroy_loop.simps) simp

lemma skiplist_destroy_loop_ok:
  assumes "chain (sl_next l) pv (Link a 0) (map (\<lambda>a. Link a 0) L) (Head 0)"
    and "set (a # L) \<subseteq> dom (sl_nodes l)" "distinct (a # L)" "\<And>b. b \<in> set L \<Longrightarrow> 0 < node_lev (sl_nodes l) b"
    and "sl_next l (Link a 0) = Some n" "sl_next l (Head 0) = Some h0"
  shows "\<exists>l'. skiplist_destroy_loop l (Link a 0) n = Some l' \<and> dom (sl_nodes l') = dom (sl_nodes l) - set (a # L)"
  using assms
proof (induction L arbitrary: l a n)
  case Nil
  then obtain nd where nd: "sl_nodes l a = Some nd" by auto
  have "get_next (skipnode_destroy l a) (Head 0) = Some h0"
    using Nil.prems(6) by (simp add: get_next_def skipnode_destroy_def SKIPLIST_MAX_LEVEL_def)
  moreover have "skiplist_destroy_loop (skipnode_destroy l a) (Head 0) h0 = Some (skipnode_destroy l a)"
    by (subst skiplist_destroy_loop.simps) simp
  ultimately show ?case
    using Nil.prems(1,5) skiplist_destroy_loop_step [OF nd] by (auto simp: skipnode_destroy_def)
next
  case (Cons b L)
  from Cons.prems(2) obtain nd where nd: "sl_nodes l a = Some nd" by auto
  let ?l = "skipnode_destroy l a"
  have n: "n = Link b 0" using Cons.prems(1,5) by simp
  have ch: "chain (sl_next ?l) pv (Link b 0) (map (\<lambda>a. Link a 0) L) (Head 0)"
    using Cons.prems(1) by (simp add: skipnode_destroy_def)
  obtain n' where n': "sl_next ?l (Link b 0) = Some n'" using chain_first [OF ch] by blast
  have "get_next ?l n = Some n'"
    using n n' Cons.prems(3,4) by (auto simp: get_next_def skipnode_destroy_def)
  then have step: "skiplist_destroy_loop l (Link a 0) n = skiplist_destroy_loop ?l (Link b 0) n'"
    using skiplist_destroy_loop_step [OF nd] n by simp
  have "\<exists>l'. skiplist_destroy_loop ?l (Link b 0) n' = Some l' \<and> dom (sl_nodes l') = dom (sl_nodes ?l) - set (b # L)"
  proof (rule Cons.IH [OF ch _ _ _ n'])
    show "0 < node_lev (sl_nodes ?l) c" if "c \<in> set L" for c
      using that Cons.prems(3,4) by (auto simp: skipnode_destroy_def)
  qed (use Cons.prems in \<open>auto simp: skipnode_destroy_def\<close>)
  with step show ?case by (auto simp: skipnode_destroy_def)
qed

lemma skiplist_destroy_ok:
  assumes "sk_rep l L"
  shows "\<exists>l'. skiplist_destroy l = Some l' \<and> sl_nodes l' = Map.empty"
proof -
  have ok: "nodes_ok l L" using assms by (simp add: sk_rep_def)
  note ch = sk_rep_lane0 [OF assms]
  show ?thesis
  proof (cases L)
    case Nil
    with ch ok show ?thesis
      by (auto simp: skiplist_destroy_def get_next_def SKIPLIST_MAX_LEVEL_def skiplist_destroy_loop.simps nodes_ok_def)
  next
    case (Cons a M)
    with ch have ch': "chain (sl_next l) (sl_prev l) (Link a 0) (map (\<lambda>a. Link a 0) M) (Head 0)"
      "sl_next l (Head 0) = Some (Link a 0)" by auto
    obtain n where n: "sl_next l (Link a 0) = Some n" using chain_first [OF ch'(1)] by blast
    have lev: "0 < node_lev (sl_nodes l) b" if "b \<in> set L" for b
      using ok that by (auto simp: nodes_ok_def Suc_le_eq)
    have "\<exists>l'. skiplist_destroy_loop l (Link a 0) n = Some l' \<and> dom (sl_nodes l') = dom (sl_nodes l) - set (a # M)"
      using ok Cons lev by (intro skiplist_destroy_loop_ok [OF ch'(1) _ _ _ n ch'(2)]) (auto simp: nodes_ok_def)
    moreover have "skiplist_destroy l = skiplist_destroy_loop l (Link a 0) n"
      using ch' n lev Cons by (auto simp: skiplist_destroy_def get_next_def SKIPLIST_MAX_LEVEL_def)
    ultimately show ?thesis using ok Cons by (auto simp: nodes_ok_def)
  qed
qed

subsection \<open>The list of nodes, and the interface of a timer queue\<close>

primrec sk_walk :: "(link \<Rightarrow> link option) \<Rightarrow> link \<Rightarrow> nat \<Rightarrow> addr list" where
  "sk_walk nx p 0 = []"
| "sk_walk nx p (Suc n) = (case nx p of Some (Link a i) \<Rightarrow> a # sk_walk nx (Link a i) n | _ \<Rightarrow> [])"

definition sk_list :: "'v skiplist_t \<Rightarrow> addr list" where
  "sk_list l = sk_walk (sl_next l) (Head 0) (nat (sl_count l))"

definition sk_inv :: "'v skiplist_t \<Rightarrow> bool" where
  "sk_inv l \<longleftrightarrow> sk_rep l (sk_list l)"

text \<open>Keys and values in order.\<close>

definition sk_items :: "'v skiplist_t \<Rightarrow> (int \<times> 'v) list" where
  "sk_items l = map (\<lambda>a. (node_key (sl_nodes l) a, sn_value (the (sl_nodes l a)))) (sk_list l)"

lemma sk_walk_chain:
  "chain nx pv p (map (\<lambda>a. Link a 0) L) q \<Longrightarrow> sk_walk nx p (length L) = L"
  by (induction L arbitrary: p) auto

lemma sk_rep_list: "sk_rep l L \<Longrightarrow> sk_list l = L"
  using sk_walk_chain [OF sk_rep_lane0] by (auto simp: sk_list_def sk_rep_def)

lemma sk_rep_inv: "sk_rep l L \<Longrightarrow> sk_inv l"
  by (simp add: sk_inv_def sk_rep_list)

lemma sk_list_dom: "sk_inv l \<Longrightarrow> set (sk_list l) = dom (sl_nodes l)"
  by (simp add: sk_inv_def sk_rep_def nodes_ok_def)

lemma sk_list_distinct: "sk_inv l \<Longrightarrow> distinct (sk_list l)"
  by (simp add: sk_inv_def sk_rep_def nodes_ok_def)

lemma sk_count: "sk_inv l \<Longrightarrow> sl_count l = int (length (sk_list l))"
  by (simp add: sk_inv_def sk_rep_def)

lemma insort_split:
  "insort_key f x L = takeWhile (\<lambda>a. f a < f x) L @ x # dropWhile (\<lambda>a. f a < (f x :: int)) L"
  by (induction L) auto

text \<open>Insertion is insertion into a sorted list, before equal keys.\<close>

lemma skiplist_insert_ok:
  assumes inv: "sk_inv l" and rnd: "rand_ends rnd"
  shows "\<exists>w' l' level. skiplist_insert rnd w l k v = Some (sl_brk l, w', l') \<and> sk_inv l' \<and>
    sk_list l' = takeWhile (\<lambda>a. node_key (sl_nodes l) a < k) (sk_list l) @
      sl_brk l # dropWhile (\<lambda>a. node_key (sl_nodes l) a < k) (sk_list l) \<and>
    sk_items l' = insort_key fst (k, v) (sk_items l) \<and>
    sl_nodes l' = (sl_nodes l)(sl_brk l \<mapsto> \<lparr>sn_key = k, sn_value = v, sn_level = level\<rparr>)"
proof -
  let ?m = "sl_nodes l" and ?L = "sk_list l" and ?x = "sl_brk l"
  let ?P = "\<lambda>a. node_key ?m a < k"
  from skiplist_insert_rep [OF inv [unfolded sk_inv_def] rnd, of w k v] obtain w' l' level where
    l': "skiplist_insert rnd w l k v = Some (?x, w', l')" "sk_rep l' (takeWhile ?P ?L @ ?x # dropWhile ?P ?L)"
    "sl_nodes l' = ?m(?x \<mapsto> \<lparr>sn_key = k, sn_value = v, sn_level = level\<rparr>)" by blast
  have x: "?x \<notin> set ?L" using inv by (auto simp: sk_inv_def sk_rep_def nodes_ok_def)
  let ?f = "\<lambda>m a. (node_key m a, sn_value (the (m a)))"
  have same: "map (?f (sl_nodes l')) M = map (?f ?m) M" if "set M \<subseteq> set ?L" for M
    using that x by (auto simp: l'(3))
  have "sk_items l' = map (?f (sl_nodes l')) (takeWhile ?P ?L) @ (k, v) # map (?f (sl_nodes l')) (dropWhile ?P ?L)"
    by (simp add: sk_items_def sk_rep_list [OF l'(2)] l'(3))
  also have "\<dots> = map (?f ?m) (takeWhile ?P ?L) @ (k, v) # map (?f ?m) (dropWhile ?P ?L)"
    using same [of "takeWhile ?P ?L"] same [of "dropWhile ?P ?L"]
    by (auto dest: set_takeWhileD set_dropWhileD)
  also have "\<dots> = insort_key fst (k, v) (sk_items l)"
    by (simp add: sk_items_def insort_split takeWhile_map dropWhile_map o_def)
  finally show ?thesis using l' sk_rep_inv [OF l'(2)] sk_rep_list [OF l'(2)] by blast
qed

lemma skiplist_remove_ok:
  assumes inv: "sk_inv l" and a: "a \<in> set (sk_list l)"
  shows "\<exists>l'. skiplist_remove_skipnode l a = Some l' \<and> sk_inv l' \<and> sk_list l' = remove1 a (sk_list l) \<and>
    sl_nodes l' = (sl_nodes l)(a := None)"
proof -
  from a obtain A B where AB: "sk_list l = A @ a # B" "a \<notin> set A" by (meson split_list_first)
  from skiplist_remove_split [of l A a B] inv AB obtain l' where
    l': "skiplist_remove_skipnode l a = Some l'" "sk_rep l' (A @ B)" "sl_nodes l' = (sl_nodes l)(a := None)"
    by (auto simp: sk_inv_def)
  with AB sk_rep_inv [OF l'(2)] sk_rep_list [OF l'(2)] show ?thesis by (auto simp: remove1_append)
qed

lemma skiplist_create_ok: "\<exists>l. skiplist_create = Some l \<and> sk_inv l \<and> sk_list l = []"
  using skiplist_create_rep sk_rep_inv sk_rep_list by blast

text \<open>What every draw keeps of the world, an insertion keeps.\<close>

lemma skiplist_random_loop_world:
  assumes keep: "\<And>w. P w \<Longrightarrow> P (snd (rnd w))"
    and run: "skiplist_random_loop rnd w n = Some r" "P w"
  shows "P (snd r)"
proof -
  have "(\<forall>w. P w \<longrightarrow> P (snd (rnd w))) \<longrightarrow> P w \<longrightarrow> P (snd r)"
  proof (rule skiplist_random_loop.raw_induct
      [OF _ run(1), where P = "\<lambda>rnd w n r. (\<forall>w. P w \<longrightarrow> P (snd (rnd w))) \<longrightarrow> P w \<longrightarrow> P (snd r)"])
    fix f :: "('a \<Rightarrow> 32 word \<times> 'a) \<Rightarrow> 'a \<Rightarrow> int \<Rightarrow> (int \<times> 'a) option" and rnd w n r
    assume "\<And>rnd w n r. f rnd w n = Some r \<Longrightarrow> (\<forall>w. P w \<longrightarrow> P (snd (rnd w))) \<longrightarrow> P w \<longrightarrow> P (snd r)"
      and "(let (a, w) = rnd w in if rand_low a then f rnd w (n + 1) else Some (n, w)) = Some r"
    then show "(\<forall>w. P w \<longrightarrow> P (snd (rnd w))) \<longrightarrow> P w \<longrightarrow> P (snd r)"
      by (fastforce simp: case_prod_beta split: if_splits)
  qed
  with keep run(2) show ?thesis by blast
qed

lemma skiplist_insert_world:
  assumes "\<And>w. P w \<Longrightarrow> P (snd (rnd w))" "skiplist_insert rnd w l k v = Some (a, w', l')" "P w"
  shows "P w'"
  using assms(2) skiplist_random_loop_world [where P = P and rnd = rnd and w = w and n = 1, OF assms(1) _ assms(3)]
  by (auto simp: skiplist_insert_def skiplist_random_level_def bind_eq_Some_conv Let_def case_prod_beta)
subsection \<open>The interface the timers rely on\<close>

text \<open>Handle, key and value of every element, in order.\<close>

definition sk_entries :: "'v skiplist_t \<Rightarrow> (addr \<times> int \<times> 'v) list" where
  "sk_entries l = map (\<lambda>a. (a, node_key (sl_nodes l) a, sn_value (the (sl_nodes l a)))) (sk_list l)"

text \<open>Insertion into an ordered list of entries, before equal keys.\<close>

definition ins_entry :: "addr \<times> int \<times> 'v \<Rightarrow> (addr \<times> int \<times> 'v) list \<Rightarrow> (addr \<times> int \<times> 'v) list" where
  "ins_entry x E = takeWhile (\<lambda>y. fst (snd y) < fst (snd x)) E @ x # dropWhile (\<lambda>y. fst (snd y) < fst (snd x)) E"

definition sk_lookup :: "'v skiplist_t \<Rightarrow> addr \<Rightarrow> (int \<times> 'v) option" where
  "sk_lookup l a = map_option (\<lambda>nd. (sn_key nd, sn_value nd)) (sl_nodes l a)"

definition sk_first :: "'v skiplist_t \<Rightarrow> addr option" where
  "sk_first l = Option.bind (get_next l (Head 0)) (list_entry 0)"

lemma sk_entries_fst [simp]: "map fst (sk_entries l) = sk_list l"
  by (simp add: sk_entries_def comp_def)

lemma sk_entries_dom [simp]: "fst ` set (sk_entries l) = set (sk_list l)"
  by (force simp: sk_entries_def)

lemma sk_insert_entries:
  assumes inv: "sk_inv l" and rnd: "rand_ends rnd"
  shows "\<exists>h w' l'. skiplist_insert rnd w l k v = Some (h, w', l') \<and> sk_inv l' \<and> h \<notin> fst ` set (sk_entries l) \<and>
    sk_entries l' = ins_entry (h, k, v) (sk_entries l)"
proof -
  let ?P = "\<lambda>a. node_key (sl_nodes l) a < k"
  from skiplist_insert_ok [OF assms, of w k v] obtain w' l' level where
    l': "skiplist_insert rnd w l k v = Some (sl_brk l, w', l')" "sk_inv l'"
    "sk_list l' = takeWhile ?P (sk_list l) @ sl_brk l # dropWhile ?P (sk_list l)"
    "sl_nodes l' = (sl_nodes l)(sl_brk l \<mapsto> \<lparr>sn_key = k, sn_value = v, sn_level = level\<rparr>)" by blast
  have fresh: "sl_brk l \<notin> set (sk_list l)" using inv by (auto simp: sk_inv_def sk_rep_def nodes_ok_def)
  then have "a \<noteq> sl_brk l" if "a \<in> set (takeWhile ?P (sk_list l)) \<union> set (dropWhile ?P (sk_list l))" for a
    using that by (auto dest: set_takeWhileD set_dropWhileD)
  then have "sk_entries l' = ins_entry (sl_brk l, k, v) (sk_entries l)"
    by (simp add: sk_entries_def l'(3,4) ins_entry_def takeWhile_map dropWhile_map comp_def)
  moreover have "sl_brk l \<notin> fst ` set (sk_entries l)"
    using fresh by simp
  ultimately show ?thesis using l'(1,2) by blast
qed

lemma sk_remove_entries:
  assumes inv: "sk_inv l" and h: "h \<in> fst ` set (sk_entries l)"
  shows "\<exists>l'. skiplist_remove_skipnode l h = Some l' \<and> sk_inv l' \<and>
    sk_entries l' = filter (\<lambda>x. fst x \<noteq> h) (sk_entries l)"
proof -
  from h have "h \<in> set (sk_list l)" by simp
  from skiplist_remove_ok [OF inv this] obtain l' where
    l': "skiplist_remove_skipnode l h = Some l'" "sk_inv l'" "sk_list l' = remove1 h (sk_list l)"
    "sl_nodes l' = (sl_nodes l)(h := None)" by blast
  have "remove1 h (sk_list l) = filter (\<lambda>a. a \<noteq> h) (sk_list l)"
    by (subst distinct_remove1_removeAll [OF sk_list_distinct [OF inv]], subst removeAll_filter_not_eq)
      (rule filter_cong [OF refl], blast)
  then have "sk_entries l' = map (\<lambda>a. (a, node_key (sl_nodes l) a, sn_value (the (sl_nodes l a))))
      (filter (\<lambda>a. a \<noteq> h) (sk_list l))"
    unfolding sk_entries_def l'(3,4) by (auto intro!: map_cong)
  then have "sk_entries l' = filter (\<lambda>x. fst x \<noteq> h) (sk_entries l)"
    by (simp add: sk_entries_def filter_map comp_def)
  with l' show ?thesis by blast
qed

lemma sk_lookup_entries:
  assumes "sk_inv l" shows "sk_lookup l h = map_of (sk_entries l) h"
proof (cases "sl_nodes l h")
  case None
  then have "h \<notin> fst ` set (sk_entries l)"
    using sk_list_dom [OF assms] by auto
  then show ?thesis using None by (simp add: sk_lookup_def map_of_eq_None_iff [THEN iffD2])
next
  case (Some nd)
  then have "h \<in> set (sk_list l)" using sk_list_dom [OF assms] by auto
  then have "(h, sn_key nd, sn_value nd) \<in> set (sk_entries l)"
    using Some by (force simp: sk_entries_def node_key_def)
  then show ?thesis using Some sk_list_distinct [OF assms]
    by (simp add: sk_lookup_def map_of_eq_Some_iff [THEN iffD2])
qed

lemma sk_first_entries:
  assumes "sk_inv l"
  shows "sk_first l = (case sk_entries l of [] \<Rightarrow> None | x # _ \<Rightarrow> Some (fst x))"
  using sk_rep_lane0 [OF assms [unfolded sk_inv_def]]
  by (cases "sk_list l") (auto simp: sk_first_def sk_entries_def get_next_def SKIPLIST_MAX_LEVEL_def)

lemma sk_entries_order:
  assumes "sk_inv l"
  shows "sorted (map (fst \<circ> snd) (sk_entries l)) \<and> distinct (map fst (sk_entries l))"
  using assms sk_list_distinct [OF assms] by (simp add: sk_inv_def sk_rep_def sk_entries_def comp_def)

text \<open>
  A queue of entries ordered by key, whose elements are named by handles that stay valid
  until the element is removed.
\<close>

locale ordered_queue =
  fixes insert :: "('w \<Rightarrow> 32 word \<times> 'w) \<Rightarrow> 'w \<Rightarrow> 'q \<Rightarrow> int \<Rightarrow> 'v \<Rightarrow> (addr \<times> 'w \<times> 'q) option"
    and remove :: "'q \<Rightarrow> addr \<Rightarrow> 'q option"
    and lookup :: "'q \<Rightarrow> addr \<Rightarrow> (int \<times> 'v) option"
    and first :: "'q \<Rightarrow> addr option"
    and entries :: "'q \<Rightarrow> (addr \<times> int \<times> 'v) list"
    and invar :: "'q \<Rightarrow> bool"
    and rand_ok :: "('w \<Rightarrow> 32 word \<times> 'w) \<Rightarrow> bool"
  assumes order_law: "invar q \<Longrightarrow> sorted (map (fst \<circ> snd) (entries q)) \<and> distinct (map fst (entries q))"
    and insert_law: "invar q \<Longrightarrow> rand_ok rnd \<Longrightarrow> \<exists>h w' q'. insert rnd w q k v = Some (h, w', q') \<and> invar q' \<and>
      h \<notin> fst ` set (entries q) \<and> entries q' = ins_entry (h, k, v) (entries q)"
    and remove_law: "invar q \<Longrightarrow> h \<in> fst ` set (entries q) \<Longrightarrow>
      \<exists>q'. remove q h = Some q' \<and> invar q' \<and> entries q' = filter (\<lambda>x. fst x \<noteq> h) (entries q)"
    and lookup_law: "invar q \<Longrightarrow> lookup q h = map_of (entries q) h"
    and first_law: "invar q \<Longrightarrow> first q = (case entries q of [] \<Rightarrow> None | x # _ \<Rightarrow> Some (fst x))"
begin

text \<open>Keys with a projection of the values: what a client that ignores handles sees.\<close>

definition view :: "('v \<Rightarrow> 'p) \<Rightarrow> 'q \<Rightarrow> (int \<times> 'p) list" where
  "view p q = map (\<lambda>(_, k, v). (k, p v)) (entries q)"

lemma view_ins:
  "map (\<lambda>(_, k, v). (k, p v)) (ins_entry (h, k, v) xs) = insort_key fst (k, p v) (map (\<lambda>(_, k, v). (k, p v)) xs)"
  by (induction xs) (auto simp: ins_entry_def)

lemma insert_view:
  assumes "invar q" "rand_ok rnd"
  shows "\<exists>h w' q'. insert rnd w q k v = Some (h, w', q') \<and> invar q' \<and> h \<notin> fst ` set (entries q) \<and>
    entries q' = ins_entry (h, k, v) (entries q) \<and>
    lookup q' = (lookup q)(h \<mapsto> (k, v)) \<and> view p q' = insort_key fst (k, p v) (view p q)"
proof -
  let ?P = "\<lambda>y. fst (snd y) < k"
  from insert_law [OF assms, of w k v] obtain h w' q' where
    q': "insert rnd w q k v = Some (h, w', q')" "invar q'" "h \<notin> fst ` set (entries q)"
    "entries q' = ins_entry (h, k, v) (entries q)" by blast
  have "h \<notin> fst ` set (takeWhile ?P (entries q))"
    using q'(3) by (auto dest: set_takeWhileD)
  from map_of_insert [OF this, of "(k, v)" "dropWhile ?P (entries q)"]
  have "lookup q' = (lookup q)(h \<mapsto> (k, v))"
    by (simp add: fun_eq_iff lookup_law [OF q'(2)] lookup_law [OF assms(1)] q'(4) ins_entry_def del: map_of_append)
  moreover have "view p q' = insort_key fst (k, p v) (view p q)"
    by (simp add: view_def q'(4) view_ins)
  ultimately show ?thesis using q' by blast
qed

lemma remove_view:
  assumes "invar q" "lookup q h = Some (k, v)"
    and "\<And>h' k' v'. lookup q h' = Some (k', v') \<Longrightarrow> p v' = p v \<Longrightarrow> h' = h"
  shows "\<exists>q'. remove q h = Some q' \<and> invar q' \<and> entries q' = filter (\<lambda>x. fst x \<noteq> h) (entries q) \<and>
    lookup q' = (lookup q)(h := None) \<and> view p q' = filter (\<lambda>x. snd x \<noteq> p v) (view p q)"
proof -
  have dist: "distinct (map fst (entries q))" using order_law [OF assms(1)] by blast
  have mem: "lookup q h' = Some x \<longleftrightarrow> (h', x) \<in> set (entries q)" for h' x
    using dist by (simp add: lookup_law [OF assms(1)])
  have "h \<in> fst ` set (entries q)" using assms(2) by (force simp: mem)
  from remove_law [OF assms(1) this] obtain q' where
    q': "remove q h = Some q'" "invar q'" "entries q' = filter (\<lambda>x. fst x \<noteq> h) (entries q)" by blast
  have "lookup q' = (lookup q)(h := None)"
    by (simp add: fun_eq_iff lookup_law [OF q'(2)] lookup_law [OF assms(1)] q'(3) map_of_remove)
  moreover have iff: "fst x \<noteq> h \<longleftrightarrow> p (snd (snd x)) \<noteq> p v" if "x \<in> set (entries q)" for x
  proof -
    have x: "lookup q (fst x) = Some (fst (snd x), snd (snd x))" using that by (simp add: mem)
    have "snd (snd x) = v" if "fst x = h" using x assms(2) that by (cases x) auto
    with assms(3) [OF x] show ?thesis by blast
  qed
  have "filter (\<lambda>x. fst x \<noteq> h) (entries q) = filter (\<lambda>x. p (snd (snd x)) \<noteq> p v) (entries q)"
    by (rule filter_cong [OF refl iff])
  then have "view p q' = filter (\<lambda>x. snd x \<noteq> p v) (view p q)"
    by (simp add: view_def q'(3) filter_map comp_def case_prod_beta)
  ultimately show ?thesis using q' by blast
qed

lemma first_least:
  assumes "invar q" "first q = Some h" "lookup q h' = Some (k', v')"
  shows "\<exists>k v. lookup q h = Some (k, v) \<and> k \<le> k'"
proof -
  from first_law [OF assms(1)] assms(2) obtain k v xs where xs: "entries q = (h, k, v) # xs"
    by (cases "entries q") auto
  then have "lookup q h = Some (k, v)" by (simp add: lookup_law [OF assms(1)])
  moreover have "(h', k', v') \<in> set (entries q)"
    using assms(3) by (simp add: lookup_law [OF assms(1)] map_of_SomeD)
  with xs order_law [OF assms(1)] have "k \<le> k'" by auto
  ultimately show ?thesis by blast
qed

lemma first_None: "invar q \<Longrightarrow> first q = None \<longleftrightarrow> entries q = []"
  by (simp add: first_law split: list.splits)

end

interpretation sk: ordered_queue skiplist_insert skiplist_remove_skipnode sk_lookup sk_first sk_entries sk_inv rand_ends
  by unfold_locales
    (erule sk_entries_order | erule (1) sk_insert_entries | erule (1) sk_remove_entries |
     erule sk_lookup_entries | erule sk_first_entries)+

subsection \<open>Properties\<close>

primrec skiplist_inserts :: "('w \<Rightarrow> 32 word \<times> 'w) \<Rightarrow> (int \<times> 'v) list \<Rightarrow> 'w \<Rightarrow> 'v skiplist_t \<Rightarrow> 'v skiplist_t option" where
  "skiplist_inserts rnd [] w l = Some l"
| "skiplist_inserts rnd (x # xs) w l = do {
     (_, w, l) \<leftarrow> skiplist_insert rnd w l (fst x) (snd x);
     skiplist_inserts rnd xs w l
   }"

lemma skiplist_inserts_ok:
  "sk_inv l \<Longrightarrow> rand_ends rnd \<Longrightarrow>
   \<exists>l'. skiplist_inserts rnd xs w l = Some l' \<and> sk_inv l' \<and> sk_items l' = fold (insort_key fst) xs (sk_items l)"
proof (induction xs arbitrary: w l)
  case (Cons x xs)
  from skiplist_insert_ok [OF Cons.prems, of w "fst x" "snd x"] obtain w' l1 where
    "skiplist_insert rnd w l (fst x) (snd x) = Some (sl_brk l, w', l1)" "sk_inv l1"
    "sk_items l1 = insort_key fst x (sk_items l)" by auto
  with Cons.IH [of l1 w'] Cons.prems(2) show ?case by auto
qed simp

lemma sk_items_sorted: "sk_inv l \<Longrightarrow> sorted (map fst (sk_items l))"
  by (simp add: sk_inv_def sk_rep_def sk_items_def comp_def)

text \<open>
  C5: the life of a skip list.  From \<open>skiplist_create\<close> any sequence of
  \<open>skiplist_insert\<close> calls runs without a fault and ends, whatever levels the random source
  draws; the bottom lane then holds exactly the inserted pairs in key order, equal keys with
  the latest insertion first (it refines \<open>insort_key\<close>), every lane is a doubly linked ring
  over the nodes tall enough for it, and \<open>skiplist_destroy\<close> frees every node.
\<close>

theorem skiplist_life:
  assumes "rand_ends rnd"
  shows "\<exists>l0 l l'. skiplist_create = Some l0 \<and> skiplist_inserts rnd xs w l0 = Some l \<and> sk_inv l \<and>
    sk_items l = fold (insort_key fst) xs [] \<and> sorted (map fst (sk_items l)) \<and>
    skiplist_destroy l = Some l' \<and> sl_nodes l' = Map.empty"
proof -
  obtain l0 :: "'b skiplist_t" where l0: "skiplist_create = Some l0" "sk_inv l0" "sk_list l0 = []"
    using skiplist_create_ok by blast
  have "sk_items l0 = []" using l0(3) by (simp add: sk_items_def)
  with skiplist_inserts_ok [OF l0(2) assms, of xs w] obtain l where
    l: "skiplist_inserts rnd xs w l0 = Some l" "sk_inv l" "sk_items l = fold (insort_key fst) xs []" by auto
  obtain l' where "skiplist_destroy l = Some l'" "sl_nodes l' = Map.empty"
    using skiplist_destroy_ok l(2) unfolding sk_inv_def by blast
  with l0(1) l sk_items_sorted [OF l(2)] show ?thesis by blast
qed

text \<open>A random source for the examples: every draw is high.\<close>

definition high_rand :: "nat \<Rightarrow> 32 word \<times> nat" where
  "high_rand w = (0xffff, Suc w)"

lemma high_rand_ends: "rand_ends high_rand"
  unfolding rand_ends_def by (intro allI exI [of _ 0]) (simp add: high_rand_def rand_low_def)

theorem skiplist_life_witness:
  "rand_ends high_rand \<and>
   (\<exists>l0 l l'. skiplist_create = Some l0 \<and> skiplist_inserts high_rand [(5, ''a''), (3, ''b''), (5, ''c'')] 0 l0 = Some l \<and>
      sk_inv l \<and> sk_items l = [(3, ''b''), (5, ''c''), (5, ''a'')] \<and> sorted (map fst (sk_items l)) \<and>
      skiplist_destroy l = Some l' \<and> sl_nodes l' = Map.empty)"
  using skiplist_life [OF high_rand_ends, of "[(5, ''a''), (3, ''b''), (5, ''c'')]" 0] high_rand_ends by simp

text \<open>
  C37: \<open>skiplist_remove_skipnode\<close> with a node of the list runs without a
  fault, takes that node and no other out of every lane, frees it, and keeps the list well
  formed.
\<close>

theorem skiplist_remove_exact:
  assumes "sk_inv l" "a \<in> set (sk_list l)"
  shows "\<exists>l'. skiplist_remove_skipnode l a = Some l' \<and> sk_inv l' \<and> sk_list l' = remove1 a (sk_list l) \<and>
    sl_nodes l' = (sl_nodes l)(a := None)"
  using assms by (rule skiplist_remove_ok)

text \<open>
  \<open>skiplist_random_level\<close> ends and its level is between 1 and 32,
  provided the random source does not stay below a quarter of its range forever.
\<close>

lemma skiplist_level_bounds:
  assumes "rand_ends rnd"
  shows "\<exists>level w'. skiplist_random_level rnd w = Some (level, w') \<and> 1 \<le> level \<and> level \<le> SKIPLIST_MAX_LEVEL"
  using assms by (rule skiplist_random_level_ok)

lemma one_insert:
  obtains l :: "string skiplist_t" and a where "sk_inv l" "sk_list l = [a]"
proof -
  obtain l0 :: "string skiplist_t" where l0: "skiplist_create = Some l0" "sk_inv l0" "sk_list l0 = []"
    using skiplist_create_ok by blast
  from skiplist_insert_ok [OF l0(2) high_rand_ends, of 0 5 "''a''"] l0(3) that show ?thesis by auto
qed

theorem skiplist_remove_exact_witness:
  "\<exists>(l :: string skiplist_t) a l'. sk_inv l \<and> a \<in> set (sk_list l) \<and> skiplist_remove_skipnode l a = Some l' \<and> sk_list l' = []"
proof -
  obtain l :: "string skiplist_t" and a where l: "sk_inv l" "sk_list l = [a]" by (rule one_insert)
  from skiplist_remove_exact [OF l(1), of a] l(2) obtain l' where
    "skiplist_remove_skipnode l a = Some l'" "sk_list l' = []" by auto
  with l show ?thesis by (metis list.set_intros(1))
qed

end
