(* ===== verification/Mnet_Types.thy ===== *)
theory Mnet_Types
  imports Rwb Skiplist
begin

unbundle bit_operations_syntax

text \<open>
  The data of the library (src/src/mnet_core.h, src/src/mnet_core.c lines 90--221), and
  what it calls outside itself.

  \<open>mnet_t\<close> is the single global object; the model adds to it the memory of the channels
  (\<open>g_heap\<close>, an address absent from it is not allocated), the allocator's next address,
  \<open>errno\<close> and the state of the outside world.  The operating system, the random source
  and the callbacks of an application or an extension are the fields of \<open>env\<close>: each
  takes the world and returns a result and a new world.  Function pointers are names
  (\<open>fnptr\<close>); the internal ones are interpreted by the theory Ext, the others by \<open>env\<close>.
  The preprocessor branches of Linux are the ones modelled.
\<close>

definition MNET_BUF_SIZE :: int where "MNET_BUF_SIZE = 64 * 1024"
definition MNET_EXT_MAX_SIZE :: int where "MNET_EXT_MAX_SIZE = 8"

definition CHANN_TYPE_STREAM :: int where "CHANN_TYPE_STREAM = 1"
definition CHANN_TYPE_DGRAM :: int where "CHANN_TYPE_DGRAM = 2"
definition CHANN_TYPE_BROADCAST :: int where "CHANN_TYPE_BROADCAST = 3"

lemmas ctype_defs = CHANN_TYPE_STREAM_def CHANN_TYPE_DGRAM_def CHANN_TYPE_BROADCAST_def MNET_EXT_MAX_SIZE_def

datatype chann_state =
    CHANN_STATE_CLOSED | CHANN_STATE_DISCONNECT | CHANN_STATE_CONNECTING
  | CHANN_STATE_CONNECTED | CHANN_STATE_LISTENING

fun state_val :: "chann_state \<Rightarrow> int" where
  "state_val CHANN_STATE_CLOSED = 0"
| "state_val CHANN_STATE_DISCONNECT = 1"
| "state_val CHANN_STATE_CONNECTING = 2"
| "state_val CHANN_STATE_CONNECTED = 3"
| "state_val CHANN_STATE_LISTENING = 4"

text \<open>The code compares states with \<open><\<close>: the order of their numbers.\<close>

instantiation chann_state :: linorder
begin

definition less_eq_chann_state :: "chann_state \<Rightarrow> chann_state \<Rightarrow> bool" where
  "less_eq_chann_state a b \<longleftrightarrow> state_val a \<le> state_val b"

definition less_chann_state :: "chann_state \<Rightarrow> chann_state \<Rightarrow> bool" where
  "less_chann_state a b \<longleftrightarrow> state_val a < state_val b"

instance
proof
  fix x y z :: chann_state
  show "x < y \<longleftrightarrow> x \<le> y \<and> \<not> y \<le> x" by (auto simp: less_chann_state_def less_eq_chann_state_def)
  show "x \<le> x" by (simp add: less_eq_chann_state_def)
  show "x \<le> z" if "x \<le> y" "y \<le> z" using that by (simp add: less_eq_chann_state_def)
  show "x = y" if "x \<le> y" "y \<le> x"
    using that by (cases x; cases y) (simp_all add: less_eq_chann_state_def)
  show "x \<le> y \<or> y \<le> x" by (auto simp: less_eq_chann_state_def)
qed

end

lemmas state_order = less_chann_state_def less_eq_chann_state_def

datatype chann_event =
    CHANN_EVENT_RECV | CHANN_EVENT_SEND | CHANN_EVENT_ACCEPT
  | CHANN_EVENT_CONNECTED | CHANN_EVENT_DISCONNECT | CHANN_EVENT_TIMER

text \<open>The body of a message before the first event is zero: no event.\<close>

record chann_msg_t =
  m_event :: "chann_event option"
  m_err :: int
  m_n :: "addr option"
  m_r :: "addr option"
  m_opaque :: "addr option"

record sockaddr_in =
  sin_family :: int
  sin_port :: "16 word"
  sin_addr :: "32 word"

text \<open>\<open>chann_addr_t\<close>: an array of 17 characters and a port.\<close>

record chann_addr_t =
  ca_ip :: "char list"
  ca_port :: int

record chann_tm_t =
  tm_interval :: int
  tm_time :: int
  tm_chann :: addr

record chann_t =
  c_fd :: int
  c_state :: chann_state
  c_ctype :: int
  c_opaque :: "addr option"
  c_ext_ud :: "addr option"
  c_addr :: sockaddr_in
  c_addr_len :: int
  c_timer_node :: "addr option"
  c_rwb_send :: rwb_head_t
  c_prev :: "addr option"
  c_next :: "addr option"
  c_del_next :: "addr option"
  c_dis_next :: "addr option"
  c_bytes_send :: int
  c_bytes_recv :: int
  c_buf_size :: int
  c_active_send_event :: bool
  c_epoll_events :: "32 word"
  c_msg :: chann_msg_t

definition addr_zero :: sockaddr_in where
  "addr_zero = \<lparr>sin_family = 0, sin_port = 0, sin_addr = 0\<rparr>"

definition sizeof_sockaddr_in :: int where
  "sizeof_sockaddr_in = 16"

text \<open>\<open>mm_malloc\<close> zeroes the memory it returns.\<close>

definition chann_zero :: chann_t where
  "chann_zero = \<lparr>c_fd = 0, c_state = CHANN_STATE_CLOSED, c_ctype = 0, c_opaque = None, c_ext_ud = None,
     c_addr = addr_zero, c_addr_len = 0, c_timer_node = None, c_rwb_send = rwb_zero, c_prev = None,
     c_next = None, c_del_next = None, c_dis_next = None, c_bytes_send = 0, c_bytes_recv = 0,
     c_buf_size = 0, c_active_send_event = False, c_epoll_events = 0,
     c_msg = \<lparr>m_event = None, m_err = 0, m_n = None, m_r = None, m_opaque = None\<rparr>\<rparr>"

record mevent_t =
  ev_events :: "32 word"
  ev_ptr :: "addr option"

record s_event =
  se_size :: int
  se_count :: int
  se_array :: "mevent_t list"

datatype fnptr =
    F_ext_type_fn | F_ext_filter_fn | F_ext_op_cb | F_ext_state_fn
  | F_ext_stream_recv | F_ext_dgram_recv | F_ext_stream_send | F_ext_dgram_send
  | F_extern nat

record mnet_ext_t =
  e_reserved :: bool
  e_ext_ctx :: "addr option"
  e_type_fn :: "fnptr option"
  e_filter_fn :: "fnptr option"
  e_open_cb :: "fnptr option"
  e_close_cb :: "fnptr option"
  e_listen_cb :: "fnptr option"
  e_accept_cb :: "fnptr option"
  e_connect_cb :: "fnptr option"
  e_disconnect_cb :: "fnptr option"
  e_state_fn :: "fnptr option"
  e_recv_fn :: "fnptr option"
  e_send_fn :: "fnptr option"

definition ext_zero :: mnet_ext_t where
  "ext_zero = \<lparr>e_reserved = False, e_ext_ctx = None, e_type_fn = None, e_filter_fn = None, e_open_cb = None,
     e_close_cb = None, e_listen_cb = None, e_accept_cb = None, e_connect_cb = None, e_disconnect_cb = None,
     e_state_fn = None, e_recv_fn = None, e_send_fn = None\<rparr>"

datatype accept_fn = Accept | Multiprocess_accept

record 'w mnet_t =
  g_init :: bool
  g_chann_count :: int
  g_channs :: "addr option"
  g_del_channs :: "addr option"
  g_dis_channs :: "addr option"
  g_kq :: int
  g_chg :: s_event
  g_evt :: s_event
  g_ext_config :: "mnet_ext_t list"
  g_fd_count :: int
  g_fd_index :: int
  g_tm_clock :: "chann_tm_t skiplist_t option"
  g_tm_pos :: "link option"
  g_tm_current :: int
  g_ac_context :: "addr option"
  g_ac_fn :: "accept_fn option"
  g_ac_before :: "nat option"
  g_ac_after :: "nat option"
  g_heap :: "addr \<rightharpoonup> chann_t"
  g_brk :: addr
  g_errno :: int
  g_world :: 'w

definition s_event_zero :: s_event where
  "s_event_zero = \<lparr>se_size = 0, se_count = 0, se_array = []\<rparr>"

text \<open>The zeroed global object; memory, errno and world are not part of it.\<close>

definition mnet_zero :: "'w mnet_t \<Rightarrow> 'w mnet_t" where
  "mnet_zero s = s\<lparr>g_init := False, g_chann_count := 0, g_channs := None, g_del_channs := None,
     g_dis_channs := None, g_kq := 0, g_chg := s_event_zero, g_evt := s_event_zero,
     g_ext_config := replicate 8 ext_zero, g_fd_count := 0, g_fd_index := 0, g_tm_clock := None,
     g_tm_pos := None, g_tm_current := 0, g_ac_context := None, g_ac_fn := None, g_ac_before := None,
     g_ac_after := None\<rparr>"

text \<open>The program at its start.\<close>

definition mnet_start :: "'w \<Rightarrow> 'w mnet_t" where
  "mnet_start w = \<lparr>g_init = False, g_chann_count = 0, g_channs = None, g_del_channs = None,
     g_dis_channs = None, g_kq = 0, g_chg = s_event_zero, g_evt = s_event_zero,
     g_ext_config = replicate 8 ext_zero, g_fd_count = 0, g_fd_index = 0, g_tm_clock = None,
     g_tm_pos = None, g_tm_current = 0, g_ac_context = None, g_ac_fn = None, g_ac_before = None,
     g_ac_after = None, g_heap = Map.empty, g_brk = 1, g_errno = 0, g_world = w\<rparr>"

text \<open>
  A system call returns its value, the errno it sets (None when it leaves errno alone)
  and the new world.
\<close>

type_synonym 'w sysret = "int \<times> int option \<times> 'w"

datatype sockopt = SO_BROADCAST | SO_KEEPALIVE | SO_REUSEADDR | SO_SNDBUF | SO_RCVBUF

record 'w env =
  sys_gettimeofday :: "'w \<Rightarrow> (int \<times> int) \<times> 'w"
  sys_rand :: "'w \<Rightarrow> 32 word \<times> 'w"
  sys_srand :: "int \<Rightarrow> 'w \<Rightarrow> 'w"
  sys_sigpipe_ign :: "'w \<Rightarrow> 'w"
  sys_socket :: "bool \<Rightarrow> 'w \<Rightarrow> 'w sysret"
  sys_close :: "int \<Rightarrow> 'w \<Rightarrow> 'w sysret"
  sys_setsockopt :: "int \<Rightarrow> sockopt \<Rightarrow> int \<Rightarrow> 'w \<Rightarrow> 'w sysret"
  sys_getsockopt_error :: "int \<Rightarrow> 'w \<Rightarrow> int \<times> int \<times> int option \<times> 'w"
  sys_fcntl_getfl :: "int \<Rightarrow> 'w \<Rightarrow> 'w sysret"
  sys_fcntl_setfl :: "int \<Rightarrow> int \<Rightarrow> 'w \<Rightarrow> 'w sysret"
  sys_bind :: "int \<Rightarrow> sockaddr_in \<Rightarrow> 'w \<Rightarrow> 'w sysret"
  sys_listen :: "int \<Rightarrow> int \<Rightarrow> 'w \<Rightarrow> 'w sysret"
  sys_accept :: "int \<Rightarrow> 'w \<Rightarrow> int \<times> sockaddr_in \<times> int option \<times> 'w"
  sys_connect :: "int \<Rightarrow> sockaddr_in \<Rightarrow> 'w \<Rightarrow> 'w sysret"
  sys_recv :: "int \<Rightarrow> int \<Rightarrow> 'w \<Rightarrow> int \<times> byte list \<times> int option \<times> 'w"
  sys_recvfrom :: "int \<Rightarrow> int \<Rightarrow> 'w \<Rightarrow> int \<times> byte list \<times> (sockaddr_in \<times> int) option \<times> int option \<times> 'w"
  sys_send :: "int \<Rightarrow> byte list \<Rightarrow> 'w \<Rightarrow> 'w sysret"
  sys_sendto :: "int \<Rightarrow> byte list \<Rightarrow> sockaddr_in \<Rightarrow> 'w \<Rightarrow> 'w sysret"
  sys_getpeername :: "int \<Rightarrow> 'w \<Rightarrow> int \<times> sockaddr_in \<times> int option \<times> 'w"
  sys_epoll_create :: "int \<Rightarrow> 'w \<Rightarrow> 'w sysret"
  sys_epoll_ctl :: "int \<Rightarrow> int \<Rightarrow> int \<Rightarrow> mevent_t \<Rightarrow> 'w \<Rightarrow> 'w sysret"
  sys_epoll_wait :: "int \<Rightarrow> int \<Rightarrow> 32 word \<Rightarrow> 'w \<Rightarrow> int \<times> mevent_t list \<times> int option \<times> 'w"
  sys_inet_addr :: "string \<Rightarrow> 32 word"
  sys_inet_ntoa :: "32 word \<Rightarrow> string"
  x_type_fn :: "nat \<Rightarrow> addr option \<Rightarrow> int \<Rightarrow> int"
  x_filter_fn :: "nat \<Rightarrow> addr option \<Rightarrow> addr \<Rightarrow> 'w mnet_t \<Rightarrow> (int \<times> 'w mnet_t) option"
  x_op_cb :: "nat \<Rightarrow> addr option \<Rightarrow> addr \<Rightarrow> 'w mnet_t \<Rightarrow> 'w mnet_t option"
  x_state_fn :: "nat \<Rightarrow> addr option \<Rightarrow> addr \<Rightarrow> int \<Rightarrow> 'w mnet_t \<Rightarrow> int option"
  x_recv_fn :: "nat \<Rightarrow> addr option \<Rightarrow> addr \<Rightarrow> int \<Rightarrow> 'w mnet_t \<Rightarrow> (int \<times> byte list \<times> 'w mnet_t) option"
  x_send_fn :: "nat \<Rightarrow> addr option \<Rightarrow> addr \<Rightarrow> byte list \<Rightarrow> 'w mnet_t \<Rightarrow> (int \<times> 'w mnet_t) option"
  x_balancer :: "nat \<Rightarrow> addr option \<Rightarrow> int \<Rightarrow> 'w mnet_t \<Rightarrow> (int \<times> 'w mnet_t) option"

text \<open>Errno values of Linux that the code compares with.\<close>

definition EINTR :: int where "EINTR = 4"
definition EWOULDBLOCK :: int where "EWOULDBLOCK = 11"
definition EINPROGRESS :: int where "EINPROGRESS = 115"
definition AF_INET :: int where "AF_INET = 2"
definition O_NONBLOCK :: int where "O_NONBLOCK = 2048"

definition set_errno :: "int option \<Rightarrow> 'w mnet_t \<Rightarrow> 'w mnet_t" where
  "set_errno e s = (case e of None \<Rightarrow> s | Some n \<Rightarrow> s\<lparr>g_errno := n\<rparr>)"

definition syscall :: "('w \<Rightarrow> 'w sysret) \<Rightarrow> 'w mnet_t \<Rightarrow> int \<times> 'w mnet_t" where
  "syscall f s = (let (r, e, w) = f (g_world s) in (r, (set_errno e s)\<lparr>g_world := w\<rparr>))"

text \<open>Writing through a channel pointer.\<close>

definition upd_chann :: "addr \<Rightarrow> (chann_t \<Rightarrow> chann_t) \<Rightarrow> 'w mnet_t \<Rightarrow> 'w mnet_t option" where
  "upd_chann n f s = do { c \<leftarrow> g_heap s n; Some (s\<lparr>g_heap := (g_heap s)(n \<mapsto> f c)\<rparr>) }"

lemma upd_chann_eq [mem_simps]:
  "g_heap s n = Some c \<Longrightarrow> upd_chann n f s = Some (s\<lparr>g_heap := (g_heap s)(n \<mapsto> f c)\<rparr>)"
  by (simp add: upd_chann_def)

text \<open>A system call changes nothing but errno and the world.\<close>

definition same_core :: "'w mnet_t \<Rightarrow> 'w mnet_t \<Rightarrow> bool" where
  "same_core s s' \<longleftrightarrow> (\<exists>e w. s' = s\<lparr>g_errno := e, g_world := w\<rparr>)"

lemma same_coreI: "same_core s (s\<lparr>g_errno := e, g_world := w\<rparr>)"
  unfolding same_core_def by (rule exI)+ (rule refl)

lemma same_coreE:
  assumes "same_core s s'"
  obtains e w where "s' = s\<lparr>g_errno := e, g_world := w\<rparr>"
  using assms unfolding same_core_def by blast

lemma same_core_upd [simp]:
  "same_core s (s\<lparr>g_world := w\<rparr>)" "same_core s (s\<lparr>g_errno := e\<rparr>)" "same_core s (s\<lparr>g_errno := e, g_world := w\<rparr>)"
  using same_coreI [where s = s and e = "g_errno s" and w = w]
    same_coreI [where s = s and e = e and w = "g_world s"]
    same_coreI [where s = s and e = e and w = w] by simp_all

lemma same_core_refl [simp]: "same_core s s"
  using same_coreI [where s = s and e = "g_errno s" and w = "g_world s"] by simp

lemma same_core_trans:
  assumes "same_core s t" "same_core t u" shows "same_core s u"
proof -
  obtain e w where t: "t = s\<lparr>g_errno := e, g_world := w\<rparr>" using assms(1) by (rule same_coreE)
  obtain e' w' where u: "u = t\<lparr>g_errno := e', g_world := w'\<rparr>" using assms(2) by (rule same_coreE)
  show ?thesis using same_coreI [where s = s and e = e' and w = w'] by (simp add: t u)
qed

lemma same_core_syscall: "syscall f s = (r, s') \<Longrightarrow> same_core s s'"
  by (auto simp: syscall_def set_errno_def Let_def split: prod.splits option.splits)

end
