(* ===== verification/Ext.thy ===== *)
theory Ext
  imports Mnet_Types
begin

text \<open>
  The extension table and the messages, src/src/mnet_core.c lines 637--713 and 829--838.

  A channel type selects an entry of \<open>ext_config\<close>, whose functions are called at every
  operation.  The internal entries (stream, datagram, broadcast) pass through; the others
  are parameters.
\<close>

definition ext_config :: "'w mnet_t \<Rightarrow> int \<Rightarrow> mnet_ext_t option" where
  "ext_config s ctype = rd (g_ext_config s) ctype"

definition ext_type_fn :: "int \<Rightarrow> int" where
  "ext_type_fn ctype = ctype"

definition ext_filter_fn :: "addr \<Rightarrow> 'w mnet_t \<Rightarrow> int \<times> 'w mnet_t" where
  "ext_filter_fn n s = (1, s)"

definition ext_op_cb :: "addr \<Rightarrow> 'w mnet_t \<Rightarrow> 'w mnet_t" where
  "ext_op_cb n s = s"

definition ext_state_fn :: "int \<Rightarrow> int" where
  "ext_state_fn state = state"

text \<open>\<open>if (ret<0 && errno==EWOULDBLOCK) ret = 0;\<close>\<close>

definition mask_wouldblock :: "int \<Rightarrow> 'w mnet_t \<Rightarrow> int" where
  "mask_wouldblock ret s = (if ret < 0 \<and> g_errno s = EWOULDBLOCK then 0 else ret)"

definition ext_stream_recv :: "'w env \<Rightarrow> addr \<Rightarrow> int \<Rightarrow> 'w mnet_t \<Rightarrow> (int \<times> byte list \<times> 'w mnet_t) option" where
  "ext_stream_recv env n len s = do {
     c \<leftarrow> g_heap s n;
     let (ret, bs, e, w) = sys_recv env (c_fd c) len (g_world s);
     let s = (set_errno e s)\<lparr>g_world := w\<rparr>;
     Some (mask_wouldblock ret s, bs, s)
   }"

definition ext_dgram_recv :: "'w env \<Rightarrow> addr \<Rightarrow> int \<Rightarrow> 'w mnet_t \<Rightarrow> (int \<times> byte list \<times> 'w mnet_t) option" where
  "ext_dgram_recv env n len s = do {
     c \<leftarrow> g_heap s n;
     let (ret, bs, from, e, w) = sys_recvfrom env (c_fd c) len (g_world s);
     let s = (set_errno e s)\<lparr>g_world := w\<rparr>;
     s \<leftarrow> (case from of None \<Rightarrow> Some s
          | Some (a, l) \<Rightarrow> upd_chann n (\<lambda>c. c\<lparr>c_addr := a, c_addr_len := l\<rparr>) s);
     Some (mask_wouldblock ret s, bs, s)
   }"

definition ext_stream_send :: "'w env \<Rightarrow> addr \<Rightarrow> byte list \<Rightarrow> 'w mnet_t \<Rightarrow> (int \<times> 'w mnet_t) option" where
  "ext_stream_send env n buf s = do {
     c \<leftarrow> g_heap s n;
     let (ret, s) = syscall (sys_send env (c_fd c) buf) s;
     Some (mask_wouldblock ret s, s)
   }"

definition ext_dgram_send :: "'w env \<Rightarrow> addr \<Rightarrow> byte list \<Rightarrow> 'w mnet_t \<Rightarrow> (int \<times> 'w mnet_t) option" where
  "ext_dgram_send env n buf s = do {
     c \<leftarrow> g_heap s n;
     let (ret, s) = syscall (sys_sendto env (c_fd c) buf (c_addr c)) s;
     Some (mask_wouldblock ret s, s)
   }"

definition ext_internal_config :: mnet_ext_t where
  "ext_internal_config = \<lparr>e_reserved = False, e_ext_ctx = None, e_type_fn = Some F_ext_type_fn,
     e_filter_fn = Some F_ext_filter_fn, e_open_cb = Some F_ext_op_cb, e_close_cb = Some F_ext_op_cb,
     e_listen_cb = Some F_ext_op_cb, e_accept_cb = Some F_ext_op_cb, e_connect_cb = Some F_ext_op_cb,
     e_disconnect_cb = Some F_ext_op_cb, e_state_fn = Some F_ext_state_fn, e_recv_fn = None, e_send_fn = None\<rparr>"

text \<open>The entry that \<open>mnet_init\<close> writes for an internal channel type.\<close>

definition init_ext :: "int \<Rightarrow> mnet_ext_t" where
  "init_ext i = ext_internal_config\<lparr>e_reserved := True,
     e_recv_fn := Some (if i = CHANN_TYPE_STREAM then F_ext_stream_recv else F_ext_dgram_recv),
     e_send_fn := Some (if i = CHANN_TYPE_STREAM then F_ext_stream_send else F_ext_dgram_send)\<rparr>"

text \<open>
  Calls through the table.  A NULL pointer, or one to a function of another kind, has no
  result.
\<close>

definition call_type_fn :: "'w env \<Rightarrow> mnet_ext_t \<Rightarrow> int \<Rightarrow> int option" where
  "call_type_fn env ext ctype =
     (case e_type_fn ext of
        Some F_ext_type_fn \<Rightarrow> Some (ext_type_fn ctype)
      | Some (F_extern k) \<Rightarrow> Some (x_type_fn env k (e_ext_ctx ext) ctype)
      | _ \<Rightarrow> None)"

definition call_filter_fn :: "'w env \<Rightarrow> mnet_ext_t \<Rightarrow> addr \<Rightarrow> 'w mnet_t \<Rightarrow> (int \<times> 'w mnet_t) option" where
  "call_filter_fn env ext n s =
     (case e_filter_fn ext of
        Some F_ext_filter_fn \<Rightarrow> Some (ext_filter_fn n s)
      | Some (F_extern k) \<Rightarrow> x_filter_fn env k (e_ext_ctx ext) n s
      | _ \<Rightarrow> None)"

definition call_op_cb :: "'w env \<Rightarrow> fnptr option \<Rightarrow> mnet_ext_t \<Rightarrow> addr \<Rightarrow> 'w mnet_t \<Rightarrow> 'w mnet_t option" where
  "call_op_cb env cb ext n s =
     (case cb of
        Some F_ext_op_cb \<Rightarrow> Some (ext_op_cb n s)
      | Some (F_extern k) \<Rightarrow> x_op_cb env k (e_ext_ctx ext) n s
      | _ \<Rightarrow> None)"

definition call_state_fn :: "'w env \<Rightarrow> mnet_ext_t \<Rightarrow> addr \<Rightarrow> int \<Rightarrow> 'w mnet_t \<Rightarrow> int option" where
  "call_state_fn env ext n state s =
     (case e_state_fn ext of
        Some F_ext_state_fn \<Rightarrow> Some (ext_state_fn state)
      | Some (F_extern k) \<Rightarrow> x_state_fn env k (e_ext_ctx ext) n state s
      | _ \<Rightarrow> None)"

definition call_recv_fn :: "'w env \<Rightarrow> mnet_ext_t \<Rightarrow> addr \<Rightarrow> int \<Rightarrow> 'w mnet_t \<Rightarrow>
    (int \<times> byte list \<times> 'w mnet_t) option" where
  "call_recv_fn env ext n len s =
     (case e_recv_fn ext of
        Some F_ext_stream_recv \<Rightarrow> ext_stream_recv env n len s
      | Some F_ext_dgram_recv \<Rightarrow> ext_dgram_recv env n len s
      | Some (F_extern k) \<Rightarrow> x_recv_fn env k (e_ext_ctx ext) n len s
      | _ \<Rightarrow> None)"

definition call_send_fn :: "'w env \<Rightarrow> mnet_ext_t \<Rightarrow> addr \<Rightarrow> byte list \<Rightarrow> 'w mnet_t \<Rightarrow>
    (int \<times> 'w mnet_t) option" where
  "call_send_fn env ext n buf s =
     (case e_send_fn ext of
        Some F_ext_stream_send \<Rightarrow> ext_stream_send env n buf s
      | Some F_ext_dgram_send \<Rightarrow> ext_dgram_send env n buf s
      | Some (F_extern k) \<Rightarrow> x_send_fn env k (e_ext_ctx ext) n buf s
      | _ \<Rightarrow> None)"

definition chann_msg :: "'w env \<Rightarrow> addr \<Rightarrow> chann_event \<Rightarrow> addr option \<Rightarrow> int \<Rightarrow> 'w mnet_t \<Rightarrow>
    (int \<times> 'w mnet_t) option" where
  "chann_msg env n event r err s = do {
     s \<leftarrow> upd_chann n (\<lambda>c. c\<lparr>c_msg := \<lparr>m_event = Some event, m_err = err, m_n = Some n, m_r = r,
                                          m_opaque = c_opaque c\<rparr>\<rparr>) s;
     c \<leftarrow> g_heap s n;
     ext \<leftarrow> ext_config s (c_ctype c);
     call_filter_fn env ext n s
   }"

subsection \<open>The internal channel types\<close>

definition internal :: "int \<Rightarrow> bool" where
  "internal ct \<longleftrightarrow> ct = CHANN_TYPE_STREAM \<or> ct = CHANN_TYPE_DGRAM \<or> ct = CHANN_TYPE_BROADCAST"

text \<open>The table as \<open>mnet_init\<close> leaves it and \<open>mnet_ext_register\<close> keeps it.\<close>

definition cfg_ok :: "'w mnet_t \<Rightarrow> bool" where
  "cfg_ok s \<longleftrightarrow> length (g_ext_config s) = 8 \<and>
     g_ext_config s ! 1 = init_ext CHANN_TYPE_STREAM \<and> g_ext_config s ! 2 = init_ext CHANN_TYPE_DGRAM \<and>
     g_ext_config s ! 3 = init_ext CHANN_TYPE_BROADCAST"

lemma ext_config_internal [step_simps]:
  "cfg_ok s \<Longrightarrow> internal ct \<Longrightarrow> ext_config s ct = Some (init_ext ct)"
  by (auto simp: cfg_ok_def internal_def ext_config_def rd_def ctype_defs)

lemma init_ext_calls [step_simps]:
  "call_type_fn env (init_ext ct) x = Some x"
  "call_filter_fn env (init_ext ct) n s = Some (1, s)"
  "call_op_cb env (e_open_cb (init_ext ct)) e n s = Some s"
  "call_op_cb env (e_close_cb (init_ext ct)) e n s = Some s"
  "call_op_cb env (e_listen_cb (init_ext ct)) e n s = Some s"
  "call_op_cb env (e_accept_cb (init_ext ct)) e n s = Some s"
  "call_op_cb env (e_connect_cb (init_ext ct)) e n s = Some s"
  "call_op_cb env (e_disconnect_cb (init_ext ct)) e n s = Some s"
  "call_state_fn env (init_ext ct) n st s = Some st"
  "e_reserved (init_ext ct)"
  by (simp_all add: call_type_fn_def call_filter_fn_def call_op_cb_def call_state_fn_def init_ext_def
      ext_internal_config_def ext_type_fn_def ext_filter_fn_def ext_op_cb_def ext_state_fn_def)

lemma cfg_ok_upd [simp]:
  "cfg_ok (s\<lparr>g_heap := h\<rparr>) = cfg_ok s" "cfg_ok (s\<lparr>g_errno := e\<rparr>) = cfg_ok s"
  "cfg_ok (s\<lparr>g_world := w\<rparr>) = cfg_ok s"
  by (simp_all add: cfg_ok_def)

lemma ext_config_upd [simp]:
  "ext_config (s\<lparr>g_heap := h\<rparr>) = ext_config s" "ext_config (s\<lparr>g_errno := e\<rparr>) = ext_config s"
  "ext_config (s\<lparr>g_world := w\<rparr>) = ext_config s"
  by (simp_all add: ext_config_def fun_eq_iff)

definition event_msg :: "addr \<Rightarrow> chann_event \<Rightarrow> addr option \<Rightarrow> int \<Rightarrow> chann_t \<Rightarrow> chann_t" where
  "event_msg n event r err c =
     c\<lparr>c_msg := \<lparr>m_event = Some event, m_err = err, m_n = Some n, m_r = r, m_opaque = c_opaque c\<rparr>\<rparr>"

text \<open>On an internal channel a message is never filtered.\<close>

lemma chann_msg_internal [step_simps]:
  assumes "cfg_ok s" "g_heap s n = Some c" "internal (c_ctype c)"
  shows "chann_msg env n event r err s =
    Some (1, s\<lparr>g_heap := (g_heap s)(n \<mapsto> event_msg n event r err c)\<rparr>)"
  using assms by (simp add: chann_msg_def upd_chann_eq step_simps event_msg_def)

end
