(* ===== verification/Timer.thy ===== *)
theory Timer
  imports Ext
begin

text \<open>
  Timers, src/src/mnet_core.c lines 487--586: activation, update and removal of the timer
  of a channel, the scheduling at each poll, and the iteration over the timers that are due.
\<close>

text \<open>\<open>_tm_current()\<close>: microseconds.\<close>

definition tm_now :: "'w env \<Rightarrow> 'w mnet_t \<Rightarrow> int \<times> 'w mnet_t" where
  "tm_now env s = (let ((sec, usec), w) = sys_gettimeofday env (g_world s)
     in (sec * 1000000 + usec, s\<lparr>g_world := w\<rparr>))"

definition tm_insert :: "'w env \<Rightarrow> addr \<Rightarrow> chann_tm_t \<Rightarrow> 'w mnet_t \<Rightarrow> 'w mnet_t option" where
  "tm_insert env n tm s = do {
     clock \<leftarrow> g_tm_clock s;
     (node, w, clock) \<leftarrow> skiplist_insert (sys_rand env) (g_world s) clock (tm_time tm) tm;
     upd_chann n (\<lambda>c. c\<lparr>c_timer_node := Some node\<rparr>) (s\<lparr>g_tm_clock := Some clock, g_world := w\<rparr>)
   }"

definition tm_active :: "'w env \<Rightarrow> addr \<Rightarrow> int \<Rightarrow> 'w mnet_t \<Rightarrow> 'w mnet_t option" where
  "tm_active env n interval s =
     (let (now, s) = tm_now env s
      in do {
        time \<leftarrow> i64 (now + interval);
        tm_insert env n \<lparr>tm_interval = i32 interval, tm_time = time, tm_chann = n\<rparr> s
      })"

definition tm_update :: "'w env \<Rightarrow> addr \<Rightarrow> int \<Rightarrow> 'w mnet_t \<Rightarrow> 'w mnet_t option" where
  "tm_update env n interval s = do {
     c \<leftarrow> g_heap s n;
     snode \<leftarrow> c_timer_node c;
     clock \<leftarrow> g_tm_clock s;
     nd \<leftarrow> sl_nodes clock snode;
     let tm = (sn_value nd)\<lparr>tm_interval := i32 interval\<rparr>;
     let (now, s) = tm_now env s;
     time \<leftarrow> i64 (now + tm_interval tm);
     let tm = tm\<lparr>tm_time := time\<rparr>;
     clock \<leftarrow> skiplist_remove_skipnode clock snode;
     tm_insert env n tm (s\<lparr>g_tm_clock := Some clock\<rparr>)
   }"

definition tm_kill :: "addr \<Rightarrow> 'w mnet_t \<Rightarrow> 'w mnet_t option" where
  "tm_kill n s = do {
     c \<leftarrow> g_heap s n;
     case c_timer_node c of
       None \<Rightarrow> Some s
     | Some snode \<Rightarrow> do {
         clock \<leftarrow> g_tm_clock s;
         _ \<leftarrow> sl_nodes clock snode;
         clock \<leftarrow> skiplist_remove_skipnode clock snode;
         upd_chann n (\<lambda>c. c\<lparr>c_timer_node := None\<rparr>) (s\<lparr>g_tm_clock := Some clock\<rparr>)
       }
   }"

definition tm_schedule :: "'w env \<Rightarrow> 'w mnet_t \<Rightarrow> 'w mnet_t option" where
  "tm_schedule env s = do {
     clock \<leftarrow> g_tm_clock s;
     if sl_count clock \<le> 0 then Some (s\<lparr>g_tm_pos := None\<rparr>)
     else do {
       let (current, s) = tm_now env s;
       pos \<leftarrow> get_next clock (Head 0);
       a \<leftarrow> list_entry 0 pos;
       nd \<leftarrow> sl_nodes clock a;
       if tm_time (sn_value nd) > current then Some (s\<lparr>g_tm_pos := None\<rparr>)
       else Some (s\<lparr>g_tm_current := current, g_tm_pos := Some pos\<rparr>)
     }
   }"

text \<open>\<open>_tm_next\<close>: the channel whose message is returned, or NULL.\<close>

partial_function (option) tm_next :: "'w env \<Rightarrow> 'w mnet_t \<Rightarrow> (addr option \<times> 'w mnet_t) option" where
  "tm_next env s = do {
     clock \<leftarrow> g_tm_clock s;
     case g_tm_pos s of
       None \<Rightarrow> Some (None, s)
     | Some pos \<Rightarrow>
         if pos = Head 0 then Some (None, s)
         else do {
           nxt \<leftarrow> get_next clock pos;
           let s = s\<lparr>g_tm_pos := Some nxt\<rparr>;
           a \<leftarrow> list_entry 0 pos;
           nd \<leftarrow> sl_nodes clock a;
           let tm = sn_value nd;
           if tm_time tm \<le> g_tm_current s then do {
             let n = tm_chann tm;
             s \<leftarrow> tm_update env n (tm_interval tm) s;
             r \<leftarrow> chann_msg env n CHANN_EVENT_TIMER None 0 s;
             if fst r \<noteq> 0 then Some (Some n, snd r) else tm_next env (snd r)
           } else Some (None, s\<lparr>g_tm_pos := None\<rparr>)
         }
   }"

subsection \<open>Timers and channels\<close>

text \<open>
  A channel has at most one timer: the node that its \<open>timer_node\<close> points to, whose value
  points back; every node is the timer of a live channel and is filed under its due time.
\<close>

definition timers_ok :: "chann_tm_t skiplist_t \<Rightarrow> (addr \<rightharpoonup> chann_t) \<Rightarrow> bool" where
  "timers_ok clock h \<longleftrightarrow> sk_inv clock \<and>
     (\<forall>a k tm. sk_lookup clock a = Some (k, tm) \<longrightarrow>
        k = tm_time tm \<and> (\<exists>c. h (tm_chann tm) = Some c \<and> c_timer_node c = Some a)) \<and>
     (\<forall>n c a. h n = Some c \<longrightarrow> c_timer_node c = Some a \<longrightarrow>
        (\<exists>k tm. sk_lookup clock a = Some (k, tm) \<and> tm_chann tm = n))"

text \<open>Due time and channel of every timer, earliest first.\<close>

definition timers :: "chann_tm_t skiplist_t \<Rightarrow> (int \<times> addr) list" where
  "timers clock = map (\<lambda>(_, k, v). (k, tm_chann v)) (sk_entries clock)"

lemma timers_view: "timers = sk.view tm_chann"
  by (simp add: timers_def sk.view_def fun_eq_iff)

lemma timers_ok_inv: "timers_ok clock h \<Longrightarrow> sk_inv clock"
  by (simp add: timers_ok_def)

lemma timers_okD1:
  assumes "timers_ok clock h" "sk_lookup clock a = Some (k, tm)"
  shows "k = tm_time tm \<and> (\<exists>c. h (tm_chann tm) = Some c \<and> c_timer_node c = Some a)"
  using assms unfolding timers_ok_def by blast

lemma timers_okD2:
  assumes "timers_ok clock h" "h n = Some c" "c_timer_node c = Some a"
  shows "\<exists>tm. sk_lookup clock a = Some (tm_time tm, tm) \<and> tm_chann tm = n"
proof -
  from assms obtain k tm where "sk_lookup clock a = Some (k, tm)" "tm_chann tm = n"
    unfolding timers_ok_def by blast
  with timers_okD1 [OF assms(1)] show ?thesis by blast
qed

lemma sk_lookup_mem: "sk_inv l \<Longrightarrow> sk_lookup l a = Some x \<longleftrightarrow> (a, x) \<in> set (sk_entries l)"
  by (simp add: sk_lookup_entries sk_list_distinct)

lemma sk_lookup_node: "sk_lookup l a = Some (k, v) \<longleftrightarrow> (\<exists>nd. sl_nodes l a = Some nd \<and> k = sn_key nd \<and> v = sn_value nd)"
  by (auto simp: sk_lookup_def)

lemma timers_ok_sorted: "timers_ok clock h \<Longrightarrow> sorted (map fst (timers clock))"
  using sk_entries_order [of clock] by (simp add: timers_ok_def timers_def comp_def case_prod_beta)

text \<open>Channel updates that keep the timer node keep the correspondence.\<close>

lemma timers_okI:
  assumes "sk_inv clock"
    and "\<And>a k tm. sk_lookup clock a = Some (k, tm) \<Longrightarrow>
      k = tm_time tm \<and> (\<exists>c. h (tm_chann tm) = Some c \<and> c_timer_node c = Some a)"
    and "\<And>n c a. h n = Some c \<Longrightarrow> c_timer_node c = Some a \<Longrightarrow>
      \<exists>k tm. sk_lookup clock a = Some (k, tm) \<and> tm_chann tm = n"
  shows "timers_ok clock h"
  unfolding timers_ok_def using assms by blast

lemma timers_ok_frame:
  assumes ok: "timers_ok clock h" and n: "h n = Some c" "c_timer_node d = c_timer_node c"
  shows "timers_ok clock (h(n \<mapsto> d))"
proof (rule timers_okI)
  show "k = tm_time tm \<and> (\<exists>c. (h(n \<mapsto> d)) (tm_chann tm) = Some c \<and> c_timer_node c = Some a)"
    if "sk_lookup clock a = Some (k, tm)" for a k tm
    using timers_okD1 [OF ok that] n by (cases "tm_chann tm = n") auto
  show "\<exists>k tm. sk_lookup clock a = Some (k, tm) \<and> tm_chann tm = m"
    if "(h(n \<mapsto> d)) m = Some e" "c_timer_node e = Some a" for m e a
  proof (cases "m = n")
    case True
    with that n have "c_timer_node c = Some a" by simp
    from timers_okD2 [OF ok n(1) this] True show ?thesis by auto
  next
    case False
    with that have "h m = Some e" by simp
    from timers_okD2 [OF ok this that(2)] show ?thesis by auto
  qed
qed (rule timers_ok_inv [OF ok])

lemma timers_ok_add:
  assumes ok: "timers_ok clock (h(n \<mapsto> c\<lparr>c_timer_node := None\<rparr>))"
    and new: "sk_inv clock'" "sk_lookup clock' = (sk_lookup clock)(a \<mapsto> (tm_time tm, tm))" "sk_lookup clock a = None"
    and tm: "tm_chann tm = n"
  shows "timers_ok clock' (h(n \<mapsto> c\<lparr>c_timer_node := Some a\<rparr>))"
proof (rule timers_okI)
  show "k = tm_time u \<and> (\<exists>c'. (h(n \<mapsto> c\<lparr>c_timer_node := Some a\<rparr>)) (tm_chann u) = Some c' \<and> c_timer_node c' = Some b)"
    if "sk_lookup clock' b = Some (k, u)" for b k u
  proof (cases "b = a")
    case False
    with that new have "sk_lookup clock b = Some (k, u)" by simp
    from timers_okD1 [OF ok this] show ?thesis by (cases "tm_chann u = n") auto
  qed (use that new tm in auto)
  show "\<exists>k u. sk_lookup clock' b = Some (k, u) \<and> tm_chann u = m"
    if "(h(n \<mapsto> c\<lparr>c_timer_node := Some a\<rparr>)) m = Some e" "c_timer_node e = Some b" for m e b
  proof (cases "m = n")
    case False
    with that have "(h(n \<mapsto> c\<lparr>c_timer_node := None\<rparr>)) m = Some e" by simp
    from timers_okD2 [OF ok this that(2)] new show ?thesis by (cases "b = a") auto
  qed (use that new tm in auto)
qed (rule new(1))

lemma timers_ok_delete:
  assumes ok: "timers_ok clock h" and n: "h n = Some c" "c_timer_node c = Some a"
    and new: "sk_inv clock'" "sk_lookup clock' = (sk_lookup clock)(a := None)"
  shows "timers_ok clock' (h(n \<mapsto> c\<lparr>c_timer_node := None\<rparr>))"
proof (rule timers_okI)
  obtain tm where tm: "sk_lookup clock a = Some (tm_time tm, tm)" "tm_chann tm = n"
    using timers_okD2 [OF ok n] by blast
  show "k = tm_time u \<and> (\<exists>c'. (h(n \<mapsto> c\<lparr>c_timer_node := None\<rparr>)) (tm_chann u) = Some c' \<and> c_timer_node c' = Some b)"
    if "sk_lookup clock' b = Some (k, u)" for b k u
  proof -
    from that new have b: "b \<noteq> a" "sk_lookup clock b = Some (k, u)" by (auto split: if_splits)
    from timers_okD1 [OF ok b(2)] b(1) n show ?thesis by (cases "tm_chann u = n") auto
  qed
  show "\<exists>k u. sk_lookup clock' b = Some (k, u) \<and> tm_chann u = m"
    if "(h(n \<mapsto> c\<lparr>c_timer_node := None\<rparr>)) m = Some e" "c_timer_node e = Some b" for m e b
  proof -
    from that have m: "m \<noteq> n" "h m = Some e" by (auto split: if_splits)
    from timers_okD2 [OF ok m(2) that(2)] obtain u where u: "sk_lookup clock b = Some (tm_time u, u)" "tm_chann u = m" by blast
    with tm m(1) have "b \<noteq> a" by auto
    with u new show ?thesis by auto
  qed
qed (rule new(1))

lemma tm_insert_ok:
  assumes "g_tm_clock s = Some clock" "g_heap s n = Some c" "rand_ends (sys_rand env)" "tm_chann tm = n"
    and ok: "timers_ok clock ((g_heap s)(n \<mapsto> c\<lparr>c_timer_node := None\<rparr>))"
  shows "\<exists>a w clock'. tm_insert env n tm s =
      Some (s\<lparr>g_tm_clock := Some clock', g_world := w, g_heap := (g_heap s)(n \<mapsto> c\<lparr>c_timer_node := Some a\<rparr>)\<rparr>) \<and>
    timers_ok clock' ((g_heap s)(n \<mapsto> c\<lparr>c_timer_node := Some a\<rparr>)) \<and> sk_lookup clock' a = Some (tm_time tm, tm) \<and>
    sk_entries clock' = ins_entry (a, tm_time tm, tm) (sk_entries clock) \<and>
    timers clock' = insort_key fst (tm_time tm, n) (timers clock)"
proof -
  note inv = timers_ok_inv [OF ok]
  from sk.insert_view [OF inv assms(3), of "g_world s" "tm_time tm" tm tm_chann] obtain a w clock' where
    q: "skiplist_insert (sys_rand env) (g_world s) clock (tm_time tm) tm = Some (a, w, clock')" "sk_inv clock'"
    "a \<notin> fst ` set (sk_entries clock)" "sk_lookup clock' = (sk_lookup clock)(a \<mapsto> (tm_time tm, tm))"
    "sk_entries clock' = ins_entry (a, tm_time tm, tm) (sk_entries clock)"
    "timers clock' = insort_key fst (tm_time tm, n) (timers clock)"
    unfolding timers_view assms(4) by blast
  have "sk_lookup clock a = None"
    using q(3) by (simp add: sk_lookup_entries [OF inv] map_of_eq_None_iff)
  note timers_ok_add [OF ok q(2,4) this assms(4)]
  moreover have "tm_insert env n tm s =
      Some (s\<lparr>g_tm_clock := Some clock', g_world := w, g_heap := (g_heap s)(n \<mapsto> c\<lparr>c_timer_node := Some a\<rparr>)\<rparr>)"
    using q(1) assms(1,2) by (simp add: tm_insert_def upd_chann_def)
  moreover have "sk_lookup clock' a = Some (tm_time tm, tm)" by (simp add: q(4))
  ultimately show ?thesis using q(5,6) by blast
qed

lemma tm_remove_ok:
  assumes ok: "timers_ok clock h" and n: "h n = Some c" "c_timer_node c = Some a"
  shows "\<exists>clock' nd. skiplist_remove_skipnode clock a = Some clock' \<and> sl_nodes clock a = Some nd \<and>
    tm_chann (sn_value nd) = n \<and> timers_ok clock' (h(n \<mapsto> c\<lparr>c_timer_node := None\<rparr>)) \<and>
    sk_entries clock' = filter (\<lambda>x. fst x \<noteq> a) (sk_entries clock) \<and>
    timers clock' = filter (\<lambda>x. snd x \<noteq> n) (timers clock)"
proof -
  obtain tm where tm: "sk_lookup clock a = Some (tm_time tm, tm)" "tm_chann tm = n"
    using timers_okD2 [OF assms] by blast
  have uniq: "a' = a" if "sk_lookup clock a' = Some (k', tm')" "tm_chann tm' = tm_chann tm" for a' k' tm'
    using timers_okD1 [OF ok that(1)] that(2) tm(2) n by simp
  have "\<exists>q'. skiplist_remove_skipnode clock a = Some q' \<and> sk_inv q' \<and>
      sk_entries q' = filter (\<lambda>x. fst x \<noteq> a) (sk_entries clock) \<and> sk_lookup q' = (sk_lookup clock)(a := None) \<and>
      sk.view tm_chann q' = filter (\<lambda>x. snd x \<noteq> tm_chann tm) (sk.view tm_chann clock)"
    by (rule sk.remove_view [OF timers_ok_inv [OF ok] tm(1)]) (rule uniq)
  then obtain clock' where
    q: "skiplist_remove_skipnode clock a = Some clock'" "sk_inv clock'"
    "sk_entries clock' = filter (\<lambda>x. fst x \<noteq> a) (sk_entries clock)" "sk_lookup clock' = (sk_lookup clock)(a := None)"
    "timers clock' = filter (\<lambda>x. snd x \<noteq> n) (timers clock)"
    unfolding timers_view tm(2) by blast
  from tm obtain nd where "sl_nodes clock a = Some nd" "tm_chann (sn_value nd) = n"
    by (auto simp: sk_lookup_node)
  with timers_ok_delete [OF assms q(2,4)] q(1,3,5) show ?thesis by blast
qed

text \<open>The three operations on the timer of one channel, as operations on the schedule.\<close>

lemma tm_kill_none: "g_heap s n = Some c \<Longrightarrow> c_timer_node c = None \<Longrightarrow> tm_kill n s = Some s"
  by (simp add: tm_kill_def)

lemma tm_kill_ok:
  assumes clock: "g_tm_clock s = Some clock" and ok: "timers_ok clock (g_heap s)" and n: "g_heap s n = Some c"
  shows "\<exists>clock'. tm_kill n s = Some (s\<lparr>g_tm_clock := Some clock',
      g_heap := (g_heap s)(n \<mapsto> c\<lparr>c_timer_node := None\<rparr>)\<rparr>) \<and>
    timers_ok clock' ((g_heap s)(n \<mapsto> c\<lparr>c_timer_node := None\<rparr>)) \<and>
    timers clock' = filter (\<lambda>x. snd x \<noteq> n) (timers clock)"
proof (cases "c_timer_node c")
  case None
  have "m \<noteq> n" if "(k, m) \<in> set (timers clock)" for k m
  proof -
    from that obtain a tm where "(a, k, tm) \<in> set (sk_entries clock)" "tm_chann tm = m"
      by (auto simp: timers_def)
    then have "sk_lookup clock a = Some (k, tm)"
      by (simp add: sk_lookup_mem [OF timers_ok_inv [OF ok]])
    from timers_okD1 [OF ok this] None n \<open>tm_chann tm = m\<close> show ?thesis by auto
  qed
  then have "filter (\<lambda>x. snd x \<noteq> n) (timers clock) = timers clock"
    by (intro filter_True ballI) (metis surjective_pairing)
  moreover have "c\<lparr>c_timer_node := None\<rparr> = c" using None by simp
  then have "(g_heap s)(n \<mapsto> c\<lparr>c_timer_node := None\<rparr>) = g_heap s" using n by (simp add: fun_upd_idem)
  moreover have "s\<lparr>g_tm_clock := Some clock\<rparr> = s" using clock by simp
  ultimately show ?thesis using tm_kill_none [OF n None] ok clock
    by (intro exI [of _ clock]) simp
next
  case (Some a)
  from tm_remove_ok [OF ok n Some] obtain clock' nd where
    "skiplist_remove_skipnode clock a = Some clock'" "sl_nodes clock a = Some nd"
    "timers_ok clock' ((g_heap s)(n \<mapsto> c\<lparr>c_timer_node := None\<rparr>))"
    "timers clock' = filter (\<lambda>x. snd x \<noteq> n) (timers clock)" by blast
  with Some n clock show ?thesis
    by (intro exI [of _ clock']) (simp add: tm_kill_def upd_chann_def)
qed

lemma tm_now_frame:
  "tm_now env s = (now, t) \<Longrightarrow> \<exists>w. t = s\<lparr>g_world := w\<rparr>"
  by (auto simp: tm_now_def split: prod.splits)

lemma tm_active_ok:
  assumes clock: "g_tm_clock s = Some clock" and ok: "timers_ok clock (g_heap s)"
    and n: "g_heap s n = Some c" "c_timer_node c = None" and rnd: "rand_ends (sys_rand env)"
    and fit: "in_i64 (fst (tm_now env s) + interval)"
  shows "\<exists>a w clock' now. fst (tm_now env s) = now \<and> tm_active env n interval s =
      Some (s\<lparr>g_tm_clock := Some clock', g_world := w, g_heap := (g_heap s)(n \<mapsto> c\<lparr>c_timer_node := Some a\<rparr>)\<rparr>) \<and>
    timers_ok clock' ((g_heap s)(n \<mapsto> c\<lparr>c_timer_node := Some a\<rparr>)) \<and>
    sk_lookup clock' a = Some (now + interval, \<lparr>tm_interval = i32 interval, tm_time = now + interval, tm_chann = n\<rparr>) \<and>
    sk_entries clock' = ins_entry (a, now + interval,
      \<lparr>tm_interval = i32 interval, tm_time = now + interval, tm_chann = n\<rparr>) (sk_entries clock) \<and>
    timers clock' = insort_key fst (now + interval, n) (timers clock)"
proof -
  obtain now t where now: "tm_now env s = (now, t)" by force
  from tm_now_frame [OF now] obtain w where t: "t = s\<lparr>g_world := w\<rparr>" by blast
  let ?tm = "\<lparr>tm_interval = i32 interval, tm_time = now + interval, tm_chann = n\<rparr>"
  have "timers_ok clock ((g_heap t)(n \<mapsto> c\<lparr>c_timer_node := None\<rparr>))"
    using timers_ok_frame [OF ok n(1), of "c\<lparr>c_timer_node := None\<rparr>"] n(2) by (simp add: t)
  from tm_insert_ok [OF _ _ rnd _ this, of ?tm] clock n show ?thesis
    using fit by (auto simp: tm_active_def now t mem_simps)
qed

lemma tm_active_fits: "tm_active env n interval s = Some t \<Longrightarrow> in_i64 (fst (tm_now env s) + interval)"
  by (auto simp: tm_active_def i64_eq_Some split: prod.splits elim!: bind_SomeE)

lemma tm_update_fits: "tm_update env n interval s = Some t \<Longrightarrow> in_i64 (fst (tm_now env s) + i32 interval)"
  by (auto simp: tm_update_def i64_eq_Some split: prod.splits elim!: bind_SomeE)

lemma tm_update_ok:
  assumes clock: "g_tm_clock s = Some clock" and ok: "timers_ok clock (g_heap s)"
    and n: "g_heap s n = Some c" "c_timer_node c = Some a0" and rnd: "rand_ends (sys_rand env)"
    and fit: "in_i64 (fst (tm_now env s) + i32 interval)"
  shows "\<exists>a w clock' now. fst (tm_now env s) = now \<and> tm_update env n interval s =
      Some (s\<lparr>g_tm_clock := Some clock', g_world := w, g_heap := (g_heap s)(n \<mapsto> c\<lparr>c_timer_node := Some a\<rparr>)\<rparr>) \<and>
    timers_ok clock' ((g_heap s)(n \<mapsto> c\<lparr>c_timer_node := Some a\<rparr>)) \<and>
    sk_lookup clock' a = Some (now + i32 interval,
      \<lparr>tm_interval = i32 interval, tm_time = now + i32 interval, tm_chann = n\<rparr>) \<and>
    sk_entries clock' = ins_entry (a, now + i32 interval,
      \<lparr>tm_interval = i32 interval, tm_time = now + i32 interval, tm_chann = n\<rparr>)
      (filter (\<lambda>x. fst x \<noteq> a0) (sk_entries clock)) \<and>
    timers clock' = insort_key fst (now + i32 interval, n) (filter (\<lambda>x. snd x \<noteq> n) (timers clock))"
proof -
  obtain now t where now: "tm_now env s = (now, t)" by force
  from tm_now_frame [OF now] obtain w where t: "t = s\<lparr>g_world := w\<rparr>" by blast
  from tm_remove_ok [OF ok n] obtain clock1 nd where
    r: "skiplist_remove_skipnode clock a0 = Some clock1" "sl_nodes clock a0 = Some nd" "tm_chann (sn_value nd) = n"
    "timers_ok clock1 ((g_heap s)(n \<mapsto> c\<lparr>c_timer_node := None\<rparr>))"
    "sk_entries clock1 = filter (\<lambda>x. fst x \<noteq> a0) (sk_entries clock)"
    "timers clock1 = filter (\<lambda>x. snd x \<noteq> n) (timers clock)" by blast
  let ?tm = "\<lparr>tm_interval = i32 interval, tm_time = now + i32 interval, tm_chann = n\<rparr>"
  let ?t = "t\<lparr>g_tm_clock := Some clock1\<rparr>"
  have tm: "(sn_value nd)\<lparr>tm_interval := i32 interval, tm_time := now + i32 interval\<rparr> = ?tm"
    using r(3) by (cases "sn_value nd") simp
  have run: "tm_update env n interval s = tm_insert env n ?tm ?t"
    using clock n r(1,2) tm fit by (simp add: tm_update_def now mem_simps)
  from r(4) have "timers_ok clock1 ((g_heap ?t)(n \<mapsto> c\<lparr>c_timer_node := None\<rparr>))" by (simp add: t)
  from tm_insert_ok [OF _ _ rnd _ this, of ?tm] n r(5,6) show ?thesis
    by (auto simp: run now t)
qed

subsection \<open>The iteration over the timers that are due\<close>

text \<open>A position in the lowest level of the clock: the link of the first entry of the rest.\<close>

definition at_pos :: "'v skiplist_t \<Rightarrow> link \<Rightarrow> (addr \<times> int \<times> 'v) list \<Rightarrow> (addr \<times> int \<times> 'v) list \<Rightarrow> bool" where
  "at_pos l pos E R \<longleftrightarrow> sk_entries l = E @ R \<and> pos = (case R of [] \<Rightarrow> Head 0 | x # _ \<Rightarrow> Link (fst x) 0)"

lemma sk_entries_chain:
  assumes "sk_inv l"
  shows "chain (sl_next l) (sl_prev l) (Head 0) (map (\<lambda>x. Link (fst x) 0) (sk_entries l)) (Head 0)"
  using sk_rep_lane0 [OF assms [unfolded sk_inv_def]] by (simp add: sk_entries_def comp_def)

lemma at_pos_first:
  assumes "sk_inv l"
  shows "\<exists>q. get_next l (Head 0) = Some q \<and> at_pos l q [] (sk_entries l)"
  using sk_entries_chain [OF assms]
  by (cases "sk_entries l") (auto simp: get_next_def SKIPLIST_MAX_LEVEL_def at_pos_def)

lemma at_pos_next:
  assumes "sk_inv l" "at_pos l pos E (x # R)"
  shows "\<exists>q. get_next l pos = Some q \<and> at_pos l q (E @ [x]) R"
proof -
  have E: "sk_entries l = E @ x # R" "pos = Link (fst x) 0" using assms(2) by (auto simp: at_pos_def)
  have "fst x \<in> fst ` set (sk_entries l)" by (simp add: E)
  then have "link_ok l (Link (fst x) 0)"
    using assms(1) by (auto simp: sk_inv_def sk_rep_def nodes_ok_def)
  moreover have "sl_next l (Link (fst x) 0) = Some (hd (map (\<lambda>x. Link (fst x) 0) R @ [Head 0]))"
    using sk_entries_chain [OF assms(1)] by (auto simp: E chain_append dest!: chain_first)
  ultimately show ?thesis using E by (cases R) (auto simp: get_next_def at_pos_def)
qed

lemma at_pos_split:
  assumes "sk_inv l" "at_pos l pos E ((a, k, v) # R)"
  shows "filter (\<lambda>x. fst x \<noteq> a) (sk_entries l) = E @ R" "z \<in> set E \<Longrightarrow> fst (snd z) \<le> k"
proof -
  have E: "sk_entries l = E @ (a, k, v) # R" using assms(2) by (simp add: at_pos_def)
  have "distinct (map fst (E @ (a, k, v) # R))" "sorted (map (fst \<circ> snd) (E @ (a, k, v) # R))"
    using sk_entries_order [OF assms(1)] by (simp_all add: E del: sk_entries_fst)
  then have d: "a \<notin> fst ` set E" "a \<notin> fst ` set R" "\<forall>x\<in>set E. fst (snd x) \<le> k"
    by (simp_all add: sorted_append)
  have "\<forall>x\<in>set E. fst x \<noteq> a" "\<forall>x\<in>set R. fst x \<noteq> a" using d(1,2) by blast+
  with d(3) show "filter (\<lambda>x. fst x \<noteq> a) (sk_entries l) = E @ R" "z \<in> set E \<Longrightarrow> fst (snd z) \<le> k"
    by (simp_all add: E filter_True)
qed

text \<open>The entries that are due at \<open>T\<close>, in an ordered list.\<close>

definition due :: "int \<Rightarrow> (addr \<times> int \<times> chann_tm_t) list \<Rightarrow> addr list" where
  "due T R = map (\<lambda>x. tm_chann (snd (snd x))) (takeWhile (\<lambda>x. fst (snd x) \<le> T) R)"

lemma due_Cons [simp]:
  "due T [] = []" "due T ((a, k, tm) # R) = (if k \<le> T then tm_chann tm # due T R else [])"
  by (simp_all add: due_def)

lemma due_ins:
  assumes "T < fst (snd x)" shows "due T (ins_entry x R) = due T R"
proof -
  have "takeWhile (\<lambda>y. fst (snd y) \<le> T) (ins_entry x R) = takeWhile (\<lambda>y. fst (snd y) \<le> T) R"
  proof (induction R)
    case (Cons y R)
    with assms show ?case by (cases "fst (snd y) < fst (snd x)") (simp_all add: ins_entry_def)
  qed (use assms in \<open>simp add: ins_entry_def\<close>)
  then show ?thesis by (simp add: due_def)
qed

lemma ins_entry_append:
  "(\<And>y. y \<in> set E \<Longrightarrow> fst (snd y) < fst (snd x)) \<Longrightarrow> ins_entry x (E @ R) = E @ ins_entry x R"
  by (induction E) (auto simp: ins_entry_def)

text \<open>Filing an entry that is not due neither moves the iteration nor changes what is left of it.\<close>

lemma at_pos_ins:
  assumes pos: "at_pos l q (E @ [x]) R" and l': "sk_entries l' = ins_entry y (E @ R)"
    and late: "T < fst (snd y)" and early: "\<And>z. z \<in> set E \<Longrightarrow> fst (snd z) \<le> T"
  shows "\<exists>E' R'. at_pos l' q E' R' \<and> due T R' = due T R"
proof -
  have E: "sk_entries l' = E @ ins_entry y R"
    using l' late early ins_entry_append [of E y R] by fastforce
  show ?thesis
  proof (cases "R = [] \<or> fst (snd y) \<le> fst (snd (hd R))")
    case True
    then have "ins_entry y R = y # R" by (cases R) (auto simp: ins_entry_def)
    with E pos have "at_pos l' q (E @ [y]) R" by (simp add: at_pos_def)
    then show ?thesis by blast
  next
    case False
    then obtain z R1 where R: "R = z # R1" "fst (snd z) < fst (snd y)" by (cases R) auto
    then have "\<exists>R2. ins_entry y R = z # R2" by (auto simp: ins_entry_def)
    with E pos R have "at_pos l' q E (ins_entry y R)" by (auto simp: at_pos_def)
    with due_ins [OF late] show ?thesis by blast
  qed
qed

text \<open>
  From a world that satisfies \<open>P\<close> on, the clock shows no time before \<open>T\<close>, and none after the
  year 140000, so that adding an interval does not overflow.
\<close>

definition clock_past :: "'w env \<Rightarrow> ('w \<Rightarrow> bool) \<Rightarrow> int \<Rightarrow> bool" where
  "clock_past env P T \<longleftrightarrow>
     (\<forall>w. P w \<longrightarrow> (case sys_gettimeofday env w of ((sec, usec), w') \<Rightarrow> T \<le> sec * 1000000 + usec \<and>
        \<bar>sec * 1000000 + usec\<bar> < 2 ^ 62 \<and> P w')) \<and>
     (\<forall>w. P w \<longrightarrow> P (snd (sys_rand env w)))"

lemma clock_past_now:
  "clock_past env P T \<Longrightarrow> P (g_world s) \<Longrightarrow> tm_now env s = (now, t) \<Longrightarrow> T \<le> now \<and> \<bar>now\<bar> < 2 ^ 62 \<and> P (g_world t)"
  unfolding clock_past_def tm_now_def by (auto split: prod.splits)

lemma tm_update_world:
  assumes past: "clock_past env P T" and w: "P (g_world s)" and run: "tm_update env n interval s = Some t"
  shows "P (g_world t) \<and> T \<le> fst (tm_now env s)"
proof -
  obtain now s1 where now: "tm_now env s = (now, s1)" by force
  note w1 = clock_past_now [OF past w now]
  have "P w'" if "skiplist_insert (sys_rand env) (g_world s1) l k v = Some (a, w', l')" for l k v a w' l'
    by (rule skiplist_insert_world [OF _ that]) (use past w1 in \<open>auto simp: clock_past_def\<close>)
  with run now w1 show ?thesis
    by (auto simp: tm_update_def tm_insert_def upd_chann_def bind_eq_Some_conv)
qed

text \<open>
  What the iteration relies on: the timers belong to internal channels and have positive
  intervals.  The last is not so in every reachable state: the interval is an \<open>int\<close>, and a
  product of 1000 and a value above 2147483 may wrap to something not positive.
\<close>

definition timers_run :: "'w mnet_t \<Rightarrow> bool" where
  "timers_run s \<longleftrightarrow> cfg_ok s \<and> (\<exists>clock. g_tm_clock s = Some clock \<and> timers_ok clock (g_heap s) \<and>
     (\<forall>a k tm. sk_lookup clock a = Some (k, tm) \<longrightarrow> 0 < tm_interval tm \<and> tm_interval tm < 2 ^ 31) \<and>
     (\<forall>n c. g_heap s n = Some c \<longrightarrow> internal (c_ctype c)))"

lemma set_ins_entry [simp]: "set (ins_entry x E) = insert x (set E)"
proof (induction E)
  case (Cons y E)
  then show ?case by (cases "fst (snd y) < fst (snd x)") (auto simp: ins_entry_def)
qed (simp add: ins_entry_def)

lemma timers_run_refile:
  assumes run: "timers_run s" and clock: "g_tm_clock s = Some clock"
    and c: "g_heap s (tm_chann u) = Some c" and i: "0 < tm_interval u" "tm_interval u < 2 ^ 31"
    and ok: "timers_ok clock' ((g_heap s)(tm_chann u \<mapsto> d))"
    and e: "sk_entries clock' = ins_entry (b, tm_time u, u) (filter f (sk_entries clock))"
    and d: "c_ctype d = c_ctype c" "c_ctype d' = c_ctype c" "c_timer_node d' = c_timer_node d"
    and t: "g_ext_config t = g_ext_config s" "g_tm_clock t = Some clock'" "g_heap t = (g_heap s)(tm_chann u \<mapsto> d')"
  shows "timers_run t"
proof -
  from run clock have ok0: "cfg_ok s" "sk_inv clock"
    "\<And>a k tm. sk_lookup clock a = Some (k, tm) \<Longrightarrow> 0 < tm_interval tm \<and> tm_interval tm < 2 ^ 31"
    "\<And>n c. g_heap s n = Some c \<Longrightarrow> internal (c_ctype c)" by (auto simp: timers_run_def timers_ok_def)
  have "0 < tm_interval tm \<and> tm_interval tm < 2 ^ 31" if "sk_lookup clock' a = Some (k, tm)" for a k tm
  proof -
    from that have "(a, k, tm) \<in> set (sk_entries clock')" by (simp add: sk_lookup_mem timers_ok_inv [OF ok])
    then consider "tm = u" | "sk_lookup clock a = Some (k, tm)" by (auto simp: e sk_lookup_mem ok0(2))
    then show ?thesis using i ok0(3) by cases auto
  qed
  moreover have "timers_ok clock' (g_heap t)"
    using timers_ok_frame [OF ok, of "tm_chann u" d d'] d by (simp add: t)
  moreover have "internal (c_ctype x)" if "g_heap t n = Some x" for n x
    using that c ok0(4) d by (auto simp: t split: if_splits)
  ultimately show ?thesis using ok0(1) t(1,2) by (auto simp: timers_run_def cfg_ok_def)
qed

lemma tm_next_end: "g_tm_clock s = Some clock \<Longrightarrow> g_tm_pos s = Some (Head 0) \<Longrightarrow> tm_next env s = Some (None, s)"
  by (subst tm_next.simps) simp

lemma tm_next_late:
  assumes "g_tm_clock s = Some clock" "sk_inv clock" "g_tm_pos s = Some pos" "at_pos clock pos E ((a, k, tm) # R)"
    and "g_tm_current s < k" "k = tm_time tm"
  shows "tm_next env s = Some (None, s\<lparr>g_tm_pos := None\<rparr>)"
proof -
  from at_pos_next [OF assms(2,4)] obtain q where "get_next clock pos = Some q" by blast
  moreover have "sk_lookup clock a = Some (k, tm)"
    using assms(2,4) by (simp add: sk_lookup_mem at_pos_def)
  then obtain nd where "sl_nodes clock a = Some nd" "sn_value nd = tm" by (auto simp: sk_lookup_node)
  moreover have "pos = Link a 0" using assms(4) by (simp add: at_pos_def)
  ultimately show ?thesis using assms(1,3,5,6) by (subst tm_next.simps) simp
qed

lemma tm_next_due:
  assumes run: "timers_run s" and clock: "g_tm_clock s = Some clock" and pos: "g_tm_pos s = Some pos"
    and at: "at_pos clock pos E ((a, k, tm) # R)" and due: "k \<le> g_tm_current s"
    and rnd: "rand_ends (sys_rand env)" and past: "clock_past env P (g_tm_current s)" "P (g_world s)"
  shows "\<exists>t clock' q E' R'. tm_next env s = Some (Some (tm_chann tm), t) \<and> timers_run t \<and> P (g_world t) \<and>
    g_tm_current t = g_tm_current s \<and> g_tm_clock t = Some clock' \<and> g_tm_pos t = Some q \<and> at_pos clock' q E' R' \<and>
    due (g_tm_current s) R' = due (g_tm_current s) R"
proof -
  let ?T = "g_tm_current s" and ?n = "tm_chann tm" and ?i = "tm_interval tm"
  from run clock have ok: "cfg_ok s" "timers_ok clock (g_heap s)"
    "\<And>a k tm. sk_lookup clock a = Some (k, tm) \<Longrightarrow> 0 < tm_interval tm \<and> tm_interval tm < 2 ^ 31"
    "\<And>n c. g_heap s n = Some c \<Longrightarrow> internal (c_ctype c)" by (auto simp: timers_run_def)
  note inv = timers_ok_inv [OF ok(2)]
  have look: "sk_lookup clock a = Some (k, tm)" using inv at by (simp add: sk_lookup_mem at_pos_def)
  from ok(3) [OF look] have i: "0 < ?i" "i32 ?i = ?i" by (auto intro: i32_id)
  from timers_okD1 [OF ok(2) look] obtain c where c: "k = tm_time tm" "g_heap s ?n = Some c" "c_timer_node c = Some a"
    by blast
  from at_pos_next [OF inv at] obtain q where q: "get_next clock pos = Some q" "at_pos clock q (E @ [(a, k, tm)]) R" by blast
  let ?s = "s\<lparr>g_tm_pos := Some q\<rparr>"
  have "\<bar>fst (tm_now env ?s)\<bar> < 2 ^ 62" using clock_past_now [OF past(1), of ?s] past(2) by (cases "tm_now env ?s") auto
  then have fit: "in_i64 (fst (tm_now env ?s) + i32 ?i)" using i32_small by (rule in_i64_add)
  obtain a' w clock' now where u: "fst (tm_now env ?s) = now"
    "tm_update env ?n ?i ?s = Some (?s\<lparr>g_tm_clock := Some clock', g_world := w,
       g_heap := (g_heap s)(?n \<mapsto> c\<lparr>c_timer_node := Some a'\<rparr>)\<rparr>)"
    "timers_ok clock' ((g_heap s)(?n \<mapsto> c\<lparr>c_timer_node := Some a'\<rparr>))"
    "sk_entries clock' = ins_entry (a', now + ?i, \<lparr>tm_interval = ?i, tm_time = now + ?i, tm_chann = ?n\<rparr>)
      (filter (\<lambda>x. fst x \<noteq> a) (sk_entries clock))"
    using tm_update_ok [where s = ?s and clock = clock and n = ?n and c = c and interval = ?i, OF _ _ _ c(3) rnd]
      clock ok(2) c(2) i(2) fit by auto
  have w: "P w" "?T \<le> now" using tm_update_world [OF past(1) _ u(2)] past(2) u(1) by auto
  let ?u = "\<lparr>tm_interval = ?i, tm_time = now + ?i, tm_chann = ?n\<rparr>"
  let ?d = "c\<lparr>c_timer_node := Some a'\<rparr>"
  let ?t = "?s\<lparr>g_tm_clock := Some clock', g_world := w,
    g_heap := (g_heap s)(?n \<mapsto> event_msg ?n CHANN_EVENT_TIMER None 0 ?d)\<rparr>"
  have E: "filter (\<lambda>x. fst x \<noteq> a) (sk_entries clock) = E @ R" "\<And>z. z \<in> set E \<Longrightarrow> fst (snd z) \<le> ?T"
    using at_pos_split [OF inv at] due by fastforce+
  obtain nd where nd: "sl_nodes clock a = Some nd" "sn_value nd = tm" using look by (auto simp: sk_lookup_node)
  have "tm_next env s = Some (Some ?n, ?t)"
    using clock pos at q(1) nd c due u(2) ok(1) ok(4) [OF c(2)]
    by (subst tm_next.simps) (simp add: at_pos_def chann_msg_internal cfg_ok_def Let_def)
  moreover have "timers_run ?t"
    by (rule timers_run_refile [OF run clock, where u = ?u and c = c and d = ?d and clock' = clock' and b = a'])
      (use c u i ok(3) [OF look] in \<open>simp_all add: event_msg_def\<close>)
  moreover obtain E' R' where "at_pos clock' q E' R'" "due ?T R' = due ?T R"
    using at_pos_ins [OF q(2), of clock' "(a', now + ?i, ?u)" ?T] u(4) E w(2) i(1) by auto
  ultimately show ?thesis using w(1) by auto
qed

text \<open>Calling \<open>_tm_next\<close> until it returns NULL, as the loop over the results of a poll does.\<close>

primrec tm_drain :: "'w env \<Rightarrow> nat \<Rightarrow> 'w mnet_t \<Rightarrow> (addr list \<times> 'w mnet_t) option" where
  "tm_drain env 0 s = Some ([], s)"
| "tm_drain env (Suc k) s = do {
     (r, s) \<leftarrow> tm_next env s;
     case r of
       None \<Rightarrow> Some ([], s)
     | Some n \<Rightarrow> do { (ns, s) \<leftarrow> tm_drain env k s; Some (n # ns, s) }
   }"

lemma tm_drain_ok:
  assumes rnd: "rand_ends (sys_rand env)"
  shows "length (due (g_tm_current s) R) < fuel \<Longrightarrow> timers_run s \<Longrightarrow> g_tm_clock s = Some clock \<Longrightarrow>
    g_tm_pos s = Some pos \<Longrightarrow> at_pos clock pos E R \<Longrightarrow> clock_past env P (g_tm_current s) \<Longrightarrow> P (g_world s) \<Longrightarrow>
    \<exists>t. tm_drain env fuel s = Some (due (g_tm_current s) R, t) \<and> timers_run t"
proof (induction fuel arbitrary: s clock pos E R)
  case (Suc fuel)
  note prems = Suc.prems
  have inv: "sk_inv clock" using prems(2,3) by (auto simp: timers_run_def timers_ok_def)
  consider "R = []" | a k tm R1 where "R = (a, k, tm) # R1" "g_tm_current s < k"
    | a k tm R1 where "R = (a, k, tm) # R1" "k \<le> g_tm_current s"
    by (cases R) (auto, meson not_less)
  then show ?case
  proof cases
    case 1
    with prems have "g_tm_pos s = Some (Head 0)" by (simp add: at_pos_def)
    with 1 prems tm_next_end [OF prems(3), of env] show ?thesis by simp
  next
    case 2
    have "sk_lookup clock a = Some (k, tm)" using prems(5) 2 by (simp add: sk_lookup_mem inv at_pos_def)
    then have "k = tm_time tm" using prems(2,3) by (auto simp: timers_run_def dest: timers_okD1)
    with tm_next_late [OF prems(3) inv prems(4), of E a k tm R1 env] prems 2 show ?thesis
      by (auto simp: timers_run_def cfg_ok_def)
  next
    case 3
    from tm_next_due [OF prems(2,3,4) prems(5) [unfolded 3(1)] 3(2) rnd prems(6,7)] obtain t clock' q E' R' where
      t: "tm_next env s = Some (Some (tm_chann tm), t)" "timers_run t" "P (g_world t)" "g_tm_current t = g_tm_current s"
      "g_tm_clock t = Some clock'" "g_tm_pos t = Some q" "at_pos clock' q E' R'"
      "due (g_tm_current s) R' = due (g_tm_current s) R1" by blast
    from Suc.IH [of t R', OF _ t(2,5,6,7)] prems(1,6) t 3 obtain u where
      "tm_drain env fuel t = Some (due (g_tm_current s) R1, u)" "timers_run u" by auto
    with t(1) 3 show ?thesis by auto
  qed
qed simp

lemma tm_schedule_ok:
  assumes clock: "g_tm_clock s = Some clock" and ok: "timers_ok clock (g_heap s)"
  shows "\<exists>t w. tm_schedule env s = Some t \<and>
    (if timers clock = [] then t = s\<lparr>g_tm_pos := None\<rparr>
     else w = g_world (snd (tm_now env s)) \<and>
       (if fst (tm_now env s) < fst (hd (timers clock)) then t = s\<lparr>g_world := w, g_tm_pos := None\<rparr>
     else \<exists>pos. t = s\<lparr>g_world := w, g_tm_current := fst (tm_now env s), g_tm_pos := Some pos\<rparr> \<and>
       at_pos clock pos [] (sk_entries clock)))"
proof -
  note inv = timers_ok_inv [OF ok]
  have count: "sl_count clock = int (length (sk_entries clock))"
    using sk_count [OF inv] by (simp flip: sk_entries_fst)
  obtain now s1 where now: "tm_now env s = (now, s1)" by force
  from tm_now_frame [OF now] obtain w where w: "s1 = s\<lparr>g_world := w\<rparr>" by blast
  show ?thesis
  proof (cases "sk_entries clock")
    case Nil
    then show ?thesis using clock count by (simp add: tm_schedule_def timers_def)
  next
    case (Cons x R)
    obtain a k tm where x: "x = (a, k, tm)" by (cases x) auto
    from at_pos_first [OF inv] obtain q where q: "get_next clock (Head 0) = Some q" "at_pos clock q [] (sk_entries clock)"
      by blast
    have "sk_lookup clock a = Some (k, tm)" using Cons x by (simp add: sk_lookup_mem inv)
    moreover from timers_okD1 [OF ok this] have "k = tm_time tm" by simp
    ultimately obtain nd where "sl_nodes clock a = Some nd" "tm_time (sn_value nd) = k" by (auto simp: sk_lookup_node)
    with q show ?thesis using clock count Cons x now w
      by (auto simp: tm_schedule_def timers_def at_pos_def)
  qed
qed


lemma timers_hd: "timers clock \<noteq> [] \<Longrightarrow> due T (sk_entries clock) = map snd (takeWhile (\<lambda>x. fst x \<le> T) (timers clock))"
  by (simp add: due_def timers_def takeWhile_map comp_def case_prod_beta)

end
