(* ===== verification/Chann.thy ===== *)
theory Chann
  imports Timer
begin

unbundle bit_operations_syntax

text \<open>
  Socket parameters and the internal channel operations, src/src/mnet_core.c lines
  588--635 and 715--914.
\<close>

subsection \<open>Socket parameters\<close>

definition set_nonblocking :: "'w env \<Rightarrow> int \<Rightarrow> 'w mnet_t \<Rightarrow> int \<times> 'w mnet_t" where
  "set_nonblocking env fd s =
     (let (flag, s) = syscall (sys_fcntl_getfl env fd) s
      in if flag \<noteq> -1 then syscall (sys_fcntl_setfl env fd (flag OR O_NONBLOCK)) s else (-1, s))"

definition set_broadcast :: "'w env \<Rightarrow> int \<Rightarrow> 'w mnet_t \<Rightarrow> int \<times> 'w mnet_t" where
  "set_broadcast env fd = syscall (sys_setsockopt env fd SO_BROADCAST 1)"

definition set_keepalive :: "'w env \<Rightarrow> int \<Rightarrow> 'w mnet_t \<Rightarrow> int \<times> 'w mnet_t" where
  "set_keepalive env fd = syscall (sys_setsockopt env fd SO_KEEPALIVE 1)"

definition set_reuseaddr :: "'w env \<Rightarrow> int \<Rightarrow> 'w mnet_t \<Rightarrow> int \<times> 'w mnet_t" where
  "set_reuseaddr env fd = syscall (sys_setsockopt env fd SO_REUSEADDR 1)"

definition set_bufsize :: "'w env \<Rightarrow> int \<Rightarrow> int \<Rightarrow> 'w mnet_t \<Rightarrow> int \<times> 'w mnet_t" where
  "set_bufsize env fd buf_size s =
     (let (a, s) = syscall (sys_setsockopt env fd SO_SNDBUF buf_size) s;
          (b, s) = syscall (sys_setsockopt env fd SO_RCVBUF buf_size) s
      in (a OR b, s))"

definition bind_fd :: "'w env \<Rightarrow> int \<Rightarrow> sockaddr_in \<Rightarrow> 'w mnet_t \<Rightarrow> int \<times> 'w mnet_t" where
  "bind_fd env fd si = syscall (sys_bind env fd si)"

definition listen_fd :: "'w env \<Rightarrow> int \<Rightarrow> int \<Rightarrow> 'w mnet_t \<Rightarrow> int \<times> 'w mnet_t" where
  "listen_fd env fd backlog = syscall (sys_listen env fd (if backlog > 0 then backlog else 3))"

subsection \<open>Creation and destruction\<close>

definition chann_create :: "int \<Rightarrow> chann_state \<Rightarrow> 'w mnet_t \<Rightarrow> (addr \<times> 'w mnet_t) option" where
  "chann_create ctype state s = do {
     let n = g_brk s;
     let s = s\<lparr>g_brk := Suc n,
               g_heap := (g_heap s)(n \<mapsto> chann_zero\<lparr>c_ctype := ctype, c_state := state, c_next := g_channs s\<rparr>)\<rparr>;
     s \<leftarrow> (case g_channs s of None \<Rightarrow> Some s | Some m \<Rightarrow> upd_chann m (\<lambda>c. c\<lparr>c_prev := Some n\<rparr>) s);
     Some (n, s\<lparr>g_channs := Some n, g_chann_count := g_chann_count s + 1\<rparr>)
   }"

text \<open>The unlinking at the start of \<open>_chann_destroy\<close>.\<close>

definition chann_unlink :: "addr \<Rightarrow> 'w mnet_t \<Rightarrow> 'w mnet_t option" where
  "chann_unlink n s = do {
     c \<leftarrow> g_heap s n;
     s \<leftarrow> (case c_next c of None \<Rightarrow> Some s | Some m \<Rightarrow> upd_chann m (\<lambda>d. d\<lparr>c_prev := c_prev c\<rparr>) s);
     c \<leftarrow> g_heap s n;
     case c_prev c of
       None \<Rightarrow> Some (s\<lparr>g_channs := c_next c\<rparr>)
     | Some m \<Rightarrow> upd_chann m (\<lambda>d. d\<lparr>c_next := c_next c\<rparr>) s
   }"

definition chann_rwb_destroy :: "addr \<Rightarrow> 'w mnet_t \<Rightarrow> 'w mnet_t option" where
  "chann_rwb_destroy n s = do {
     c \<leftarrow> g_heap s n;
     h \<leftarrow> rwb_destroy (c_rwb_send c);
     upd_chann n (\<lambda>c. c\<lparr>c_rwb_send := h\<rparr>) s
   }"

definition chann_destroy :: "addr \<Rightarrow> 'w mnet_t \<Rightarrow> 'w mnet_t option" where
  "chann_destroy n s = do {
     c \<leftarrow> g_heap s n;
     if c_state c = CHANN_STATE_CLOSED then do {
       s \<leftarrow> chann_unlink n s;
       s \<leftarrow> chann_rwb_destroy n s;
       s \<leftarrow> tm_kill n s;
       Some (s\<lparr>g_chann_count := g_chann_count s - 1, g_heap := (g_heap s)(n := None)\<rparr>)
     } else Some s
   }"

subsection \<open>Accepting\<close>

definition os_accept :: "'w env \<Rightarrow> int \<Rightarrow> 'w mnet_t \<Rightarrow> int \<times> sockaddr_in \<times> 'w mnet_t" where
  "os_accept env afd s =
     (let (fd, a, e, w) = sys_accept env afd (g_world s) in (fd, a, (set_errno e s)\<lparr>g_world := w\<rparr>))"

definition chann_multiprocess_accept :: "'w env \<Rightarrow> int \<Rightarrow> 'w mnet_t \<Rightarrow> (int \<times> sockaddr_in \<times> 'w mnet_t) option" where
  "chann_multiprocess_accept env afd s = do {
     before \<leftarrow> g_ac_before s;
     (r, s) \<leftarrow> x_balancer env before (g_ac_context s) afd s;
     if r > 0 then do {
       let (fd, a, s) = os_accept env afd s;
       after \<leftarrow> g_ac_after s;
       (_, s) \<leftarrow> x_balancer env after (g_ac_context s) afd s;
       Some (fd, a, s)
     } else Some (0, addr_zero, s)
   }"

definition chann_accept :: "'w env \<Rightarrow> addr \<Rightarrow> 'w mnet_t \<Rightarrow> (addr option \<times> 'w mnet_t) option" where
  "chann_accept env n s = do {
     c \<leftarrow> g_heap s n;
     fn \<leftarrow> g_ac_fn s;
     (fd, a, s) \<leftarrow> (case fn of Accept \<Rightarrow> Some (os_accept env (c_fd c) s)
                   | Multiprocess_accept \<Rightarrow> chann_multiprocess_accept env (c_fd c) s);
     let (nb, s) = (if fd > 0 then set_nonblocking env fd s else (-1, s));
     if fd > 0 \<and> nb \<ge> 0 then do {
       c \<leftarrow> g_heap s n;
       (m, s) \<leftarrow> chann_create (c_ctype c) CHANN_STATE_CONNECTED s;
       s \<leftarrow> upd_chann m (\<lambda>d. d\<lparr>c_fd := fd, c_addr := a, c_addr_len := sizeof_sockaddr_in\<rparr>) s;
       c \<leftarrow> g_heap s n;
       ext \<leftarrow> ext_config s (c_ctype c);
       s \<leftarrow> call_op_cb env (e_accept_cb ext) ext m s;
       Some (Some m, s)
     } else Some (None, s)
   }"

subsection \<open>Sending, disconnecting, closing\<close>

definition chann_send :: "'w env \<Rightarrow> addr \<Rightarrow> byte list \<Rightarrow> 'w mnet_t \<Rightarrow> (int \<times> 'w mnet_t) option" where
  "chann_send env n buf s = do {
     c \<leftarrow> g_heap s n;
     ext \<leftarrow> ext_config s (c_ctype c);
     (ret, s) \<leftarrow> call_send_fn env ext n buf s;
     s \<leftarrow> (if ret > 0 then upd_chann n (\<lambda>c. c\<lparr>c_bytes_send := c_bytes_send c + ret\<rparr>) s else Some s);
     Some (ret, s)
   }"

definition chann_disconnect_socket :: "'w env \<Rightarrow> addr \<Rightarrow> 'w mnet_t \<Rightarrow> (int \<times> 'w mnet_t) option" where
  "chann_disconnect_socket env n s = do {
     c \<leftarrow> g_heap s n;
     if c_fd c > 0 \<and> c_state c > CHANN_STATE_DISCONNECT then do {
       ext \<leftarrow> ext_config s (c_ctype c);
       s \<leftarrow> call_op_cb env (e_disconnect_cb ext) ext n s;
       c \<leftarrow> g_heap s n;
       let (_, s) = syscall (sys_close env (c_fd c)) s;
       s \<leftarrow> chann_rwb_destroy n s;
       s \<leftarrow> upd_chann n (\<lambda>c. c\<lparr>c_fd := -1, c_state := CHANN_STATE_DISCONNECT, c_epoll_events := 0\<rparr>) s;
       Some (1, s)
     } else Some (0, s)
   }"

definition chann_close_socket :: "'w env \<Rightarrow> addr \<Rightarrow> 'w mnet_t \<Rightarrow> 'w mnet_t option" where
  "chann_close_socket env n s = do {
     c \<leftarrow> g_heap s n;
     if c_state c > CHANN_STATE_CLOSED then do {
       ext \<leftarrow> ext_config s (c_ctype c);
       s \<leftarrow> call_op_cb env (e_close_cb ext) ext n s;
       s \<leftarrow> upd_chann n (\<lambda>c. c\<lparr>c_del_next := g_del_channs s, c_state := CHANN_STATE_CLOSED, c_opaque := None\<rparr>) s;
       Some (s\<lparr>g_del_channs := Some n\<rparr>)
     } else Some s
   }"

definition chann_get_err :: "'w env \<Rightarrow> addr \<Rightarrow> 'w mnet_t \<Rightarrow> (int \<times> 'w mnet_t) option" where
  "chann_get_err env n s = do {
     c \<leftarrow> g_heap s n;
     let (ret, err, e, w) = sys_getsockopt_error env (c_fd c) (g_world s);
     let s = (set_errno e s)\<lparr>g_world := w\<rparr>;
     Some (if ret = 0 then err else -9999, s)
   }"

text \<open>
  The tail of every failing send or receive: disconnect, post the message and, unless an
  extension filters it, put the channel on the list of disconnected ones.
\<close>

definition chann_fail :: "'w env \<Rightarrow> addr \<Rightarrow> 'w mnet_t \<Rightarrow> 'w mnet_t option" where
  "chann_fail env n s = do {
     (_, s) \<leftarrow> chann_disconnect_socket env n s;
     (f, s) \<leftarrow> chann_msg env n CHANN_EVENT_DISCONNECT None (g_errno s) s;
     if f \<noteq> 0 then do {
       s \<leftarrow> upd_chann n (\<lambda>c. c\<lparr>c_dis_next := g_dis_channs s\<rparr>) s;
       Some (s\<lparr>g_dis_channs := Some n\<rparr>)
     } else Some s
   }"

text \<open>The body of the \<open>do\<close> loop of \<open>_chann_sended_rwb\<close>: the value sent, the length offered.\<close>

definition sended_step :: "'w env \<Rightarrow> addr \<Rightarrow> 'w mnet_t \<Rightarrow> (int \<times> int \<times> 'w mnet_t) option" where
  "sended_step env n s = do {
     c \<leftarrow> g_heap s n;
     (buf, len) \<leftarrow> rwb_drain_param (c_rwb_send c);
     (ret, s) \<leftarrow> chann_send env n buf s;
     s \<leftarrow> (if ret > 0 then do {
             c \<leftarrow> g_heap s n;
             h \<leftarrow> rwb_drain (c_rwb_send c) ret;
             upd_chann n (\<lambda>c. c\<lparr>c_rwb_send := h\<rparr>) s
           } else if ret < 0 then chann_fail env n s
           else Some s);
     Some (ret, len, s)
   }"

partial_function (option) sended_loop :: "'w env \<Rightarrow> addr \<Rightarrow> 'w mnet_t \<Rightarrow> 'w mnet_t option" where
  "sended_loop env n s = do {
     r \<leftarrow> sended_step env n s;
     c \<leftarrow> g_heap (snd (snd r)) n;
     if fst r > 0 \<and> fst r \<ge> fst (snd r) \<and> rwb_count (c_rwb_send c) > 0
     then sended_loop env n (snd (snd r))
     else Some (snd (snd r))
   }"

definition chann_sended_rwb :: "'w env \<Rightarrow> addr \<Rightarrow> 'w mnet_t \<Rightarrow> (bool \<times> 'w mnet_t) option" where
  "chann_sended_rwb env n s = do {
     c \<leftarrow> g_heap s n;
     if rwb_count (c_rwb_send c) \<le> 0 then Some (True, s)
     else do {
       s \<leftarrow> sended_loop env n s;
       c \<leftarrow> g_heap s n;
       Some (rwb_count (c_rwb_send c) \<le> 0, s)
     }
   }"

subsection \<open>Opening a socket\<close>

definition chann_fill_addr :: "'w env \<Rightarrow> addr \<Rightarrow> string option \<Rightarrow> int \<Rightarrow> 'w mnet_t \<Rightarrow> 'w mnet_t option" where
  "chann_fill_addr env n host port =
     upd_chann n (\<lambda>c. c\<lparr>c_addr := \<lparr>sin_family = AF_INET, sin_port = word_of_int port,
         sin_addr = (case host of None \<Rightarrow> 0 | Some h \<Rightarrow> sys_inet_addr env h)\<rparr>,
       c_addr_len := sizeof_sockaddr_in\<rparr>)"

text \<open>
  The chain of checks of \<open>_chann_open_socket\<close> after the address is filled in: each system
  call runs only if the ones before succeeded.  The result says whether all did.
\<close>

definition open_checks :: "'w env \<Rightarrow> int \<Rightarrow> sockaddr_in \<Rightarrow> bool \<Rightarrow> bool \<Rightarrow> int \<Rightarrow> int \<Rightarrow> 'w mnet_t \<Rightarrow>
    bool \<times> 'w mnet_t" where
  "open_checks env fd si istcp isbc backlog buf_size s =
     (let (r, s) = set_reuseaddr env fd s in if r < 0 then (False, s) else
      let (r, s) = (if backlog \<noteq> 0 then bind_fd env fd si s else (0, s)) in if r < 0 then (False, s) else
      let (r, s) = (if backlog \<noteq> 0 \<and> istcp then listen_fd env fd backlog s else (0, s)) in if r < 0 then (False, s) else
      let (r, s) = set_nonblocking env fd s in if r < 0 then (False, s) else
      let (r, s) = (if istcp then set_keepalive env fd s else (0, s)) in if r < 0 then (False, s) else
      let (r, s) = (if isbc then set_broadcast env fd s else (0, s)) in if r < 0 then (False, s) else
      let (r, s) = set_bufsize env fd buf_size s in (\<not> r < 0, s))"

definition chann_open_socket :: "'w env \<Rightarrow> addr \<Rightarrow> string option \<Rightarrow> int \<Rightarrow> int \<Rightarrow> 'w mnet_t \<Rightarrow>
    (int \<times> 'w mnet_t) option" where
  "chann_open_socket env n host port backlog s = do {
     c \<leftarrow> g_heap s n;
     if c_state c = CHANN_STATE_DISCONNECT then do {
       ext \<leftarrow> ext_config s (c_ctype c);
       ty \<leftarrow> call_type_fn env ext (c_ctype c);
       let istcp = (ty = CHANN_TYPE_STREAM);
       let isbc = (ty = CHANN_TYPE_BROADCAST);
       let (fd, s) = syscall (sys_socket env istcp) s;
       if fd > 0 then do {
         let buf_size = (if c_buf_size c > 0 then c_buf_size c else MNET_BUF_SIZE);
         s \<leftarrow> chann_fill_addr env n host port s;
         c \<leftarrow> g_heap s n;
         let (ok, s) = open_checks env fd (c_addr c) istcp isbc backlog buf_size s;
         if ok then Some (fd, s)
         else Some (-1, snd (syscall (sys_close env fd) s))
       } else Some (-1, s)
     } else Some (-1, s)
   }"

end
