(* ===== verification/Evt.thy ===== *)
theory Evt
  imports Chann
begin

unbundle bit_operations_syntax

text \<open>
  The event queue, src/src/mnet_core.c lines 916--1300, in the epoll variant: registering
  interest, polling, and turning the kernel's events into messages.
\<close>

definition KEV_CHG_ARRAY_SIZE :: nat where "KEV_CHG_ARRAY_SIZE = 4"
definition KEV_EVT_ARRAY_SIZE :: nat where "KEV_EVT_ARRAY_SIZE = 256"

definition EPOLLIN :: "32 word" where "EPOLLIN = 1"
definition EPOLLOUT :: "32 word" where "EPOLLOUT = 4"
definition EPOLLERR :: "32 word" where "EPOLLERR = 8"
definition EPOLLHUP :: "32 word" where "EPOLLHUP = 0x10"
definition EPOLLRDHUP :: "32 word" where "EPOLLRDHUP = 0x2000"
definition EPOLL_CTL_ADD :: int where "EPOLL_CTL_ADD = 1"
definition EPOLL_CTL_DEL :: int where "EPOLL_CTL_DEL = 2"
definition EPOLL_CTL_MOD :: int where "EPOLL_CTL_MOD = 3"

lemmas epoll_defs = EPOLLIN_def EPOLLOUT_def EPOLLERR_def EPOLLHUP_def EPOLLRDHUP_def
lemmas epoll_ops = EPOLL_CTL_ADD_def EPOLL_CTL_DEL_def EPOLL_CTL_MOD_def

datatype evt_set = MNET_SET_READ | MNET_SET_WRITE | MNET_SET_DEL

definition kev_flags :: "mevent_t \<Rightarrow> 32 word \<Rightarrow> bool" where
  "kev_flags kev flags \<longleftrightarrow> ev_events kev AND flags \<noteq> 0"

definition kev_events :: "mevent_t \<Rightarrow> 32 word \<Rightarrow> bool" where
  "kev_events kev events \<longleftrightarrow> ev_events kev AND events \<noteq> 0"

definition kev_errno :: "mevent_t \<Rightarrow> int" where
  "kev_errno kev = sint (ev_events kev)"

definition mevent_zero :: mevent_t where
  "mevent_zero = \<lparr>ev_events = 0, ev_ptr = None\<rparr>"

definition evt_init :: "'w env \<Rightarrow> 'w mnet_t \<Rightarrow> int \<times> 'w mnet_t" where
  "evt_init env s =
     (if g_kq s \<le> 0 then
        (let (kq, s) = syscall (sys_epoll_create env (int KEV_EVT_ARRAY_SIZE)) s
         in (1, s\<lparr>g_kq := kq,
                  g_chg := (g_chg s)\<lparr>se_size := int KEV_CHG_ARRAY_SIZE,
                                     se_array := replicate KEV_CHG_ARRAY_SIZE mevent_zero\<rparr>,
                  g_evt := (g_evt s)\<lparr>se_size := int KEV_EVT_ARRAY_SIZE,
                                     se_array := replicate KEV_EVT_ARRAY_SIZE mevent_zero\<rparr>\<rparr>))
      else (0, s))"

definition evt_fini :: "'w env \<Rightarrow> 'w mnet_t \<Rightarrow> 'w mnet_t" where
  "evt_fini env s =
     (if g_kq s \<noteq> 0 then
        (let (_, s) = syscall (sys_close env (g_kq s)) s
         in s\<lparr>g_chg := s_event_zero, g_evt := s_event_zero, g_kq := 0\<rparr>)
      else s)"

text \<open>\<open>_evt_check_expand\<close>; a reallocation keeps the old cells.\<close>

definition evt_check_expand :: "s_event \<Rightarrow> s_event" where
  "evt_check_expand ev =
     (if se_count ev < se_size ev then ev
      else let nsize = se_size ev * 2
           in ev\<lparr>se_array := se_array ev @ replicate (nat nsize - length (se_array ev)) mevent_zero,
                 se_size := nsize\<rparr>)"

text \<open>
  The common shape of \<open>_evt_add\<close> and \<open>_evt_del\<close>: the first cell of the change array holds
  the request while it is passed to the kernel.
\<close>

definition evt_ctl :: "'w env \<Rightarrow> int \<Rightarrow> addr \<Rightarrow> 32 word \<Rightarrow> 'w mnet_t \<Rightarrow> (int \<times> 'w mnet_t) option" where
  "evt_ctl env op n events s = do {
     let kev = \<lparr>ev_events = events, ev_ptr = Some n\<rparr>;
     arr \<leftarrow> wr (se_array (g_chg s)) 0 kev;
     c \<leftarrow> g_heap s n;
     let s = s\<lparr>g_chg := (g_chg s)\<lparr>se_array := arr\<rparr>\<rparr>;
     let (r, s) = syscall (sys_epoll_ctl env (g_kq s) op (c_fd c) kev) s;
     if r < 0 then Some (0, s)
     else do {
       s \<leftarrow> upd_chann n (\<lambda>c. c\<lparr>c_epoll_events := events\<rparr>) s;
       Some (1, s)
     }
   }"

definition add_events :: "evt_set \<Rightarrow> 32 word \<Rightarrow> 32 word" where
  "add_events st old =
     (case st of
        MNET_SET_READ \<Rightarrow> old OR EPOLLIN OR EPOLLRDHUP OR EPOLLHUP
      | MNET_SET_WRITE \<Rightarrow> old OR EPOLLOUT OR EPOLLRDHUP OR EPOLLHUP
      | MNET_SET_DEL \<Rightarrow> 0)"

definition del_events :: "evt_set \<Rightarrow> 32 word \<Rightarrow> 32 word" where
  "del_events st old =
     (case st of
        MNET_SET_READ \<Rightarrow> old AND NOT EPOLLIN
      | MNET_SET_WRITE \<Rightarrow> old AND NOT EPOLLOUT
      | MNET_SET_DEL \<Rightarrow> 0)"

definition evt_add :: "'w env \<Rightarrow> addr \<Rightarrow> evt_set \<Rightarrow> 'w mnet_t \<Rightarrow> (int \<times> 'w mnet_t) option" where
  "evt_add env n st s = do {
     let s = s\<lparr>g_chg := evt_check_expand (g_chg s)\<rparr>;
     c \<leftarrow> g_heap s n;
     evt_ctl env (if c_epoll_events c \<noteq> 0 then EPOLL_CTL_MOD else EPOLL_CTL_ADD) n
       (add_events st (c_epoll_events c)) s
   }"

definition evt_del :: "'w env \<Rightarrow> addr \<Rightarrow> evt_set \<Rightarrow> 'w mnet_t \<Rightarrow> (int \<times> 'w mnet_t) option" where
  "evt_del env n st s = do {
     let s = s\<lparr>g_chg := evt_check_expand (g_chg s)\<rparr>;
     c \<leftarrow> g_heap s n;
     let events = del_events st (c_epoll_events c);
     evt_ctl env (if events \<noteq> 0 then EPOLL_CTL_MOD else EPOLL_CTL_DEL) n events s
   }"

partial_function (option) del_channs_loop :: "addr option \<Rightarrow> 'w mnet_t \<Rightarrow> 'w mnet_t option" where
  "del_channs_loop p s =
     (case p of
        None \<Rightarrow> Some s
      | Some n \<Rightarrow> do {
          c \<leftarrow> g_heap s n;
          s \<leftarrow> chann_destroy n s;
          del_channs_loop (c_del_next c) s
        })"

definition evt_del_channs :: "'w mnet_t \<Rightarrow> 'w mnet_t option" where
  "evt_del_channs s = do {
     s \<leftarrow> del_channs_loop (g_del_channs s) s;
     Some (s\<lparr>g_del_channs := None\<rparr>)
   }"

text \<open>The kernel writes the events it reports to the front of the event array.\<close>

definition evt_poll :: "'w env \<Rightarrow> 32 word \<Rightarrow> 'w mnet_t \<Rightarrow> (int \<times> 'w mnet_t) option" where
  "evt_poll env milliseconds s = do {
     s \<leftarrow> evt_del_channs s;
     s \<leftarrow> tm_schedule env s;
     let (cnt, evs, e, w) = sys_epoll_wait env (g_kq s) (se_size (g_evt s)) milliseconds (g_world s);
     let s = (set_errno e s)\<lparr>g_world := w, g_fd_count := cnt,
               g_evt := (g_evt s)\<lparr>se_array := evs @ drop (length evs) (se_array (g_evt s))\<rparr>,
               g_fd_index := -1\<rparr>;
     Some (if cnt < 0 \<and> g_errno s \<noteq> EINTR then -1 else g_chann_count s, s)
   }"

text \<open>
  The body of the loop of \<open>_evt_result_next\<close> for one kernel event on channel \<open>n\<close>: the
  channel whose message is to be returned, or NULL to go on with the next event.
\<close>

definition ret_msg :: "'w env \<Rightarrow> addr \<Rightarrow> chann_event \<Rightarrow> addr option \<Rightarrow> int \<Rightarrow> 'w mnet_t \<Rightarrow>
    (addr option \<times> 'w mnet_t) option" where
  "ret_msg env n event r err s = do {
     (f, s) \<leftarrow> chann_msg env n event r err s;
     Some (if f \<noteq> 0 then Some n else None, s)
   }"

definition evt_error :: "'w env \<Rightarrow> mevent_t \<Rightarrow> addr \<Rightarrow> 'w mnet_t \<Rightarrow> (addr option \<times> 'w mnet_t) option" where
  "evt_error env kev n s =
     (if kev_flags kev EPOLLERR then do {
        (err, s) \<leftarrow> chann_get_err env n s;
        (_, s) \<leftarrow> chann_disconnect_socket env n s;
        ret_msg env n CHANN_EVENT_DISCONNECT None err s
      } else do {
        (_, s) \<leftarrow> chann_disconnect_socket env n s;
        ret_msg env n CHANN_EVENT_DISCONNECT None (kev_errno kev) s
      })"

definition evt_listening :: "'w env \<Rightarrow> addr \<Rightarrow> 'w mnet_t \<Rightarrow> (addr option \<times> 'w mnet_t) option" where
  "evt_listening env n s = do {
     c \<leftarrow> g_heap s n;
     ext \<leftarrow> ext_config s (c_ctype c);
     ty \<leftarrow> call_type_fn env ext (c_ctype c);
     if ty = CHANN_TYPE_STREAM then do {
       (m, s) \<leftarrow> chann_accept env n s;
       case m of
         None \<Rightarrow> Some (None, s)
       | Some c \<Rightarrow> do {
           (_, s) \<leftarrow> evt_add env c MNET_SET_READ s;
           ret_msg env n CHANN_EVENT_ACCEPT (Some c) 0 s
         }
     } else ret_msg env n CHANN_EVENT_RECV None 0 s
   }"

definition evt_connecting :: "'w env \<Rightarrow> addr \<Rightarrow> 'w mnet_t \<Rightarrow> (addr option \<times> 'w mnet_t) option" where
  "evt_connecting env n s = do {
     c \<leftarrow> g_heap s n;
     let (ret, v, e, w) = sys_getsockopt_error env (c_fd c) (g_world s);
     let s = (set_errno e s)\<lparr>g_world := w\<rparr>;
     let opt = (if ret = 0 then v else 0);
     if opt = 0 then do {
       (_, s) \<leftarrow> evt_del env n MNET_SET_WRITE s;
       (_, s) \<leftarrow> evt_add env n MNET_SET_READ s;
       s \<leftarrow> upd_chann n (\<lambda>c. c\<lparr>c_state := CHANN_STATE_CONNECTED\<rparr>) s;
       ret_msg env n CHANN_EVENT_CONNECTED None 0 s
     } else do {
       (_, s) \<leftarrow> chann_disconnect_socket env n s;
       ret_msg env n CHANN_EVENT_DISCONNECT None opt s
     }
   }"

definition evt_connected :: "'w env \<Rightarrow> mevent_t \<Rightarrow> addr \<Rightarrow> 'w mnet_t \<Rightarrow> (addr option \<times> 'w mnet_t) option" where
  "evt_connected env kev n s =
     (if kev_events kev EPOLLIN then ret_msg env n CHANN_EVENT_RECV None 0 s
      else if kev_events kev EPOLLOUT then do {
        (done, s) \<leftarrow> chann_sended_rwb env n s;
        if done then do {
          c \<leftarrow> g_heap s n;
          if c_active_send_event c then ret_msg env n CHANN_EVENT_SEND None 0 s
          else do { (_, s) \<leftarrow> evt_del env n MNET_SET_WRITE s; Some (None, s) }
        } else Some (None, s)
      } else Some (None, s))"

definition evt_dispatch :: "'w env \<Rightarrow> mevent_t \<Rightarrow> addr \<Rightarrow> 'w mnet_t \<Rightarrow> (addr option \<times> 'w mnet_t) option" where
  "evt_dispatch env kev n s = do {
     c \<leftarrow> g_heap s n;
     if c_state c = CHANN_STATE_CLOSED \<or> c_fd c < 0 then Some (None, s)
     else if kev_flags kev (EPOLLERR OR (EPOLLRDHUP OR EPOLLHUP)) then evt_error env kev n s
     else case c_state c of
       CHANN_STATE_LISTENING \<Rightarrow> evt_listening env n s
     | CHANN_STATE_CONNECTING \<Rightarrow> evt_connecting env n s
     | CHANN_STATE_CONNECTED \<Rightarrow> evt_connected env kev n s
     | _ \<Rightarrow> Some (None, s)
   }"

partial_function (option) evt_result_next :: "'w env \<Rightarrow> 'w mnet_t \<Rightarrow> (addr option \<times> 'w mnet_t) option" where
  "evt_result_next env s = do {
     r \<leftarrow> tm_next env s;
     let s = snd r;
     case fst r of
       Some n \<Rightarrow> Some (Some n, s)
     | None \<Rightarrow>
        (case g_dis_channs s of
           Some n \<Rightarrow> do { c \<leftarrow> g_heap s n; Some (Some n, s\<lparr>g_dis_channs := c_dis_next c\<rparr>) }
         | None \<Rightarrow> do {
             let s = s\<lparr>g_fd_index := g_fd_index s + 1\<rparr>;
             if g_fd_index s \<ge> g_fd_count s then Some (None, s)
             else do {
               kev \<leftarrow> rd (se_array (g_evt s)) (g_fd_index s);
               n \<leftarrow> ev_ptr kev;
               r \<leftarrow> evt_dispatch env kev n s;
               case fst r of
                 Some n \<Rightarrow> Some (Some n, snd r)
               | None \<Rightarrow> evt_result_next env (snd r)
             }
           })
   }"

subsection \<open>Registering interest\<close>

text \<open>A change of the events of interest touches nothing else of the channel.\<close>

lemma evt_ctl_ok:
  assumes "se_array (g_chg s) \<noteq> []" "g_heap s n = Some c"
    and w: "\<And>r e w. sys_epoll_ctl env (g_kq s) op (c_fd c) \<lparr>ev_events = events, ev_ptr = Some n\<rparr> (g_world s) = (r, e, w) \<Longrightarrow> P w"
  shows "\<exists>r e w ev chg. evt_ctl env op n events s =
      Some (r, s\<lparr>g_chg := chg, g_heap := (g_heap s)(n \<mapsto> c\<lparr>c_epoll_events := ev\<rparr>), g_errno := e, g_world := w\<rparr>) \<and>
    se_array chg \<noteq> [] \<and> P w"
proof -
  let ?kev = "\<lparr>ev_events = events, ev_ptr = Some n\<rparr>"
  obtain r e w where sys: "sys_epoll_ctl env (g_kq s) op (c_fd c) ?kev (g_world s) = (r, e, w)" by (metis prod.exhaust)
  define e' where "e' = (case e of None \<Rightarrow> g_errno s | Some x \<Rightarrow> x)"
  define chg where "chg = (g_chg s)\<lparr>se_array := (se_array (g_chg s))[0 := ?kev]\<rparr>"
  have st: "(set_errno e t)\<lparr>g_world := w\<rparr> = t\<lparr>g_errno := e', g_world := w\<rparr>" if "g_errno t = g_errno s" for t
    using that by (cases e) (simp_all add: set_errno_def e'_def)
  have arr: "wr (se_array (g_chg s)) 0 ?kev = Some (se_array chg)" using assms(1) by (simp add: wr_Some chg_def)
  have c0: "(g_heap s)(n \<mapsto> c\<lparr>c_epoll_events := c_epoll_events c\<rparr>) = g_heap s"
    using assms(2) by (simp add: fun_upd_idem)
  have "evt_ctl env op n events s = Some (if r < 0 then 0 else 1, s\<lparr>g_chg := chg,
      g_heap := (g_heap s)(n \<mapsto> c\<lparr>c_epoll_events := if r < 0 then c_epoll_events c else events\<rparr>), g_errno := e', g_world := w\<rparr>)"
    using assms(2) sys c0
    by (simp add: evt_ctl_def arr syscall_def st upd_chann_def) (simp add: chg_def)
  moreover have "se_array chg \<noteq> []" using assms(1) by (simp add: chg_def)
  ultimately show ?thesis using w [OF sys] by blast
qed

lemma check_expand_array: "se_array ev \<noteq> [] \<Longrightarrow> se_array (evt_check_expand ev) \<noteq> []"
  by (simp add: evt_check_expand_def Let_def)

lemma evt_change_ok:
  assumes "se_array (g_chg s) \<noteq> []" "g_heap s n = Some c"
    and w: "\<And>kq op fd kev r e w. sys_epoll_ctl env kq op fd kev (g_world s) = (r, e, w) \<Longrightarrow> P w"
  shows "\<exists>r e w ev chg. evt_add env n st s =
      Some (r, s\<lparr>g_chg := chg, g_heap := (g_heap s)(n \<mapsto> c\<lparr>c_epoll_events := ev\<rparr>), g_errno := e, g_world := w\<rparr>) \<and>
    se_array chg \<noteq> [] \<and> P w"
    and "\<exists>r e w ev chg. evt_del env n st s =
      Some (r, s\<lparr>g_chg := chg, g_heap := (g_heap s)(n \<mapsto> c\<lparr>c_epoll_events := ev\<rparr>), g_errno := e, g_world := w\<rparr>) \<and>
    se_array chg \<noteq> [] \<and> P w"
  using evt_ctl_ok [of "s\<lparr>g_chg := evt_check_expand (g_chg s)\<rparr>" n c env _ _ P] assms check_expand_array [OF assms(1)]
  by (simp_all add: evt_add_def evt_del_def Let_def)

end
