(* ===== verification/Api.thy ===== *)
theory Api
  imports Evt
begin

unbundle bit_operations_syntax

text \<open>
  The public functions of the library, src/src/mnet_core.c lines 1302--1413 and 1478--1868.

  A channel argument is a pointer that may be NULL.  A caller's buffer is a list of bytes
  or NULL, with the length the caller passes; a length beyond the buffer has no result.
\<close>

subsection \<open>Library\<close>

definition mnet_init :: "'w env \<Rightarrow> 'w mnet_t \<Rightarrow> (int \<times> 'w mnet_t) option" where
  "mnet_init env s =
     (if \<not> g_init s then do {
        let s = s\<lparr>g_world := sys_sigpipe_ign env (g_world s)\<rparr>;
        let (_, s) = evt_init env s;
        let (now, s) = tm_now env s;
        let s = s\<lparr>g_world := sys_srand env now (g_world s)\<rparr>;
        clock \<leftarrow> skiplist_create;
        cfg \<leftarrow> wr (g_ext_config s) CHANN_TYPE_STREAM (init_ext CHANN_TYPE_STREAM);
        cfg \<leftarrow> wr cfg CHANN_TYPE_DGRAM (init_ext CHANN_TYPE_DGRAM);
        cfg \<leftarrow> wr cfg CHANN_TYPE_BROADCAST (init_ext CHANN_TYPE_BROADCAST);
        Some (1, s\<lparr>g_tm_clock := Some clock, g_ac_fn := Some Accept, g_init := True, g_ext_config := cfg\<rparr>)
      } else Some (0, s))"

partial_function (option) fini_loop :: "'w env \<Rightarrow> addr option \<Rightarrow> 'w mnet_t \<Rightarrow> 'w mnet_t option" where
  "fini_loop env p s =
     (case p of
        None \<Rightarrow> Some s
      | Some n \<Rightarrow> do {
          c \<leftarrow> g_heap s n;
          r \<leftarrow> chann_disconnect_socket env n s;
          s \<leftarrow> chann_close_socket env n (snd r);
          s \<leftarrow> chann_destroy n s;
          fini_loop env (c_next c) s
        })"

definition mnet_fini :: "'w env \<Rightarrow> 'w mnet_t \<Rightarrow> 'w mnet_t option" where
  "mnet_fini env s =
     (if g_init s then do {
        s \<leftarrow> fini_loop env (g_channs s) s;
        let s = evt_fini env s;
        clock \<leftarrow> g_tm_clock s;
        _ \<leftarrow> skiplist_destroy clock;
        Some (mnet_zero s)
      } else Some s)"

definition mnet_version :: int where
  "mnet_version = 20230610"

text \<open>\<open>mnet_report\<close>: the count, and the lines it logs about the channels.\<close>

partial_function (option) report_loop ::
    "'w mnet_t \<Rightarrow> addr option \<Rightarrow> (addr \<times> int \<times> chann_state \<times> sockaddr_in) list option" where
  "report_loop s p =
     (case p of
        None \<Rightarrow> Some []
      | Some n \<Rightarrow> do {
          c \<leftarrow> g_heap s n;
          rest \<leftarrow> report_loop s (c_next c);
          Some ((n, c_fd c, c_state c, c_addr c) # rest)
        })"

definition mnet_report :: "int \<Rightarrow> 'w mnet_t \<Rightarrow>
    (int \<times> (addr \<times> int \<times> chann_state \<times> sockaddr_in) list) option" where
  "mnet_report level s =
     (if g_init s then do {
        lines \<leftarrow> (if level > 0 then report_loop s (g_channs s) else Some []);
        Some (g_chann_count s, lines)
      } else Some (-1, []))"

definition mnet_multi_accept_balancer :: "addr option \<Rightarrow> nat option \<Rightarrow> nat option \<Rightarrow> 'w mnet_t \<Rightarrow> 'w mnet_t" where
  "mnet_multi_accept_balancer ctx before after s =
     (if before \<noteq> None \<and> after \<noteq> None
      then s\<lparr>g_ac_context := ctx, g_ac_before := before, g_ac_after := after, g_ac_fn := Some Multiprocess_accept\<rparr>
      else s\<lparr>g_ac_context := None, g_ac_before := None, g_ac_after := None, g_ac_fn := Some Accept\<rparr>)"

partial_function (option) reset_loop :: "'w env \<Rightarrow> addr option \<Rightarrow> 'w mnet_t \<Rightarrow> 'w mnet_t option" where
  "reset_loop env p s =
     (case p of
        None \<Rightarrow> Some s
      | Some n \<Rightarrow> do {
          s \<leftarrow> upd_chann n (\<lambda>c. c\<lparr>c_epoll_events := 0\<rparr>) s;
          r \<leftarrow> evt_add env n MNET_SET_READ s;
          c \<leftarrow> g_heap (snd r) n;
          reset_loop env (c_next c) (snd r)
        })"

definition mnet_multi_reset_event :: "'w env \<Rightarrow> 'w mnet_t \<Rightarrow> 'w mnet_t option" where
  "mnet_multi_reset_event env s = do {
     let s = evt_fini env s;
     let (_, s) = evt_init env s;
     reset_loop env (g_channs s) s
   }"

definition mnet_poll :: "'w env \<Rightarrow> 32 word \<Rightarrow> 'w mnet_t \<Rightarrow> (int \<times> 'w mnet_t) option" where
  "mnet_poll env milliseconds s = evt_poll env milliseconds s"

definition mnet_result_next :: "'w env \<Rightarrow> 'w mnet_t \<Rightarrow> (addr option \<times> 'w mnet_t) option" where
  "mnet_result_next env s = evt_result_next env s"

subsection \<open>Channels\<close>

definition mnet_chann_open :: "'w env \<Rightarrow> int \<Rightarrow> 'w mnet_t \<Rightarrow> (addr option \<times> 'w mnet_t) option" where
  "mnet_chann_open env ctype s =
     (if ctype < CHANN_TYPE_STREAM \<or> ctype \<ge> MNET_EXT_MAX_SIZE then Some (None, s)
      else do {
        ext \<leftarrow> ext_config s ctype;
        if \<not> e_reserved ext then Some (None, s)
        else do {
          (n, s) \<leftarrow> chann_create ctype CHANN_STATE_DISCONNECT s;
          s \<leftarrow> call_op_cb env (e_open_cb ext) ext n s;
          Some (Some n, s)
        }
      })"

definition mnet_chann_close :: "'w env \<Rightarrow> addr option \<Rightarrow> 'w mnet_t \<Rightarrow> 'w mnet_t option" where
  "mnet_chann_close env p s =
     (case p of None \<Rightarrow> Some s
      | Some n \<Rightarrow> do {
          c \<leftarrow> g_heap s n;
          if c_state c > CHANN_STATE_CLOSED then do {
            (_, s) \<leftarrow> chann_disconnect_socket env n s;
            chann_close_socket env n s
          } else Some s
        })"

definition mnet_chann_fd :: "addr option \<Rightarrow> 'w mnet_t \<Rightarrow> int option" where
  "mnet_chann_fd p s = (case p of None \<Rightarrow> Some (-1) | Some n \<Rightarrow> do { c \<leftarrow> g_heap s n; Some (c_fd c) })"

definition mnet_chann_type :: "addr option \<Rightarrow> 'w mnet_t \<Rightarrow> int option" where
  "mnet_chann_type p s = (case p of None \<Rightarrow> Some 0 | Some n \<Rightarrow> do { c \<leftarrow> g_heap s n; Some (c_ctype c) })"

text \<open>\<open>ext->state_fn(ext->ext_ctx, n, n->state)\<close>, which most functions below evaluate.\<close>

definition eff_state :: "'w env \<Rightarrow> addr \<Rightarrow> 'w mnet_t \<Rightarrow> int option" where
  "eff_state env n s = do {
     c \<leftarrow> g_heap s n;
     ext \<leftarrow> ext_config s (c_ctype c);
     call_state_fn env ext n (state_val (c_state c)) s
   }"

definition mnet_chann_state :: "'w env \<Rightarrow> addr option \<Rightarrow> 'w mnet_t \<Rightarrow> int option" where
  "mnet_chann_state env p s = (case p of None \<Rightarrow> Some (-1) | Some n \<Rightarrow> eff_state env n s)"

definition mnet_chann_connect :: "'w env \<Rightarrow> addr option \<Rightarrow> string option \<Rightarrow> int \<Rightarrow> 'w mnet_t \<Rightarrow>
    (int \<times> 'w mnet_t) option" where
  "mnet_chann_connect env p host port s =
     (case p of None \<Rightarrow> Some (0, s)
      | Some n \<Rightarrow>
        if host \<noteq> None \<and> port > 0 then do {
          (fd, s) \<leftarrow> chann_open_socket env n host port 0 s;
          if fd > 0 then do {
            s \<leftarrow> upd_chann n (\<lambda>c. c\<lparr>c_fd := fd\<rparr>) s;
            c \<leftarrow> g_heap s n;
            ext \<leftarrow> ext_config s (c_ctype c);
            ty \<leftarrow> call_type_fn env ext (c_ctype c);
            if ty = CHANN_TYPE_STREAM then do {
              let (r, s) = syscall (sys_connect env fd (c_addr c)) s;
              if r \<ge> 0 \<or> g_errno s = EINPROGRESS \<or> g_errno s = EWOULDBLOCK then do {
                s \<leftarrow> upd_chann n (\<lambda>c. c\<lparr>c_state := CHANN_STATE_CONNECTING\<rparr>) s;
                (_, s) \<leftarrow> evt_add env n MNET_SET_WRITE s;
                s \<leftarrow> call_op_cb env (e_connect_cb ext) ext n s;
                Some (1, s)
              } else Some (0, s)
            } else do {
              s \<leftarrow> upd_chann n (\<lambda>c. c\<lparr>c_state := CHANN_STATE_CONNECTED\<rparr>) s;
              (_, s) \<leftarrow> evt_add env n MNET_SET_READ s;
              s \<leftarrow> call_op_cb env (e_connect_cb ext) ext n s;
              Some (1, s)
            }
          } else Some (0, s)
        } else Some (0, s))"

definition mnet_chann_disconnect :: "'w env \<Rightarrow> addr option \<Rightarrow> 'w mnet_t \<Rightarrow> 'w mnet_t option" where
  "mnet_chann_disconnect env p s =
     (case p of None \<Rightarrow> Some s
      | Some n \<Rightarrow> do { (_, s) \<leftarrow> chann_disconnect_socket env n s; Some s })"

definition mnet_chann_listen :: "'w env \<Rightarrow> addr option \<Rightarrow> string option \<Rightarrow> int \<Rightarrow> int \<Rightarrow> 'w mnet_t \<Rightarrow>
    (int \<times> 'w mnet_t) option" where
  "mnet_chann_listen env p host port backlog s =
     (case p of None \<Rightarrow> Some (0, s)
      | Some n \<Rightarrow>
        if port > 0 then do {
          (fd, s) \<leftarrow> chann_open_socket env n host port (backlog OR 1) s;
          if fd > 0 then do {
            s \<leftarrow> upd_chann n (\<lambda>c. c\<lparr>c_fd := fd, c_state := CHANN_STATE_LISTENING\<rparr>) s;
            (_, s) \<leftarrow> evt_add env n MNET_SET_READ s;
            c \<leftarrow> g_heap s n;
            ext \<leftarrow> ext_config s (c_ctype c);
            s \<leftarrow> call_op_cb env (e_listen_cb ext) ext n s;
            Some (1, s)
          } else Some (0, s)
        } else Some (0, s))"

definition mnet_chann_set_opaque :: "addr option \<Rightarrow> addr option \<Rightarrow> 'w mnet_t \<Rightarrow> 'w mnet_t option" where
  "mnet_chann_set_opaque p opaque s =
     (case p of None \<Rightarrow> Some s | Some n \<Rightarrow> upd_chann n (\<lambda>c. c\<lparr>c_opaque := opaque\<rparr>) s)"

definition mnet_chann_get_opaque :: "addr option \<Rightarrow> 'w mnet_t \<Rightarrow> addr option option" where
  "mnet_chann_get_opaque p s =
     (case p of None \<Rightarrow> Some None | Some n \<Rightarrow> do { c \<leftarrow> g_heap s n; Some (c_opaque c) })"

definition mnet_chann_cached :: "addr option \<Rightarrow> 'w mnet_t \<Rightarrow> int option" where
  "mnet_chann_cached p s =
     (case p of None \<Rightarrow> Some 0
      | Some n \<Rightarrow> do {
          c \<leftarrow> g_heap s n;
          let count = rwb_count (c_rwb_send c);
          if count > 0 then do {
            b \<leftarrow> rwb_buffered (c_rwb_send c) (rh_head (c_rwb_send c));
            Some (b + (count - 1) * MNET_BUF_SIZE)
          } else Some 0
        })"

definition mnet_chann_active_event :: "'w env \<Rightarrow> addr option \<Rightarrow> chann_event \<Rightarrow> int \<Rightarrow> 'w mnet_t \<Rightarrow> 'w mnet_t option" where
  "mnet_chann_active_event env p et value s =
     (case p of None \<Rightarrow> Some s
      | Some n \<Rightarrow> do {
          c \<leftarrow> g_heap s n;
          st \<leftarrow> (if et = CHANN_EVENT_SEND then eff_state env n s else Some 0);
          if et = CHANN_EVENT_SEND \<and> st = state_val CHANN_STATE_CONNECTED \<and> c_active_send_event c \<noteq> (value \<noteq> 0)
          then do {
            s \<leftarrow> upd_chann n (\<lambda>c. c\<lparr>c_active_send_event := (value \<noteq> 0)\<rparr>) s;
            if value \<noteq> 0 then do { (_, s) \<leftarrow> evt_add env n MNET_SET_WRITE s; Some s }
            else do {
              k \<leftarrow> mnet_chann_cached (Some n) s;
              if k \<le> 0 then do { (_, s) \<leftarrow> evt_del env n MNET_SET_WRITE s; Some s } else Some s
            }
          }
          else if et = CHANN_EVENT_TIMER \<and> c_state c \<noteq> CHANN_STATE_CLOSED then
            (if value > 0 then do {
               us \<leftarrow> i64 (value * 1000);
               if c_timer_node c \<noteq> None then tm_update env n us s else tm_active env n us s
             }
             else if c_timer_node c \<noteq> None then tm_kill n s
             else Some s)
          else Some s
        })"

text \<open>
  \<open>mnet_chann_recv\<close> and \<open>mnet_chann_send\<close> evaluate \<open>n->fd\<close> for their log line in the
  branch that rejects the call, also when that branch is taken because \<open>n\<close> is NULL.
\<close>

definition mnet_chann_recv :: "'w env \<Rightarrow> addr option \<Rightarrow> bool \<Rightarrow> int \<Rightarrow> 'w mnet_t \<Rightarrow>
    (int \<times> byte list \<times> 'w mnet_t) option" where
  "mnet_chann_recv env p buf len s = do {
     n \<leftarrow> p;
     st \<leftarrow> (if buf \<and> len > 0 then eff_state env n s else do { _ \<leftarrow> eff_state env n s; Some (-1) });
     if buf \<and> len > 0 \<and> st \<ge> state_val CHANN_STATE_CONNECTED then do {
       c \<leftarrow> g_heap s n;
       ext \<leftarrow> ext_config s (c_ctype c);
       (ret, bs, s) \<leftarrow> call_recv_fn env ext n len s;
       s \<leftarrow> (if ret < 0 then chann_fail env n s else Some s);
       s \<leftarrow> upd_chann n (\<lambda>c. c\<lparr>c_bytes_recv := c_bytes_recv c + ret\<rparr>) s;
       Some (ret, bs, s)
     } else Some (-1, [], s)
   }"

definition mnet_chann_send :: "'w env \<Rightarrow> addr option \<Rightarrow> byte list option \<Rightarrow> int \<Rightarrow> 'w mnet_t \<Rightarrow>
    (int \<times> 'w mnet_t) option" where
  "mnet_chann_send env p buf len s = do {
     n \<leftarrow> p;
     st \<leftarrow> eff_state env n s;
     if buf \<noteq> None \<and> len > 0 \<and> st \<ge> state_val CHANN_STATE_CONNECTED then do {
       bs \<leftarrow> buf;
       c \<leftarrow> g_heap s n;
       if rwb_count (c_rwb_send c) > 0 then do {
         h \<leftarrow> rwb_cache (c_rwb_send c) bs len;
         s \<leftarrow> upd_chann n (\<lambda>c. c\<lparr>c_rwb_send := h\<rparr>) s;
         Some (len, s)
       } else if nat len \<le> length bs then do {
         (ret, s) \<leftarrow> chann_send env n (take (nat len) bs) s;
         if ret < 0 then do {
           s \<leftarrow> chann_fail env n s;
           Some (-1, s)
         } else if ret < len then do {
           c \<leftarrow> g_heap s n;
           h \<leftarrow> rwb_cache (c_rwb_send c) (drop (nat ret) bs) (len - ret);
           s \<leftarrow> upd_chann n (\<lambda>c. c\<lparr>c_rwb_send := h\<rparr>) s;
           (_, s) \<leftarrow> evt_add env n MNET_SET_WRITE s;
           Some (len, s)
         } else Some (ret, s)
       } else None
     } else Some (-1, s)
   }"

subsection \<open>Addresses and datagrams\<close>

definition NUL :: char where "NUL = CHR 0x00"

text \<open>\<open>strncpy(dst, src, n)\<close>: exactly \<open>n\<close> characters are written, zeros after the end of \<open>src\<close>.\<close>

definition strncpy :: "char list \<Rightarrow> string \<Rightarrow> nat \<Rightarrow> char list option" where
  "strncpy dst src n =
     (if n \<le> length dst then Some (take n (src @ replicate n NUL) @ drop n dst) else None)"

definition chann_addr :: "'w env \<Rightarrow> sockaddr_in \<Rightarrow> string" where
  "chann_addr env a = sys_inet_ntoa env (sin_addr a)"

definition chann_port :: "sockaddr_in \<Rightarrow> int" where
  "chann_port a = uint (sin_port a)"

definition addr_out :: "'w env \<Rightarrow> sockaddr_in \<Rightarrow> chann_addr_t \<Rightarrow> chann_addr_t option" where
  "addr_out env a out = do {
     ip \<leftarrow> strncpy (ca_ip out) (chann_addr env a) 16;
     Some (out\<lparr>ca_ip := ip, ca_port := chann_port a\<rparr>)
   }"

definition mnet_chann_socket_addr :: "'w env \<Rightarrow> addr option \<Rightarrow> chann_addr_t option \<Rightarrow> 'w mnet_t \<Rightarrow>
    (int \<times> chann_addr_t option) option" where
  "mnet_chann_socket_addr env p out s =
     (case p of None \<Rightarrow> Some (0, out)
      | Some n \<Rightarrow> (case out of None \<Rightarrow> Some (0, None)
          | Some a \<Rightarrow> do { c \<leftarrow> g_heap s n; a \<leftarrow> addr_out env (c_addr c) a; Some (1, Some a) }))"

definition mnet_chann_peer_addr :: "'w env \<Rightarrow> addr option \<Rightarrow> chann_addr_t option \<Rightarrow> 'w mnet_t \<Rightarrow>
    (int \<times> chann_addr_t option \<times> 'w mnet_t) option" where
  "mnet_chann_peer_addr env p out s =
     (case p of None \<Rightarrow> Some (0, out, s)
      | Some n \<Rightarrow> do {
          c \<leftarrow> g_heap s n;
          if c_ctype c = CHANN_TYPE_STREAM then do {
            st \<leftarrow> eff_state env n s;
            if st \<ge> state_val CHANN_STATE_CONNECTED then
              (case out of None \<Rightarrow> Some (0, None, s)
               | Some a \<Rightarrow> do {
                   let (r, peer, e, w) = sys_getpeername env (c_fd c) (g_world s);
                   let s = (set_errno e s)\<lparr>g_world := w\<rparr>;
                   if r = 0 then do { a \<leftarrow> addr_out env peer a; Some (1, Some a, s) }
                   else Some (0, Some a, s)
                 })
            else Some (0, out, s)
          } else Some (0, out, s)
        })"

definition mnet_dgram_recv :: "'w env \<Rightarrow> addr option \<Rightarrow> chann_addr_t option \<Rightarrow> bool \<Rightarrow> int \<Rightarrow> 'w mnet_t \<Rightarrow>
    (int \<times> byte list \<times> chann_addr_t option \<times> 'w mnet_t) option" where
  "mnet_dgram_recv env p addr_in buf len s = do {
     n \<leftarrow> p;
     c \<leftarrow> g_heap s n;
     if (c_ctype c = CHANN_TYPE_DGRAM \<or> c_ctype c = CHANN_TYPE_BROADCAST) \<and> buf \<and> len > 0 then do {
       st \<leftarrow> eff_state env n s;
       if st \<ge> state_val CHANN_STATE_CONNECTED then do {
         (ret, bs, s) \<leftarrow> mnet_chann_recv env (Some n) buf len s;
         (_, a) \<leftarrow> mnet_chann_socket_addr env (Some n) addr_in s;
         Some (ret, bs, a, s)
       } else Some (0, [], addr_in, s)
     } else Some (0, [], addr_in, s)
   }"

text \<open>The string in a character array: up to its first NUL.\<close>

definition cstr :: "char list \<Rightarrow> string" where
  "cstr xs = takeWhile (\<lambda>c. c \<noteq> NUL) xs"

definition mnet_dgram_send :: "'w env \<Rightarrow> addr option \<Rightarrow> chann_addr_t option \<Rightarrow> byte list option \<Rightarrow> int \<Rightarrow> 'w mnet_t \<Rightarrow>
    (int \<times> 'w mnet_t) option" where
  "mnet_dgram_send env p dst buf len s = do {
     n \<leftarrow> p;
     c \<leftarrow> g_heap s n;
     if (c_ctype c = CHANN_TYPE_DGRAM \<or> c_ctype c = CHANN_TYPE_BROADCAST) \<and> dst \<noteq> None \<and> buf \<noteq> None \<and> len > 0
     then do {
       a \<leftarrow> dst;
       st \<leftarrow> eff_state env n s;
       s \<leftarrow> (if st \<ge> state_val CHANN_STATE_CONNECTED
            then chann_fill_addr env n (Some (cstr (ca_ip a))) (ca_port a) s
            else do { (_, s) \<leftarrow> mnet_chann_connect env (Some n) (Some (cstr (ca_ip a))) (ca_port a) s; Some s });
       mnet_chann_send env (Some n) buf len s
     } else Some (0, s)
   }"

definition mnet_chann_bytes :: "addr option \<Rightarrow> bool \<Rightarrow> 'w mnet_t \<Rightarrow> int option" where
  "mnet_chann_bytes p be_send s =
     (case p of None \<Rightarrow> Some (-1)
      | Some n \<Rightarrow> do { c \<leftarrow> g_heap s n; Some (if be_send then c_bytes_send c else c_bytes_recv c) })"

definition mnet_chann_socket_set_bufsize :: "'w env \<Rightarrow> addr option \<Rightarrow> int \<Rightarrow> 'w mnet_t \<Rightarrow> (int \<times> 'w mnet_t) option" where
  "mnet_chann_socket_set_bufsize env p bufsize s =
     (case p of None \<Rightarrow> Some (0, s)
      | Some n \<Rightarrow>
        if bufsize > 0 then do {
          s \<leftarrow> upd_chann n (\<lambda>c. c\<lparr>c_buf_size := bufsize\<rparr>) s;
          c \<leftarrow> g_heap s n;
          if c_fd c > 0 then Some (set_bufsize env (c_fd c) bufsize s) else Some (1, s)
        } else Some (0, s))"

subsection \<open>Extensions\<close>

definition ext_complete :: "mnet_ext_t \<Rightarrow> bool" where
  "ext_complete e \<longleftrightarrow>
     e_type_fn e \<noteq> None \<and> e_filter_fn e \<noteq> None \<and> e_open_cb e \<noteq> None \<and> e_close_cb e \<noteq> None \<and>
     e_listen_cb e \<noteq> None \<and> e_accept_cb e \<noteq> None \<and> e_connect_cb e \<noteq> None \<and> e_disconnect_cb e \<noteq> None \<and>
     e_state_fn e \<noteq> None \<and> e_recv_fn e \<noteq> None \<and> e_send_fn e \<noteq> None"

definition mnet_ext_register :: "'w env \<Rightarrow> int \<Rightarrow> mnet_ext_t option \<Rightarrow> 'w mnet_t \<Rightarrow> (int \<times> 'w mnet_t) option" where
  "mnet_ext_register env ctype ext s =
     (case ext of None \<Rightarrow> Some (0, s)
      | Some e \<Rightarrow>
        if ctype \<le> CHANN_TYPE_BROADCAST \<or> ctype \<ge> MNET_EXT_MAX_SIZE then Some (0, s)
        else do {
          ss_ext \<leftarrow> ext_config s ctype;
          if \<not> e_reserved ss_ext \<and> ext_complete e then do {
            raw_type \<leftarrow> call_type_fn env e ctype;
            if raw_type \<ge> CHANN_TYPE_STREAM \<and> raw_type \<le> CHANN_TYPE_BROADCAST then do {
              cfg \<leftarrow> wr (g_ext_config s) ctype (e\<lparr>e_reserved := True\<rparr>);
              Some (1, s\<lparr>g_ext_config := cfg\<rparr>)
            } else Some (0, s)
          } else Some (0, s)
        })"

definition mnet_ext_chann_set_ud :: "addr option \<Rightarrow> addr option \<Rightarrow> 'w mnet_t \<Rightarrow> 'w mnet_t option" where
  "mnet_ext_chann_set_ud p ud s =
     (case p of None \<Rightarrow> Some s
      | Some n \<Rightarrow> do {
          c \<leftarrow> g_heap s n;
          ext \<leftarrow> ext_config s (c_ctype c);
          if e_reserved ext then upd_chann n (\<lambda>c. c\<lparr>c_ext_ud := ud\<rparr>) s else Some s
        })"

definition mnet_ext_chann_get_ud :: "addr option \<Rightarrow> 'w mnet_t \<Rightarrow> addr option option" where
  "mnet_ext_chann_get_ud p s =
     (case p of None \<Rightarrow> Some None
      | Some n \<Rightarrow> do {
          c \<leftarrow> g_heap s n;
          ext \<leftarrow> ext_config s (c_ctype c);
          Some (if e_reserved ext then c_ext_ud c else None)
        })"

end
