(* ===== verification/Sending.thy ===== *)
theory Sending
  imports Api
begin

text \<open>
  The sending side of a connected stream channel: \<open>mnet_chann_send\<close>, and the flushing of
  the cached bytes when the socket becomes writable (\<open>_chann_sended_rwb\<close>).

  The operating system is described by what \<open>send(2)\<close> documents: it accepts a prefix of
  the bytes offered and appends it to the bytes on the wire, or fails and accepts none.
\<close>

definition os_sends :: "'w env \<Rightarrow> int \<Rightarrow> ('w \<Rightarrow> byte list) \<Rightarrow> bool" where
  "os_sends env fd wire \<longleftrightarrow>
     (\<forall>buf w r e w'. sys_send env fd buf w = (r, e, w') \<longrightarrow>
        r \<le> int (length buf) \<and> wire w' = wire w @ take (nat r) buf \<and> (r < 0 \<longrightarrow> e \<noteq> None)) \<and>
     (\<forall>kq op f kev w r e w'. sys_epoll_ctl env kq op f kev w = (r, e, w') \<longrightarrow> wire w' = wire w)"

text \<open>The connection does not break: the only failure is that the socket's buffer is full.\<close>

definition os_live :: "'w env \<Rightarrow> int \<Rightarrow> bool" where
  "os_live env fd \<longleftrightarrow>
     (\<forall>buf w r e w'. sys_send env fd buf w = (r, e, w') \<longrightarrow> 0 \<le> r \<or> e = Some EWOULDBLOCK)"

text \<open>A writable socket accepts something of what it is offered.\<close>

definition os_progress :: "'w env \<Rightarrow> int \<Rightarrow> bool" where
  "os_progress env fd \<longleftrightarrow>
     (\<forall>buf w r e w'. sys_send env fd buf w = (r, e, w') \<longrightarrow> buf \<noteq> [] \<longrightarrow> 0 < r)"

definition conn :: "'w mnet_t \<Rightarrow> addr \<Rightarrow> chann_t \<Rightarrow> bool" where
  "conn s n c \<longleftrightarrow> cfg_ok s \<and> g_heap s n = Some c \<and> c_ctype c = CHANN_TYPE_STREAM \<and>
     c_state c = CHANN_STATE_CONNECTED \<and> 0 < c_fd c \<and> rwb_inv (c_rwb_send c) \<and> se_array (g_chg s) \<noteq> []"

definition queued :: "'w mnet_t \<Rightarrow> addr \<Rightarrow> byte list" where
  "queued s n = (case g_heap s n of None \<Rightarrow> [] | Some c \<Rightarrow> rwb_bytes (c_rwb_send c))"

lemma conn_internal: "conn s n c \<Longrightarrow> cfg_ok s \<and> g_heap s n = Some c \<and> internal (c_ctype c)"
  by (simp add: conn_def internal_def)

lemma conn_eff_state: "conn s n c \<Longrightarrow> eff_state env n s = Some 3"
  by (simp add: eff_state_def ext_config_internal init_ext_calls conn_def internal_def)

lemma send_fn_stream [step_simps]:
  "call_send_fn env (init_ext CHANN_TYPE_STREAM) n buf s = ext_stream_send env n buf s"
  by (simp add: call_send_fn_def init_ext_def)

lemma chann_send_conn:
  assumes c: "conn s n c" and os: "os_sends env (c_fd c) wire"
  shows "\<exists>r e w. chann_send env n buf s =
      Some (r, s\<lparr>g_heap := (g_heap s)(n \<mapsto> c\<lparr>c_bytes_send := c_bytes_send c + max 0 r\<rparr>), g_errno := e, g_world := w\<rparr>) \<and>
    r \<le> int (length buf) \<and> wire w = wire (g_world s) @ take (nat r) buf \<and>
    (os_live env (c_fd c) \<longrightarrow> 0 \<le> r) \<and> (os_progress env (c_fd c) \<longrightarrow> buf \<noteq> [] \<longrightarrow> 0 < r)"
proof -
  obtain r e w where sys: "sys_send env (c_fd c) buf (g_world s) = (r, e, w)" by (metis prod.exhaust)
  from os sys have r: "r \<le> int (length buf)" "wire w = wire (g_world s) @ take (nat r) buf" "r < 0 \<longrightarrow> e \<noteq> None"
    unfolding os_sends_def by blast+
  define e' where "e' = (case e of None \<Rightarrow> g_errno s | Some x \<Rightarrow> x)"
  define r' where "r' = (if r < 0 \<and> e' = EWOULDBLOCK then 0 else r)"
  have st: "(set_errno e s)\<lparr>g_world := w\<rparr> = s\<lparr>g_errno := e', g_world := w\<rparr>"
    by (cases e) (simp_all add: set_errno_def e'_def)
  have "ext_stream_send env n buf s = Some (r', s\<lparr>g_errno := e', g_world := w\<rparr>)"
    using c sys by (simp add: ext_stream_send_def conn_def syscall_def st mask_wouldblock_def r'_def)
  moreover have "(g_heap s)(n \<mapsto> c) = g_heap s" using c by (simp add: conn_def fun_upd_idem)
  ultimately have "chann_send env n buf s =
      Some (r', s\<lparr>g_heap := (g_heap s)(n \<mapsto> c\<lparr>c_bytes_send := c_bytes_send c + max 0 r'\<rparr>), g_errno := e', g_world := w\<rparr>)"
    using c conn_internal [OF c] by (simp add: chann_send_def step_simps conn_def upd_chann_def)
  moreover have "os_live env (c_fd c) \<longrightarrow> 0 \<le> r'"
  proof
    assume "os_live env (c_fd c)"
    then have "0 \<le> r \<or> e = Some EWOULDBLOCK" using sys unfolding os_live_def by blast
    then show "0 \<le> r'" by (auto simp: r'_def e'_def)
  qed
  moreover have "os_progress env (c_fd c) \<longrightarrow> buf \<noteq> [] \<longrightarrow> 0 < r'"
    using sys unfolding os_progress_def r'_def by force
  moreover have "r' \<le> int (length buf)" "wire w = wire (g_world s) @ take (nat r') buf"
    using r by (auto simp: r'_def)
  ultimately show ?thesis by blast
qed

subsection \<open>Flushing\<close>

lemma sended_step_ok:
  assumes c: "conn s n c" and os: "os_sends env (c_fd c) wire" "os_live env (c_fd c)" and q: "0 < rwb_count (c_rwb_send c)"
  shows "\<exists>r len t d. sended_step env n s = Some (r, len, t) \<and> conn t n d \<and> c_fd d = c_fd c \<and> 0 < len \<and>
    0 \<le> r \<and> r \<le> len \<and> wire (g_world t) @ rwb_bytes (c_rwb_send d) = wire (g_world s) @ rwb_bytes (c_rwb_send c) \<and>
    length (rwb_bytes (c_rwb_send d)) + nat r = length (rwb_bytes (c_rwb_send c)) \<and>
    (os_progress env (c_fd c) \<longrightarrow> 0 < r) \<and> g_dis_channs t = g_dis_channs s \<and>
    c_active_send_event d = c_active_send_event c"
proof -
  let ?h = "c_rwb_send c"
  have inv: "rwb_inv ?h" using c by (simp add: conn_def)
  from rwb_drain_param_ok [OF inv q] obtain bs where bs: "rwb_drain_param ?h = Some (bs, int (length bs))" "bs \<noteq> []" by blast
  from chann_send_conn [OF c os(1), of bs] os(2) obtain r e w where
    s: "chann_send env n bs s = Some (r, s\<lparr>g_heap := (g_heap s)(n \<mapsto> c\<lparr>c_bytes_send := c_bytes_send c + max 0 r\<rparr>),
          g_errno := e, g_world := w\<rparr>)" "r \<le> int (length bs)" "wire w = wire (g_world s) @ take (nat r) bs" "0 \<le> r"
    "os_progress env (c_fd c) \<longrightarrow> 0 < r" using bs(2) by blast
  from rwb.send_front [OF inv bs(1) q s(4,2)] obtain h where
    h: "rwb_drain ?h r = Some h" "rwb_inv h" "rwb_bytes ?h = take (nat r) bs @ rwb_bytes h"
    "length (rwb_bytes h) + nat r = length (rwb_bytes ?h)" by blast
  have r0: "h = ?h" if "r = 0" using h(1) that by simp
  let ?d = "c\<lparr>c_bytes_send := c_bytes_send c + r, c_rwb_send := h\<rparr>"
  let ?t = "s\<lparr>g_heap := (g_heap s)(n \<mapsto> ?d), g_errno := e, g_world := w\<rparr>"
  have "sended_step env n s = Some (r, int (length bs), ?t)"
    using c bs(1) s h(1) r0
    by (cases "r = 0") (simp_all add: sended_step_def conn_def upd_chann_def)
  moreover have "conn ?t n ?d" using c h(2) by (simp add: conn_def cfg_ok_def)
  moreover have "wire w @ rwb_bytes h = wire (g_world s) @ rwb_bytes ?h" using s(3) h(3) by simp
  ultimately show ?thesis using s(2,4,5) bs(2) h(4)
    by (intro exI [of _ r] exI [of _ "int (length bs)"] exI [of _ ?t] exI [of _ ?d]) simp
qed

text \<open>The loop ends: it goes on only after the whole first block was accepted.\<close>

lemma sended_loop_ok:
  assumes "conn s n c" "os_sends env (c_fd c) wire" "os_live env (c_fd c)" "0 < rwb_count (c_rwb_send c)"
  shows "\<exists>t d. sended_loop env n s = Some t \<and> conn t n d \<and> c_fd d = c_fd c \<and>
    wire (g_world t) @ rwb_bytes (c_rwb_send d) = wire (g_world s) @ rwb_bytes (c_rwb_send c) \<and>
    length (rwb_bytes (c_rwb_send d)) \<le> length (rwb_bytes (c_rwb_send c)) \<and>
    (os_progress env (c_fd c) \<longrightarrow> length (rwb_bytes (c_rwb_send d)) < length (rwb_bytes (c_rwb_send c))) \<and>
    g_dis_channs t = g_dis_channs s \<and> c_active_send_event d = c_active_send_event c"
  using assms
proof (induction "length (rwb_bytes (c_rwb_send c))" arbitrary: s c rule: less_induct)
  case less
  note prems = less.prems
  from sended_step_ok [OF prems] obtain r len t d where
    st: "sended_step env n s = Some (r, len, t)" "conn t n d" "c_fd d = c_fd c" "0 < len" "0 \<le> r" "r \<le> len"
    "wire (g_world t) @ rwb_bytes (c_rwb_send d) = wire (g_world s) @ rwb_bytes (c_rwb_send c)"
    "length (rwb_bytes (c_rwb_send d)) + nat r = length (rwb_bytes (c_rwb_send c))" "os_progress env (c_fd c) \<longrightarrow> 0 < r"
    "g_dis_channs t = g_dis_channs s" "c_active_send_event d = c_active_send_event c" by blast
  have td: "g_heap t n = Some d" using st(2) by (simp add: conn_def)
  let ?go = "r > 0 \<and> r \<ge> len \<and> rwb_count (c_rwb_send d) > 0"
  have loop: "sended_loop env n s = (if ?go then sended_loop env n t else Some t)"
    using st(1) td by (subst sended_loop.simps) simp
  show ?case
  proof (cases ?go)
    case True
    then have "length (rwb_bytes (c_rwb_send d)) < length (rwb_bytes (c_rwb_send c))" using st(8) by linarith
    from less.hyps [OF this st(2)] prems(2,3) True st(3) obtain u e where
      "sended_loop env n t = Some u" "conn u n e" "c_fd e = c_fd d"
      "wire (g_world u) @ rwb_bytes (c_rwb_send e) = wire (g_world t) @ rwb_bytes (c_rwb_send d)"
      "length (rwb_bytes (c_rwb_send e)) \<le> length (rwb_bytes (c_rwb_send d))"
      "g_dis_channs u = g_dis_channs t" "c_active_send_event e = c_active_send_event d" by metis
    with True loop st show ?thesis by (intro exI [of _ u] exI [of _ e]) (simp, linarith)
  next
    case False
    with loop have "sended_loop env n s = Some t" by simp
    moreover have "os_progress env (c_fd c) \<longrightarrow> length (rwb_bytes (c_rwb_send d)) < length (rwb_bytes (c_rwb_send c))"
      using st(8,9) by linarith
    ultimately show ?thesis using st by (intro exI [of _ t] exI [of _ d]) simp
  qed
qed

lemma chann_sended_rwb_ok:
  assumes c: "conn s n c" and os: "os_sends env (c_fd c) wire" "os_live env (c_fd c)"
  shows "\<exists>t d. chann_sended_rwb env n s = Some (rwb_bytes (c_rwb_send d) = [], t) \<and> conn t n d \<and> c_fd d = c_fd c \<and>
    wire (g_world t) @ rwb_bytes (c_rwb_send d) = wire (g_world s) @ rwb_bytes (c_rwb_send c) \<and>
    (os_progress env (c_fd c) \<longrightarrow> length (rwb_bytes (c_rwb_send d)) \<le> length (rwb_bytes (c_rwb_send c)) - 1) \<and>
    g_dis_channs t = g_dis_channs s \<and> c_active_send_event d = c_active_send_event c"
proof (cases "rwb_count (c_rwb_send c) \<le> 0")
  case True
  have h: "g_heap s n = Some c" "rwb_inv (c_rwb_send c)" using c by (simp_all add: conn_def)
  from True h rwb.drained_iff [OF h(2)] have "chann_sended_rwb env n s = Some (rwb_bytes (c_rwb_send c) = [], s)"
    by (simp add: chann_sended_rwb_def)
  with c True rwb.drained_iff [OF h(2)] show ?thesis by (intro exI [of _ s] exI [of _ c]) simp
next
  case False
  then have q: "0 < rwb_count (c_rwb_send c)" by simp
  from sended_loop_ok [OF c os q] obtain t d where
    t: "sended_loop env n s = Some t" "conn t n d" "c_fd d = c_fd c"
    "wire (g_world t) @ rwb_bytes (c_rwb_send d) = wire (g_world s) @ rwb_bytes (c_rwb_send c)"
    "os_progress env (c_fd c) \<longrightarrow> length (rwb_bytes (c_rwb_send d)) < length (rwb_bytes (c_rwb_send c))"
    "g_dis_channs t = g_dis_channs s" "c_active_send_event d = c_active_send_event c" by blast
  have h: "g_heap s n = Some c" "g_heap t n = Some d" "rwb_inv (c_rwb_send d)" using c t(2) by (simp_all add: conn_def)
  from False h t(1) rwb.drained_iff [OF h(3)]
  have "chann_sended_rwb env n s = Some (rwb_bytes (c_rwb_send d) = [], t)" by (simp add: chann_sended_rwb_def)
  with t show ?thesis by (intro exI [of _ t] exI [of _ d]) auto
qed

subsection \<open>Failing\<close>

text \<open>
  With cached bytes a disconnection does not return: \<open>_rwb_destroy\<close> waits for the head
  block to be empty.
\<close>

lemma disconnect_stuck:
  assumes "conn s n c" "0 < rwb_count (c_rwb_send c)"
  shows "chann_disconnect_socket env n s = None"
proof -
  have "rwb_destroy (c_rwb_send c) = None"
    using assms by (simp add: rwb_destroy_inv conn_def)
  moreover have "syscall f s = (r, t) \<Longrightarrow> g_heap t = g_heap s" for f r t
    by (auto dest!: same_core_syscall elim!: same_coreE)
  ultimately show ?thesis
    using assms(1) conn_internal [OF assms(1)]
    by (auto simp: chann_disconnect_socket_def conn_def step_simps chann_rwb_destroy_def state_order split: prod.splits)
qed

lemma disconnect_ok:
  assumes c: "conn s n c" and q: "rwb_count (c_rwb_send c) = 0"
    and close: "sys_close env (c_fd c) (g_world s) = (r, e, w)"
  shows "chann_disconnect_socket env n s = Some (1, s\<lparr>g_heap := (g_heap s)(n \<mapsto>
      c\<lparr>c_fd := -1, c_state := CHANN_STATE_DISCONNECT, c_epoll_events := 0\<rparr>),
      g_errno := (case e of None \<Rightarrow> g_errno s | Some x \<Rightarrow> x), g_world := w\<rparr>)"
proof -
  let ?t = "s\<lparr>g_errno := (case e of None \<Rightarrow> g_errno s | Some x \<Rightarrow> x), g_world := w\<rparr>"
  have sys: "syscall (sys_close env (c_fd c)) s = (r, ?t)"
    using close by (cases e) (simp_all add: syscall_def set_errno_def)
  have "rwb_destroy (c_rwb_send c) = Some (c_rwb_send c)" using c q by (simp add: rwb_destroy_inv conn_def)
  with c conn_internal [OF c] sys show ?thesis
    by (simp add: chann_disconnect_socket_def conn_def step_simps chann_rwb_destroy_def state_order upd_chann_def)
qed

lemma chann_fail_ok:
  assumes c: "conn s n c" and q: "rwb_count (c_rwb_send c) = 0"
  shows "\<exists>t d. chann_fail env n s = Some t \<and> g_heap t n = Some d \<and> c_state d = CHANN_STATE_DISCONNECT \<and> c_fd d = -1 \<and>
    m_event (c_msg d) = Some CHANN_EVENT_DISCONNECT \<and> m_n (c_msg d) = Some n \<and>
    g_dis_channs t = Some n \<and> c_dis_next d = g_dis_channs s \<and>
    rwb_bytes (c_rwb_send d) = [] \<and> g_world t = snd (snd (sys_close env (c_fd c) (g_world s))) \<and>
    g_tm_clock t = g_tm_clock s \<and> g_tm_pos t = g_tm_pos s"
proof -
  let ?c = "c\<lparr>c_fd := -1, c_state := CHANN_STATE_DISCONNECT, c_epoll_events := 0\<rparr>"
  obtain r e0 w where close: "sys_close env (c_fd c) (g_world s) = (r, e0, w)" by (metis prod.exhaust)
  from disconnect_ok [OF assms close] obtain e where
    d: "chann_disconnect_socket env n s = Some (1, s\<lparr>g_heap := (g_heap s)(n \<mapsto> ?c), g_errno := e, g_world := w\<rparr>)" by blast
  let ?s = "s\<lparr>g_heap := (g_heap s)(n \<mapsto> ?c), g_errno := e, g_world := w\<rparr>"
  have "cfg_ok ?s" "g_heap ?s n = Some ?c" "internal (c_ctype ?c)"
    using c conn_internal [OF c] by (simp_all add: cfg_ok_def)
  note msg = chann_msg_internal [OF this, of env CHANN_EVENT_DISCONNECT None e]
  have "rwb_bytes (c_rwb_send c) = []" using c q by (simp add: rwb_inv_empty_iff conn_def)
  then show ?thesis by (simp add: chann_fail_def d msg upd_chann_def event_msg_def close)
qed

text \<open>With no timer due, the next result is the message of the first disconnected channel.\<close>

lemma result_next_dis:
  assumes "g_tm_clock t = Some clock" "g_tm_pos t = None" "g_dis_channs t = Some n"
  shows "mnet_result_next env t = (case g_heap t n of None \<Rightarrow> None
    | Some d \<Rightarrow> Some (Some n, t\<lparr>g_dis_channs := c_dis_next d\<rparr>))"
  unfolding mnet_result_next_def
  by (subst evt_result_next.simps, subst tm_next.simps) (simp add: assms split: option.split)

subsection \<open>Sending\<close>

lemma send_cached:
  assumes c: "conn s n c" and q: "0 < rwb_count (c_rwb_send c)" and len: "0 < len" "nat len \<le> length bs"
  shows "\<exists>h. mnet_chann_send env (Some n) (Some bs) len s =
      Some (len, s\<lparr>g_heap := (g_heap s)(n \<mapsto> c\<lparr>c_rwb_send := h\<rparr>)\<rparr>) \<and> rwb_inv h \<and>
    rwb_bytes h = rwb_bytes (c_rwb_send c) @ take (nat len) bs"
proof -
  have inv: "rwb_inv (c_rwb_send c)" using c by (simp add: conn_def)
  from rwb_cache_ok [OF inv len] obtain h where
    h: "rwb_cache (c_rwb_send c) bs len = Some h" "rwb_inv h" "rwb_bytes h = rwb_bytes (c_rwb_send c) @ take (nat len) bs"
    by blast
  then have "mnet_chann_send env (Some n) (Some bs) len s =
      Some (len, s\<lparr>g_heap := (g_heap s)(n \<mapsto> c\<lparr>c_rwb_send := h\<rparr>)\<rparr>)"
    using c q len conn_eff_state [OF c] by (simp add: mnet_chann_send_def upd_chann_def conn_def)
  with h(2,3) show ?thesis by blast
qed

lemma send_direct:
  assumes c: "conn s n c" and q: "rwb_count (c_rwb_send c) = 0" and len: "0 < len" "nat len \<le> length bs"
    and os: "os_sends env (c_fd c) wire" "os_live env (c_fd c)"
  shows "\<exists>t d. mnet_chann_send env (Some n) (Some bs) len s = Some (len, t) \<and> conn t n d \<and> c_fd d = c_fd c \<and>
    wire (g_world t) @ rwb_bytes (c_rwb_send d) = wire (g_world s) @ take (nat len) bs \<and>
    g_dis_channs t = g_dis_channs s \<and> c_active_send_event d = c_active_send_event c"
proof -
  let ?h = "c_rwb_send c"
  have inv: "rwb_inv ?h" using c by (simp add: conn_def)
  have empty: "rwb_bytes ?h = []" using inv q by (simp add: rwb_inv_empty_iff)
  from chann_send_conn [OF c os(1), of "take (nat len) bs"] os(2) obtain r e w where
    s0: "chann_send env n (take (nat len) bs) s = Some (r, s\<lparr>g_heap := (g_heap s)(n \<mapsto> c\<lparr>c_bytes_send := c_bytes_send c + max 0 r\<rparr>),
          g_errno := e, g_world := w\<rparr>)" "r \<le> int (length (take (nat len) bs))"
      "wire w = wire (g_world s) @ take (nat r) (take (nat len) bs)" "0 \<le> r" by blast
  have "max 0 r = r" "r \<le> len" "min (nat r) (nat len) = nat r" using s0(2,4) len by auto
  with s0 have s: "chann_send env n (take (nat len) bs) s = Some (r, s\<lparr>g_heap := (g_heap s)(n \<mapsto> c\<lparr>c_bytes_send := c_bytes_send c + r\<rparr>),
          g_errno := e, g_world := w\<rparr>)" "r \<le> len" "wire w = wire (g_world s) @ take (nat r) bs" "0 \<le> r"
    by (simp_all add: take_take)
  let ?c = "c\<lparr>c_bytes_send := c_bytes_send c + r\<rparr>"
  let ?s = "s\<lparr>g_heap := (g_heap s)(n \<mapsto> ?c), g_errno := e, g_world := w\<rparr>"
  note run = c q len s(1,4) conn_eff_state [OF c]
  show ?thesis
  proof (cases "r < len")
    case True
    have "0 < len - r" "nat (len - r) \<le> length (drop (nat r) bs)" using True len s(4) by auto
    from rwb_cache_ok [OF inv this] obtain h where
      h: "rwb_cache ?h (drop (nat r) bs) (len - r) = Some h" "rwb_inv h" "rwb_bytes h = take (nat len - nat r) (drop (nat r) bs)"
      using True s(4) by (auto simp: nat_diff_distrib empty)
    let ?d = "?c\<lparr>c_rwb_send := h\<rparr>"
    let ?u = "?s\<lparr>g_heap := (g_heap s)(n \<mapsto> ?d)\<rparr>"
    obtain x e' w' ev chg where a: "evt_add env n MNET_SET_WRITE ?u = Some (x, ?u\<lparr>g_chg := chg,
        g_heap := (g_heap ?u)(n \<mapsto> ?d\<lparr>c_epoll_events := ev\<rparr>), g_errno := e', g_world := w'\<rparr>)"
      "se_array chg \<noteq> []" "wire w' = wire w"
      using evt_change_ok(1) [of ?u n ?d env "\<lambda>w'. wire w' = wire w" MNET_SET_WRITE] c os(1)
      by (auto simp: conn_def os_sends_def)
    let ?t = "s\<lparr>g_chg := chg, g_heap := (g_heap s)(n \<mapsto> ?d\<lparr>c_epoll_events := ev\<rparr>), g_errno := e', g_world := w'\<rparr>"
    have "mnet_chann_send env (Some n) (Some bs) len s = Some (len, ?t)"
      using run True h(1) a(1) by (simp add: mnet_chann_send_def upd_chann_def conn_def)
    moreover have "conn ?t n (?d\<lparr>c_epoll_events := ev\<rparr>)" using c h(2) a(2) by (simp add: conn_def cfg_ok_def)
    moreover have "take (nat r) bs @ rwb_bytes h = take (nat len) bs"
      using True h(3) s(4) by (simp flip: take_add add: nat_diff_distrib)
    ultimately show ?thesis using a(3) s(3)
      by (intro exI [of _ ?t] exI [of _ "?d\<lparr>c_epoll_events := ev\<rparr>"]) simp
  next
    case False
    with s(2) have r: "r = len" by simp
    have "mnet_chann_send env (Some n) (Some bs) len s = Some (len, ?s)"
      using run r by (simp add: mnet_chann_send_def upd_chann_def conn_def)
    moreover have "conn ?s n ?c" using c by (simp add: conn_def cfg_ok_def)
    ultimately show ?thesis using s(3) r empty by (intro exI [of _ ?s] exI [of _ ?c]) simp
  qed
qed

lemma send_ok:
  assumes c: "conn s n c" and len: "0 < len" "nat len \<le> length bs"
    and os: "os_sends env (c_fd c) wire" "os_live env (c_fd c)"
  shows "\<exists>t d. mnet_chann_send env (Some n) (Some bs) len s = Some (len, t) \<and> conn t n d \<and> c_fd d = c_fd c \<and>
    wire (g_world t) @ rwb_bytes (c_rwb_send d) = wire (g_world s) @ rwb_bytes (c_rwb_send c) @ take (nat len) bs"
proof (cases "rwb_count (c_rwb_send c) = 0")
  case True
  have "rwb_bytes (c_rwb_send c) = []" using True c by (simp add: rwb_inv_empty_iff conn_def)
  with send_direct [OF c True len os] show ?thesis by auto
next
  case False
  then have q: "0 < rwb_count (c_rwb_send c)" using c rwb_inv_count_nonneg [of "c_rwb_send c"] by (simp add: conn_def)
  from send_cached [OF c q len, of env] obtain h where
    h: "mnet_chann_send env (Some n) (Some bs) len s =
      Some (len, s\<lparr>g_heap := (g_heap s)(n \<mapsto> c\<lparr>c_rwb_send := h\<rparr>)\<rparr>)" "rwb_inv h"
    "rwb_bytes h = rwb_bytes (c_rwb_send c) @ take (nat len) bs" by blast
  let ?d = "c\<lparr>c_rwb_send := h\<rparr>"
  let ?t = "s\<lparr>g_heap := (g_heap s)(n \<mapsto> ?d)\<rparr>"
  have "conn ?t n ?d" using c h(2) by (simp add: conn_def cfg_ok_def)
  with h show ?thesis by (intro exI [of _ ?t] exI [of _ ?d]) simp
qed

subsection \<open>Sequences of sends and of writable events\<close>

definition writable :: "addr \<Rightarrow> mevent_t" where
  "writable n = \<lparr>ev_events = EPOLLOUT, ev_ptr = Some n\<rparr>"

lemma dispatch_writable:
  assumes "conn s n c"
  shows "evt_dispatch env (writable n) n s = evt_connected env (writable n) n s"
  using assms by (simp add: evt_dispatch_def conn_def writable_def kev_flags_def epoll_defs)

lemma writable_ok:
  assumes c: "conn s n c" and os: "os_sends env (c_fd c) wire" "os_live env (c_fd c)"
  shows "\<exists>r t d. evt_dispatch env (writable n) n s = Some (r, t) \<and> conn t n d \<and> c_fd d = c_fd c \<and>
    wire (g_world t) @ rwb_bytes (c_rwb_send d) = wire (g_world s) @ rwb_bytes (c_rwb_send c) \<and>
    (os_progress env (c_fd c) \<longrightarrow> length (rwb_bytes (c_rwb_send d)) \<le> length (rwb_bytes (c_rwb_send c)) - 1)"
proof -
  from chann_sended_rwb_ok [OF assms] obtain t d where
    t: "chann_sended_rwb env n s = Some (rwb_bytes (c_rwb_send d) = [], t)" "conn t n d" "c_fd d = c_fd c"
    "wire (g_world t) @ rwb_bytes (c_rwb_send d) = wire (g_world s) @ rwb_bytes (c_rwb_send c)"
    "os_progress env (c_fd c) \<longrightarrow> length (rwb_bytes (c_rwb_send d)) \<le> length (rwb_bytes (c_rwb_send c)) - 1" by blast
  have run: "evt_dispatch env (writable n) n s = (if rwb_bytes (c_rwb_send d) = [] then do {
      c \<leftarrow> g_heap t n;
      if c_active_send_event c then ret_msg env n CHANN_EVENT_SEND None 0 t
      else do { (_, s) \<leftarrow> evt_del env n MNET_SET_WRITE t; Some (None, s) }
    } else Some (None, t))"
    unfolding dispatch_writable [OF c] by (simp add: evt_connected_def writable_def kev_events_def epoll_defs t(1))
  have td: "g_heap t n = Some d" using t(2) by (simp add: conn_def)
  consider "rwb_bytes (c_rwb_send d) \<noteq> []" | "rwb_bytes (c_rwb_send d) = []" "c_active_send_event d"
    | "rwb_bytes (c_rwb_send d) = []" "\<not> c_active_send_event d" by blast
  then show ?thesis
  proof cases
    case 1
    then have "evt_dispatch env (writable n) n s = Some (None, t)" by (simp add: run)
    with t show ?thesis by (intro exI [of _ None] exI [of _ t] exI [of _ d]) simp
  next
    case 2
    let ?d = "event_msg n CHANN_EVENT_SEND None 0 d"
    let ?t = "t\<lparr>g_heap := (g_heap t)(n \<mapsto> ?d)\<rparr>"
    have "evt_dispatch env (writable n) n s = Some (Some n, ?t)"
      using 2 td conn_internal [OF t(2)] by (simp add: run ret_msg_def chann_msg_internal)
    moreover have "conn ?t n ?d" using t(2) by (simp add: conn_def cfg_ok_def event_msg_def)
    ultimately show ?thesis using t
      by (intro exI [of _ "Some n"] exI [of _ ?t] exI [of _ ?d]) (simp add: event_msg_def)
  next
    case 3
    obtain x e w ev chg where a: "evt_del env n MNET_SET_WRITE t = Some (x, t\<lparr>g_chg := chg,
        g_heap := (g_heap t)(n \<mapsto> d\<lparr>c_epoll_events := ev\<rparr>), g_errno := e, g_world := w\<rparr>)"
      "se_array chg \<noteq> []" "wire w = wire (g_world t)"
      using evt_change_ok(2) [of t n d env "\<lambda>w. wire w = wire (g_world t)" MNET_SET_WRITE] t(2) os(1)
      by (auto simp: conn_def os_sends_def)
    let ?d = "d\<lparr>c_epoll_events := ev\<rparr>"
    let ?t = "t\<lparr>g_chg := chg, g_heap := (g_heap t)(n \<mapsto> ?d), g_errno := e, g_world := w\<rparr>"
    have "evt_dispatch env (writable n) n s = Some (None, ?t)" using 3 td a(1) by (simp add: run)
    moreover have "conn ?t n ?d" using t(2) a(2) by (simp add: conn_def cfg_ok_def)
    ultimately show ?thesis using t a(3) by (intro exI [of _ None] exI [of _ ?t] exI [of _ ?d]) simp
  qed
qed

datatype stream_op = Send "byte list" | Writable

primrec stream_step :: "'w env \<Rightarrow> addr \<Rightarrow> stream_op \<Rightarrow> 'w mnet_t \<Rightarrow> 'w mnet_t option" where
  "stream_step env n (Send bs) s =
     map_option snd (mnet_chann_send env (Some n) (Some bs) (int (length bs)) s)"
| "stream_step env n Writable s = map_option snd (evt_dispatch env (writable n) n s)"

primrec stream_run :: "'w env \<Rightarrow> addr \<Rightarrow> stream_op list \<Rightarrow> 'w mnet_t \<Rightarrow> 'w mnet_t option" where
  "stream_run env n [] s = Some s"
| "stream_run env n (x # xs) s = do { s \<leftarrow> stream_step env n x s; stream_run env n xs s }"

primrec op_bytes :: "stream_op \<Rightarrow> byte list" where
  "op_bytes (Send bs) = bs"
| "op_bytes Writable = []"

lemma stream_step_ok:
  assumes c: "conn s n c" and os: "os_sends env (c_fd c) wire" "os_live env (c_fd c)" and x: "x \<noteq> Send []"
  shows "\<exists>t d. stream_step env n x s = Some t \<and> conn t n d \<and> c_fd d = c_fd c \<and>
    wire (g_world t) @ rwb_bytes (c_rwb_send d) = wire (g_world s) @ rwb_bytes (c_rwb_send c) @ op_bytes x"
proof (cases x)
  case (Send bs)
  with x have len: "0 < int (length bs)" "nat (int (length bs)) \<le> length bs" by auto
  from send_ok [OF c len os] Send show ?thesis by auto
next
  case Writable
  with writable_ok [OF c os] show ?thesis by auto
qed

lemma stream_run_ok:
  assumes "conn s n c" "os_sends env (c_fd c) wire" "os_live env (c_fd c)" "Send [] \<notin> set ops"
  shows "\<exists>t d. stream_run env n ops s = Some t \<and> conn t n d \<and>
    wire (g_world t) @ rwb_bytes (c_rwb_send d) =
      wire (g_world s) @ rwb_bytes (c_rwb_send c) @ concat (map op_bytes ops)"
  using assms
proof (induction ops arbitrary: s c)
  case (Cons x ops)
  from Cons.prems(4) have "x \<noteq> Send []" by auto
  from stream_step_ok [OF Cons.prems(1-3) this] obtain t d where
    t: "stream_step env n x s = Some t" "conn t n d" "c_fd d = c_fd c"
    "wire (g_world t) @ rwb_bytes (c_rwb_send d) = wire (g_world s) @ rwb_bytes (c_rwb_send c) @ op_bytes x" by blast
  from Cons.IH [OF t(2)] Cons.prems t obtain u e where
    "stream_run env n ops t = Some u" "conn u n e"
    "wire (g_world u) @ rwb_bytes (c_rwb_send e) = wire (g_world t) @ rwb_bytes (c_rwb_send d) @ concat (map op_bytes ops)"
    by auto
  with t show ?case by (intro exI [of _ u] exI [of _ e]) (simp flip: append_assoc)
qed auto

lemma flush_all:
  assumes "conn s n c" "os_sends env (c_fd c) wire" "os_live env (c_fd c)" "os_progress env (c_fd c)"
    and "length (rwb_bytes (c_rwb_send c)) \<le> k"
  shows "\<exists>t d. stream_run env n (replicate k Writable) s = Some t \<and> conn t n d \<and> rwb_bytes (c_rwb_send d) = [] \<and>
    wire (g_world t) = wire (g_world s) @ rwb_bytes (c_rwb_send c)"
  using assms
proof (induction k arbitrary: s c)
  case (Suc k)
  from writable_ok [OF Suc.prems(1-3)] Suc.prems(4) obtain r t d where
    t: "evt_dispatch env (writable n) n s = Some (r, t)" "conn t n d" "c_fd d = c_fd c"
    "wire (g_world t) @ rwb_bytes (c_rwb_send d) = wire (g_world s) @ rwb_bytes (c_rwb_send c)"
    "length (rwb_bytes (c_rwb_send d)) \<le> length (rwb_bytes (c_rwb_send c)) - 1" by blast
  with Suc.prems(5) have "length (rwb_bytes (c_rwb_send d)) \<le> k" by linarith
  from Suc.IH [OF t(2) _ _ _ this] Suc.prems(2-4) t(3) obtain u e where
    "stream_run env n (replicate k Writable) t = Some u" "conn u n e" "rwb_bytes (c_rwb_send e) = []"
    "wire (g_world u) = wire (g_world t) @ rwb_bytes (c_rwb_send d)" by auto
  with t show ?case by (intro exI [of _ u] exI [of _ e]) simp
qed auto

subsection \<open>Broken connections\<close>

text \<open>What the library does when \<open>send(2)\<close> fails with an errno other than EWOULDBLOCK.\<close>

lemma chann_send_broken:
  assumes c: "conn s n c" and sys: "sys_send env (c_fd c) buf (g_world s) = (r, Some e, w)" "r < 0" "e \<noteq> EWOULDBLOCK"
  shows "chann_send env n buf s = Some (r, s\<lparr>g_errno := e, g_world := w\<rparr>)"
  using c conn_internal [OF c] sys
  by (simp add: chann_send_def step_simps conn_def ext_stream_send_def syscall_def set_errno_def mask_wouldblock_def)

lemma send_broken:
  assumes c: "conn s n c" and q: "rwb_count (c_rwb_send c) = 0" and len: "0 < len" "nat len \<le> length bs"
    and sys: "sys_send env (c_fd c) (take (nat len) bs) (g_world s) = (r, Some e, w)" "r < 0" "e \<noteq> EWOULDBLOCK"
  shows "\<exists>t d. mnet_chann_send env (Some n) (Some bs) len s = Some (-1, t) \<and> g_heap t n = Some d \<and>
    c_state d = CHANN_STATE_DISCONNECT \<and> c_fd d = -1 \<and> g_world t = snd (snd (sys_close env (c_fd c) w)) \<and>
    m_event (c_msg d) = Some CHANN_EVENT_DISCONNECT \<and> m_n (c_msg d) = Some n \<and>
    g_dis_channs t = Some n \<and> c_dis_next d = g_dis_channs s \<and>
    (\<forall>clock. g_tm_clock s = Some clock \<and> g_tm_pos s = None \<longrightarrow>
       mnet_result_next env t = Some (Some n, t\<lparr>g_dis_channs := g_dis_channs s\<rparr>))"
proof -
  let ?s = "s\<lparr>g_errno := e, g_world := w\<rparr>"
  have "conn ?s n c" using c by (simp add: conn_def cfg_ok_def)
  from chann_fail_ok [OF this q, of env] obtain t d where t: "chann_fail env n ?s = Some t" "g_heap t n = Some d"
    "c_state d = CHANN_STATE_DISCONNECT" "c_fd d = -1" "m_event (c_msg d) = Some CHANN_EVENT_DISCONNECT" "m_n (c_msg d) = Some n"
    "g_dis_channs t = Some n" "c_dis_next d = g_dis_channs s" "g_world t = snd (snd (sys_close env (c_fd c) w))"
    "g_tm_clock t = g_tm_clock s" "g_tm_pos t = g_tm_pos s" by auto
  have "mnet_chann_send env (Some n) (Some bs) len s = Some (-1, t)"
    using c q len conn_eff_state [OF c] chann_send_broken [OF c sys] sys(2) t(1)
    by (simp add: mnet_chann_send_def conn_def)
  moreover have "mnet_result_next env t = Some (Some n, t\<lparr>g_dis_channs := g_dis_channs s\<rparr>)"
    if "g_tm_clock s = Some clock \<and> g_tm_pos s = None" for clock
    using result_next_dis [of t clock n env] t that by simp
  ultimately show ?thesis using t by (intro exI [of _ t] exI [of _ d]) simp
qed

lemma flush_broken:
  assumes c: "conn s n c" and q: "0 < rwb_count (c_rwb_send c)"
    and sys: "\<And>buf w. \<exists>r e w'. sys_send env (c_fd c) buf w = (r, Some e, w') \<and> r < 0 \<and> e \<noteq> EWOULDBLOCK"
  shows "evt_dispatch env (writable n) n s = None"
proof -
  have h: "g_heap s n = Some c" "rwb_inv (c_rwb_send c)" using c by (simp_all add: conn_def)
  from rwb_drain_param_ok [OF h(2) q] obtain bs where bs: "rwb_drain_param (c_rwb_send c) = Some (bs, int (length bs))" by blast
  from sys [of bs "g_world s"] obtain r e w where r: "sys_send env (c_fd c) bs (g_world s) = (r, Some e, w)" "r < 0" "e \<noteq> EWOULDBLOCK"
    by blast
  let ?s = "s\<lparr>g_errno := e, g_world := w\<rparr>"
  have "conn ?s n c" using c by (simp add: conn_def cfg_ok_def)
  note disconnect_stuck [OF this q, of env]
  then have "sended_step env n s = None"
    using h bs chann_send_broken [OF c r] r(2) by (simp add: sended_step_def chann_fail_def)
  then have "sended_loop env n s = None" by (subst sended_loop.simps) simp
  then show ?thesis unfolding dispatch_writable [OF c] using h q
    by (simp add: evt_connected_def writable_def kev_events_def epoll_defs chann_sended_rwb_def)
qed

end
