(* ===== verification/Inv.thy ===== *)
theory Inv
  imports Sending
begin

text \<open>
  The invariant of the library's state: the list of channels and its count, the list of
  closed channels, the timers, and the well-formedness of every channel.
\<close>

subsection \<open>The lists of channels\<close>

text \<open>
  The doubly linked list of all channels.  A segment starts at \<open>p\<close>, after \<open>pv\<close>, and ends
  with a \<open>next\<close> pointer \<open>q\<close>.
\<close>

primrec dseg :: "(addr \<rightharpoonup> chann_t) \<Rightarrow> addr option \<Rightarrow> addr option \<Rightarrow> addr option \<Rightarrow> addr list \<Rightarrow> bool" where
  "dseg h q pv p [] \<longleftrightarrow> p = q"
| "dseg h q pv p (a # as) \<longleftrightarrow> p = Some a \<and> (\<exists>c. h a = Some c \<and> c_prev c = pv \<and> dseg h q (Some a) (c_next c) as)"

definition chann_links :: "'w mnet_t \<Rightarrow> addr list \<Rightarrow> bool" where
  "chann_links s L \<longleftrightarrow> dseg (g_heap s) None None (g_channs s) L \<and> distinct L \<and> dom (g_heap s) = set L \<and>
     g_chann_count s = int (length L) \<and> (\<forall>n\<in>set L. n < g_brk s)"

text \<open>The singly linked list of the channels to be freed at the next poll.\<close>

primrec del_path :: "(addr \<rightharpoonup> chann_t) \<Rightarrow> addr option \<Rightarrow> addr list \<Rightarrow> bool" where
  "del_path h p [] \<longleftrightarrow> p = None"
| "del_path h p (a # as) \<longleftrightarrow> p = Some a \<and> (\<exists>c. h a = Some c \<and> del_path h (c_del_next c) as)"

definition closed :: "'w mnet_t \<Rightarrow> addr set" where
  "closed s = {n. \<exists>c. g_heap s n = Some c \<and> c_state c = CHANN_STATE_CLOSED}"

definition del_links :: "'w mnet_t \<Rightarrow> addr list \<Rightarrow> bool" where
  "del_links s D \<longleftrightarrow> del_path (g_heap s) (g_del_channs s) D \<and> distinct D \<and> set D = closed s"

text \<open>
  A channel has a socket from the moment it leaves the disconnected state, and unsent
  bytes only once it is connected.
\<close>

definition chann_wf :: "chann_t \<Rightarrow> bool" where
  "chann_wf c \<longleftrightarrow> internal (c_ctype c) \<and> rwb_inv (c_rwb_send c) \<and>
     (c_state c > CHANN_STATE_DISCONNECT \<longrightarrow> 0 < c_fd c) \<and>
     (c_state c < CHANN_STATE_CONNECTED \<longrightarrow> rwb_count (c_rwb_send c) = 0)"

definition inv0 :: "'w mnet_t \<Rightarrow> bool" where
  "inv0 s \<longleftrightarrow> cfg_ok s \<and> (\<exists>clock. g_tm_clock s = Some clock \<and> timers_ok clock (g_heap s)) \<and>
     (\<exists>L. chann_links s L) \<and> (\<forall>n c. g_heap s n = Some c \<longrightarrow> chann_wf c) \<and> se_array (g_chg s) \<noteq> []"

definition mnet_inv :: "'w mnet_t \<Rightarrow> bool" where
  "mnet_inv s \<longleftrightarrow> inv0 s \<and> (\<exists>D. del_links s D)"

lemma inv_inv0: "mnet_inv s \<Longrightarrow> inv0 s"
  by (simp add: mnet_inv_def)

text \<open>Nothing of it depends on errno, the outside world or the position in the results of a poll.\<close>

lemma inv0_indep [simp]:
  "inv0 (s\<lparr>g_errno := e\<rparr>) = inv0 s" "inv0 (s\<lparr>g_world := w\<rparr>) = inv0 s" "inv0 (s\<lparr>g_tm_pos := p\<rparr>) = inv0 s"
  "inv0 (s\<lparr>g_tm_current := x\<rparr>) = inv0 s" "inv0 (s\<lparr>g_dis_channs := q\<rparr>) = inv0 s" "inv0 (s\<lparr>g_fd_count := i\<rparr>) = inv0 s"
  "inv0 (s\<lparr>g_fd_index := j\<rparr>) = inv0 s" "inv0 (s\<lparr>g_evt := ev\<rparr>) = inv0 s" "inv0 (s\<lparr>g_kq := k\<rparr>) = inv0 s"
  "inv0 (s\<lparr>g_del_channs := dc\<rparr>) = inv0 s" "inv0 (s\<lparr>g_ac_fn := fn\<rparr>) = inv0 s"
  "inv0 (s\<lparr>g_ac_context := ctx\<rparr>) = inv0 s" "inv0 (s\<lparr>g_ac_before := bf\<rparr>) = inv0 s" "inv0 (s\<lparr>g_ac_after := af\<rparr>) = inv0 s"
  by (simp_all add: inv0_def chann_links_def cfg_ok_def)

lemma closed_indep [simp]:
  "closed (s\<lparr>g_errno := e\<rparr>) = closed s" "closed (s\<lparr>g_world := w\<rparr>) = closed s" "closed (s\<lparr>g_tm_pos := p\<rparr>) = closed s"
  "closed (s\<lparr>g_tm_current := x\<rparr>) = closed s" "closed (s\<lparr>g_dis_channs := q\<rparr>) = closed s" "closed (s\<lparr>g_fd_count := i\<rparr>) = closed s"
  "closed (s\<lparr>g_fd_index := j\<rparr>) = closed s" "closed (s\<lparr>g_evt := ev\<rparr>) = closed s" "closed (s\<lparr>g_kq := k\<rparr>) = closed s"
  "closed (s\<lparr>g_del_channs := dc\<rparr>) = closed s" "closed (s\<lparr>g_ac_fn := fn\<rparr>) = closed s" "closed (s\<lparr>g_chg := chg\<rparr>) = closed s"
  "closed (s\<lparr>g_ac_context := ctx\<rparr>) = closed s" "closed (s\<lparr>g_ac_before := bf\<rparr>) = closed s" "closed (s\<lparr>g_ac_after := af\<rparr>) = closed s"
  by (simp_all add: closed_def)

lemma inv_indep [simp]:
  "mnet_inv (s\<lparr>g_errno := e\<rparr>) = mnet_inv s" "mnet_inv (s\<lparr>g_world := w\<rparr>) = mnet_inv s" "mnet_inv (s\<lparr>g_tm_pos := p\<rparr>) = mnet_inv s"
  "mnet_inv (s\<lparr>g_tm_current := x\<rparr>) = mnet_inv s" "mnet_inv (s\<lparr>g_dis_channs := q\<rparr>) = mnet_inv s" "mnet_inv (s\<lparr>g_fd_count := i\<rparr>) = mnet_inv s"
  "mnet_inv (s\<lparr>g_fd_index := j\<rparr>) = mnet_inv s" "mnet_inv (s\<lparr>g_evt := ev\<rparr>) = mnet_inv s" "mnet_inv (s\<lparr>g_kq := k\<rparr>) = mnet_inv s"
  "mnet_inv (s\<lparr>g_ac_fn := fn\<rparr>) = mnet_inv s"
  "mnet_inv (s\<lparr>g_ac_context := ctx\<rparr>) = mnet_inv s" "mnet_inv (s\<lparr>g_ac_before := bf\<rparr>) = mnet_inv s" "mnet_inv (s\<lparr>g_ac_after := af\<rparr>) = mnet_inv s"
  by (simp_all add: mnet_inv_def del_links_def)

lemma inv_chg: "mnet_inv s \<Longrightarrow> se_array chg \<noteq> [] \<Longrightarrow> mnet_inv (s\<lparr>g_chg := chg\<rparr>)"
  by (simp add: mnet_inv_def inv0_def chann_links_def cfg_ok_def del_links_def)

lemma inv_same_core: "same_core s t \<Longrightarrow> mnet_inv s \<Longrightarrow> mnet_inv t"
  by (erule same_coreE) simp

subsection \<open>Updates of one channel\<close>

definition keeps :: "chann_t \<Rightarrow> chann_t \<Rightarrow> bool" where
  "keeps c d \<longleftrightarrow> c_prev d = c_prev c \<and> c_next d = c_next c \<and> c_del_next d = c_del_next c \<and>
     c_timer_node d = c_timer_node c \<and> (c_state d = CHANN_STATE_CLOSED \<longleftrightarrow> c_state c = CHANN_STATE_CLOSED)"

lemma dseg_upd:
  "dseg h q pv p L \<Longrightarrow> h n = Some c \<Longrightarrow> c_prev d = c_prev c \<Longrightarrow> c_next d = c_next c \<Longrightarrow> dseg (h(n \<mapsto> d)) q pv p L"
  by (induction L arbitrary: pv p) auto

lemma del_path_upd:
  "del_path h p L \<Longrightarrow> h n = Some c \<Longrightarrow> c_del_next d = c_del_next c \<Longrightarrow> del_path (h(n \<mapsto> d)) p L"
  by (induction L arbitrary: p) auto

lemma chann_links_upd:
  assumes "chann_links s L" "g_heap s n = Some c" "c_prev d = c_prev c" "c_next d = c_next c"
  shows "chann_links (s\<lparr>g_heap := (g_heap s)(n \<mapsto> d)\<rparr>) L"
  using assms by (auto simp: chann_links_def dseg_upd)

lemma inv_upd:
  assumes s: "mnet_inv s" and n: "g_heap s n = Some c" and d: "keeps c d" "chann_wf d"
  shows "mnet_inv (s\<lparr>g_heap := (g_heap s)(n \<mapsto> d)\<rparr>)"
proof -
  let ?t = "s\<lparr>g_heap := (g_heap s)(n \<mapsto> d)\<rparr>"
  from s obtain clock L D where *: "cfg_ok s" "g_tm_clock s = Some clock" "timers_ok clock (g_heap s)" "chann_links s L"
    "del_links s D" "\<And>n c. g_heap s n = Some c \<Longrightarrow> chann_wf c" "se_array (g_chg s) \<noteq> []"
    by (auto simp: mnet_inv_def inv0_def)
  have "timers_ok clock (g_heap ?t)"
    using timers_ok_frame [OF *(3) n] d(1) by (simp add: keeps_def)
  moreover have "chann_links ?t L" using chann_links_upd [OF *(4) n] d(1) by (simp add: keeps_def)
  moreover have "closed ?t = closed s" using n d(1) by (auto simp: closed_def keeps_def)
  then have "del_links ?t D"
    using *(5) n d(1) del_path_upd [of "g_heap s" _ D n c d] by (simp add: del_links_def keeps_def)
  ultimately show ?thesis using * d(2) by (auto simp: mnet_inv_def inv0_def)
qed

lemma inv_wf: "mnet_inv s \<Longrightarrow> g_heap s n = Some c \<Longrightarrow> chann_wf c"
  by (auto simp: mnet_inv_def inv0_def)

lemma inv_cfg: "mnet_inv s \<Longrightarrow> cfg_ok s"
  by (simp add: mnet_inv_def inv0_def)

lemma inv_upd_chann:
  assumes "mnet_inv s" "\<And>c. g_heap s n = Some c \<Longrightarrow> chann_wf c \<Longrightarrow> keeps c (f c) \<and> chann_wf (f c)"
  shows "post mnet_inv (upd_chann n f s)"
proof (cases "g_heap s n")
  case (Some c)
  with assms inv_upd [OF assms(1) Some] inv_wf [OF assms(1) Some] show ?thesis
    by (simp add: upd_chann_def)
qed (simp add: upd_chann_def)
subsection \<open>Creation\<close>

definition lastp :: "addr option \<Rightarrow> addr list \<Rightarrow> addr option" where
  "lastp pv A = (if A = [] then pv else Some (last A))"

lemma dseg_append: "dseg h q pv p (A @ B) \<longleftrightarrow> (\<exists>r. dseg h r pv p A \<and> dseg h q (lastp pv A) r B)"
  by (induction A arbitrary: pv p) (auto simp: lastp_def)

lemma dseg_other [simp]: "n \<notin> set A \<Longrightarrow> dseg (h(n := x)) q pv p A = dseg h q pv p A"
  by (induction A arbitrary: pv p) auto

lemma dseg_set_prev:
  "dseg h q pv p (b # B) \<Longrightarrow> b \<notin> set B \<Longrightarrow> h b = Some cb \<Longrightarrow> dseg (h(b \<mapsto> cb\<lparr>c_prev := pv'\<rparr>)) q pv' p (b # B)"
  by simp

lemma dseg_set_next:
  assumes "dseg h r pv p A" "A \<noteq> []" "distinct A" "h (last A) = Some ca"
  shows "dseg (h(last A \<mapsto> ca\<lparr>c_next := r'\<rparr>)) r' pv p A"
  using assms
proof (induction A arbitrary: pv p)
  case (Cons a A)
  show ?case
  proof (cases "A = []")
    case False
    then have "a \<noteq> last A" using Cons.prems(3) by auto
    with False Cons show ?thesis by auto
  qed (use Cons.prems in auto)
qed simp

lemma del_path_other [simp]: "n \<notin> set A \<Longrightarrow> del_path (h(n := x)) p A = del_path h p A"
  by (induction A arbitrary: p) auto

text \<open>Heaps that differ in the links of the channel list only.\<close>

definition core :: "chann_t \<Rightarrow> chann_t" where
  "core c = c\<lparr>c_prev := None, c_next := None\<rparr>"

definition relinked :: "(addr \<rightharpoonup> chann_t) \<Rightarrow> (addr \<rightharpoonup> chann_t) \<Rightarrow> bool" where
  "relinked h h' \<longleftrightarrow> (\<forall>m. map_option core (h' m) = map_option core (h m))"

lemma relinked_refl [simp]: "relinked h h"
  by (simp add: relinked_def)

lemma relinked_upd:
  assumes "relinked h h'" "h' m = Some c" "core d = core c"
  shows "relinked h (h'(m \<mapsto> d))"
  using assms by (auto simp: relinked_def fun_upd_def) (metis option.simps(9))

lemma core_fields:
  assumes "core d = core c"
  shows "c_timer_node d = c_timer_node c" "c_del_next d = c_del_next c" "c_state d = c_state c" "chann_wf d = chann_wf c"
    "c_rwb_send d = c_rwb_send c" "c_ctype d = c_ctype c"
proof -
  show 1: "c_timer_node d = c_timer_node c" using arg_cong [OF assms, of c_timer_node] by (simp add: core_def)
  show 2: "c_del_next d = c_del_next c" using arg_cong [OF assms, of c_del_next] by (simp add: core_def)
  show 3: "c_state d = c_state c" using arg_cong [OF assms, of c_state] by (simp add: core_def)
  show 4: "chann_wf d = chann_wf c" using arg_cong [OF assms, of chann_wf] by (simp add: core_def chann_wf_def)
  show 5: "c_rwb_send d = c_rwb_send c" using arg_cong [OF assms, of c_rwb_send] by (simp add: core_def)
  show 6: "c_ctype d = c_ctype c" using arg_cong [OF assms, of c_ctype] by (simp add: core_def)
qed

lemma relinkedD:
  assumes "relinked h h'" "h' m = Some d"
  shows "\<exists>c. h m = Some c \<and> core d = core c"
proof -
  have "map_option core (h m) = Some (core d)" using assms by (metis relinked_def option.simps(9))
  then show ?thesis by (cases "h m") auto
qed

lemma relinked_sym: "relinked h h' \<Longrightarrow> relinked h' h"
  by (simp add: relinked_def)

lemma relinked_del_path:
  "relinked h h' \<Longrightarrow> del_path h p D \<Longrightarrow> del_path h' p D"
proof (induction D arbitrary: p)
  case (Cons a D)
  then obtain c where c: "p = Some a" "h a = Some c" "del_path h (c_del_next c) D" by auto
  from relinkedD [OF relinked_sym [OF Cons.prems(1)] c(2)] obtain d where "h' a = Some d" "core c = core d" by blast
  with Cons.IH [OF Cons.prems(1) c(3)] c(1) core_fields(2) [of c d] show ?case by simp
qed simp

lemma relinked_timers: assumes "relinked h h'" "timers_ok clock h" shows "timers_ok clock h'"
proof (rule timers_okI [OF timers_ok_inv [OF assms(2)]])
  show "k = tm_time tm \<and> (\<exists>c. h' (tm_chann tm) = Some c \<and> c_timer_node c = Some a)"
    if "sk_lookup clock a = Some (k, tm)" for a k tm
  proof -
    from timers_okD1 [OF assms(2) that] obtain c where c: "k = tm_time tm" "h (tm_chann tm) = Some c" "c_timer_node c = Some a" by blast
    from relinkedD [OF relinked_sym [OF assms(1)] c(2)] obtain d where "h' (tm_chann tm) = Some d" "core c = core d" by blast
    with c core_fields(1) [of c d] show ?thesis by auto
  qed
  show "\<exists>k tm. sk_lookup clock a = Some (k, tm) \<and> tm_chann tm = n"
    if d: "h' n = Some d" "c_timer_node d = Some a" for n d a
  proof -
    from relinkedD [OF assms(1) d(1)] obtain c where "h n = Some c" "core d = core c" by blast
    with timers_okD2 [OF assms(2)] core_fields(1) [of d c] d(2) show ?thesis by fastforce
  qed
qed

lemma relinked_dom: assumes "relinked h h'" shows "dom h' = dom h"
proof -
  have "h' m = None \<longleftrightarrow> h m = None" for m
    using assms unfolding relinked_def by (metis option.map_disc_iff)
  then show ?thesis by (simp add: dom_def)
qed

lemma relinked_closed_sub:
  assumes "relinked (g_heap s) (g_heap t)" "n \<in> closed t" shows "n \<in> closed s"
proof -
  from assms(2) obtain d where d: "g_heap t n = Some d" "c_state d = CHANN_STATE_CLOSED" by (auto simp: closed_def)
  from relinkedD [OF assms(1) d(1)] obtain c where "g_heap s n = Some c" "core d = core c" by blast
  with core_fields(3) [of d c] d(2) show ?thesis by (simp add: closed_def)
qed

lemma relinked_closed: assumes "relinked (g_heap s) (g_heap t)" shows "closed t = closed s"
  by (auto intro: relinked_closed_sub [OF assms] relinked_closed_sub [OF relinked_sym [OF assms]])

lemma timers_ok_new:
  assumes ok: "timers_ok clock h" and n: "h n = None" "c_timer_node c = None"
  shows "timers_ok clock (h(n \<mapsto> c))"
proof (rule timers_okI [OF timers_ok_inv [OF ok]])
  show "k = tm_time tm \<and> (\<exists>d. (h(n \<mapsto> c)) (tm_chann tm) = Some d \<and> c_timer_node d = Some a)"
    if "sk_lookup clock a = Some (k, tm)" for a k tm
  proof -
    from timers_okD1 [OF ok that] obtain d where d: "k = tm_time tm" "h (tm_chann tm) = Some d" "c_timer_node d = Some a"
      by blast
    with n(1) have "tm_chann tm \<noteq> n" by auto
    with d show ?thesis by simp
  qed
  show "\<exists>k tm. sk_lookup clock a = Some (k, tm) \<and> tm_chann tm = m"
    if "(h(n \<mapsto> c)) m = Some d" "c_timer_node d = Some a" for m d a
  proof -
    from that n(2) have "h m = Some d" by (cases "m = n") simp_all
    from timers_okD2 [OF ok this that(2)] show ?thesis by blast
  qed
qed

lemma relinked_wf:
  "relinked h h' \<Longrightarrow> (\<And>n c. h n = Some c \<Longrightarrow> chann_wf c) \<Longrightarrow> h' n = Some d \<Longrightarrow> chann_wf d"
  using relinkedD core_fields(4) by blast

text \<open>The heap after \<open>_chann_create\<close>, before the fields of the new channel are filled in.\<close>

lemma chann_create_ok:
  assumes "chann_links s L"
  shows "\<exists>h. chann_create ct st s = Some (g_brk s, s\<lparr>g_heap := h(g_brk s \<mapsto>
      chann_zero\<lparr>c_ctype := ct, c_state := st, c_next := g_channs s\<rparr>), g_brk := Suc (g_brk s),
      g_channs := Some (g_brk s), g_chann_count := g_chann_count s + 1\<rparr>) \<and>
    relinked (g_heap s) h \<and> dseg h None (Some (g_brk s)) (g_channs s) L \<and> g_heap s (g_brk s) = None"
proof -
  let ?n = "g_brk s"
  let ?c = "chann_zero\<lparr>c_ctype := ct, c_state := st, c_next := g_channs s\<rparr>"
  have fresh: "?n \<notin> set L" "g_heap s ?n = None" using assms by (auto simp: chann_links_def)
  show ?thesis
  proof (cases L)
    case Nil
    with assms have "g_channs s = None" by (simp add: chann_links_def)
    then have "chann_create ct st s = Some (?n, s\<lparr>g_heap := (g_heap s)(?n \<mapsto> ?c), g_brk := Suc ?n,
        g_channs := Some ?n, g_chann_count := g_chann_count s + 1\<rparr>)"
      by (simp add: chann_create_def Let_def)
    with fresh Nil \<open>g_channs s = None\<close> show ?thesis by (intro exI [of _ "g_heap s"]) simp
  next
    case (Cons m M)
    with assms obtain cm where m: "g_channs s = Some m" "g_heap s m = Some cm" "m \<notin> set M"
      by (auto simp: chann_links_def)
    let ?h = "(g_heap s)(m \<mapsto> cm\<lparr>c_prev := Some ?n\<rparr>)"
    have ne: "m \<noteq> ?n" using fresh m by auto
    have "chann_create ct st s = Some (?n, s\<lparr>g_heap := ?h(?n \<mapsto> ?c), g_brk := Suc ?n,
        g_channs := Some ?n, g_chann_count := g_chann_count s + 1\<rparr>)"
      using m ne by (simp add: chann_create_def Let_def upd_chann_def fun_upd_twist)
    moreover have "relinked (g_heap s) ?h" by (rule relinked_upd [where c = cm]) (simp_all add: core_def m)
    moreover have "dseg ?h None (Some ?n) (g_channs s) L"
      using assms m unfolding Cons by (intro dseg_set_prev) (auto simp: chann_links_def)
    ultimately show ?thesis using fresh by blast
  qed
qed

lemma chann_create_inv:
  assumes s: "mnet_inv s" and run: "chann_create ct st s = Some (n, t)"
    and c: "c = chann_zero\<lparr>c_ctype := ct, c_state := st, c_next := g_channs s\<rparr>" and d: "keeps c d" "chann_wf d"
    and st: "st \<noteq> CHANN_STATE_CLOSED"
  shows "g_heap t n = Some c \<and> mnet_inv (t\<lparr>g_heap := (g_heap t)(n \<mapsto> d)\<rparr>)"
proof -
  from s obtain clock L D where *: "cfg_ok s" "g_tm_clock s = Some clock" "timers_ok clock (g_heap s)" "chann_links s L"
    "del_links s D" "\<And>n c. g_heap s n = Some c \<Longrightarrow> chann_wf c" "se_array (g_chg s) \<noteq> []"
    by (auto simp: mnet_inv_def inv0_def)
  let ?n = "g_brk s"
  from chann_create_ok [OF *(4), of ct st] run obtain h where
    t: "n = ?n" "t = s\<lparr>g_heap := h(?n \<mapsto> c), g_brk := Suc ?n, g_channs := Some ?n, g_chann_count := g_chann_count s + 1\<rparr>"
    and h: "relinked (g_heap s) h" "dseg h None (Some ?n) (g_channs s) L" "g_heap s ?n = None"
    unfolding c by auto
  let ?t = "t\<lparr>g_heap := (g_heap t)(n \<mapsto> d)\<rparr>"
  have hn: "h ?n = None" using h(1,3) relinked_dom [OF h(1)] by auto
  have fresh: "?n \<notin> set L" "?n \<notin> closed s" using *(4) h(3) by (auto simp: chann_links_def closed_def)
  have heap: "g_heap ?t = h(?n \<mapsto> d)" by (simp add: t)
  have "c_next d = g_channs s" "c_prev d = None" "c_timer_node d = None" "c_state d \<noteq> CHANN_STATE_CLOSED"
    using d(1) st by (simp_all add: keeps_def c chann_zero_def)
  note dd = this
  have "chann_links ?t (?n # L)"
    using *(4) h(2) fresh dd relinked_dom [OF h(1)] unfolding chann_links_def heap by (auto simp: t less_Suc_eq)
  moreover have "timers_ok clock (g_heap ?t)"
    unfolding heap using timers_ok_new [OF relinked_timers [OF h(1) *(3)] hn] dd by simp
  moreover have "closed ?t = closed s"
    using relinked_closed [of s "s\<lparr>g_heap := h\<rparr>"] h(1,3) hn dd(4) unfolding closed_def heap by auto
  moreover have "del_links ?t D"
    using *(5) fresh(2) relinked_del_path [OF h(1), of "g_del_channs s" D] \<open>closed ?t = closed s\<close>
    unfolding del_links_def heap by (auto simp: t)
  moreover have "chann_wf x" if "g_heap ?t m = Some x" for m x
    using that d(2) relinked_wf [of "g_heap s" h m x, OF h(1)] *(6) unfolding heap by (auto split: if_splits)
  ultimately show ?thesis using *(1,2,7) by (auto simp: mnet_inv_def inv0_def t cfg_ok_def)
qed

subsection \<open>Destruction\<close>

lemma chann_unlink_ok:
  assumes links: "chann_links s (A @ n # B)"
  shows "\<exists>h p. chann_unlink n s = Some (s\<lparr>g_heap := h, g_channs := p\<rparr>) \<and> relinked (g_heap s) h \<and>
    dseg h None None p (A @ B)"
proof -
  let ?h = "g_heap s"
  from links have dist: "distinct (A @ n # B)" by (simp add: chann_links_def)
  from links obtain c where c: "?h n = Some c" "dseg ?h (Some n) None (g_channs s) A" "c_prev c = lastp None A"
    "dseg ?h None (Some n) (c_next c) B" by (auto simp: chann_links_def dseg_append)
  define h1 where "h1 = (case B of [] \<Rightarrow> ?h | b # _ \<Rightarrow> ?h(b \<mapsto> (the (?h b))\<lparr>c_prev := c_prev c\<rparr>))"
  let ?go = "\<lambda>s. case c_next c of None \<Rightarrow> Some s | Some m \<Rightarrow> upd_chann m (\<lambda>d. d\<lparr>c_prev := c_prev c\<rparr>) s"
  have "relinked ?h h1 \<and> h1 n = Some c \<and> dseg h1 (Some n) None (g_channs s) A \<and>
      dseg h1 None (c_prev c) (c_next c) B \<and> ?go s = Some (s\<lparr>g_heap := h1\<rparr>)"
  proof (cases B)
    case (Cons b B')
    with c obtain cb where b: "c_next c = Some b" "?h b = Some cb" by auto
    have "b \<noteq> n" "b \<notin> set A" "b \<notin> set B'" using dist Cons by auto
    with Cons b c show ?thesis
      by (auto simp: h1_def upd_chann_def core_def intro!: relinked_upd [where c = cb])
  qed (use c in \<open>simp add: h1_def\<close>)
  then have h1: "relinked ?h h1" "h1 n = Some c" "dseg h1 (Some n) None (g_channs s) A"
    "dseg h1 None (c_prev c) (c_next c) B" "?go s = Some (s\<lparr>g_heap := h1\<rparr>)" by blast+
  show ?thesis
  proof (cases "A = []")
    case True
    then have "chann_unlink n s = Some (s\<lparr>g_heap := h1, g_channs := c_next c\<rparr>)"
      using c h1(2,5) by (simp add: chann_unlink_def lastp_def)
    with h1 True c(3) show ?thesis by (intro exI [of _ h1] exI [of _ "c_next c"]) (simp add: lastp_def)
  next
    case False
    let ?m = "last A"
    from False c(3) have pv: "c_prev c = Some ?m" by (simp add: lastp_def)
    have "?m \<in> set A" using False by simp
    then have m: "?m \<noteq> n" "?m \<notin> set B" "distinct A" using dist by auto
    have "\<exists>cm. h1 ?m = Some cm"
      using relinked_dom [OF h1(1)] links \<open>?m \<in> set A\<close> by (auto simp: chann_links_def)
    then obtain cm where cm: "h1 ?m = Some cm" by blast
    let ?h2 = "h1(?m \<mapsto> cm\<lparr>c_next := c_next c\<rparr>)"
    have "chann_unlink n s = Some (s\<lparr>g_heap := ?h2, g_channs := g_channs s\<rparr>)"
      using c(1) h1(2,5) pv cm by (simp add: chann_unlink_def upd_chann_def)
    moreover have "relinked ?h ?h2" by (rule relinked_upd [OF h1(1) cm]) (simp add: core_def)
    moreover have "dseg ?h2 None None (g_channs s) (A @ B)"
      using dseg_set_next [OF h1(3) False m(3) cm, of "c_next c"] h1(4) m(2) pv False
      by (auto simp: dseg_append lastp_def)
    ultimately show ?thesis by blast
  qed
qed

lemma timers_ok_drop:
  assumes ok: "timers_ok clock h" and n: "h n = Some c" "c_timer_node c = None"
  shows "timers_ok clock (h(n := None))"
proof (rule timers_okI [OF timers_ok_inv [OF ok]])
  show "k = tm_time tm \<and> (\<exists>d. (h(n := None)) (tm_chann tm) = Some d \<and> c_timer_node d = Some a)"
    if "sk_lookup clock a = Some (k, tm)" for a k tm
  proof -
    from timers_okD1 [OF ok that] obtain d where d: "k = tm_time tm" "h (tm_chann tm) = Some d" "c_timer_node d = Some a"
      by blast
    with n have "tm_chann tm \<noteq> n" by auto
    with d show ?thesis by simp
  qed
  show "\<exists>k tm. sk_lookup clock a = Some (k, tm) \<and> tm_chann tm = m"
    if "(h(n := None)) m = Some d" "c_timer_node d = Some a" for m d a
  proof -
    from that have "h m = Some d" by (cases "m = n") simp_all
    from timers_okD2 [OF ok this that(2)] show ?thesis by blast
  qed
qed

lemma relinked_drop: "relinked h h' \<Longrightarrow> relinked (h(n := None)) (h'(n := None))"
  by (simp add: relinked_def)

lemma inv0_links: "inv0 s \<Longrightarrow> g_heap s n = Some c \<Longrightarrow> \<exists>A B. chann_links s (A @ n # B)"
  unfolding inv0_def chann_links_def by (metis domI in_set_conv_decomp)

lemma chann_destroy_links:
  assumes s: "inv0 s" and n: "g_heap s n = Some c" "c_state c = CHANN_STATE_CLOSED" and links: "chann_links s (A @ n # B)"
  shows "\<exists>t. chann_destroy n s = Some t \<and> inv0 t \<and> relinked ((g_heap s)(n := None)) (g_heap t) \<and> chann_links t (A @ B)"
proof -
  from s obtain clock where *: "cfg_ok s" "g_tm_clock s = Some clock" "timers_ok clock (g_heap s)"
    "\<And>n c. g_heap s n = Some c \<Longrightarrow> chann_wf c" "se_array (g_chg s) \<noteq> []" by (auto simp: inv0_def)
  from chann_unlink_ok [OF links] obtain h p where u: "chann_unlink n s = Some (s\<lparr>g_heap := h, g_channs := p\<rparr>)"
    "relinked (g_heap s) h" "dseg h None None p (A @ B)" by blast
  from relinkedD [OF relinked_sym [OF u(2)] n(1)] obtain d where d: "h n = Some d" "core c = core d" by blast
  have wf: "chann_wf d" "rwb_count (c_rwb_send d) = 0"
    using *(4) [OF n(1)] n(2) core_fields [OF d(2)] by (simp_all add: chann_wf_def state_order)
  then have rd: "rwb_destroy (c_rwb_send d) = Some (c_rwb_send d)" by (simp add: rwb_destroy_inv chann_wf_def)
  let ?u = "s\<lparr>g_heap := h, g_channs := p\<rparr>"
  have rd2: "chann_rwb_destroy n ?u = Some ?u"
    using d(1) rd by (simp add: chann_rwb_destroy_def upd_chann_def fun_upd_idem)
  have "g_tm_clock ?u = Some clock" "timers_ok clock (g_heap ?u)" "g_heap ?u n = Some d"
    using *(2) relinked_timers [OF u(2) *(3)] d(1) by simp_all
  from tm_kill_ok [OF this] obtain clock' where k: "tm_kill n ?u = Some (?u\<lparr>g_tm_clock := Some clock',
      g_heap := h(n \<mapsto> d\<lparr>c_timer_node := None\<rparr>)\<rparr>)" "timers_ok clock' (h(n \<mapsto> d\<lparr>c_timer_node := None\<rparr>))" by auto
  let ?t = "s\<lparr>g_channs := p, g_tm_clock := Some clock', g_chann_count := g_chann_count s - 1, g_heap := h(n := None)\<rparr>"
  have run: "chann_destroy n s = Some ?t" using n u(1) rd2 k(1) by (simp add: chann_destroy_def)
  have "timers_ok clock' (h(n := None))" using timers_ok_drop [OF k(2), of n] by simp
  moreover have "n \<notin> set A" "n \<notin> set B" "distinct (A @ B)" using links by (auto simp: chann_links_def)
  then have links': "chann_links ?t (A @ B)"
    using links u(3) relinked_dom [OF u(2)] by (auto simp: chann_links_def)
  moreover have "chann_wf x" if "g_heap ?t m = Some x" for m x
    using that relinked_wf [of "g_heap s" h m x, OF u(2)] *(4) by (auto split: if_splits)
  ultimately have "inv0 ?t" using *(1,5) by (auto simp: inv0_def cfg_ok_def)
  with run relinked_drop [OF u(2)] links' show ?thesis by auto
qed

lemma chann_destroy_ok:
  assumes "inv0 s" "g_heap s n = Some c" "c_state c = CHANN_STATE_CLOSED"
  shows "\<exists>t. chann_destroy n s = Some t \<and> inv0 t \<and> relinked ((g_heap s)(n := None)) (g_heap t)"
  using inv0_links [OF assms(1,2)] chann_destroy_links [OF assms] by blast

subsection \<open>Polling frees the closed channels\<close>

lemma relinked_trans: "relinked h h' \<Longrightarrow> relinked h' h'' \<Longrightarrow> relinked h h''"
  by (simp add: relinked_def)

lemma relinked_restrict: "relinked h h' \<Longrightarrow> relinked (h |` A) (h' |` A)"
  by (simp add: relinked_def restrict_map_def)

lemma relinked_closed_iff: "relinked h (g_heap t) \<Longrightarrow>
  closed t = {n. \<exists>c. h n = Some c \<and> c_state c = CHANN_STATE_CLOSED}"
  using relinked_closed [of "t\<lparr>g_heap := h\<rparr>" t] by (simp add: closed_def)

lemma del_channs_loop_ok:
  assumes "inv0 s" "del_path (g_heap s) p D" "distinct D" "set D \<subseteq> closed s"
  shows "\<exists>t. del_channs_loop p s = Some t \<and> inv0 t \<and> relinked (g_heap s |` (- set D)) (g_heap t)"
  using assms
proof (induction D arbitrary: p s)
  case Nil
  then show ?case by (subst del_channs_loop.simps) (simp add: restrict_map_def)
next
  case (Cons n D)
  from Cons.prems obtain c where c: "p = Some n" "g_heap s n = Some c" "c_state c = CHANN_STATE_CLOSED"
    "del_path (g_heap s) (c_del_next c) D" by (auto simp: closed_def)
  from chann_destroy_ok [OF Cons.prems(1) c(2,3)] obtain t where
    t: "chann_destroy n s = Some t" "inv0 t" "relinked ((g_heap s)(n := None)) (g_heap t)" by blast
  have n: "n \<notin> set D" "distinct D" using Cons.prems(3) by auto
  have "del_path (g_heap t) (c_del_next c) D"
    by (rule relinked_del_path [OF t(3)]) (use c(4) n(1) in simp)
  moreover have "set D \<subseteq> closed t"
    unfolding relinked_closed_iff [OF t(3)] using Cons.prems(4) n(1) by (auto simp: closed_def)
  ultimately obtain u where u: "del_channs_loop (c_del_next c) t = Some u" "inv0 u"
    "relinked (g_heap t |` (- set D)) (g_heap u)" using Cons.IH [OF t(2)] n(2) by blast
  have "g_heap s |` (- set (n # D)) = ((g_heap s)(n := None)) |` (- set D)"
    by (auto simp: restrict_map_def fun_eq_iff)
  with relinked_trans [OF relinked_restrict [OF t(3)] u(3)]
  have "relinked (g_heap s |` (- set (n # D))) (g_heap u)" by simp
  moreover have "del_channs_loop p s = Some u"
    using c(1,2) t(1) u(1) by (subst del_channs_loop.simps) simp
  ultimately show ?case using u(2) by blast
qed

lemma evt_del_channs_ok:
  assumes "mnet_inv s"
  shows "\<exists>t. evt_del_channs s = Some t \<and> mnet_inv t \<and> relinked (g_heap s |` (- closed s)) (g_heap t) \<and> closed t = {} \<and>
    g_del_channs t = None"
proof -
  from assms obtain D where D: "inv0 s" "del_path (g_heap s) (g_del_channs s) D" "distinct D" "set D = closed s"
    by (auto simp: mnet_inv_def del_links_def)
  from del_channs_loop_ok [OF D(1,2,3)] D(4) obtain t where
    t: "del_channs_loop (g_del_channs s) s = Some t" "inv0 t" "relinked (g_heap s |` (- closed s)) (g_heap t)" by auto
  let ?t = "t\<lparr>g_del_channs := None\<rparr>"
  have "closed t = {}"
    unfolding relinked_closed_iff [OF t(3)] by (auto simp: restrict_map_def closed_def)
  moreover have "evt_del_channs s = Some ?t" using t(1) by (simp add: evt_del_channs_def)
  moreover have "mnet_inv ?t" using t(2) \<open>closed t = {}\<close> by (auto simp: mnet_inv_def del_links_def intro: exI [of _ "[]"])
  ultimately show ?thesis using t(3) by auto
qed

lemma tm_schedule_frame:
  assumes "mnet_inv s"
  shows "\<exists>p x w. tm_schedule env s = Some (s\<lparr>g_world := w, g_tm_current := x, g_tm_pos := p\<rparr>)"
proof -
  from assms obtain clock where c: "g_tm_clock s = Some clock" "timers_ok clock (g_heap s)" by (auto simp: mnet_inv_def inv0_def)
  from tm_schedule_ok [OF c, of env] obtain t w where t: "tm_schedule env s = Some t"
    "if timers clock = [] then t = s\<lparr>g_tm_pos := None\<rparr>
     else w = g_world (snd (tm_now env s)) \<and> (if fst (tm_now env s) < fst (hd (timers clock)) then t = s\<lparr>g_world := w, g_tm_pos := None\<rparr>
     else \<exists>pos. t = s\<lparr>g_world := w, g_tm_current := fst (tm_now env s), g_tm_pos := Some pos\<rparr> \<and>
       at_pos clock pos [] (sk_entries clock))" by blast
  show ?thesis
  proof (cases "timers clock = []")
    case True
    with t have "t = s\<lparr>g_tm_pos := None\<rparr>" by simp
    with t(1) show ?thesis by (intro exI [of _ None] exI [of _ "g_tm_current s"] exI [of _ "g_world s"]) simp
  next
    case some: False
    show ?thesis
    proof (cases "fst (tm_now env s) < fst (hd (timers clock))")
      case True
      with t some have "t = s\<lparr>g_world := w, g_tm_pos := None\<rparr>" by simp
      with t(1) show ?thesis by (intro exI [of _ None] exI [of _ "g_tm_current s"] exI [of _ w]) simp
    next
      case False
      with t(2) some obtain pos where "t = s\<lparr>g_world := w, g_tm_current := fst (tm_now env s), g_tm_pos := Some pos\<rparr>"
        by auto
      with t(1) show ?thesis by (intro exI [of _ "Some pos"] exI [of _ "fst (tm_now env s)"] exI [of _ w]) simp
    qed
  qed
qed

lemma mnet_poll_ok:
  assumes "mnet_inv s"
  shows "\<exists>r t. mnet_poll env ms s = Some (r, t) \<and> mnet_inv t \<and> relinked (g_heap s |` (- closed s)) (g_heap t) \<and>
    closed t = {} \<and> g_del_channs t = None \<and> g_fd_index t = -1 \<and> (r = -1 \<or> r = g_chann_count t)"
proof -
  from evt_del_channs_ok [OF assms] obtain s1 where s1: "evt_del_channs s = Some s1" "mnet_inv s1"
    "relinked (g_heap s |` (- closed s)) (g_heap s1)" "closed s1 = {}" "g_del_channs s1 = None" by blast
  from tm_schedule_frame [OF s1(2), of env] obtain p x w where
    s2: "tm_schedule env s1 = Some (s1\<lparr>g_world := w, g_tm_current := x, g_tm_pos := p\<rparr>)" by blast
  let ?s2 = "s1\<lparr>g_world := w, g_tm_current := x, g_tm_pos := p\<rparr>"
  obtain cnt evs e w' where ep: "sys_epoll_wait env (g_kq s1) (se_size (g_evt s1)) ms w = (cnt, evs, e, w')"
    by (metis prod.exhaust)
  let ?ev = "(g_evt s1)\<lparr>se_array := evs @ drop (length evs) (se_array (g_evt s1))\<rparr>"
  let ?t = "(set_errno e ?s2)\<lparr>g_world := w', g_fd_count := cnt, g_evt := ?ev, g_fd_index := -1\<rparr>"
  have fields: "g_evt (set_errno e ?s2) = g_evt s1" "g_heap (set_errno e ?s2) = g_heap s1"
    "g_del_channs (set_errno e ?s2) = g_del_channs s1" "mnet_inv (set_errno e ?s2) = mnet_inv s1"
    "closed (set_errno e ?s2) = closed s1"
    by (cases e; simp add: set_errno_def)+
  have "mnet_poll env ms s = Some (if cnt < 0 \<and> g_errno ?t \<noteq> EINTR then -1 else g_chann_count ?t, ?t)"
    using s1(1) s2 ep fields(1) by (simp add: mnet_poll_def evt_poll_def Let_def)
  moreover have "mnet_inv ?t" using s1(2) fields(4) by simp
  moreover have "closed ?t = {}" using s1(4) fields(5) by simp
  ultimately show ?thesis using s1(3,5) fields(2,3)
    by (intro exI [of _ "if cnt < 0 \<and> g_errno ?t \<noteq> EINTR then -1 else g_chann_count ?t"] exI [of _ ?t]) simp
qed

end
