(* ===== verification/Inv_Ops.thy ===== *)
theory Inv_Ops
  imports Inv
begin

text \<open>
  The invariant across the internal operations of mnet_core.c: what disconnecting, posting
  a message, sending, flushing and closing change of a channel, and that the rest of the
  state stays as it was.
\<close>

subsection \<open>The internal operations on one channel\<close>

text \<open>States that agree on everything the invariant speaks of.\<close>

definition agree :: "'w mnet_t \<Rightarrow> 'w mnet_t \<Rightarrow> bool" where
  "agree s t \<longleftrightarrow> g_channs t = g_channs s \<and> g_chann_count t = g_chann_count s \<and> g_del_channs t = g_del_channs s \<and>
     g_tm_clock t = g_tm_clock s \<and> g_brk t = g_brk s \<and> g_ext_config t = g_ext_config s \<and>
     (se_array (g_chg s) \<noteq> [] \<longrightarrow> se_array (g_chg t) \<noteq> [])"

lemma agree_refl [simp]: "agree s s"
  by (simp add: agree_def)

lemma agree_upd [simp]:
  "agree s (t\<lparr>g_heap := h\<rparr>) = agree s t" "agree s (t\<lparr>g_errno := e\<rparr>) = agree s t" "agree s (t\<lparr>g_world := w\<rparr>) = agree s t"
  "agree s (t\<lparr>g_dis_channs := q\<rparr>) = agree s t" "agree s (t\<lparr>g_tm_pos := p\<rparr>) = agree s t"
  by (simp_all add: agree_def)

lemma inv_frame:
  assumes s: "mnet_inv s" and n: "g_heap s n = Some c" and d: "keeps c d" "chann_wf d"
    and t: "g_heap t = (g_heap s)(n \<mapsto> d)" "agree s t"
  shows "mnet_inv t"
proof -
  let ?u = "s\<lparr>g_heap := (g_heap s)(n \<mapsto> d)\<rparr>"
  have "mnet_inv ?u" by (rule inv_upd [OF s n d])
  then obtain clock L D where "cfg_ok ?u" "g_tm_clock s = Some clock" "timers_ok clock (g_heap t)" "chann_links ?u L"
    "del_links ?u D" "\<And>n c. g_heap t n = Some c \<Longrightarrow> chann_wf c" "se_array (g_chg s) \<noteq> []"
    by (auto simp: mnet_inv_def inv0_def t(1))
  with t(2) show ?thesis
    unfolding mnet_inv_def inv0_def agree_def chann_links_def del_links_def closed_def cfg_ok_def
    by (auto simp: t(1))
qed

text \<open>The channel an operation works on, when it was open, is changed in its own fields only.\<close>

definition stays :: "addr \<Rightarrow> 'w mnet_t \<Rightarrow> 'w mnet_t \<Rightarrow> chann_t \<Rightarrow> chann_t \<Rightarrow> bool" where
  "stays n s t c d \<longleftrightarrow> g_heap t = (g_heap s)(n \<mapsto> d) \<and> keeps c d \<and> chann_wf d \<and> agree s t"

lemma stays_inv: "mnet_inv s \<Longrightarrow> g_heap s n = Some c \<Longrightarrow> stays n s t c d \<Longrightarrow> mnet_inv t \<and> g_heap t n = Some d"
  using inv_frame [of s n c d t] by (simp add: stays_def)

lemma stays_trans: "stays n s t c d \<Longrightarrow> stays n t u d e \<Longrightarrow> stays n s u c e"
  by (auto simp: stays_def keeps_def agree_def)

lemma stays_same: "g_heap s n = Some c \<Longrightarrow> chann_wf c \<Longrightarrow> agree s t \<Longrightarrow> g_heap t = g_heap s \<Longrightarrow> stays n s t c c"
  by (simp add: stays_def keeps_def fun_upd_idem)

lemma evt_stays:
  assumes s: "mnet_inv s" and n: "g_heap s n = Some c"
  shows "\<exists>r t ev. evt_add env n st s = Some (r, t) \<and> stays n s t c (c\<lparr>c_epoll_events := ev\<rparr>)"
    and "\<exists>r t ev. evt_del env n st s = Some (r, t) \<and> stays n s t c (c\<lparr>c_epoll_events := ev\<rparr>)"
proof -
  have arr: "se_array (g_chg s) \<noteq> []" using s by (simp add: mnet_inv_def inv0_def)
  have wf: "chann_wf (c\<lparr>c_epoll_events := ev\<rparr>)" for ev using inv_wf [OF s n] by (simp add: chann_wf_def)
  have st: "stays n s (s\<lparr>g_chg := chg, g_heap := (g_heap s)(n \<mapsto> c\<lparr>c_epoll_events := ev\<rparr>), g_errno := e, g_world := w\<rparr>)
      c (c\<lparr>c_epoll_events := ev\<rparr>)" if "se_array chg \<noteq> []" for chg ev e w
    using that wf by (simp add: stays_def keeps_def agree_def)
  note ok = evt_change_ok [OF arr n, of env "\<lambda>_. True" st]
  from ok(1) st show "\<exists>r t ev. evt_add env n st s = Some (r, t) \<and> stays n s t c (c\<lparr>c_epoll_events := ev\<rparr>)" by blast
  from ok(2) st show "\<exists>r t ev. evt_del env n st s = Some (r, t) \<and> stays n s t c (c\<lparr>c_epoll_events := ev\<rparr>)" by blast
qed

lemma disconnect_run:
  assumes cfg: "cfg_ok s" and wf: "chann_wf c" and n: "g_heap s n = Some c"
  shows "chann_disconnect_socket env n s =
    (if c_state c \<le> CHANN_STATE_DISCONNECT then Some (0, s)
     else if rwb_count (c_rwb_send c) \<noteq> 0 then None
     else Some (1, (snd (syscall (sys_close env (c_fd c)) s))\<lparr>g_heap := (g_heap s)(n \<mapsto>
       c\<lparr>c_fd := -1, c_state := CHANN_STATE_DISCONNECT, c_epoll_events := 0\<rparr>)\<rparr>))"
proof -
  obtain r t where sys: "syscall (sys_close env (c_fd c)) s = (r, t)" by force
  then have "g_heap t = g_heap s" by (auto dest!: same_core_syscall elim!: same_coreE)
  moreover have "rwb_destroy (c_rwb_send c) = (if rwb_count (c_rwb_send c) = 0 then Some (c_rwb_send c) else None)"
    using wf by (simp add: rwb_destroy_inv chann_wf_def)
  ultimately show ?thesis using wf n cfg sys
    by (auto simp: chann_disconnect_socket_def chann_wf_def ext_config_internal init_ext_calls chann_rwb_destroy_def
        upd_chann_def)
qed

lemma disconnect_stays:
  assumes s: "mnet_inv s" and n: "g_heap s n = Some c" and run: "chann_disconnect_socket env n s = Some (r, t)"
  shows "\<exists>d. stays n s t c d \<and> c_state d \<le> CHANN_STATE_DISCONNECT \<and> (c_state c = CHANN_STATE_CLOSED \<longrightarrow> d = c \<and> t = s)"
proof (cases "c_state c \<le> CHANN_STATE_DISCONNECT")
  case True
  with run disconnect_run [OF inv_cfg [OF s] inv_wf [OF s n] n, of env] have "t = s" by simp
  with True stays_same [OF n inv_wf [OF s n]] show ?thesis by (intro exI [of _ c]) simp
next
  case False
  let ?d = "c\<lparr>c_fd := -1, c_state := CHANN_STATE_DISCONNECT, c_epoll_events := 0\<rparr>"
  obtain x u where sys: "syscall (sys_close env (c_fd c)) s = (x, u)" by force
  then have u: "agree s u" by (auto dest!: same_core_syscall elim!: same_coreE)
  from False run disconnect_run [OF inv_cfg [OF s] inv_wf [OF s n] n, of env] sys have
    t: "t = u\<lparr>g_heap := (g_heap s)(n \<mapsto> ?d)\<rparr>" "rwb_count (c_rwb_send c) = 0" by (auto split: if_splits)
  have "stays n s t c ?d"
    using inv_wf [OF s n] t u False by (auto simp: stays_def keeps_def chann_wf_def state_order)
  with False show ?thesis by (intro exI [of _ ?d]) (auto simp: state_order)
qed

lemma chann_msg_stays:
  assumes s: "mnet_inv s" and n: "g_heap s n = Some c"
  shows "\<exists>t d. chann_msg env n ev r err s = Some (1, t) \<and> stays n s t c d \<and> c_state d = c_state c"
proof -
  let ?d = "event_msg n ev r err c"
  have wf: "chann_wf c" by (rule inv_wf [OF s n])
  then have "chann_msg env n ev r err s = Some (1, s\<lparr>g_heap := (g_heap s)(n \<mapsto> ?d)\<rparr>)"
    using chann_msg_internal [OF inv_cfg [OF s] n] by (simp add: chann_wf_def)
  moreover have "stays n s (s\<lparr>g_heap := (g_heap s)(n \<mapsto> ?d)\<rparr>) c ?d"
    using wf by (simp add: stays_def keeps_def chann_wf_def event_msg_def)
  ultimately show ?thesis by (intro exI [of _ ?d] exI) (auto simp: event_msg_def)
qed

lemma chann_fail_stays:
  assumes s: "mnet_inv s" and n: "g_heap s n = Some c" and run: "chann_fail env n s = Some t"
  shows "\<exists>d. stays n s t c d \<and> c_state d \<le> CHANN_STATE_DISCONNECT"
proof -
  from run obtain x s1 where d: "chann_disconnect_socket env n s = Some (x, s1)"
    by (auto simp: chann_fail_def bind_eq_Some_conv)
  from disconnect_stays [OF s n this] obtain c1 where c1: "stays n s s1 c c1" "c_state c1 \<le> CHANN_STATE_DISCONNECT" by blast
  note s1 = stays_inv [OF s n c1(1), THEN conjunct1] stays_inv [OF s n c1(1), THEN conjunct2]
  from chann_msg_stays [OF s1, of env CHANN_EVENT_DISCONNECT None "g_errno s1"] obtain s2 c2 where
    c2: "chann_msg env n CHANN_EVENT_DISCONNECT None (g_errno s1) s1 = Some (1, s2)" "stays n s1 s2 c1 c2" "c_state c2 = c_state c1"
    by blast
  let ?d = "c2\<lparr>c_dis_next := g_dis_channs s2\<rparr>"
  have h2: "g_heap s2 n = Some c2" using c2(2) by (simp add: stays_def)
  have t: "t = s2\<lparr>g_heap := (g_heap s2)(n \<mapsto> ?d), g_dis_channs := Some n\<rparr>"
    using run d c2(1) h2 by (simp add: chann_fail_def upd_chann_def)
  have "stays n s2 t c2 ?d" using c2(2) by (simp add: t stays_def keeps_def chann_wf_def)
  from stays_trans [OF stays_trans [OF c1(1) c2(2)] this] c1(2) c2(3) show ?thesis by (intro exI [of _ ?d]) simp
qed

lemma set_errno_core: "same_core s ((set_errno e s)\<lparr>g_world := w\<rparr>)"
  by (cases e) (simp_all add: set_errno_def)

lemma same_core_agree: "same_core s t \<Longrightarrow> agree s t \<and> g_heap t = g_heap s"
  by (erule same_coreE) simp

lemma chann_send_stays:
  assumes s: "mnet_inv s" and n: "g_heap s n = Some c" and run: "chann_send env n buf s = Some (r, t)"
  shows "\<exists>d. stays n s t c d \<and> c_state d = c_state c \<and> c_rwb_send d = c_rwb_send c"
proof -
  have wf: "chann_wf c" by (rule inv_wf [OF s n])
  have ext: "ext_config s (c_ctype c) = Some (init_ext (c_ctype c))"
    using wf inv_cfg [OF s] by (simp add: ext_config_internal chann_wf_def)
  have core: "same_core s t'" if "call_send_fn env (init_ext (c_ctype c)) n buf s = Some (r', t')" for r' t'
    using that n
    by (auto simp: call_send_fn_def init_ext_def ext_stream_send_def ext_dgram_send_def split: prod.splits
        dest!: same_core_syscall split: if_splits)
  from run n ext obtain t' where t': "call_send_fn env (init_ext (c_ctype c)) n buf s = Some (r, t')"
    "(if r > 0 then upd_chann n (\<lambda>c. c\<lparr>c_bytes_send := c_bytes_send c + r\<rparr>) t' else Some t') = Some t"
    by (auto simp: chann_send_def bind_eq_Some_conv split: if_splits)
  note a = same_core_agree [OF core [OF t'(1)]]
  show ?thesis
  proof (cases "r > 0")
    case True
    with t'(2) a n have "t = t'\<lparr>g_heap := (g_heap s)(n \<mapsto> c\<lparr>c_bytes_send := c_bytes_send c + r\<rparr>)\<rparr>"
      by (simp add: upd_chann_def)
    with a wf show ?thesis
      by (intro exI [of _ "c\<lparr>c_bytes_send := c_bytes_send c + r\<rparr>"]) (simp add: stays_def keeps_def chann_wf_def)
  next
    case False
    with t'(2) a stays_same [OF n wf] show ?thesis by (intro exI [of _ c]) simp
  qed
qed

text \<open>Changing the queue of a connected channel.\<close>

lemma queue_stays:
  assumes s: "mnet_inv s" and n: "g_heap s n = Some c" and h: "rwb_inv h"
    and st: "c_state c < CHANN_STATE_CONNECTED \<longrightarrow> rwb_count h = 0"
  shows "stays n s (s\<lparr>g_heap := (g_heap s)(n \<mapsto> c\<lparr>c_rwb_send := h\<rparr>)\<rparr>) c (c\<lparr>c_rwb_send := h\<rparr>)"
  using inv_wf [OF s n] h st by (simp add: stays_def keeps_def chann_wf_def)

lemma sended_step_stays:
  assumes s: "mnet_inv s" and n: "g_heap s n = Some c" and st: "CHANN_STATE_CONNECTED \<le> c_state c"
    and run: "sended_step env n s = Some (r, len, t)"
  shows "\<exists>d. stays n s t c d \<and> (0 < r \<longrightarrow> CHANN_STATE_CONNECTED \<le> c_state d)"
proof -
  from run n obtain buf s1 where s1: "chann_send env n buf s = Some (r, s1)"
    "(if r > 0 then do { c \<leftarrow> g_heap s1 n; h \<leftarrow> rwb_drain (c_rwb_send c) r; upd_chann n (\<lambda>c. c\<lparr>c_rwb_send := h\<rparr>) s1 }
      else if r < 0 then chann_fail env n s1 else Some s1) = Some t"
    by (auto simp: sended_step_def bind_eq_Some_conv)
  from chann_send_stays [OF s n s1(1)] obtain c1 where c1: "stays n s s1 c c1" "c_state c1 = c_state c" by blast
  note i1 = stays_inv [OF s n c1(1), THEN conjunct1] stays_inv [OF s n c1(1), THEN conjunct2]
  consider "0 < r" | "r = 0" | "r < 0" by linarith
  then show ?thesis
  proof cases
    case 1
    have "rwb_inv (c_rwb_send c1)" using inv_wf [OF i1] by (simp add: chann_wf_def)
    from rwb_drain_ok [OF this, of r] obtain h where h: "rwb_drain (c_rwb_send c1) r = Some h" "rwb_inv h" by blast
    have t: "t = s1\<lparr>g_heap := (g_heap s1)(n \<mapsto> c1\<lparr>c_rwb_send := h\<rparr>)\<rparr>"
      using 1 s1(2) i1(2) h(1) by (simp add: upd_chann_def)
    have "stays n s1 t c1 (c1\<lparr>c_rwb_send := h\<rparr>)"
      unfolding t by (rule queue_stays [OF i1 h(2)]) (use st c1(2) in \<open>simp add: state_order\<close>)
    from stays_trans [OF c1(1) this] st c1(2) show ?thesis by (intro exI [of _ "c1\<lparr>c_rwb_send := h\<rparr>"]) simp
  next
    case 2
    with s1(2) c1 show ?thesis by (intro exI [of _ c1]) simp
  next
    case 3
    with s1(2) have "chann_fail env n s1 = Some t" by simp
    from chann_fail_stays [OF i1 this] stays_trans [OF c1(1)] 3 show ?thesis by auto
  qed
qed

lemma sended_loop_stays:
  assumes "sended_loop env n s = Some t"
  shows "\<forall>c. mnet_inv s \<longrightarrow> g_heap s n = Some c \<longrightarrow> CHANN_STATE_CONNECTED \<le> c_state c \<longrightarrow> (\<exists>d. stays n s t c d)"
proof (rule sended_loop.raw_induct [OF _ assms, where P = "\<lambda>env n s t. \<forall>c. mnet_inv s \<longrightarrow> g_heap s n = Some c \<longrightarrow>
    CHANN_STATE_CONNECTED \<le> c_state c \<longrightarrow> (\<exists>d. stays n s t c d)"])
  fix f :: "'a env \<Rightarrow> nat \<Rightarrow> 'a mnet_t \<Rightarrow> 'a mnet_t option" and env n s t
  assume IH: "\<And>env n s t. f env n s = Some t \<Longrightarrow> \<forall>c. mnet_inv s \<longrightarrow> g_heap s n = Some c \<longrightarrow>
      CHANN_STATE_CONNECTED \<le> c_state c \<longrightarrow> (\<exists>d. stays n s t c d)"
    and run: "do { r \<leftarrow> sended_step env n s; c \<leftarrow> g_heap (snd (snd r)) n;
      if fst r > 0 \<and> fst r \<ge> fst (snd r) \<and> rwb_count (c_rwb_send c) > 0
      then f env n (snd (snd r)) else Some (snd (snd r)) } = Some t"
  show "\<forall>c. mnet_inv s \<longrightarrow> g_heap s n = Some c \<longrightarrow> CHANN_STATE_CONNECTED \<le> c_state c \<longrightarrow> (\<exists>d. stays n s t c d)"
  proof (intro allI impI)
    fix c assume c: "mnet_inv s" "g_heap s n = Some c" "CHANN_STATE_CONNECTED \<le> c_state c"
    from run obtain r len u where u: "sended_step env n s = Some (r, len, u)"
      by (auto simp: bind_eq_Some_conv)
    from sended_step_stays [OF c u] obtain d where d: "stays n s u c d" "0 < r \<longrightarrow> CHANN_STATE_CONNECTED \<le> c_state d" by blast
    note i = stays_inv [OF c(1,2) d(1)]
    from run u i consider "t = u" | "0 < r" "f env n u = Some t"
      by (auto split: if_splits)
    then show "\<exists>d. stays n s t c d"
    proof cases
      case 2
      with IH [OF 2(2)] i d(2) stays_trans [OF d(1)] show ?thesis by blast
    qed (use d in blast)
  qed
qed

lemma chann_sended_rwb_stays:
  assumes s: "mnet_inv s" and n: "g_heap s n = Some c" and st: "CHANN_STATE_CONNECTED \<le> c_state c"
    and run: "chann_sended_rwb env n s = Some (b, t)"
  shows "\<exists>d. stays n s t c d"
proof (cases "rwb_count (c_rwb_send c) \<le> 0")
  case True
  with run n have "t = s" by (auto simp: chann_sended_rwb_def)
  with stays_same [OF n inv_wf [OF s n], of s] show ?thesis by auto
next
  case False
  with run n have "sended_loop env n s = Some t" by (auto simp: chann_sended_rwb_def bind_eq_Some_conv)
  from sended_loop_stays [OF this] s n st show ?thesis by blast
qed

subsection \<open>Closing\<close>

lemma chann_close_inv:
  assumes s: "mnet_inv s" and n: "g_heap s n = Some c" and st: "c_state c = CHANN_STATE_DISCONNECT"
  shows "chann_close_socket env n s = Some (s\<lparr>g_heap := (g_heap s)(n \<mapsto>
      c\<lparr>c_del_next := g_del_channs s, c_state := CHANN_STATE_CLOSED, c_opaque := None\<rparr>), g_del_channs := Some n\<rparr>)"
    and "mnet_inv (s\<lparr>g_heap := (g_heap s)(n \<mapsto>
      c\<lparr>c_del_next := g_del_channs s, c_state := CHANN_STATE_CLOSED, c_opaque := None\<rparr>), g_del_channs := Some n\<rparr>)"
proof -
  let ?d = "c\<lparr>c_del_next := g_del_channs s, c_state := CHANN_STATE_CLOSED, c_opaque := None\<rparr>"
  let ?t = "s\<lparr>g_heap := (g_heap s)(n \<mapsto> ?d), g_del_channs := Some n\<rparr>"
  have wf: "chann_wf c" by (rule inv_wf [OF s n])
  show "chann_close_socket env n s = Some ?t"
    using wf inv_cfg [OF s] n st
    by (simp add: chann_close_socket_def chann_wf_def ext_config_internal init_ext_calls upd_chann_def state_order)
  from s obtain clock L D where *: "cfg_ok s" "g_tm_clock s = Some clock" "timers_ok clock (g_heap s)" "chann_links s L"
    "del_links s D" "\<And>n c. g_heap s n = Some c \<Longrightarrow> chann_wf c" "se_array (g_chg s) \<noteq> []"
    by (auto simp: mnet_inv_def inv0_def)
  have fresh: "n \<notin> set D" using *(5) n st by (auto simp: del_links_def closed_def)
  have "closed ?t = insert n (closed s)" using n by (auto simp: closed_def)
  then have "del_links ?t (n # D)" using *(5) fresh by (auto simp: del_links_def)
  moreover have "timers_ok clock (g_heap ?t)" using timers_ok_frame [OF *(3) n, of ?d] by simp
  moreover have "chann_links ?t L" using chann_links_upd [OF *(4) n, of ?d] by (simp add: chann_links_def)
  moreover have "chann_wf ?d" using wf st by (simp add: chann_wf_def state_order)
  ultimately show "mnet_inv ?t" using * by (auto simp: mnet_inv_def inv0_def cfg_ok_def)
qed

lemma mnet_chann_close_run:
  assumes s: "mnet_inv s" and n: "g_heap s n = Some c" and run: "mnet_chann_close env (Some n) s = Some t"
  shows "mnet_inv t \<and> closed t = insert n (closed s)"
proof (cases "c_state c = CHANN_STATE_CLOSED")
  case True
  with run n s show ?thesis by (auto simp: mnet_chann_close_def closed_def)
next
  case False
  then have open': "c_state c > CHANN_STATE_CLOSED" by (cases "c_state c") (auto simp: state_order)
  with run n obtain r u where u: "chann_disconnect_socket env n s = Some (r, u)" "chann_close_socket env n u = Some t"
    by (auto simp: mnet_chann_close_def bind_eq_Some_conv)
  from disconnect_stays [OF s n u(1)] obtain d where d: "stays n s u c d" "c_state d \<le> CHANN_STATE_DISCONNECT" by blast
  note i = stays_inv [OF s n d(1)]
  have "c_state d = CHANN_STATE_DISCONNECT"
    using d False by (cases "c_state d") (auto simp: stays_def keeps_def state_order)
  note cl = chann_close_inv [OF i [THEN conjunct1] i [THEN conjunct2] this]
  have t: "t = u\<lparr>g_heap := (g_heap u)(n \<mapsto> d\<lparr>c_del_next := g_del_channs u, c_state := CHANN_STATE_CLOSED, c_opaque := None\<rparr>),
    g_del_channs := Some n\<rparr>" using cl(1) u(2) by simp
  have "closed t = insert n (closed s)" using d(1) by (auto simp: t closed_def stays_def)
  with cl(2) t show ?thesis by simp
qed

end
