(* ===== verification/Inv_Events.thy ===== *)
theory Inv_Events
  imports Inv_Ops
begin

text \<open>
  The invariant across the handling of the kernel's events, of the timers that are due and
  of the results of a poll.
\<close>

subsection \<open>Events\<close>

lemma ret_msg_stays:
  assumes s: "mnet_inv s" and n: "g_heap s n = Some c"
  shows "\<exists>t d. ret_msg env n ev r err s = Some (Some n, t) \<and> stays n s t c d"
  using chann_msg_stays [OF assms, of env ev r err] by (auto simp: ret_msg_def)

lemma inv_ret_msg:
  assumes "mnet_inv s" "ret_msg env n ev r err s = Some (x, t)"
  shows "mnet_inv t"
proof -
  from assms(2) obtain c where c: "g_heap s n = Some c"
    by (auto simp: ret_msg_def chann_msg_def upd_chann_def bind_eq_Some_conv)
  from ret_msg_stays [OF assms(1) c, of env ev r err] assms(2) stays_inv [OF assms(1) c] show ?thesis by auto
qed

lemma inv_set_errno [simp]: "mnet_inv (set_errno e s) = mnet_inv s"
  by (cases e) (simp_all add: set_errno_def)

lemma inv_disconnect:
  assumes "mnet_inv s" "chann_disconnect_socket env n s = Some (r, t)"
  shows "mnet_inv t"
proof -
  from assms(2) obtain c where c: "g_heap s n = Some c" by (auto simp: chann_disconnect_socket_def bind_eq_Some_conv)
  from disconnect_stays [OF assms(1) c assms(2)] stays_inv [OF assms(1) c] show ?thesis by blast
qed

lemma inv_get_err: "mnet_inv s \<Longrightarrow> chann_get_err env n s = Some (r, t) \<Longrightarrow> mnet_inv t"
  by (auto simp: chann_get_err_def bind_eq_Some_conv inv_set_errno case_prod_beta Let_def)

lemma inv_evt_error:
  assumes s: "mnet_inv s" and run: "evt_error env kev n s = Some (x, t)"
  shows "mnet_inv t"
proof (cases "kev_flags kev EPOLLERR")
  case True
  with run obtain err s1 r s2 where "chann_get_err env n s = Some (err, s1)"
    "chann_disconnect_socket env n s1 = Some (r, s2)" "ret_msg env n CHANN_EVENT_DISCONNECT None err s2 = Some (x, t)"
    by (auto simp: evt_error_def bind_eq_Some_conv)
  with s inv_get_err inv_disconnect inv_ret_msg show ?thesis by metis
next
  case False
  with run obtain r s2 where
    "chann_disconnect_socket env n s = Some (r, s2)" "ret_msg env n CHANN_EVENT_DISCONNECT None (kev_errno kev) s2 = Some (x, t)"
    by (auto simp: evt_error_def bind_eq_Some_conv)
  with s inv_disconnect inv_ret_msg show ?thesis by metis
qed

text \<open>The callbacks of the accept balancer get a socket, not the library's state.\<close>

definition balancer_ok :: "'w env \<Rightarrow> bool" where
  "balancer_ok env \<longleftrightarrow> (\<forall>k ctx fd s r t. x_balancer env k ctx fd s = Some (r, t) \<longrightarrow> same_core s t)"

lemma os_accept_core: "os_accept env fd s = (r, a, t) \<Longrightarrow> same_core s t"
  using set_errno_core [of s] by (auto simp: os_accept_def split: prod.splits)

lemma multi_accept_core:
  assumes b: "balancer_ok env" and run: "chann_multiprocess_accept env afd s = Some (fd, a, t)"
  shows "same_core s t"
proof -
  from run obtain k r s1 where s1: "x_balancer env k (g_ac_context s) afd s = Some (r, s1)"
    and rest: "if r > 0 then \<exists>s2 k' x y. os_accept env afd s1 = (fd, a, s2) \<and> x_balancer env k' y afd s2 = Some (x, t) else t = s1"
    by (auto simp: chann_multiprocess_accept_def bind_eq_Some_conv split: prod.splits if_splits) metis+
  have 1: "same_core s s1" using b s1 unfolding balancer_ok_def by blast
  show ?thesis
  proof (cases "r > 0")
    case True
    with rest obtain s2 k' x y where "os_accept env afd s1 = (fd, a, s2)" "x_balancer env k' y afd s2 = Some (x, t)" by auto
    then have "same_core s1 s2" "same_core s2 t" using os_accept_core b unfolding balancer_ok_def by blast+
    with 1 same_core_trans show ?thesis by blast
  qed (use 1 rest in simp)
qed

lemma set_nonblocking_core: "set_nonblocking env fd s = (r, t) \<Longrightarrow> same_core s t"
  unfolding set_nonblocking_def
  by (auto split: prod.splits if_splits dest!: same_core_syscall intro: same_core_trans)

lemma chann_accept_inv:
  assumes b: "balancer_ok env" and s: "mnet_inv s" and run: "chann_accept env n s = Some (m, t)"
  shows "mnet_inv t"
proof -
  let ?acc = "\<lambda>fn c. (case fn of Accept \<Rightarrow> Some (os_accept env (c_fd c) s)
      | Multiprocess_accept \<Rightarrow> chann_multiprocess_accept env (c_fd c) s)"
  from run obtain c fn fd a s1 where c: "g_heap s n = Some c" "g_ac_fn s = Some fn" "?acc fn c = Some (fd, a, s1)"
    by (auto simp: chann_accept_def bind_eq_Some_conv)
  have "same_core s s1"
    using c(3) os_accept_core multi_accept_core [OF b] by (cases fn) auto
  obtain nb s2 where s2: "(if fd > 0 then set_nonblocking env fd s1 else (-1, s1)) = (nb, s2)" by (metis prod.exhaust)
  have "same_core s s2"
    using s2 \<open>same_core s s1\<close> set_nonblocking_core same_core_trans by (cases "fd > 0") (simp, blast, simp)
  then have i2: "mnet_inv s2" "g_heap s2 n = Some c" using s c(1) same_core_agree inv_same_core by fastforce+
  have wf: "chann_wf c" by (rule inv_wf [OF s c(1)])
  show ?thesis
  proof (cases "fd > 0 \<and> nb \<ge> 0")
    case True
    then have nb: "set_nonblocking env fd s1 = (nb, s2)" using s2 by simp
    obtain k s3 where s3: "chann_create (c_ctype c) CHANN_STATE_CONNECTED s2 = Some (k, s3)"
      using i2(1) chann_create_ok by (fastforce simp: mnet_inv_def inv0_def)
    let ?z = "chann_zero\<lparr>c_ctype := c_ctype c, c_state := CHANN_STATE_CONNECTED, c_next := g_channs s2\<rparr>"
    let ?d = "?z\<lparr>c_fd := fd, c_addr := a, c_addr_len := sizeof_sockaddr_in\<rparr>"
    have wfd: "keeps ?z ?d" "chann_wf ?d"
      using wf True rwb_rep_inv [OF rwb_rep_zero] by (simp_all add: keeps_def chann_wf_def chann_zero_def state_order)
    have "g_heap s3 k = Some ?z \<and> mnet_inv (s3\<lparr>g_heap := (g_heap s3)(k \<mapsto> ?d)\<rparr>)"
      by (rule chann_create_inv [OF i2(1) s3 refl wfd]) simp
    then have k: "g_heap s3 k = Some ?z" "mnet_inv (s3\<lparr>g_heap := (g_heap s3)(k \<mapsto> ?d)\<rparr>)" by blast+
    let ?s4 = "s3\<lparr>g_heap := (g_heap s3)(k \<mapsto> ?d)\<rparr>"
    have "do { c \<leftarrow> g_heap ?s4 n; ext \<leftarrow> ext_config ?s4 (c_ctype c);
       s \<leftarrow> call_op_cb env (e_accept_cb ext) ext k ?s4; Some (Some k, s) } = Some (m, t)"
      using run c s2 i2(2) True s3 k(1)
      by (cases fn) (simp_all add: chann_accept_def upd_chann_def nb)
    then obtain c' ext where c': "g_heap ?s4 n = Some c'" "ext_config ?s4 (c_ctype c') = Some ext"
      "call_op_cb env (e_accept_cb ext) ext k ?s4 = Some t" by (auto simp: bind_eq_Some_conv)
    have "ext = init_ext (c_ctype c')"
      using c'(2) inv_wf [OF k(2) c'(1)] inv_cfg [OF k(2)] by (simp add: ext_config_internal chann_wf_def)
    with c'(3) k(2) show ?thesis by (simp add: init_ext_calls)
  next
    case False
    then show ?thesis using run c s2 i2(1) by (auto simp: chann_accept_def split: accept_fn.splits)
  qed
qed

lemma inv_evt_add:
  assumes "mnet_inv s" "evt_add env n st s = Some (r, t)" shows "mnet_inv t"
proof -
  from assms(2) obtain c where c: "g_heap s n = Some c" by (auto simp: evt_add_def Let_def bind_eq_Some_conv)
  from evt_stays(1) [OF assms(1) c, of env st] assms(2) stays_inv [OF assms(1) c] show ?thesis by auto
qed

lemma inv_evt_del:
  assumes "mnet_inv s" "evt_del env n st s = Some (r, t)" shows "mnet_inv t"
proof -
  from assms(2) obtain c where c: "g_heap s n = Some c" by (auto simp: evt_del_def Let_def bind_eq_Some_conv)
  from evt_stays(2) [OF assms(1) c, of env st] assms(2) stays_inv [OF assms(1) c] show ?thesis by auto
qed

lemma inv_evt_listening:
  assumes b: "balancer_ok env" and s: "mnet_inv s" and run: "evt_listening env n s = Some (x, t)"
  shows "mnet_inv t"
proof -
  from run obtain ty where ty: "(if ty = CHANN_TYPE_STREAM then do {
       (m, s) \<leftarrow> chann_accept env n s;
       case m of None \<Rightarrow> Some (None, s)
       | Some c \<Rightarrow> do { (_, s) \<leftarrow> evt_add env c MNET_SET_READ s; ret_msg env n CHANN_EVENT_ACCEPT (Some c) 0 s }
     } else ret_msg env n CHANN_EVENT_RECV None 0 s) = Some (x, t)"
    unfolding evt_listening_def by (elim bind_SomeE) blast
  show ?thesis
  proof (cases "ty = CHANN_TYPE_STREAM")
    case True
    with ty obtain m s1 where m: "chann_accept env n s = Some (m, s1)"
      "(case m of None \<Rightarrow> Some (None, s1)
        | Some c \<Rightarrow> do { (_, s) \<leftarrow> evt_add env c MNET_SET_READ s1; ret_msg env n CHANN_EVENT_ACCEPT (Some c) 0 s }) = Some (x, t)"
      by (auto elim!: bind_SomeE)
    note i = chann_accept_inv [OF b s m(1)]
    show ?thesis
    proof (cases m)
      case (Some k)
      with m(2) obtain r s2 where e: "evt_add env k MNET_SET_READ s1 = Some (r, s2)"
        "ret_msg env n CHANN_EVENT_ACCEPT (Some k) 0 s2 = Some (x, t)" by (auto elim!: bind_SomeE)
      from inv_ret_msg [OF inv_evt_add [OF i e(1)] e(2)] show ?thesis .
    qed (use i m(2) in simp)
  next
    case False
    with ty inv_ret_msg [OF s] show ?thesis by auto
  qed
qed

lemma inv_evt_connecting:
  assumes s: "mnet_inv s" and n: "g_heap s n = Some c" "c_state c = CHANN_STATE_CONNECTING"
    and run: "evt_connecting env n s = Some (x, t)"
  shows "mnet_inv t"
proof -
  obtain ret v e w where sys: "sys_getsockopt_error env (c_fd c) (g_world s) = (ret, v, e, w)" by (metis prod.exhaust)
  let ?s = "(set_errno e s)\<lparr>g_world := w\<rparr>" and ?opt = "if ret = 0 then v else 0"
  have s0: "mnet_inv ?s" "g_heap ?s n = Some c" using s n by (cases e; simp add: set_errno_def)+
  show ?thesis
  proof (cases "?opt = 0")
    case True
    with run n sys obtain r1 s1 r2 s2 s3 where *: "evt_del env n MNET_SET_WRITE ?s = Some (r1, s1)"
      "evt_add env n MNET_SET_READ s1 = Some (r2, s2)" "upd_chann n (\<lambda>c. c\<lparr>c_state := CHANN_STATE_CONNECTED\<rparr>) s2 = Some s3"
      "ret_msg env n CHANN_EVENT_CONNECTED None 0 s3 = Some (x, t)"
      by (auto simp: evt_connecting_def bind_eq_Some_conv Let_def)
    from evt_stays(2) [OF s0, of env MNET_SET_WRITE] *(1) obtain c1 where c1: "stays n ?s s1 c c1" "c_state c1 = c_state c" by auto
    note i1 = stays_inv [OF s0 c1(1)]
    from evt_stays(1) [OF i1 [THEN conjunct1] i1 [THEN conjunct2], of env MNET_SET_READ] *(2)
    obtain c2 where c2: "stays n s1 s2 c1 c2" "c_state c2 = c_state c1" by auto
    note i2 = stays_inv [OF i1 [THEN conjunct1] i1 [THEN conjunct2] c2(1)]
    have "post mnet_inv (upd_chann n (\<lambda>c. c\<lparr>c_state := CHANN_STATE_CONNECTED\<rparr>) s2)"
      by (rule inv_upd_chann) (use i2 c1(2) c2(2) n(2) in \<open>auto simp: keeps_def chann_wf_def state_order\<close>)
    from postD [OF this *(3)] inv_ret_msg *(4) show ?thesis by blast
  next
    case False
    with run n sys obtain r s1 where "chann_disconnect_socket env n ?s = Some (r, s1)"
      "ret_msg env n CHANN_EVENT_DISCONNECT None ?opt s1 = Some (x, t)"
      by (auto simp: evt_connecting_def bind_eq_Some_conv Let_def)
    with inv_disconnect [OF s0(1)] inv_ret_msg show ?thesis by blast
  qed
qed

lemma inv_evt_connected:
  assumes s: "mnet_inv s" and n: "g_heap s n = Some c" "c_state c = CHANN_STATE_CONNECTED"
    and run: "evt_connected env kev n s = Some (x, t)"
  shows "mnet_inv t"
proof (cases "\<not> kev_events kev EPOLLIN \<and> kev_events kev EPOLLOUT")
  case True
  with run obtain b s1 where s1: "chann_sended_rwb env n s = Some (b, s1)"
    and rest: "(if b then do { c \<leftarrow> g_heap s1 n;
          if c_active_send_event c then ret_msg env n CHANN_EVENT_SEND None 0 s1
          else do { (_, s) \<leftarrow> evt_del env n MNET_SET_WRITE s1; Some (None, s) } } else Some (None, s1)) = Some (x, t)"
    by (auto simp: evt_connected_def bind_eq_Some_conv)
  from chann_sended_rwb_stays [OF s n(1) _ s1] n(2) obtain d where "stays n s s1 c d" by auto
  from stays_inv [OF s n(1) this] have i: "mnet_inv s1" by blast
  from rest i show ?thesis
    by (auto simp: bind_eq_Some_conv split: if_splits intro: inv_ret_msg inv_evt_del)
next
  case False
  with run s show ?thesis by (auto simp: evt_connected_def split: if_splits intro: inv_ret_msg)
qed

lemma inv_evt_dispatch:
  assumes b: "balancer_ok env" and s: "mnet_inv s" and run: "evt_dispatch env kev n s = Some (x, t)"
  shows "mnet_inv t"
proof -
  from run obtain c where c: "g_heap s n = Some c" by (auto simp: evt_dispatch_def elim!: bind_SomeE)
  let ?skip = "c_state c = CHANN_STATE_CLOSED \<or> c_fd c < 0"
  show ?thesis
  proof (cases "?skip \<or> kev_flags kev (EPOLLERR OR (EPOLLRDHUP OR EPOLLHUP))")
    case True
    with run c s show ?thesis
      by (cases ?skip) (auto simp: evt_dispatch_def intro: inv_evt_error)
  next
    case False
    with run c have r: "(case c_state c of CHANN_STATE_LISTENING \<Rightarrow> evt_listening env n s
        | CHANN_STATE_CONNECTING \<Rightarrow> evt_connecting env n s | CHANN_STATE_CONNECTED \<Rightarrow> evt_connected env kev n s
        | _ \<Rightarrow> Some (None, s)) = Some (x, t)" by (simp add: evt_dispatch_def)
    show ?thesis
      by (cases "c_state c") (use r s inv_evt_listening [OF b s] inv_evt_connecting [OF s c] inv_evt_connected [OF s c] in simp_all)
  qed
qed

subsection \<open>Timers and results\<close>

lemma inv_retime:
  assumes s: "mnet_inv s" and n: "g_heap s n = Some c"
    and ok: "timers_ok clock' ((g_heap s)(n \<mapsto> c\<lparr>c_timer_node := x\<rparr>))"
    and t: "t = s\<lparr>g_tm_clock := Some clock', g_world := w, g_heap := (g_heap s)(n \<mapsto> c\<lparr>c_timer_node := x\<rparr>)\<rparr>"
  shows "mnet_inv t"
proof -
  let ?d = "c\<lparr>c_timer_node := x\<rparr>"
  from s obtain L D where *: "cfg_ok s" "chann_links s L"
    "del_links s D" "\<And>n c. g_heap s n = Some c \<Longrightarrow> chann_wf c" "se_array (g_chg s) \<noteq> []"
    by (auto simp: mnet_inv_def inv0_def)
  have "chann_links t L" using chann_links_upd [OF *(2) n, of ?d] by (simp add: chann_links_def t)
  moreover have "closed t = closed s" using n by (auto simp: closed_def t)
  then have "del_links t D"
    using *(3) del_path_upd [of "g_heap s" _ D n c ?d] n by (simp add: del_links_def t)
  moreover have "chann_wf ?d" using *(4) [OF n] by (simp add: chann_wf_def)
  ultimately show ?thesis using * ok by (auto simp: mnet_inv_def inv0_def cfg_ok_def t)
qed

lemma inv_clock: "mnet_inv s \<Longrightarrow> \<exists>clock. g_tm_clock s = Some clock \<and> timers_ok clock (g_heap s)"
  by (auto simp: mnet_inv_def inv0_def)

lemma inv_tm_update:
  assumes s: "mnet_inv s" and rnd: "rand_ends (sys_rand env)" and run: "tm_update env n i s = Some t"
  shows "mnet_inv t"
proof -
  from run obtain c a where c: "g_heap s n = Some c" "c_timer_node c = Some a"
    by (auto simp: tm_update_def elim!: bind_SomeE)
  from inv_clock [OF s] obtain clock where k: "g_tm_clock s = Some clock" "timers_ok clock (g_heap s)" by blast
  from tm_update_ok [OF k c rnd tm_update_fits [OF run]] run obtain b w clock' where
    t: "t = s\<lparr>g_tm_clock := Some clock', g_world := w, g_heap := (g_heap s)(n \<mapsto> c\<lparr>c_timer_node := Some b\<rparr>)\<rparr>"
    "timers_ok clock' ((g_heap s)(n \<mapsto> c\<lparr>c_timer_node := Some b\<rparr>))" by auto
  from inv_retime [OF s c(1) t(2,1)] show ?thesis .
qed

lemma inv_tm_active:
  assumes s: "mnet_inv s" and rnd: "rand_ends (sys_rand env)" and c: "g_heap s n = Some c" "c_timer_node c = None"
    and run: "tm_active env n i s = Some t"
  shows "mnet_inv t"
proof -
  from inv_clock [OF s] obtain clock where k: "g_tm_clock s = Some clock" "timers_ok clock (g_heap s)" by blast
  from tm_active_ok [OF k c rnd tm_active_fits [OF run]] run obtain b w clock' where
    t: "t = s\<lparr>g_tm_clock := Some clock', g_world := w, g_heap := (g_heap s)(n \<mapsto> c\<lparr>c_timer_node := Some b\<rparr>)\<rparr>"
    "timers_ok clock' ((g_heap s)(n \<mapsto> c\<lparr>c_timer_node := Some b\<rparr>))" by auto
  from inv_retime [OF s c(1) t(2,1)] show ?thesis .
qed

lemma inv_tm_kill:
  assumes s: "mnet_inv s" and run: "tm_kill n s = Some t"
  shows "mnet_inv t"
proof -
  from run obtain c where c: "g_heap s n = Some c" by (auto simp: tm_kill_def elim!: bind_SomeE)
  from inv_clock [OF s] obtain clock where k: "g_tm_clock s = Some clock" "timers_ok clock (g_heap s)" by blast
  from tm_kill_ok [OF k c] run obtain clock' where
    t: "t = s\<lparr>g_tm_clock := Some clock', g_heap := (g_heap s)(n \<mapsto> c\<lparr>c_timer_node := None\<rparr>)\<rparr>"
    "timers_ok clock' ((g_heap s)(n \<mapsto> c\<lparr>c_timer_node := None\<rparr>))" by auto
  from inv_retime [OF s c t(2), of t "g_world s"] show ?thesis by (simp add: t(1))
qed

lemma inv_chann_msg:
  assumes s: "mnet_inv s" and run: "chann_msg env n ev r err s = Some (x, t)"
  shows "mnet_inv t"
proof -
  from run obtain c where c: "g_heap s n = Some c" by (auto simp: chann_msg_def upd_chann_def elim!: bind_SomeE)
  from chann_msg_stays [OF s c, of env ev r err] run stays_inv [OF s c] show ?thesis by auto
qed

lemma inv_tm_next:
  assumes "tm_next env s = Some r"
  shows "rand_ends (sys_rand env) \<longrightarrow> mnet_inv s \<longrightarrow> mnet_inv (snd r)"
proof (rule tm_next.raw_induct [OF _ assms, where P = "\<lambda>env s r. rand_ends (sys_rand env) \<longrightarrow> mnet_inv s \<longrightarrow> mnet_inv (snd r)"])
  fix f :: "'a env \<Rightarrow> 'a mnet_t \<Rightarrow> (nat option \<times> 'a mnet_t) option" and env s r
  assume IH: "\<And>env s r. f env s = Some r \<Longrightarrow> rand_ends (sys_rand env) \<longrightarrow> mnet_inv s \<longrightarrow> mnet_inv (snd r)"
    and run: "do {
     clock \<leftarrow> g_tm_clock s;
     case g_tm_pos s of
       None \<Rightarrow> Some (None, s)
     | Some pos \<Rightarrow>
         if pos = Head 0 then Some (None, s)
         else do {
           nxt \<leftarrow> get_next clock pos;
           let s = s\<lparr>g_tm_pos := Some nxt\<rparr>;
           a \<leftarrow> list_entry 0 pos;
           nd \<leftarrow> sl_nodes clock a;
           let tm = sn_value nd;
           if tm_time tm \<le> g_tm_current s then do {
             let n = tm_chann tm;
             s \<leftarrow> tm_update env n (tm_interval tm) s;
             r \<leftarrow> chann_msg env n CHANN_EVENT_TIMER None 0 s;
             if fst r \<noteq> 0 then Some (Some n, snd r) else f env (snd r)
           } else Some (None, s\<lparr>g_tm_pos := None\<rparr>)
         }
   } = Some r"
  show "rand_ends (sys_rand env) \<longrightarrow> mnet_inv s \<longrightarrow> mnet_inv (snd r)"
  proof (intro impI)
    assume rnd: "rand_ends (sys_rand env)" and s: "mnet_inv s"
    have upd: "mnet_inv u" if "tm_update env n i (s\<lparr>g_tm_pos := p\<rparr>) = Some t" "chann_msg env n e m k t = Some (x, u)" for n i p t e m k x u
      using inv_chann_msg [OF inv_tm_update [OF _ rnd that(1)] that(2)] s by simp
    have ih: "mnet_inv (snd r)" if "f env u = Some r" "mnet_inv u" for u r using IH [OF that(1)] rnd that(2) by blast
    have "mnet_inv (snd r) \<or> (\<exists>n i p t x u. tm_update env n i (s\<lparr>g_tm_pos := p\<rparr>) = Some t \<and>
        chann_msg env n CHANN_EVENT_TIMER None 0 t = Some (x, u) \<and> (snd r = u \<or> f env u = Some r))"
      using run s by (auto simp: Let_def elim!: bind_SomeE split: option.splits if_splits) blast+
    then show "mnet_inv (snd r)" using upd ih by blast
  qed
qed

lemma inv_evt_result_next:
  assumes "evt_result_next env s = Some r"
  shows "rand_ends (sys_rand env) \<longrightarrow> balancer_ok env \<longrightarrow> mnet_inv s \<longrightarrow> mnet_inv (snd r)"
proof (rule evt_result_next.raw_induct [OF _ assms,
    where P = "\<lambda>env s r. rand_ends (sys_rand env) \<longrightarrow> balancer_ok env \<longrightarrow> mnet_inv s \<longrightarrow> mnet_inv (snd r)"])
  fix f :: "'a env \<Rightarrow> 'a mnet_t \<Rightarrow> (nat option \<times> 'a mnet_t) option" and env s r
  assume IH: "\<And>env s r. f env s = Some r \<Longrightarrow> rand_ends (sys_rand env) \<longrightarrow> balancer_ok env \<longrightarrow> mnet_inv s \<longrightarrow> mnet_inv (snd r)"
    and run: "do {
     r \<leftarrow> tm_next env s;
     let s = snd r;
     case fst r of
       Some n \<Rightarrow> Some (Some n, s)
     | None \<Rightarrow>
        (case g_dis_channs s of
           Some n \<Rightarrow> do { c \<leftarrow> g_heap s n; Some (Some n, s\<lparr>g_dis_channs := c_dis_next c\<rparr>) }
         | None \<Rightarrow> do {
             let s = s\<lparr>g_fd_index := g_fd_index s + 1\<rparr>;
             if g_fd_index s \<ge> g_fd_count s then Some (None, s)
             else do {
               kev \<leftarrow> rd (se_array (g_evt s)) (g_fd_index s);
               n \<leftarrow> ev_ptr kev;
               r \<leftarrow> evt_dispatch env kev n s;
               case fst r of
                 Some n \<Rightarrow> Some (Some n, snd r)
               | None \<Rightarrow> f env (snd r)
             }
           })
   } = Some r"
  show "rand_ends (sys_rand env) \<longrightarrow> balancer_ok env \<longrightarrow> mnet_inv s \<longrightarrow> mnet_inv (snd r)"
  proof (intro impI)
    assume rnd: "rand_ends (sys_rand env)" and b: "balancer_ok env" and s: "mnet_inv s"
    from run obtain q where q: "tm_next env s = Some q" by (auto elim!: bind_SomeE)
    note i = inv_tm_next [OF q, rule_format, OF rnd s]
    have d: "mnet_inv u" if "evt_dispatch env kev n (snd q\<lparr>g_fd_index := j\<rparr>) = Some (x, u)" for kev n j x u
      using inv_evt_dispatch [OF b _ that] i by simp
    from run q i show "mnet_inv (snd r)"
      by (auto simp: Let_def elim!: bind_SomeE dest!: d split: option.splits if_splits dest: IH [rule_format, OF _ rnd b])
  qed
qed

end
