(* ===== verification/Reach.thy ===== *)
theory Reach
  imports Inv_Events
begin

text \<open>
  The public functions as steps of the library's state, the states a program can reach
  with them, and the invariant of these states.
\<close>

subsection \<open>Opening a socket\<close>

lemma core_let:
  "same_core s (snd x) \<Longrightarrow> (\<And>r t. same_core s t \<Longrightarrow> same_core s (snd (f r t))) \<Longrightarrow>
   same_core s (snd (case x of (r, t) \<Rightarrow> f r t))"
  by (cases x) simp

lemma core_if: "same_core s (snd a) \<Longrightarrow> same_core s (snd b) \<Longrightarrow> same_core s (snd (if c then a else b))"
  by simp

lemma core_pair: "same_core s t \<Longrightarrow> same_core s (snd (r, t))"
  by simp

lemma core_syscall: "same_core s t \<Longrightarrow> same_core s (snd (syscall f t))"
  using same_core_trans [of s t] same_core_syscall [of f t "fst (syscall f t)" "snd (syscall f t)"] by simp

lemmas core_rules = core_let core_if core_pair core_syscall

lemma core_params:
  assumes "same_core s t"
  shows "same_core s (snd (set_nonblocking env fd t))" "same_core s (snd (set_broadcast env fd t))"
    "same_core s (snd (set_keepalive env fd t))" "same_core s (snd (set_reuseaddr env fd t))"
    "same_core s (snd (set_bufsize env fd bsz t))" "same_core s (snd (bind_fd env fd si t))"
    "same_core s (snd (listen_fd env fd backlog t))"
  unfolding set_nonblocking_def set_broadcast_def set_keepalive_def set_reuseaddr_def set_bufsize_def bind_fd_def
    listen_fd_def Let_def
  by ((assumption | rule assms core_rules)+)

lemma core_open_checks:
  "same_core s t \<Longrightarrow> same_core s (snd (open_checks env fd si istcp isbc backlog bsz t))"
  unfolding open_checks_def Let_def
  by (assumption | rule core_rules core_params)+

lemma open_socket_stays:
  assumes s: "mnet_inv s" and n: "g_heap s n = Some c" and run: "chann_open_socket env n host port backlog s = Some (fd, t)"
  shows "\<exists>d. stays n s t c d \<and> c_state d = c_state c \<and> (fd > 0 \<longrightarrow> c_state c = CHANN_STATE_DISCONNECT)"
proof (cases "c_state c = CHANN_STATE_DISCONNECT")
  case True
  have wf: "chann_wf c" by (rule inv_wf [OF s n])
  let ?tcp = "c_ctype c = CHANN_TYPE_STREAM" and ?bc = "c_ctype c = CHANN_TYPE_BROADCAST"
  obtain fd0 s1 where s1: "syscall (sys_socket env ?tcp) s = (fd0, s1)" by force
  note c1 = same_core_agree [OF same_core_syscall [OF s1]]
  define d where "d = c\<lparr>c_addr := \<lparr>sin_family = AF_INET, sin_port = word_of_int port,
      sin_addr = (case host of None \<Rightarrow> 0 | Some h \<Rightarrow> sys_inet_addr env h)\<rparr>, c_addr_len := sizeof_sockaddr_in\<rparr>"
  define s2 where "s2 = s1\<lparr>g_heap := (g_heap s)(n \<mapsto> d)\<rparr>"
  obtain ok s3 where s3: "open_checks env fd0 (c_addr d) ?tcp ?bc backlog
      (if c_buf_size c > 0 then c_buf_size c else MNET_BUF_SIZE) s2 = (ok, s3)" by force
  have "same_core s2 s3" using core_open_checks [of s2 s2 env fd0 "c_addr d" ?tcp ?bc backlog] s3 by (metis same_core_refl snd_conv)
  then have c3: "same_core s2 s3" "same_core s2 (snd (syscall f s3))" for f by (auto intro: core_syscall)
  have wfd: "chann_wf d" "keeps c d" "c_state d = c_state c" using wf by (simp_all add: d_def chann_wf_def keeps_def)
  have st: "stays n s u c d" if "same_core s2 u" for u
    using same_core_agree [OF that] c1 wfd by (auto simp: stays_def s2_def agree_def)
  have "(fd > 0 \<longrightarrow> True) \<and> (if fd0 > 0 then t = (if ok then s3 else snd (syscall (sys_close env fd0) s3)) else t = s1)"
    using run n True wf inv_cfg [OF s] s1 c1 s3
    by (auto simp: chann_open_socket_def chann_wf_def ext_config_internal init_ext_calls chann_fill_addr_def upd_chann_def
        d_def s2_def split: if_splits)
  then consider "t = s1" | "same_core s2 t" using c3 by (auto split: if_splits)
  then show ?thesis
  proof cases
    case 1
    with c1 stays_same [OF n wf] True show ?thesis by (intro exI [of _ c]) simp
  next
    case 2
    from st [OF this] wfd(3) True show ?thesis by blast
  qed
next
  case False
  with run n have "t = s" "fd = -1" by (auto simp: chann_open_socket_def)
  with stays_same [OF n inv_wf [OF s n]] show ?thesis by (intro exI [of _ c]) simp
qed

unbundle bit_operations_syntax

subsection \<open>One lemma per public function\<close>

lemma stays_upd:
  assumes "mnet_inv s" "g_heap s n = Some c" "keeps c d" "chann_wf d"
  shows "stays n s (s\<lparr>g_heap := (g_heap s)(n \<mapsto> d)\<rparr>) c d"
  using assms(3,4) by (simp add: stays_def)

lemma inv_open:
  assumes s: "mnet_inv s" and ty: "internal ct" and run: "mnet_chann_open env ct s = Some (p, t)"
  shows "mnet_inv t"
proof -
  have ext: "ext_config s ct = Some (init_ext ct)" by (rule ext_config_internal [OF inv_cfg [OF s] ty])
  have rng: "\<not> (ct < CHANN_TYPE_STREAM \<or> ct \<ge> MNET_EXT_MAX_SIZE)" using ty by (auto simp: internal_def ctype_defs)
  with run ext obtain n where cr: "chann_create ct CHANN_STATE_DISCONNECT s = Some (n, t)"
    by (auto simp: mnet_chann_open_def init_ext_calls elim!: bind_SomeE)
  let ?c = "chann_zero\<lparr>c_ctype := ct, c_state := CHANN_STATE_DISCONNECT, c_next := g_channs s\<rparr>"
  have "keeps ?c ?c" "chann_wf ?c"
    using ty rwb_rep_inv [OF rwb_rep_zero]
    by (simp_all add: keeps_def chann_wf_def chann_zero_def state_order rwb_count_def rwb_zero_def)
  from chann_create_inv [OF s cr refl this] have "g_heap t n = Some ?c" "mnet_inv (t\<lparr>g_heap := (g_heap t)(n \<mapsto> ?c)\<rparr>)"
    by simp_all
  then show ?thesis by (simp add: fun_upd_idem)
qed

lemma inv_close:
  assumes s: "mnet_inv s" and run: "mnet_chann_close env p s = Some t"
  shows "mnet_inv t"
proof (cases p)
  case (Some n)
  with run obtain c where "g_heap s n = Some c" by (auto simp: mnet_chann_close_def elim!: bind_SomeE)
  from mnet_chann_close_run [OF s this] run Some show ?thesis by blast
qed (use s run in \<open>simp add: mnet_chann_close_def\<close>)

lemma op_cb_internal:
  assumes s: "mnet_inv s" and n: "g_heap s n = Some c" and ext: "ext_config s (c_ctype c) = Some ext"
  shows "call_op_cb env (e_connect_cb ext) ext n s = Some s" "call_op_cb env (e_listen_cb ext) ext n s = Some s"
  using ext_config_internal [OF inv_cfg [OF s]] inv_wf [OF s n] ext by (auto simp: chann_wf_def init_ext_calls)

lemma inv_enter:
  assumes s: "mnet_inv s" and n: "g_heap s n = Some c" "c_state c = CHANN_STATE_DISCONNECT" "c_fd c > 0"
    and st: "st > CHANN_STATE_DISCONNECT"
  shows "mnet_inv (s\<lparr>g_heap := (g_heap s)(n \<mapsto> c\<lparr>c_state := st\<rparr>)\<rparr>)"
proof (rule inv_upd [OF s n(1)])
  have "st \<noteq> CHANN_STATE_CLOSED" using st by (auto simp: state_order)
  then show "keeps c (c\<lparr>c_state := st\<rparr>)" using n(2) by (simp add: keeps_def)
  show "chann_wf (c\<lparr>c_state := st\<rparr>)"
    using inv_wf [OF s n(1)] n(2,3) by (auto simp: chann_wf_def state_order)
qed

lemma inv_enter_add:
  assumes s: "mnet_inv s" and n: "g_heap s n = Some c" "c_state c = CHANN_STATE_DISCONNECT" "c_fd c > 0"
    and st: "st > CHANN_STATE_DISCONNECT" and core: "same_core s s1"
    and run: "upd_chann n (\<lambda>c. c\<lparr>c_state := st\<rparr>) s1 = Some s2" "evt_add env n ev s2 = Some (x, t)"
  shows "mnet_inv t"
proof -
  have s1: "mnet_inv s1" "g_heap s1 n = Some c"
    using inv_same_core [OF core s] same_core_agree [OF core] n(1) by simp_all
  with run(1) have "s2 = s1\<lparr>g_heap := (g_heap s1)(n \<mapsto> c\<lparr>c_state := st\<rparr>)\<rparr>" by (simp add: upd_chann_def)
  with inv_enter [OF s1 n(2,3) st] have "mnet_inv s2" by simp
  from inv_evt_add [OF this run(2)] show ?thesis .
qed

text \<open>The channel after a socket was opened for it.\<close>

lemma opened:
  assumes s: "mnet_inv s" and run: "chann_open_socket env n host port backlog s = Some (fd, t)" and fd: "fd > 0"
  obtains d where "g_heap t n = Some d" "mnet_inv (t\<lparr>g_heap := (g_heap t)(n \<mapsto> d\<lparr>c_fd := fd\<rparr>)\<rparr>)"
    "c_state d = CHANN_STATE_DISCONNECT" "ext_config t (c_ctype d) = Some (init_ext (c_ctype d))" "mnet_inv t"
proof -
  from run obtain c where c: "g_heap s n = Some c" by (auto simp: chann_open_socket_def elim!: bind_SomeE)
  from open_socket_stays [OF s c run] fd obtain d where d: "stays n s t c d" "c_state d = CHANN_STATE_DISCONNECT" by auto
  note i = stays_inv [OF s c d(1), THEN conjunct1] stays_inv [OF s c d(1), THEN conjunct2]
  have "chann_wf (d\<lparr>c_fd := fd\<rparr>)" "keeps d (d\<lparr>c_fd := fd\<rparr>)"
    using inv_wf [OF i] fd by (auto simp: chann_wf_def keeps_def)
  from inv_upd [OF i this(2,1)] i d(2) show ?thesis
    using that ext_config_internal [OF inv_cfg [OF i(1)]] inv_wf [OF i] by (simp add: chann_wf_def)
qed

lemma inv_open_socket:
  assumes s: "mnet_inv s" and run: "chann_open_socket env n host port backlog s = Some (fd, t)"
  shows "mnet_inv t"
proof -
  from run obtain c where c: "g_heap s n = Some c" by (auto simp: chann_open_socket_def elim!: bind_SomeE)
  from open_socket_stays [OF s c run] stays_inv [OF s c] show ?thesis by blast
qed

lemma inv_connect:
  assumes s: "mnet_inv s" and run: "mnet_chann_connect env p host port s = Some (r, t)"
  shows "mnet_inv t"
proof (cases "\<exists>n. p = Some n \<and> host \<noteq> None \<and> port > 0")
  case True
  then obtain n where n: "p = Some n" "host \<noteq> None" "port > 0" by blast
  with run obtain fd s1 where s1: "chann_open_socket env n host port 0 s = Some (fd, s1)"
    by (auto simp: mnet_chann_connect_def elim!: bind_SomeE)
  show ?thesis
  proof (cases "fd > 0")
    case fd: True
    from opened [OF s s1 fd] obtain d where d: "g_heap s1 n = Some d"
      "mnet_inv (s1\<lparr>g_heap := (g_heap s1)(n \<mapsto> d\<lparr>c_fd := fd\<rparr>)\<rparr>)"
      "c_state d = CHANN_STATE_DISCONNECT" "ext_config s1 (c_ctype d) = Some (init_ext (c_ctype d))" by metis
    let ?s2 = "s1\<lparr>g_heap := (g_heap s1)(n \<mapsto> d\<lparr>c_fd := fd\<rparr>)\<rparr>"
    let ?set = "\<lambda>st s. upd_chann n (\<lambda>c. c\<lparr>c_state := st\<rparr>) s"
    obtain x s3 where s3: "syscall (sys_connect env fd (c_addr d)) ?s2 = (x, s3)" by force
    note co = same_core_syscall [OF s3]
    have "(if c_ctype d = CHANN_TYPE_STREAM then
        (if x \<ge> 0 \<or> g_errno s3 = EINPROGRESS \<or> g_errno s3 = EWOULDBLOCK then do {
           s \<leftarrow> ?set CHANN_STATE_CONNECTING s3; (_, s) \<leftarrow> evt_add env n MNET_SET_WRITE s; Some (1, s) } else Some (0, s3))
        else do { s \<leftarrow> ?set CHANN_STATE_CONNECTED ?s2; (_, s) \<leftarrow> evt_add env n MNET_SET_READ s; Some (1, s) }) = Some (r, t)"
      using run n s1 fd d(1,4) s3 by (simp add: mnet_chann_connect_def upd_chann_eq init_ext_calls cong: if_cong split del: if_split)
    then consider "t = s3" | s4 y where "?set CHANN_STATE_CONNECTING s3 = Some s4" "evt_add env n MNET_SET_WRITE s4 = Some (y, t)"
      | s4 y where "?set CHANN_STATE_CONNECTED ?s2 = Some s4" "evt_add env n MNET_SET_READ s4 = Some (y, t)"
      by (auto split: if_splits elim!: bind_SomeE)
    then show ?thesis
    proof cases
      case 2
      show ?thesis by (rule inv_enter_add [where c = "d\<lparr>c_fd := fd\<rparr>", OF d(2) _ _ _ _ co 2]) (use d(3) fd in \<open>simp_all add: state_order\<close>)
    next
      case 3
      show ?thesis by (rule inv_enter_add [where c = "d\<lparr>c_fd := fd\<rparr>", OF d(2) _ _ _ _ same_core_refl 3]) (use d(3) fd in \<open>simp_all add: state_order\<close>)
    qed (use inv_same_core [OF co d(2)] in simp)
  next
    case False
    with run n s1 inv_open_socket [OF s s1] show ?thesis by (auto simp: mnet_chann_connect_def)
  qed
next
  case False
  with run s show ?thesis by (cases p) (auto simp: mnet_chann_connect_def split: if_splits)
qed

lemma inv_listen:
  assumes s: "mnet_inv s" and run: "mnet_chann_listen env p host port backlog s = Some (r, t)"
  shows "mnet_inv t"
proof (cases "\<exists>n. p = Some n \<and> port > 0")
  case True
  then obtain n where n: "p = Some n" "port > 0" by blast
  with run obtain fd s1 where s1: "chann_open_socket env n host port (backlog OR 1) s = Some (fd, s1)"
    by (auto simp: mnet_chann_listen_def elim!: bind_SomeE)
  show ?thesis
  proof (cases "fd > 0")
    case fd: True
    from opened [OF s s1 fd] obtain d where d: "g_heap s1 n = Some d"
      "mnet_inv (s1\<lparr>g_heap := (g_heap s1)(n \<mapsto> d\<lparr>c_fd := fd\<rparr>)\<rparr>)" "c_state d = CHANN_STATE_DISCONNECT" by metis
    let ?s2 = "s1\<lparr>g_heap := (g_heap s1)(n \<mapsto> d\<lparr>c_fd := fd\<rparr>)\<rparr>"
    have "do { s \<leftarrow> upd_chann n (\<lambda>c. c\<lparr>c_state := CHANN_STATE_LISTENING\<rparr>) ?s2; (_, s) \<leftarrow> evt_add env n MNET_SET_READ s;
        c \<leftarrow> g_heap s n; ext \<leftarrow> ext_config s (c_ctype c); s \<leftarrow> call_op_cb env (e_listen_cb ext) ext n s; Some (1, s) } = Some (r, t)"
      using run n s1 fd d(1) by (simp add: mnet_chann_listen_def upd_chann_eq)
    then obtain s3 y s4 c ext where s3: "upd_chann n (\<lambda>c. c\<lparr>c_state := CHANN_STATE_LISTENING\<rparr>) ?s2 = Some s3"
      "evt_add env n MNET_SET_READ s3 = Some (y, s4)" and cb: "g_heap s4 n = Some c" "ext_config s4 (c_ctype c) = Some ext"
      "call_op_cb env (e_listen_cb ext) ext n s4 = Some t" by (auto elim!: bind_SomeE)
    have "mnet_inv s4"
      by (rule inv_enter_add [where c = "d\<lparr>c_fd := fd\<rparr>", OF d(2) _ _ _ _ same_core_refl s3]) (use d(3) fd in \<open>simp_all add: state_order\<close>)
    with op_cb_internal(2) [OF this cb(1,2)] cb(3) show ?thesis by simp
  next
    case False
    with run n s1 inv_open_socket [OF s s1] show ?thesis by (auto simp: mnet_chann_listen_def)
  qed
next
  case False
  with run s show ?thesis by (cases p) (auto simp: mnet_chann_listen_def split: if_splits)
qed

lemma inv_api_disconnect: "mnet_inv s \<Longrightarrow> mnet_chann_disconnect env p s = Some t \<Longrightarrow> mnet_inv t"
  by (cases p) (auto simp: mnet_chann_disconnect_def elim!: bind_SomeE dest: inv_disconnect)

lemma inv_fields:
  assumes s: "mnet_inv s" and run: "upd_chann n f s = Some t"
    and f: "\<And>c. keeps c (f c) \<and> (chann_wf c \<longrightarrow> chann_wf (f c))"
  shows "mnet_inv t"
  using inv_upd_chann [OF s, of n f] f run by (auto dest: postD)

lemma inv_set_opaque: "mnet_inv s \<Longrightarrow> mnet_chann_set_opaque p v s = Some t \<Longrightarrow> mnet_inv t"
  by (cases p) (auto simp: mnet_chann_set_opaque_def keeps_def chann_wf_def elim!: inv_fields)

lemma inv_set_ud: "mnet_inv s \<Longrightarrow> mnet_ext_chann_set_ud p v s = Some t \<Longrightarrow> mnet_inv t"
proof -
  assume s: "mnet_inv s" and run: "mnet_ext_chann_set_ud p v s = Some t"
  have "mnet_inv u" if "upd_chann n (\<lambda>c. c\<lparr>c_ext_ud := v\<rparr>) s = Some u" for n u
    using s that by (rule inv_fields) (simp add: keeps_def chann_wf_def)
  with s run show ?thesis
    by (cases p) (auto simp: mnet_ext_chann_set_ud_def split: if_splits elim!: bind_SomeE)
qed

lemma inv_bufsize:
  assumes s: "mnet_inv s" and run: "mnet_chann_socket_set_bufsize env p sz s = Some (r, t)"
  shows "mnet_inv t"
proof -
  have upd: "mnet_inv u" if "upd_chann n (\<lambda>c. c\<lparr>c_buf_size := sz\<rparr>) s = Some u" for n u
    using s that by (rule inv_fields) (simp add: keeps_def chann_wf_def)
  have set': "mnet_inv (snd (set_bufsize env fd sz u))" if "mnet_inv u" for fd u
    using inv_same_core [OF core_params(5) [OF same_core_refl] that] .
  have "post (\<lambda>x. mnet_inv (snd x)) (mnet_chann_socket_set_bufsize env p sz s)"
    unfolding mnet_chann_socket_set_bufsize_def
    by (intro post_read post_rules) (simp_all add: s upd set')
  from postD [OF this run] show ?thesis by simp
qed

lemma inv_chann_fail:
  assumes s: "mnet_inv s" and run: "chann_fail env n s = Some t" shows "mnet_inv t"
proof -
  from run obtain c where c: "g_heap s n = Some c"
    by (auto simp: chann_fail_def chann_disconnect_socket_def elim!: bind_SomeE)
  from chann_fail_stays [OF s c run] stays_inv [OF s c] show ?thesis by blast
qed

lemma inv_recv_fn:
  assumes s: "mnet_inv s" and n: "g_heap s n = Some c" "ext_config s (c_ctype c) = Some ext"
    and run: "call_recv_fn env ext n len s = Some (r, bs, t)"
  shows "mnet_inv t"
proof -
  have "internal (c_ctype c)" using inv_wf [OF s n(1)] by (simp add: chann_wf_def)
  from ext_config_internal [OF inv_cfg [OF s] this] n(2) have ext: "ext = init_ext (c_ctype c)" by simp
  have str: "mnet_inv t" if "ext_stream_recv env n len s = Some (r, bs, t)"
    using that s by (auto simp: ext_stream_recv_def case_prod_beta Let_def elim!: bind_SomeE)
  have dg: "mnet_inv t" if run: "ext_dgram_recv env n len s = Some (r, bs, t)"
  proof -
    obtain ret b frm e w where sys: "sys_recvfrom env (c_fd c) len (g_world s) = (ret, b, frm, e, w)" by (metis prod.exhaust)
    let ?s = "(set_errno e s)\<lparr>g_world := w\<rparr>"
    have i: "mnet_inv ?s" using s by simp
    show ?thesis
    proof (cases frm)
      case (Some al)
      with run n sys have "upd_chann n (\<lambda>c. c\<lparr>c_addr := fst al, c_addr_len := snd al\<rparr>) ?s = Some t"
        by (cases al) (auto simp: ext_dgram_recv_def elim!: bind_SomeE)
      from inv_fields [OF i this] show ?thesis by (simp add: keeps_def chann_wf_def)
    qed (use run n sys i in \<open>auto simp: ext_dgram_recv_def Let_def\<close>)
  qed
  from run ext str dg show ?thesis
    by (cases "c_ctype c = CHANN_TYPE_STREAM") (simp_all add: call_recv_fn_def init_ext_def)
qed

lemma inv_recv:
  assumes s: "mnet_inv s" and run: "mnet_chann_recv env p buf len s = Some (r, bs, t)"
  shows "mnet_inv t"
proof -
  have fin: "mnet_inv u" if "upd_chann n (\<lambda>c. c\<lparr>c_bytes_recv := c_bytes_recv c + r\<rparr>) s2 = Some u"
    "(if r < 0 then chann_fail env n s1 else Some s1) = Some s2" "mnet_inv s1" for n s1 s2 u and r :: int
  proof -
    have "mnet_inv s2" using that(2,3) inv_chann_fail by (cases "r < 0") auto
    from this that(1) show ?thesis by (rule inv_fields) (simp add: keeps_def chann_wf_def)
  qed
  have "post (\<lambda>(r, bs, t). mnet_inv t) (mnet_chann_recv env p buf len s)"
    unfolding mnet_chann_recv_def
    by (intro post_read post_rules) (use s in \<open>auto elim!: bind_SomeE intro: fin inv_recv_fn [OF s]\<close>)
  from postD [OF this run] show ?thesis by simp
qed

lemma rwb_cache_some:
  assumes "rwb_cache q bs n = Some h" "rwb_inv q" "0 < n"
  shows "rwb_inv h"
proof -
  have "nat n \<le> length bs"
    using assms(1) by (auto simp: rwb_cache_def memcpy_def split: if_splits elim!: bind_SomeE)
  from rwb_cache_ok [OF assms(2,3) this] assms(1) show ?thesis by auto
qed

lemma inv_queue:
  assumes run: "upd_chann n (\<lambda>c. c\<lparr>c_rwb_send := h\<rparr>) s = Some t" and h: "rwb_cache (c_rwb_send c) bs k = Some h" "0 < k"
    and s: "mnet_inv s" and n: "g_heap s n = Some c" and st: "CHANN_STATE_CONNECTED \<le> c_state c"
  shows "mnet_inv t"
proof -
  have "rwb_inv h" by (rule rwb_cache_some [OF h(1) _ h(2)]) (use inv_wf [OF s n] in \<open>simp add: chann_wf_def\<close>)
  from stays_inv [OF s n queue_stays [OF s n this]] st run n show ?thesis by (simp add: upd_chann_def state_order)
qed

lemma eff_state_inv: "mnet_inv s \<Longrightarrow> g_heap s n = Some c \<Longrightarrow> eff_state env n s = Some (state_val (c_state c))"
  using ext_config_internal [OF inv_cfg, of s "c_ctype c"] inv_wf [of s n c]
  by (simp add: eff_state_def init_ext_calls chann_wf_def)

lemma inv_send:
  assumes s: "mnet_inv s" and run: "mnet_chann_send env p buf len s = Some (r, t)"
  shows "mnet_inv t"
proof -
  have dir: "post (\<lambda>x. mnet_inv (snd x)) (do {
       (ret, s) \<leftarrow> chann_send env n bs' s;
       if ret < 0 then do { s \<leftarrow> chann_fail env n s; Some (-1, s) }
       else if ret < len then do {
         c \<leftarrow> g_heap s n;
         h \<leftarrow> rwb_cache (c_rwb_send c) (drop (nat ret) bs) (len - ret);
         s \<leftarrow> upd_chann n (\<lambda>c. c\<lparr>c_rwb_send := h\<rparr>) s;
         (_, s) \<leftarrow> evt_add env n MNET_SET_WRITE s;
         Some (len, s)
       } else Some (ret, s) })"
    if c: "g_heap s n = Some c" "CHANN_STATE_CONNECTED \<le> c_state c" for n c bs' bs
  proof (intro post_read post_rules)
    fix x ret s1 assume x: "chann_send env n bs' s = Some x" "x = (ret, s1)"
    from chann_send_stays [OF s c(1)] x obtain d where d: "stays n s s1 c d" "c_state d = c_state c" by blast
    note i = stays_inv [OF s c(1) d(1)]
    show "post (\<lambda>x. mnet_inv (snd x)) (Some (-1, s2))" if "chann_fail env n s1 = Some s2" for s2
      using inv_chann_fail that i by auto
    show "post (\<lambda>x. mnet_inv (snd x)) (Some (ret, s1))" using i by simp
    show "post (\<lambda>x. mnet_inv (snd x)) (Some (len, s3))"
      if "ret < len" "g_heap s1 n = Some c'" "rwb_cache (c_rwb_send c') (drop (nat ret) bs) (len - ret) = Some h"
        "upd_chann n (\<lambda>c. c\<lparr>c_rwb_send := h\<rparr>) s1 = Some s2" "evt_add env n MNET_SET_WRITE s2 = Some y" "y = (z, s3)" for c' h s2 y z s3
      using inv_evt_add [OF inv_queue [OF that(4,3)]] that i d(2) c(2) by auto
  qed
  have cache: "mnet_inv u" if "upd_chann n (\<lambda>c. c\<lparr>c_rwb_send := h\<rparr>) s = Some u" "rwb_cache (c_rwb_send c) bs len = Some h"
    "len > 0" "g_heap s n = Some c" "CHANN_STATE_CONNECTED \<le> c_state c" for n h u c bs
    using inv_queue [OF that(1-3) s that(4,5)] .
  have st: "CHANN_STATE_CONNECTED \<le> c_state c" if "eff_state env n s = Some x" "3 \<le> x" "g_heap s n = Some c" for n x c
    using eff_state_inv [OF s that(3), of env] that(1,2) by (simp add: state_order)
  have "post (\<lambda>x. mnet_inv (snd x)) (mnet_chann_send env p buf len s)"
    unfolding mnet_chann_send_def
    by (intro post_read post_if dir) (auto simp: s intro: cache st)
  from postD [OF this run] show ?thesis by simp
qed

lemma inv_socket_addr: "mnet_inv s \<Longrightarrow> mnet_chann_peer_addr env p a s = Some (r, b, t) \<Longrightarrow> mnet_inv t"
  unfolding mnet_chann_peer_addr_def
  by (auto simp: case_prod_beta Let_def split: option.splits if_splits elim!: bind_SomeE)

lemma inv_dgram_recv:
  assumes s: "mnet_inv s" and run: "mnet_dgram_recv env p a buf len s = Some (r, bs, b, t)"
  shows "mnet_inv t"
proof -
  have "post (\<lambda>x. mnet_inv (snd (snd (snd x)))) (mnet_dgram_recv env p a buf len s)"
    unfolding mnet_dgram_recv_def
    by (intro post_read post_rules) (use s in \<open>auto intro: inv_recv [OF s]\<close>)
  from postD [OF this run] show ?thesis by simp
qed

lemma inv_fill_addr: "mnet_inv s \<Longrightarrow> chann_fill_addr env n host port s = Some t \<Longrightarrow> mnet_inv t"
  unfolding chann_fill_addr_def by (erule inv_fields) (auto simp: keeps_def chann_wf_def)

lemma inv_dgram_send:
  assumes s: "mnet_inv s" and run: "mnet_dgram_send env p dst buf len s = Some (r, t)"
  shows "mnet_inv t"
proof -
  have pre: "mnet_inv u" if "(if b then chann_fill_addr env n host port s
      else do { (_, s) \<leftarrow> mnet_chann_connect env p' host' port' s; Some s }) = Some u" for b n host port p' host' port' u
    using that s inv_fill_addr inv_connect by (cases b) (auto elim!: bind_SomeE)
  have send: "post (\<lambda>x. mnet_inv (snd x)) (mnet_chann_send env q buf len u)" if "mnet_inv u" for q u
    using inv_send [OF that] by (intro postI) (metis prod.collapse)
  have "post (\<lambda>x. mnet_inv (snd x)) (mnet_dgram_send env p dst buf len s)"
    unfolding mnet_dgram_send_def
    by (intro post_read post_if send) (auto simp: s intro: pre)
  from postD [OF this run] show ?thesis by simp
qed

lemma inv_active_event:
  assumes s: "mnet_inv s" and rnd: "rand_ends (sys_rand env)"
    and run: "mnet_chann_active_event env p et v s = Some t"
  shows "mnet_inv t"
proof -
  have set': "mnet_inv u" if "upd_chann n (\<lambda>c. c\<lparr>c_active_send_event := b\<rparr>) s = Some u" for n b u
    using s that by (rule inv_fields) (simp add: keeps_def chann_wf_def)
  have p1: "post mnet_inv (tm_update env n i s)" "post mnet_inv (tm_kill n s)" for n i
    using inv_tm_update [OF s rnd] inv_tm_kill [OF s] by (auto intro: postI)
  have p2: "post mnet_inv (tm_active env n i s)" if "g_heap s n = Some c" "\<not> c_timer_node c \<noteq> None" for n i c
    using inv_tm_active [OF s rnd that(1)] that(2) by (auto intro: postI)
  have "post mnet_inv (mnet_chann_active_event env p et v s)"
    unfolding mnet_chann_active_event_def
    by (intro post_read post_rules p1 p2) (auto simp: s intro: inv_evt_add inv_evt_del set')
  from postD [OF this run] show ?thesis .
qed

lemma inv_ext_register:
  assumes s: "mnet_inv s" and run: "mnet_ext_register env ct ext s = Some (r, t)"
  shows "mnet_inv t"
proof -
  have reg: "mnet_inv (s\<lparr>g_ext_config := cfg\<rparr>)" if "wr (g_ext_config s) ct e = Some cfg" "\<not> (ct \<le> CHANN_TYPE_BROADCAST \<or> B)" for cfg e B
  proof -
    have "cfg_ok (s\<lparr>g_ext_config := cfg\<rparr>)"
      using that inv_cfg [OF s] by (auto simp: cfg_ok_def wr_def ctype_defs split: if_splits)
    with s show ?thesis by (auto simp: mnet_inv_def inv0_def chann_links_def del_links_def closed_def)
  qed
  have "post (\<lambda>x. mnet_inv (snd x)) (mnet_ext_register env ct ext s)"
    unfolding mnet_ext_register_def
    by (intro post_read post_rules) (auto simp: s intro: reg)
  from postD [OF this run] show ?thesis by simp
qed

lemma inv_balancer: "mnet_inv s \<Longrightarrow> mnet_inv (mnet_multi_accept_balancer ctx b a s)"
  by (simp add: mnet_multi_accept_balancer_def)

lemma inv_reset_loop:
  assumes "reset_loop env p s = Some t"
  shows "mnet_inv s \<longrightarrow> mnet_inv t"
proof (rule reset_loop.raw_induct [OF _ assms, where P = "\<lambda>env p s t. mnet_inv s \<longrightarrow> mnet_inv t"])
  fix f :: "'a env \<Rightarrow> nat option \<Rightarrow> 'a mnet_t \<Rightarrow> 'a mnet_t option" and env p s t
  assume IH: "\<And>env p s t. f env p s = Some t \<Longrightarrow> mnet_inv s \<longrightarrow> mnet_inv t"
    and run: "(case p of None \<Rightarrow> Some s | Some n \<Rightarrow> do {
          s \<leftarrow> upd_chann n (\<lambda>c. c\<lparr>c_epoll_events := 0\<rparr>) s;
          r \<leftarrow> evt_add env n MNET_SET_READ s;
          c \<leftarrow> g_heap (snd r) n;
          f env (c_next c) (snd r) }) = Some t"
  show "mnet_inv s \<longrightarrow> mnet_inv t"
  proof
    assume s: "mnet_inv s"
    show "mnet_inv t"
    proof (cases p)
      case (Some n)
      with run obtain u x v and c :: chann_t where u: "upd_chann n (\<lambda>c. c\<lparr>c_epoll_events := 0\<rparr>) s = Some u"
        "evt_add env n MNET_SET_READ u = Some (x, v)" "f env (c_next c) v = Some t" by (auto elim!: bind_SomeE)
      from s u(1) have "mnet_inv u" by (rule inv_fields) (simp add: keeps_def chann_wf_def)
      from IH [OF u(3)] inv_evt_add [OF this u(2)] show ?thesis by blast
    qed (use run s in simp)
  qed
qed

lemma inv_evt_reinit: "mnet_inv s \<Longrightarrow> mnet_inv (snd (evt_init env (evt_fini env s)))"
proof -
  assume s: "mnet_inv s"
  define u where "u = snd (syscall (sys_close env (g_kq s)) s)"
  have u: "same_core s u" unfolding u_def by (rule core_syscall) simp
  have fini: "evt_fini env s = (if g_kq s \<noteq> 0 then u\<lparr>g_chg := s_event_zero, g_evt := s_event_zero, g_kq := 0\<rparr> else s)"
    by (simp add: evt_fini_def u_def case_prod_beta Let_def)
  have init: "mnet_inv (snd (evt_init env t))"
    if "mnet_inv (t\<lparr>g_chg := g_chg s\<rparr>)" "g_kq t \<le> 0 \<or> g_chg t = g_chg s" for t
  proof (cases "g_kq t \<le> 0")
    case True
    define v where "v = snd (syscall (sys_epoll_create env (int KEV_EVT_ARRAY_SIZE)) t)"
    have "same_core t v" unfolding v_def by (rule core_syscall) simp
    then obtain e w where v: "v = t\<lparr>g_errno := e, g_world := w\<rparr>" by (rule same_coreE)
    have "mnet_inv ((t\<lparr>g_chg := g_chg s\<rparr>)\<lparr>g_chg := (g_chg v)\<lparr>se_size := 4, se_array := replicate 4 mevent_zero\<rparr>\<rparr>)"
      by (rule inv_chg [OF that(1)]) simp
    with True show ?thesis
      by (simp add: evt_init_def case_prod_beta Let_def v_def [symmetric])
        (simp add: v mnet_inv_def inv0_def chann_links_def del_links_def closed_def cfg_ok_def KEV_CHG_ARRAY_SIZE_def)
  next
    case False
    with that have "g_chg t = g_chg s" by simp
    then have "t\<lparr>g_chg := g_chg s\<rparr> = t" by (metis mnet_t.surjective mnet_t.update_convs(7))
    with that False show ?thesis by (simp add: evt_init_def)
  qed
  show ?thesis
  proof (cases "g_kq s = 0")
    case True
    with s show ?thesis by (simp add: fini init)
  next
    case False
    from u obtain e w where "u = s\<lparr>g_errno := e, g_world := w\<rparr>" by (rule same_coreE)
    with s False show ?thesis by (auto simp: fini intro!: init)
  qed
qed

lemma inv_reset_event:
  assumes s: "mnet_inv s" and run: "mnet_multi_reset_event env s = Some t"
  shows "mnet_inv t"
proof -
  let ?u = "snd (evt_init env (evt_fini env s))"
  have "reset_loop env (g_channs ?u) ?u = Some t"
    using run by (simp add: mnet_multi_reset_event_def case_prod_beta Let_def)
  from inv_reset_loop [OF this] inv_evt_reinit [OF s] show ?thesis by blast
qed

subsection \<open>The states a program can reach\<close>

text \<open>
  One call of a public function that has a result.  Channels of extension types are left
  out: their callbacks are not code of the library.
\<close>

inductive mnet_step :: "'w env \<Rightarrow> 'w mnet_t \<Rightarrow> 'w mnet_t \<Rightarrow> bool" for env where
  Poll: "mnet_poll env ms s = Some (r, t) \<Longrightarrow> mnet_step env s t"
| Result_next: "mnet_result_next env s = Some (m, t) \<Longrightarrow> mnet_step env s t"
| Open: "internal ct \<Longrightarrow> mnet_chann_open env ct s = Some (p, t) \<Longrightarrow> mnet_step env s t"
| Close: "mnet_chann_close env p s = Some t \<Longrightarrow> mnet_step env s t"
| Connect: "mnet_chann_connect env p host port s = Some (r, t) \<Longrightarrow> mnet_step env s t"
| Disconnect: "mnet_chann_disconnect env p s = Some t \<Longrightarrow> mnet_step env s t"
| Listen: "mnet_chann_listen env p host' port backlog s = Some (r, t) \<Longrightarrow> mnet_step env s t"
| Set_opaque: "mnet_chann_set_opaque p q s = Some t \<Longrightarrow> mnet_step env s t"
| Active_event: "mnet_chann_active_event env p et v s = Some t \<Longrightarrow> mnet_step env s t"
| Recv: "mnet_chann_recv env p b len s = Some (r, bs, t) \<Longrightarrow> mnet_step env s t"
| Send: "mnet_chann_send env p buf len s = Some (r, t) \<Longrightarrow> mnet_step env s t"
| Dgram_recv: "mnet_dgram_recv env p a b len s = Some (r, bs, a', t) \<Longrightarrow> mnet_step env s t"
| Dgram_send: "mnet_dgram_send env p a buf len s = Some (r, t) \<Longrightarrow> mnet_step env s t"
| Peer_addr: "mnet_chann_peer_addr env p a s = Some (r, a', t) \<Longrightarrow> mnet_step env s t"
| Set_bufsize: "mnet_chann_socket_set_bufsize env p sz s = Some (r, t) \<Longrightarrow> mnet_step env s t"
| Balancer: "t = mnet_multi_accept_balancer ctx bf af s \<Longrightarrow> mnet_step env s t"
| Reset_event: "mnet_multi_reset_event env s = Some t \<Longrightarrow> mnet_step env s t"
| Ext_register: "mnet_ext_register env ct' ext s = Some (r, t) \<Longrightarrow> mnet_step env s t"
| Set_ud: "mnet_ext_chann_set_ud p q s = Some t \<Longrightarrow> mnet_step env s t"

text \<open>From the state after \<open>mnet_init\<close>.\<close>

inductive reach :: "'w env \<Rightarrow> 'w mnet_t \<Rightarrow> bool" for env where
  Init: "mnet_init env (mnet_start w) = Some (1, s) \<Longrightarrow> reach env s"
| Step: "reach env s \<Longrightarrow> mnet_step env s t \<Longrightarrow> reach env t"

lemma inv_poll: "mnet_inv s \<Longrightarrow> mnet_poll env ms s = Some (r, t) \<Longrightarrow> mnet_inv t"
  using mnet_poll_ok [of s env ms] by auto

lemma inv_result_next:
  "mnet_inv s \<Longrightarrow> rand_ends (sys_rand env) \<Longrightarrow> balancer_ok env \<Longrightarrow> mnet_result_next env s = Some (m, t) \<Longrightarrow> mnet_inv t"
  using inv_evt_result_next [of env s "(m, t)"] by (simp add: mnet_result_next_def)

lemma inv_step:
  assumes "mnet_step env s t" "rand_ends (sys_rand env)" "balancer_ok env" "mnet_inv s"
  shows "mnet_inv t"
  using assms
  by (cases rule: mnet_step.cases)
    (blast intro: inv_poll inv_result_next inv_open inv_close inv_connect inv_api_disconnect inv_listen inv_set_opaque
      inv_active_event inv_recv inv_send inv_dgram_recv inv_dgram_send inv_socket_addr inv_bufsize inv_reset_event
      inv_ext_register inv_set_ud inv_balancer)+

lemma sk_lookup_empty: "sk_inv l \<Longrightarrow> sk_list l = [] \<Longrightarrow> sk_lookup l a = None"
  using sk_list_dom [of l] by (auto simp: sk_lookup_def)

lemma mnet_init_ok:
  "\<exists>s. mnet_init env (mnet_start w) = Some (1, s) \<and> mnet_inv s \<and> g_heap s = Map.empty \<and> g_init s"
proof -
  let ?s0 = "(mnet_start w)\<lparr>g_world := sys_sigpipe_ign env w\<rparr>"
  obtain kq s1 where kq: "syscall (sys_epoll_create env (int KEV_EVT_ARRAY_SIZE)) ?s0 = (kq, s1)" by force
  from same_core_syscall [OF this] obtain e1 w1 where s1: "s1 = ?s0\<lparr>g_errno := e1, g_world := w1\<rparr>" by (rule same_coreE)
  define s2 where "s2 = snd (evt_init env ?s0)"
  have s2: "s2 = s1\<lparr>g_kq := kq, g_chg := (g_chg s1)\<lparr>se_size := int KEV_CHG_ARRAY_SIZE, se_array := replicate KEV_CHG_ARRAY_SIZE mevent_zero\<rparr>,
      g_evt := (g_evt s1)\<lparr>se_size := int KEV_EVT_ARRAY_SIZE, se_array := replicate KEV_EVT_ARRAY_SIZE mevent_zero\<rparr>\<rparr>"
    using kq by (simp add: s2_def evt_init_def mnet_start_def)
  have ev: "evt_init env ?s0 = (1, s2)"
    by (simp add: s2_def) (simp add: evt_init_def mnet_start_def case_prod_beta Let_def)
  obtain now s3 where now: "tm_now env s2 = (now, s3)" by force
  from tm_now_frame [OF now] obtain w3 where s3: "s3 = s2\<lparr>g_world := w3\<rparr>" by blast
  have start: "\<not> g_init (mnet_start w)" "g_world (mnet_start w) = w" "g_ext_config s3 = replicate 8 ext_zero" "g_world s3 = w3"
    by (simp_all add: s3 s2 s1) (simp_all add: mnet_start_def)
  obtain clock :: "chann_tm_t skiplist_t" where clock: "skiplist_create = Some clock" "sk_inv clock" "sk_list clock = []"
    using skiplist_create_ok by blast
  have ok: "timers_ok clock Map.empty"
    by (rule timers_okI [OF clock(2)]) (simp_all add: sk_lookup_empty [OF clock(2,3)])
  have run: "mnet_init env (mnet_start w) = Some (1, s3\<lparr>g_world := sys_srand env now w3, g_tm_clock := Some clock,
      g_ac_fn := Some Accept, g_init := True, g_ext_config := (replicate 8 ext_zero)
        [1 := init_ext CHANN_TYPE_STREAM, 2 := init_ext CHANN_TYPE_DGRAM, 3 := init_ext CHANN_TYPE_BROADCAST]\<rparr>)"
    (is "_ = Some (1, ?s)")
    using start by (simp add: mnet_init_def wr_def ctype_defs Let_def now ev) (simp add: clock(1))
  have "chann_links ?s []" "del_links ?s []"
    by (simp_all add: s3 s2 s1 mnet_start_def chann_links_def del_links_def closed_def)
  then have "mnet_inv ?s"
    using ok unfolding mnet_inv_def inv0_def
    by (auto simp: s3 s2 s1 mnet_start_def cfg_ok_def KEV_CHG_ARRAY_SIZE_def)
  with run show ?thesis by (auto simp: s3 s2 s1 mnet_start_def)
qed

lemma reach_inv:
  assumes "reach env s" "rand_ends (sys_rand env)" "balancer_ok env"
  shows "mnet_inv s"
  using assms
proof (induction rule: reach.induct)
  case (Init w s)
  with mnet_init_ok [of env w] show ?case by auto
next
  case (Step s t)
  then show ?case using inv_step by blast
qed

subsection \<open>Shutting down\<close>

lemma inv0_wf: "inv0 s \<Longrightarrow> g_heap s n = Some c \<Longrightarrow> chann_wf c"
  by (auto simp: inv0_def)

lemma inv0_upd:
  assumes s: "inv0 s" and n: "g_heap s n = Some c"
    and d: "c_prev d = c_prev c" "c_next d = c_next c" "c_timer_node d = c_timer_node c" "chann_wf d"
    and t: "agree (s\<lparr>g_del_channs := g_del_channs t\<rparr>) t" "g_heap t = (g_heap s)(n \<mapsto> d)"
  shows "inv0 t" "chann_links s L \<Longrightarrow> chann_links t L"
proof -
  from s obtain clock K where *: "cfg_ok s" "g_tm_clock s = Some clock" "timers_ok clock (g_heap s)" "chann_links s K"
    "\<And>n c. g_heap s n = Some c \<Longrightarrow> chann_wf c" "se_array (g_chg s) \<noteq> []" by (auto simp: inv0_def)
  show links: "chann_links t L" if "chann_links s L" for L
    using chann_links_upd [OF that n d(1,2)] t by (simp add: chann_links_def agree_def)
  have "timers_ok clock (g_heap t)" using timers_ok_frame [OF *(3) n d(3)] t(2) by simp
  with links [OF *(4)] * d(4) t show "inv0 t" by (auto simp: inv0_def agree_def cfg_ok_def)
qed

text \<open>One round of the loop of \<open>mnet_fini\<close>.\<close>

lemma fini_step:
  assumes s: "inv0 s" and n: "g_heap s n = Some c" "rwb_count (c_rwb_send c) = 0" and links: "chann_links s (n # L)"
  shows "\<exists>r u v t. chann_disconnect_socket env n s = Some (r, u) \<and> chann_close_socket env n u = Some v \<and>
    chann_destroy n v = Some t \<and> inv0 t \<and> chann_links t L \<and> relinked ((g_heap s)(n := None)) (g_heap t)"
proof -
  have wf: "chann_wf c" "cfg_ok s" using s n(1) by (auto simp: inv0_def)
  define d where "d = (if c_state c \<le> CHANN_STATE_DISCONNECT then c
      else c\<lparr>c_fd := -1, c_state := CHANN_STATE_DISCONNECT, c_epoll_events := 0\<rparr>)"
  define u where "u = (if c_state c \<le> CHANN_STATE_DISCONNECT then s
      else (snd (syscall (sys_close env (c_fd c)) s))\<lparr>g_heap := (g_heap s)(n \<mapsto> d)\<rparr>)"
  have core: "same_core s (snd (syscall (sys_close env (c_fd c)) s))" by (rule core_syscall) simp
  have dis: "\<exists>r. chann_disconnect_socket env n s = Some (r, u)"
    using disconnect_run [OF wf(2,1) n(1), of env] n(2) by (simp add: u_def d_def)
  have u: "g_heap u = (g_heap s)(n \<mapsto> d)" "agree s u"
    using n(1) same_core_agree [OF core] by (auto simp: u_def d_def fun_upd_idem)
  have d: "c_prev d = c_prev c" "c_next d = c_next c" "c_timer_node d = c_timer_node c" "chann_wf d"
    "c_state d \<le> CHANN_STATE_DISCONNECT" "rwb_count (c_rwb_send d) = 0"
    using wf(1) n(2) by (auto simp: d_def chann_wf_def state_order)
  define e where "e = (if c_state d = CHANN_STATE_CLOSED then d
      else d\<lparr>c_del_next := g_del_channs u, c_state := CHANN_STATE_CLOSED, c_opaque := None\<rparr>)"
  define v where "v = (if c_state d = CHANN_STATE_CLOSED then u
      else u\<lparr>g_heap := (g_heap u)(n \<mapsto> e), g_del_channs := Some n\<rparr>)"
  have cfg: "ext_config u (c_ctype d) = Some (init_ext (c_ctype d))"
    using ext_config_internal [of u] wf(2) u(2) d(4) by (simp add: chann_wf_def cfg_ok_def agree_def)
  have close: "chann_close_socket env n u = Some v"
    using u(1) cfg by (simp add: chann_close_socket_def v_def e_def init_ext_calls upd_chann_def state_order)
      (cases "c_state d"; simp)
  have v: "g_heap v = (g_heap s)(n \<mapsto> e)" "agree (s\<lparr>g_del_channs := g_del_channs v\<rparr>) v"
    using u by (auto simp: v_def e_def agree_def)
  have e: "c_prev e = c_prev c" "c_next e = c_next c" "c_timer_node e = c_timer_node c" "chann_wf e"
    "c_state e = CHANN_STATE_CLOSED"
    using d by (auto simp: e_def chann_wf_def state_order)
  note iv = inv0_upd [OF s n(1) e(1-4) v(2,1)]
  from chann_destroy_links [OF iv(1) _ e(5), of n "[]" L] iv(2) [OF links] v(1) obtain t where
    "chann_destroy n v = Some t" "inv0 t" "relinked ((g_heap v)(n := None)) (g_heap t)" "chann_links t L" by auto
  moreover have "(g_heap v)(n := None) = (g_heap s)(n := None)" by (simp add: v(1))
  ultimately show ?thesis using dis close by auto
qed

lemma fini_loop_ok:
  assumes "inv0 s" "chann_links s L" "\<forall>n c. g_heap s n = Some c \<longrightarrow> rwb_count (c_rwb_send c) = 0"
  shows "\<exists>t. fini_loop env (g_channs s) s = Some t \<and> inv0 t \<and> chann_links t []"
  using assms
proof (induction L arbitrary: s)
  case Nil
  then have "g_channs s = None" by (simp add: chann_links_def)
  with Nil show ?case by (subst fini_loop.simps) simp
next
  case (Cons n L)
  from Cons.prems(2) obtain c where c: "g_channs s = Some n" "g_heap s n = Some c" by (auto simp: chann_links_def)
  from Cons.prems(3) c(2) have "rwb_count (c_rwb_send c) = 0" by blast
  from fini_step [OF Cons.prems(1) c(2) this Cons.prems(2), of env] obtain r u v t where
    t: "chann_disconnect_socket env n s = Some (r, u)" "chann_close_socket env n u = Some v"
    "chann_destroy n v = Some t" "inv0 t" "chann_links t L" "relinked ((g_heap s)(n := None)) (g_heap t)" by blast
  have next': "c_next c = g_channs t"
    using Cons.prems(2) c t(5) by (cases L) (auto simp: chann_links_def)
  have "rwb_count (c_rwb_send d) = 0" if "g_heap t m = Some d" for m d
  proof -
    from relinkedD [OF t(6) that] obtain b where "((g_heap s)(n := None)) m = Some b" "core d = core b" by blast
    with Cons.prems(3) core_fields(5) [of d b] show ?thesis by (cases "m = n") auto
  qed
  then have "\<forall>m d. g_heap t m = Some d \<longrightarrow> rwb_count (c_rwb_send d) = 0" by blast
  from Cons.IH [OF t(4,5) this] obtain z where "fini_loop env (g_channs t) t = Some z" "inv0 z" "chann_links z []" by blast
  moreover have "fini_loop env (g_channs s) s = fini_loop env (g_channs t) t"
    using c t(1-3) next' by (subst fini_loop.simps) simp
  ultimately show ?case by auto
qed

lemma mnet_fini_ok:
  assumes s: "mnet_inv s" "g_init s" and q: "\<forall>n c. g_heap s n = Some c \<longrightarrow> rwb_count (c_rwb_send c) = 0"
  shows "\<exists>t. mnet_fini env s = Some t \<and> g_heap t = Map.empty \<and> \<not> g_init t \<and> g_chann_count t = 0 \<and> g_channs t = None"
proof -
  from s(1) obtain L where L: "inv0 s" "chann_links s L" by (auto simp: mnet_inv_def inv0_def)
  from fini_loop_ok [OF L q, of env] obtain t where
    t: "fini_loop env (g_channs s) s = Some t" "inv0 t" "chann_links t []" by blast
  from t(2) obtain clock where k: "g_tm_clock t = Some clock" "timers_ok clock (g_heap t)" by (auto simp: inv0_def)
  have "g_tm_clock (evt_fini env t) = g_tm_clock t" "g_heap (evt_fini env t) = g_heap t"
    using core_syscall [OF same_core_refl, where f = "sys_close env (g_kq t)" and s = t]
    by (auto simp: evt_fini_def case_prod_beta Let_def elim!: same_coreE)
  moreover obtain l where "skiplist_destroy clock = Some l"
    using skiplist_destroy_ok [OF timers_ok_inv [OF k(2), unfolded sk_inv_def]] by blast
  moreover have "g_heap t = Map.empty" using t(3) by (simp add: chann_links_def)
  ultimately show ?thesis using s(2) t(1) k(1) by (simp add: mnet_fini_def mnet_zero_def)
qed

end
