(* ===== verification/Dangling.thy ===== *)
theory Dangling
  imports Reach
begin

text \<open>
  Two pointers of the global state that may outlive what they point to.

  \<open>mnet_poll\<close> frees the closed channels without taking them off the list of disconnected
  ones (src/src/mnet_core.c lines 725--750 and 1140--1155), and \<open>_tm_kill\<close> frees the node
  of a timer without looking whether it is the one that \<open>_tm_next\<close> visits next (lines
  529--539).  In both cases the next \<open>mnet_result_next\<close> reads freed memory: in the model it
  has no result.
\<close>

subsection \<open>The list of disconnected channels\<close>

lemma upd_chann_dis: "upd_chann n f s = Some t \<Longrightarrow> g_dis_channs t = g_dis_channs s"
  by (auto simp: upd_chann_def elim!: bind_SomeE)

lemma chann_destroy_dis: "chann_destroy n s = Some t \<Longrightarrow> g_dis_channs t = g_dis_channs s"
  by (auto simp: chann_destroy_def chann_unlink_def chann_rwb_destroy_def tm_kill_def
      split: if_splits option.splits elim!: bind_SomeE dest!: upd_chann_dis)

lemma del_channs_loop_dis:
  assumes "del_channs_loop p s = Some t" shows "g_dis_channs t = g_dis_channs s"
proof (rule del_channs_loop.raw_induct [OF _ assms, where P = "\<lambda>p s t. g_dis_channs t = g_dis_channs s"])
  fix f :: "nat option \<Rightarrow> 'a mnet_t \<Rightarrow> 'a mnet_t option" and p s t
  assume IH: "\<And>p s t. f p s = Some t \<Longrightarrow> g_dis_channs t = g_dis_channs s"
    and run: "(case p of None \<Rightarrow> Some s | Some n \<Rightarrow> do {
        c \<leftarrow> g_heap s n; s \<leftarrow> chann_destroy n s; f (c_del_next c) s }) = Some t"
  then show "g_dis_channs t = g_dis_channs s"
    by (auto split: option.splits elim!: bind_SomeE dest!: IH chann_destroy_dis)
qed

lemma mnet_poll_dis:
  assumes "mnet_poll env ms s = Some (r, t)" shows "g_dis_channs t = g_dis_channs s"
proof -
  have now: "g_dis_channs (snd (tm_now env u)) = g_dis_channs u" for u :: "'a mnet_t"
    by (simp add: tm_now_def split: prod.split)
  have sched: "g_dis_channs v = g_dis_channs u" if "tm_schedule env u = Some v" for u v
    using that now [of u]
    by (auto simp: tm_schedule_def split: if_splits prod.splits elim!: bind_SomeE)
  have errno: "g_dis_channs (set_errno e u) = g_dis_channs u" for e and u :: "'a mnet_t"
    by (simp add: set_errno_def split: option.split)
  show ?thesis
    using assms
    by (auto simp: mnet_poll_def evt_poll_def evt_del_channs_def errno Let_def split: prod.splits
        elim!: bind_SomeE dest!: sched del_channs_loop_dis)
qed

lemma mnet_close_dis:
  assumes s: "mnet_inv s" and n: "g_heap s n = Some c" and run: "mnet_chann_close env (Some n) s = Some t"
  shows "g_dis_channs t = g_dis_channs s"
proof -
  have cfg: "cfg_ok s" and wf: "chann_wf c" using s n by (auto simp: mnet_inv_def inv0_def)
  have close: "g_dis_channs v = g_dis_channs u"
    if "chann_close_socket env n u = Some v" "cfg_ok u" "g_heap u n = Some d" "internal (c_ctype d)" for u v d
    using that by (auto simp: chann_close_socket_def ext_config_internal init_ext_calls split: if_splits elim!: bind_SomeE
        dest!: upd_chann_dis)
  obtain e w where k: "snd (syscall (sys_close env (c_fd c)) s) = s\<lparr>g_errno := e, g_world := w\<rparr>"
    using same_core_syscall by (metis same_coreE prod.collapse)
  have int: "internal (c_ctype c)" using wf by (simp add: chann_wf_def)
  show ?thesis
  proof (cases "c_state c \<le> CHANN_STATE_DISCONNECT")
    case True
    with run n disconnect_run [OF cfg wf n, of env] close [of s t c] cfg int show ?thesis
      by (auto simp: mnet_chann_close_def split: if_splits)
  next
    case False
    let ?u = "s\<lparr>g_errno := e, g_world := w, g_heap := (g_heap s)(n \<mapsto> c\<lparr>c_fd := -1, c_state := CHANN_STATE_DISCONNECT, c_epoll_events := 0\<rparr>)\<rparr>"
    from False run n disconnect_run [OF cfg wf n, of env] k have "chann_close_socket env n ?u = Some t \<or> t = s"
      by (auto simp: mnet_chann_close_def split: if_splits)
    with close [of ?u t] cfg int show ?thesis by (auto simp: cfg_ok_def)
  qed
qed

text \<open>
  A channel on the list of disconnected ones that is closed and freed by the next poll: the
  list still starts with it, and if no timer is due \<open>mnet_result_next\<close> reads it.
\<close>

lemma freed_but_listed:
  assumes s: "mnet_inv s" and n: "g_heap s n = Some c" and d: "g_dis_channs s = Some n"
    and close: "mnet_chann_close env (Some n) s = Some t"
  shows "\<exists>r u. mnet_poll env ms t = Some (r, u) \<and> (g_tm_pos u = None \<longrightarrow> mnet_result_next env u = None)"
proof -
  have inv: "mnet_inv t" "closed t = insert n (closed s)" using mnet_chann_close_run [OF s n close] by auto
  obtain r u where u: "mnet_poll env ms t = Some (r, u)" "mnet_inv u" "relinked (g_heap t |` (- closed t)) (g_heap u)"
    using mnet_poll_ok [OF inv(1), of env ms] by blast
  have "(g_heap t |` (- closed t)) n = None" using inv(2) by simp
  then have "g_heap u n = None" using u(3) unfolding relinked_def by (metis map_option_is_None)
  moreover have "g_dis_channs u = Some n" using mnet_poll_dis [OF u(1)] mnet_close_dis [OF s n close] d by simp
  moreover obtain clock where "g_tm_clock u = Some clock" using u(2) by (auto simp: mnet_inv_def inv0_def)
  ultimately show ?thesis using u(1) result_next_dis [of u clock n env] by auto
qed

text \<open>The whole sequence, from a send that fails: send, close, poll, next result.\<close>

lemma failed_send_dangles:
  assumes s: "mnet_inv s" and c: "conn s n c" "rwb_count (c_rwb_send c) = 0" and len: "0 < len" "nat len \<le> length bs"
    and sys: "sys_send env (c_fd c) (take (nat len) bs) (g_world s) = (r, Some e, w)" "r < 0" "e \<noteq> EWOULDBLOCK"
  shows "\<exists>t u k v. mnet_chann_send env (Some n) (Some bs) len s = Some (-1, t) \<and> mnet_chann_close env (Some n) t = Some u \<and>
    mnet_poll env ms u = Some (k, v) \<and> (g_tm_pos v = None \<longrightarrow> mnet_result_next env v = None)"
proof -
  from send_broken [OF c len sys] obtain t d where
    t: "mnet_chann_send env (Some n) (Some bs) len s = Some (-1, t)" "g_heap t n = Some d" "c_state d = CHANN_STATE_DISCONNECT"
    "g_dis_channs t = Some n" by blast
  have inv: "mnet_inv t" by (rule inv_send [OF s t(1)])
  have cfg: "cfg_ok t" and wf: "chann_wf d" using inv t(2) by (auto simp: mnet_inv_def inv0_def)
  have "mnet_chann_close env (Some n) t = chann_close_socket env n t"
    using t(2,3) disconnect_run [OF cfg wf t(2), of env] by (simp add: mnet_chann_close_def state_order)
  then obtain u where u: "mnet_chann_close env (Some n) t = Some u" using chann_close_inv(1) [OF inv t(2,3), of env] by simp
  from freed_but_listed [OF inv t(2,4) u, of ms] obtain k v where
    "mnet_poll env ms u = Some (k, v)" "g_tm_pos v = None \<longrightarrow> mnet_result_next env v = None" by (elim exE conjE)
  with t(1) u show ?thesis by (intro exI [of _ t] exI [of _ u] exI [of _ k] exI [of _ v] conjI)
qed

subsection \<open>The timer to be visited next\<close>

text \<open>
  Removing the timer that the iteration would visit next, between two calls of
  \<open>mnet_result_next\<close>: the second of them follows a pointer into the freed node.
\<close>

lemma killed_but_next:
  assumes s: "mnet_inv s" and n: "g_heap s n = Some c" "c_state c \<noteq> CHANN_STATE_CLOSED" "c_timer_node c = Some a"
    and pos: "g_tm_pos s = Some (Link a 0)"
  shows "\<exists>t. mnet_chann_active_event env (Some n) CHANN_EVENT_TIMER 0 s = Some t \<and> mnet_result_next env t = None"
proof -
  obtain clock where clock: "g_tm_clock s = Some clock" "timers_ok clock (g_heap s)" using inv_clock [OF s] by blast
  from tm_remove_ok [OF clock(2) n(1,3)] obtain clock' nd where
    k: "skiplist_remove_skipnode clock a = Some clock'" "sl_nodes clock a = Some nd"
    "timers_ok clock' ((g_heap s)(n \<mapsto> c\<lparr>c_timer_node := None\<rparr>))"
    "sk_entries clock' = filter (\<lambda>x. fst x \<noteq> a) (sk_entries clock)" by blast
  let ?t = "s\<lparr>g_tm_clock := Some clock', g_heap := (g_heap s)(n \<mapsto> c\<lparr>c_timer_node := None\<rparr>)\<rparr>"
  have "tm_kill n s = Some ?t" using n(1,3) clock(1) k(1,2) by (simp add: tm_kill_def upd_chann_def)
  then have run: "mnet_chann_active_event env (Some n) CHANN_EVENT_TIMER 0 s = Some ?t"
    using n by (simp add: mnet_chann_active_event_def)
  have "sk_lookup clock' a = None"
    using k(4) by (auto simp: sk_lookup_entries [OF timers_ok_inv [OF k(3)]] map_of_eq_None_iff)
  then have "sl_nodes clock' a = None" by (cases "sl_nodes clock' a") (auto simp: sk_lookup_def)
  then have "get_next clock' (Link a 0) = None" by (simp add: get_next_def node_lev_def)
  then have "tm_next env ?t = None" using pos by (subst tm_next.simps) simp
  then have "mnet_result_next env ?t = None"
    unfolding mnet_result_next_def by (subst evt_result_next.simps) simp
  with run show ?thesis by blast
qed

end
