(* ===== verification/Ipport.thy ===== *)
theory Ipport
  imports Api
begin

text \<open>
  Addresses as text, src/src/mnet_core.c lines 1415--1476: the blocking resolver and the
  parser of \<open>host:port\<close>.  The library functions \<open>strchr\<close>, \<open>atoi\<close>, \<open>sprintf("%d")\<close> and
  \<open>inet_ntop\<close> are written out; \<open>getaddrinfo\<close> and \<open>getnameinfo\<close>, which ask the resolver of
  the system, are parameters.
\<close>

subsection \<open>Library functions on strings\<close>

primrec strchr :: "string \<Rightarrow> char \<Rightarrow> nat option" where
  "strchr [] c = None"
| "strchr (x # xs) c = (if x = c then Some 0 else map_option Suc (strchr xs c))"

definition isspace :: "char \<Rightarrow> bool" where
  "isspace c \<longleftrightarrow> c \<in> {CHR '' '', CHR 0x09, CHR 0x0A, CHR 0x0B, CHR 0x0C, CHR 0x0D}"

definition isdigit :: "char \<Rightarrow> bool" where
  "isdigit c \<longleftrightarrow> 48 \<le> (of_char c :: nat) \<and> (of_char c :: nat) \<le> 57"

definition digit_val :: "char \<Rightarrow> int" where
  "digit_val c = of_char c - 48"

definition digits_val :: "string \<Rightarrow> int" where
  "digits_val ds = foldl (\<lambda>v c. 10 * v + digit_val c) 0 ds"

text \<open>\<open>atoi\<close>: a value that \<open>int\<close> cannot hold is undefined behaviour and has no result.\<close>

definition atoi :: "string \<Rightarrow> int option" where
  "atoi str =
     (let xs = dropWhile isspace str;
          neg = (case xs of [] \<Rightarrow> False | x # _ \<Rightarrow> x = CHR ''-'');
          xs = (case xs of [] \<Rightarrow> [] | x # ys \<Rightarrow> if x = CHR ''-'' \<or> x = CHR ''+'' then ys else xs);
          v = digits_val (takeWhile isdigit xs);
          v = (if neg then - v else v)
      in if - (2 ^ 31) \<le> v \<and> v < 2 ^ 31 then Some v else None)"

definition digit_char :: "nat \<Rightarrow> char" where
  "digit_char d = char_of (48 + d)"

fun dec :: "nat \<Rightarrow> string" where
  "dec n = (if n < 10 then [digit_char n] else dec (n div 10) @ [digit_char (n mod 10)])"

declare dec.simps [simp del]

text \<open>\<open>inet_ntop(AF_INET, ...)\<close> of an address in network order, on a little-endian machine.\<close>

definition octet :: "32 word \<Rightarrow> nat \<Rightarrow> nat" where
  "octet a i = unat a div 256 ^ i mod 256"

definition inet_ntop :: "32 word \<Rightarrow> string" where
  "inet_ntop a = dec (octet a 0) @ ''.'' @ dec (octet a 1) @ ''.'' @ dec (octet a 2) @ ''.'' @ dec (octet a 3)"

subsection \<open>The two operations\<close>

text \<open>
  \<open>getaddrinfo\<close> gets the host, the service and whether a datagram socket is meant, and
  gives the list of addresses or fails; \<open>getnameinfo\<close> gives the numeric form of an address
  or fails, and stores it with its NUL at the start of \<open>addr->ip\<close> (at most 16 characters).
\<close>

definition mnet_resolve :: "(string \<Rightarrow> string option \<Rightarrow> bool \<Rightarrow> sockaddr_in list option) \<Rightarrow>
    (sockaddr_in \<Rightarrow> string option) \<Rightarrow> string option \<Rightarrow> int \<Rightarrow> int \<Rightarrow> chann_addr_t option \<Rightarrow>
    (int \<times> chann_addr_t option) option" where
  "mnet_resolve getaddrinfo getnameinfo host port ctype addr =
     (case (host, addr) of
        (Some h, Some a) \<Rightarrow>
          (case getaddrinfo h (if port > 0 then Some (dec (nat port)) else None)
                  (ctype = CHANN_TYPE_DGRAM \<or> ctype = CHANN_TYPE_BROADCAST) of
             None \<Rightarrow> Some (0, addr)
           | Some ai \<Rightarrow>
              (case find (\<lambda>x. length (inet_ntop (sin_addr x)) > 7) ai of
                 None \<Rightarrow> Some (0, addr)
               | Some valid_in \<Rightarrow>
                  (case getnameinfo valid_in of
                     None \<Rightarrow> Some (0, addr)
                   | Some name \<Rightarrow>
                      if length name < 16 \<and> 16 \<le> length (ca_ip a)
                      then Some (1, Some (a\<lparr>ca_ip := name @ NUL # drop (Suc (length name)) (ca_ip a), ca_port := port\<rparr>))
                      else None)))
      | _ \<Rightarrow> Some (0, addr))"

definition mnet_parse_ipport :: "string option \<Rightarrow> chann_addr_t option \<Rightarrow> (int \<times> chann_addr_t option) option" where
  "mnet_parse_ipport ipport addr =
     (case (ipport, addr) of
        (Some str, Some a) \<Rightarrow>
          (case strchr str (CHR '':'') of
             None \<Rightarrow> Some (0, addr)
           | Some k \<Rightarrow> do {
               ip \<leftarrow> (if k \<ge> 7 then do { ip \<leftarrow> wr (ca_ip a) (int k) NUL; strncpy ip str k }
                     else strncpy (ca_ip a) ''0.0.0.0'' 8);
               port \<leftarrow> atoi (drop (Suc k) str);
               Some (1, Some (a\<lparr>ca_ip := ip, ca_port := port\<rparr>))
             })
      | _ \<Rightarrow> Some (0, addr))"

subsection \<open>Decimal numbers\<close>

lemma digit_char_val: "d < 10 \<Longrightarrow> digit_val (digit_char d) = int d"
proof -
  assume "d < 10"
  then have "(of_char (digit_char d) :: nat) = 48 + d"
    unfolding digit_char_def by (simp add: of_char_of)
  then have "(of_char (digit_char d) :: int) = int (48 + d)"
    by (metis of_nat_of_char)
  then show ?thesis by (simp add: digit_val_def)
qed

lemma digit_char_isdigit: "d < 10 \<Longrightarrow> isdigit (digit_char d)"
  unfolding isdigit_def digit_char_def by (simp add: of_char_of)

lemma digits_val_snoc: "digits_val (ds @ [c]) = 10 * digits_val ds + digit_val c"
  by (simp add: digits_val_def)

lemma digits_val_dec: "digits_val (dec n) = int n"
proof (induction n rule: dec.induct)
  case (1 n)
  show ?case
  proof (cases "n < 10")
    case True
    then show ?thesis by (subst dec.simps) (simp add: digits_val_def digit_char_val)
  next
    case False
    moreover have "10 * int (n div 10) + int (n mod 10) = int n" by presburger
    ultimately show ?thesis using 1 by (subst dec.simps) (simp add: digits_val_snoc digit_char_val)
  qed
qed

lemma dec_isdigit: "c \<in> set (dec n) \<Longrightarrow> isdigit c"
proof (induction n rule: dec.induct)
  case (1 n)
  show ?case
    using 1 by (cases "n < 10") (subst (asm) (2) dec.simps, auto simp: digit_char_isdigit)+
qed

lemma dec_nonempty [simp]: "dec n \<noteq> []"
  by (subst dec.simps) simp

lemma isdigit_not: "isdigit c \<Longrightarrow> \<not> isspace c \<and> c \<noteq> CHR ''-'' \<and> c \<noteq> CHR ''+'' \<and> c \<noteq> CHR '':'' \<and> c \<noteq> NUL"
  by (auto simp: isdigit_def isspace_def NUL_def)

lemma atoi_dec: "int n < 2 ^ 31 \<Longrightarrow> atoi (dec n) = Some (int n)"
proof -
  assume n: "int n < 2 ^ 31"
  obtain c cs where c: "dec n = c # cs" using dec_nonempty [of n] by (cases "dec n") auto
  then have d: "isdigit c" "takeWhile isdigit cs = cs"
    using dec_isdigit [of _ n] by (auto simp: takeWhile_eq_all_conv)
  then show ?thesis
    using isdigit_not [OF d(1)] n digits_val_dec [of n] c d
    by (simp add: atoi_def Let_def del: takeWhile_eq_all_conv)
qed

lemma length_dec_byte: "n < 256 \<Longrightarrow> 1 \<le> length (dec n) \<and> length (dec n) \<le> 3 \<and> (length (dec n) = 1 \<longleftrightarrow> n < 10)"
  by (simp add: dec.simps [of n] dec.simps [of "n div 10"] dec.simps [of "n div 10 div 10"])

subsection \<open>Parsing\<close>

lemma strchr_append: "c \<notin> set xs \<Longrightarrow> strchr (xs @ c # ys) c = Some (length xs)"
  by (induction xs) auto

lemma strchr_None: "c \<notin> set xs \<Longrightarrow> strchr xs c = None"
  by (induction xs) auto

lemma cstr_append: "NUL \<notin> set xs \<Longrightarrow> cstr (xs @ NUL # ys) = xs"
proof -
  assume "NUL \<notin> set xs"
  then have "\<forall>x\<in>set xs. x \<noteq> NUL" by blast
  then show ?thesis by (simp add: cstr_def takeWhile_append2)
qed

lemma parse_ipport_ok:
  assumes "CHR '':'' \<notin> set host" "NUL \<notin> set host" "7 \<le> length host" "length host \<le> 16" "int port < 2 ^ 31"
    and "length (ca_ip a) = 17"
  shows "\<exists>b. mnet_parse_ipport (Some (host @ CHR '':'' # dec port)) (Some a) = Some (1, Some b) \<and>
    cstr (ca_ip b) = host \<and> ca_port b = int port \<and> length (ca_ip b) = 17"
proof -
  let ?k = "length host"
  have wr: "wr (ca_ip a) (int ?k) NUL = Some ((ca_ip a)[?k := NUL])" using assms(4,6) by (simp add: wr_def)
  have cp: "strncpy ((ca_ip a)[?k := NUL]) (host @ CHR '':'' # dec port) ?k = Some (host @ drop ?k ((ca_ip a)[?k := NUL]))"
    using assms(4,6) by (simp add: strncpy_def)
  have "drop ?k ((ca_ip a)[?k := NUL]) = NUL # drop (Suc ?k) (ca_ip a)"
    using assms(4,6) by (simp add: Cons_nth_drop_Suc [symmetric])
  then show ?thesis
    using assms wr cp
    by (simp add: mnet_parse_ipport_def strchr_append atoi_dec cstr_append)
qed

lemma parse_ipport_short:
  assumes "CHR '':'' \<notin> set host" "length host < 7" "int port < 2 ^ 31" "length (ca_ip a) = 17"
  shows "\<exists>b. mnet_parse_ipport (Some (host @ CHR '':'' # dec port)) (Some a) = Some (1, Some b) \<and>
    cstr (ca_ip b) = ''0.0.0.0'' \<and> ca_port b = int port"
  using assms
  by (simp add: mnet_parse_ipport_def strchr_append atoi_dec strncpy_def NUL_def cstr_def)

lemma parse_ipport_overflow:
  assumes "CHR '':'' \<notin> set host" "17 \<le> length host" "length (ca_ip a) = 17"
  shows "mnet_parse_ipport (Some (host @ CHR '':'' # rest)) (Some a) = None"
  using assms by (simp add: mnet_parse_ipport_def strchr_append wr_def)

lemma octet_less [simp]: "octet a i < 256"
  by (simp add: octet_def)

lemma inet_ntop_length:
  "7 \<le> length (inet_ntop a) \<and> length (inet_ntop a) \<le> 15 \<and>
   (length (inet_ntop a) = 7 \<longleftrightarrow> octet a 0 < 10 \<and> octet a 1 < 10 \<and> octet a 2 < 10 \<and> octet a 3 < 10)"
  using length_dec_byte [OF octet_less, of a 0] length_dec_byte [OF octet_less, of a 1]
    length_dec_byte [OF octet_less, of a 2] length_dec_byte [OF octet_less, of a 3]
  by (auto simp: inet_ntop_def)

subsection \<open>Properties\<close>

text \<open>
  C32: \<open>mnet_parse_ipport\<close> reads back a host of 7 to 16 characters and a
  port written in decimal: the host without its colon, terminated, in \<open>addr->ip\<close> and the port
  as a number, for every port an \<open>int\<close> can hold.
\<close>

theorem parse_ipport_roundtrip:
  assumes "CHR '':'' \<notin> set host" "NUL \<notin> set host" "7 \<le> length host" "length host \<le> 16" "int port < 2 ^ 31"
    and "length (ca_ip a) = 17"
  shows "\<exists>b. mnet_parse_ipport (Some (host @ CHR '':'' # dec port)) (Some a) = Some (1, Some b) \<and>
    cstr (ca_ip b) = host \<and> ca_port b = int port \<and> length (ca_ip b) = 17"
  using assms by (rule parse_ipport_ok)

theorem parse_ipport_roundtrip_witness:
  "\<exists>b. mnet_parse_ipport (Some (''127.0.0.1'' @ CHR '':'' # dec 8080)) (Some \<lparr>ca_ip = replicate 17 NUL, ca_port = 0\<rparr>) =
     Some (1, Some b) \<and> cstr (ca_ip b) = ''127.0.0.1'' \<and> ca_port b = 8080"
  using parse_ipport_roundtrip [of "''127.0.0.1''" 8080 "\<lparr>ca_ip = replicate 17 NUL, ca_port = 0\<rparr>"]
  by (auto simp: NUL_def)

text \<open>
  C39: the other inputs of \<open>mnet_parse_ipport\<close>.  NULL arguments and a string
  without a colon give 0 and leave the output alone; a host shorter than 7 characters is
  replaced by 0.0.0.0; a colon after 17 or more characters makes it store the terminator
  outside \<open>addr->ip[17]\<close>.
\<close>

theorem parse_ipport_cases:
  "mnet_parse_ipport None out = Some (0, out) \<and> mnet_parse_ipport str None = Some (0, None) \<and>
   (CHR '':'' \<notin> set host \<longrightarrow> mnet_parse_ipport (Some host) (Some a) = Some (0, Some a)) \<and>
   (CHR '':'' \<notin> set host \<and> length host < 7 \<and> int port < 2 ^ 31 \<and> length (ca_ip a) = 17 \<longrightarrow>
      (\<exists>b. mnet_parse_ipport (Some (host @ CHR '':'' # dec port)) (Some a) = Some (1, Some b) \<and>
        cstr (ca_ip b) = ''0.0.0.0'' \<and> ca_port b = int port)) \<and>
   (CHR '':'' \<notin> set host \<and> 17 \<le> length host \<and> length (ca_ip a) = 17 \<longrightarrow>
      mnet_parse_ipport (Some (host @ CHR '':'' # rest)) (Some a) = None)"
proof (intro conjI impI)
  assume "CHR '':'' \<notin> set host \<and> length host < 7 \<and> int port < 2 ^ 31 \<and> length (ca_ip a) = 17"
  then show "\<exists>b. mnet_parse_ipport (Some (host @ CHR '':'' # dec port)) (Some a) = Some (1, Some b) \<and>
      cstr (ca_ip b) = ''0.0.0.0'' \<and> ca_port b = int port"
    by (intro parse_ipport_short) auto
next
  assume "CHR '':'' \<notin> set host \<and> 17 \<le> length host \<and> length (ca_ip a) = 17"
  then show "mnet_parse_ipport (Some (host @ CHR '':'' # rest)) (Some a) = None"
    by (intro parse_ipport_overflow) auto
qed (simp_all add: mnet_parse_ipport_def strchr_None split: option.splits)

theorem parse_ipport_cases_witness:
  "mnet_parse_ipport (Some (''averylonghostname'' @ '':80'')) (Some \<lparr>ca_ip = replicate 17 NUL, ca_port = 0\<rparr>) = None \<and>
   (\<exists>b. mnet_parse_ipport (Some ('''' @ CHR '':'' # dec 80)) (Some \<lparr>ca_ip = replicate 17 NUL, ca_port = 0\<rparr>) = Some (1, Some b) \<and>
     cstr (ca_ip b) = ''0.0.0.0'')"
  using parse_ipport_cases [of None None "''averylonghostname''" "\<lparr>ca_ip = replicate 17 NUL, ca_port = 0\<rparr>" 80 "''80''"]
    parse_ipport_cases [of None None "''''" "\<lparr>ca_ip = replicate 17 NUL, ca_port = 0\<rparr>" 80 "''80''"]
  by auto

lemma ex_less_4: "(\<exists>i<(4 :: nat). P i) \<longleftrightarrow> P 0 \<or> P 1 \<or> P 2 \<or> P 3"
proof -
  have "i < 4 \<longleftrightarrow> i = 0 \<or> i = 1 \<or> i = 2 \<or> i = 3" for i :: nat by arith
  then show ?thesis by auto
qed

text \<open>
  \<open>mnet_resolve\<close> answers with the first address the resolver returns
  whose dotted form is longer than 7 characters, and only then; a host all of whose
  addresses have four one-digit parts (8.8.8.8, say) is reported as not resolved.  The
  system's resolver and the numeric formatter are parameters; the formatter gives the dotted
  form.
\<close>

lemma resolve_first_long:
  assumes "\<And>x. getnameinfo x = Some (inet_ntop (sin_addr x))" "length (ca_ip a) = 17"
    and "getaddrinfo h (if port > 0 then Some (dec (nat port)) else None)
      (ctype = CHANN_TYPE_DGRAM \<or> ctype = CHANN_TYPE_BROADCAST) = Some ai"
  shows "case find (\<lambda>x. \<exists>i<4. 10 \<le> octet (sin_addr x) i) ai of
      None \<Rightarrow> mnet_resolve getaddrinfo getnameinfo (Some h) port ctype (Some a) = Some (0, Some a)
    | Some x \<Rightarrow> \<exists>b. mnet_resolve getaddrinfo getnameinfo (Some h) port ctype (Some a) = Some (1, Some b) \<and>
        cstr (ca_ip b) = inet_ntop (sin_addr x) \<and> ca_port b = port"
proof -
  have four: "(\<exists>i<4. 10 \<le> octet w i) \<longleftrightarrow> 7 < length (inet_ntop w)" for w
    using inet_ntop_length [of w] by (simp add: ex_less_4) linarith
  have digits: "NUL \<notin> set (inet_ntop w)" for w
    using dec_isdigit isdigit_not by (fastforce simp: inet_ntop_def NUL_def)
  have short: "length (inet_ntop w) < 16" for w using inet_ntop_length [of w] by simp
  show ?thesis
    using assms short digits by (simp add: four mnet_resolve_def cstr_append split: option.splits)
qed

end
