(* ===== verification/Mdns.thy ===== *)
theory Mdns
  imports Prelude
begin

text \<open>
  The DNS query builder and response parser, src/extension/mdns/mdns.c.

  Buffers are lists of bytes; every access is bounds-checked and an access outside has no
  result.  The structs overlay the buffer on a little-endian machine: a 16-bit field is
  read low byte first, and the bit fields of the header fill their bytes from the least
  significant bit.  A C string is the list of its characters without the final NUL.
\<close>

subsection \<open>Data\<close>

definition QUERY_DOMAIN_LEN :: int where "QUERY_DOMAIN_LEN = 256"
definition DNS_BUF_SIZE :: nat where "DNS_BUF_SIZE = 1024"

record dns_header_t =
  h_id :: nat
  h_rd :: nat
  h_tc :: nat
  h_aa :: nat
  h_opcode :: nat
  h_qr :: nat
  h_rcode :: nat
  h_z :: nat
  h_ra :: nat
  h_qdcount :: nat
  h_ancount :: nat
  h_nscount :: nat
  h_arcount :: nat

record dns_question_t =
  q_qtype :: nat
  q_qclass :: nat

record dns_rr_data_t =
  rr_type :: nat
  rr_class :: nat
  rr_ttl :: nat
  rr_rdlen :: nat

definition sizeof_dns_header :: int where "sizeof_dns_header = 12"
definition sizeof_dns_question :: int where "sizeof_dns_question = 4"

text \<open>\<open>sizeof(dns_rr_data_t) - 2\<close>.\<close>

definition sizeof_dns_rr_data :: int where "sizeof_dns_rr_data = 12 - 2"

definition swap16 :: "nat \<Rightarrow> nat" where
  "swap16 n = (n mod 256) * 256 + n div 256 mod 256"

abbreviation htons :: "nat \<Rightarrow> nat" where "htons \<equiv> swap16"
abbreviation ntohs :: "nat \<Rightarrow> nat" where "ntohs \<equiv> swap16"

definition get16 :: "byte list \<Rightarrow> int \<Rightarrow> nat option" where
  "get16 buf i = do { lo \<leftarrow> rd buf i; hi \<leftarrow> rd buf (i + 1); Some (unat lo + 256 * unat hi) }"

definition bytes16 :: "nat \<Rightarrow> byte list" where
  "bytes16 v = [of_nat (v mod 256), of_nat (v div 256)]"

text \<open>Writing a run of bytes into a buffer.\<close>

definition blit :: "byte list \<Rightarrow> int \<Rightarrow> byte list \<Rightarrow> byte list option" where
  "blit buf off src =
     (if 0 \<le> off \<and> nat off + length src \<le> length buf
      then Some (take (nat off) buf @ src @ drop (nat off + length src) buf) else None)"

definition header_bytes :: "dns_header_t \<Rightarrow> byte list" where
  "header_bytes h = bytes16 (h_id h) @
     [of_nat (h_rd h + 2 * h_tc h + 4 * h_aa h + 8 * h_opcode h + 128 * h_qr h),
      of_nat (h_rcode h + 16 * h_z h + 128 * h_ra h)] @
     bytes16 (h_qdcount h) @ bytes16 (h_ancount h) @ bytes16 (h_nscount h) @ bytes16 (h_arcount h)"

definition get_header :: "byte list \<Rightarrow> dns_header_t option" where
  "get_header buf = do {
     id \<leftarrow> get16 buf 0;
     b2 \<leftarrow> rd buf 2;
     b3 \<leftarrow> rd buf 3;
     qd \<leftarrow> get16 buf 4; an \<leftarrow> get16 buf 6; ns \<leftarrow> get16 buf 8; ar \<leftarrow> get16 buf 10;
     Some \<lparr>h_id = id, h_rd = unat b2 mod 2, h_tc = unat b2 div 2 mod 2, h_aa = unat b2 div 4 mod 2,
       h_opcode = unat b2 div 8 mod 16, h_qr = unat b2 div 128 mod 2, h_rcode = unat b3 mod 16,
       h_z = unat b3 div 16 mod 8, h_ra = unat b3 div 128 mod 2, h_qdcount = qd, h_ancount = an,
       h_nscount = ns, h_arcount = ar\<rparr>
   }"

definition get_rr :: "byte list \<Rightarrow> int \<Rightarrow> dns_rr_data_t option" where
  "get_rr buf i = do {
     t \<leftarrow> get16 buf i; c \<leftarrow> get16 buf (i + 2); l \<leftarrow> get16 buf (i + 4); h \<leftarrow> get16 buf (i + 6); r \<leftarrow> get16 buf (i + 8);
     Some \<lparr>rr_type = t, rr_class = c, rr_ttl = l + 65536 * h, rr_rdlen = r\<rparr>
   }"

subsection \<open>Domain names\<close>

definition get_label_len :: "byte list \<Rightarrow> int \<Rightarrow> int \<Rightarrow> (int \<times> byte list) option" where
  "get_label_len buf pos llen =
     (if llen > 63 \<or> llen \<le> 0 then Some (0, buf)
      else do { buf \<leftarrow> wr buf pos (word_of_int llen); Some (1, buf) })"

text \<open>
  The loop of \<open>_construct_domain_field\<close> over the rest of the domain: the buffer, and
  \<open>i\<close>, \<open>j\<close>, \<open>dot\<close> after the loop or None when a label is invalid.
\<close>

primrec domain_loop :: "string \<Rightarrow> byte list \<Rightarrow> int \<Rightarrow> int \<Rightarrow> int \<Rightarrow> (byte list \<times> (int \<times> int \<times> int) option) option" where
  "domain_loop [] buf i j dot = Some (buf, Some (i, j, dot))"
| "domain_loop (x # xs) buf i j dot =
     (if i < QUERY_DOMAIN_LEN then
        if x = CHR ''.'' then do {
          (ok, buf) \<leftarrow> get_label_len buf j (i - j);
          if ok = 0 then Some (buf, None) else domain_loop xs buf (i + 1) (1 + i) (dot + 1)
        } else do {
          buf \<leftarrow> wr buf (1 + i) (of_char x);
          domain_loop xs buf (i + 1) j dot
        }
      else Some (buf, Some (i, j, dot)))"

definition construct_domain_field :: "byte list \<Rightarrow> string \<Rightarrow> (int \<times> byte list) option" where
  "construct_domain_field buf domain = do {
     buf \<leftarrow> wr buf 0 (of_char (CHR ''.''));
     (buf, r) \<leftarrow> domain_loop domain buf 0 0 0;
     case r of
       None \<Rightarrow> Some (0, buf)
     | Some (i, j, dot) \<Rightarrow> do {
         (ok, buf) \<leftarrow> get_label_len buf j (i - j);
         Some (if ok = 0 \<or> dot < 1 \<or> i > 255 then 0 else i + 1, buf)
       }
   }"

subsection \<open>Checking a response\<close>

definition response_check_header :: "byte list \<Rightarrow> int option" where
  "response_check_header buf = do {
     rh \<leftarrow> get_header buf;
     let code = h_rcode rh;
     Some (if h_qr rh \<noteq> 1 \<or> h_opcode rh \<noteq> 0 \<or> h_rd rh \<noteq> 1 \<or> h_z rh \<noteq> 0 \<or> h_qdcount rh \<noteq> htons 1 \<or>
              (h_ancount rh = 0 \<and> code = 0) \<or> (code \<ge> 6 \<and> code \<le> 15) then -10
           else if code \<ge> 1 \<and> code \<le> 5 then - (10 + int code)
           else 1)
   }"

text \<open>\<open>strncmp(a, b, n) == 0\<close>, reading both buffers up to a difference or a common NUL.\<close>

primrec strncmp_eq :: "nat \<Rightarrow> byte list \<Rightarrow> byte list \<Rightarrow> bool option" where
  "strncmp_eq 0 a b = Some True"
| "strncmp_eq (Suc n) a b = do {
     x \<leftarrow> rd a 0; y \<leftarrow> rd b 0;
     if x \<noteq> y then Some False else if x = 0 then Some True else strncmp_eq n (tl a) (tl b)
   }"

text \<open>
  \<open>domain_buf\<close> is an uninitialised array; its contents are a parameter.  The test of the
  question has an empty body: only its reads remain.
\<close>

definition response_check_question :: "byte list \<Rightarrow> byte list \<Rightarrow> int \<Rightarrow> string \<Rightarrow> int option" where
  "response_check_question junk buf query_size domain = do {
     let len = length domain;
     (_, domain_buf) \<leftarrow> construct_domain_field junk domain;
     eq \<leftarrow> strncmp_eq len (drop (nat sizeof_dns_header) buf) domain_buf;
     if \<not> eq then Some (-23)
     else do {
       qtype \<leftarrow> get16 buf (query_size - sizeof_dns_question);
       _ \<leftarrow> (if qtype = 0 then get16 buf (query_size - sizeof_dns_question + 2) else Some 0);
       Some 1
     }
   }"

text \<open>\<open>strlen\<close> of the bytes from an offset on: the search for NUL ends at the end of the buffer without a result.\<close>

primrec strlen :: "byte list \<Rightarrow> int option" where
  "strlen [] = None"
| "strlen (x # xs) = (if x = 0 then Some 0 else map_option (\<lambda>n. n + 1) (strlen xs))"

text \<open>The loop of \<open>_response_fetch_res\<close>, with the number of answers left.\<close>

primrec fetch_loop :: "nat \<Rightarrow> byte list \<Rightarrow> int \<Rightarrow> int \<Rightarrow> byte list \<Rightarrow> (int \<times> byte list) option" where
  "fetch_loop 0 buf content_len prev_size out_ipv4 = Some (-34, out_ipv4)"
| "fetch_loop (Suc k) buf content_len prev_size out_ipv4 =
     (if content_len \<le> prev_size + 2 + sizeof_dns_header then Some (-31, out_ipv4)
      else do {
        aname_size \<leftarrow> (if 0 \<le> prev_size then strlen (drop (nat prev_size) buf) else None);
        if aname_size < 2 \<or> content_len \<le> prev_size + aname_size + sizeof_dns_rr_data then Some (-32, out_ipv4)
        else do {
          rr \<leftarrow> get_rr buf (prev_size + aname_size);
          if content_len < prev_size + aname_size + sizeof_dns_rr_data + int (ntohs (rr_rdlen rr)) then Some (-33, out_ipv4)
          else if rr_class rr = ntohs 1 \<and> (rr_type rr = ntohs 1 \<or> rr_type rr = ntohs 12) then do {
            let offset = prev_size + aname_size + sizeof_dns_rr_data;
            out \<leftarrow> memcpy out_ipv4 (drop (nat offset) buf) 4;
            Some (1, out)
          }
          else fetch_loop k buf content_len
            (prev_size + aname_size + sizeof_dns_rr_data + int (ntohs (rr_rdlen rr))) out_ipv4
        }
      })"

definition response_fetch_res :: "byte list \<Rightarrow> int \<Rightarrow> int \<Rightarrow> byte list \<Rightarrow> (int \<times> byte list) option" where
  "response_fetch_res buf content_len query_size out_ipv4 = do {
     rh \<leftarrow> get_header buf;
     fetch_loop (ntohs (h_ancount rh)) buf content_len query_size out_ipv4
   }"

subsection \<open>Public interface\<close>

definition mdns_query_build :: "byte list option \<Rightarrow> nat \<Rightarrow> string option \<Rightarrow> (int \<times> byte list option) option" where
  "mdns_query_build buf qid domain =
     (case (buf, domain) of
        (Some b, Some dm) \<Rightarrow>
          if qid = 0 then Some (-1, buf)
          else do {
            (r, domain_buf) \<leftarrow> construct_domain_field (replicate (nat QUERY_DOMAIN_LEN) 0) dm;
            let dlen = r mod 256;
            if dlen = 0 then Some (-2, buf)
            else do {
              let query_size = sizeof_dns_header + dlen + 1 + sizeof_dns_question;
              b \<leftarrow> (if DNS_BUF_SIZE \<le> length b then Some (replicate DNS_BUF_SIZE 0 @ drop DNS_BUF_SIZE b) else None);
              b \<leftarrow> blit b 0 (header_bytes \<lparr>h_id = qid, h_rd = 1, h_tc = 0, h_aa = 0, h_opcode = 0, h_qr = 0,
                     h_rcode = 0, h_z = 0, h_ra = 0, h_qdcount = htons 1, h_ancount = 0, h_nscount = 0, h_arcount = 0\<rparr>);
              b \<leftarrow> (if nat dlen \<le> length domain_buf then blit b sizeof_dns_header (take (nat dlen) domain_buf) else None);
              b \<leftarrow> blit b (sizeof_dns_header + dlen + 1) (bytes16 (htons 1) @ bytes16 (htons 1));
              Some (query_size, Some b)
            }
          }
      | _ \<Rightarrow> Some (-1, buf))"

definition mdns_response_fetch_qid :: "byte list option \<Rightarrow> int \<Rightarrow> nat option" where
  "mdns_response_fetch_qid buf content_len = (case buf of None \<Rightarrow> Some 0 | Some b \<Rightarrow> get16 b 0)"

definition mdns_response_parse :: "byte list \<Rightarrow> byte list option \<Rightarrow> int \<Rightarrow> int \<Rightarrow> string option \<Rightarrow> byte list option \<Rightarrow>
    (int \<times> byte list option) option" where
  "mdns_response_parse junk buf content_len query_size domain out_ipv4 =
     (case (buf, domain, out_ipv4) of
        (Some b, Some dm, Some out) \<Rightarrow>
          if content_len \<le> 0 \<or> query_size \<le> 0 then Some (0, out_ipv4)
          else do {
            ret_header \<leftarrow> response_check_header b;
            ret_question \<leftarrow> response_check_question junk b query_size dm;
            (ret_res, out) \<leftarrow> response_fetch_res b content_len query_size out;
            Some (if ret_header > 0 \<and> ret_question > 0 \<and> ret_res > 0 then 1
                  else if ret_header \<le> 0 then ret_header
                  else if ret_question \<le> 0 then ret_question
                  else ret_res, Some out)
          }
      | _ \<Rightarrow> Some (0, out_ipv4))"


subsection \<open>Domain names as labels\<close>

text \<open>The labels of a domain name, and the wire format of a list of labels.\<close>

primrec labels_from :: "string \<Rightarrow> string \<Rightarrow> string list" where
  "labels_from cur [] = [cur]"
| "labels_from cur (x # xs) =
     (if x = CHR ''.'' then cur # labels_from [] xs else labels_from (cur @ [x]) xs)"

definition labels :: "string \<Rightarrow> string list" where
  "labels domain = labels_from [] domain"

definition label_ok :: "string \<Rightarrow> bool" where
  "label_ok l \<longleftrightarrow> 0 < length l \<and> length l \<le> 63"

definition encode_labels :: "string list \<Rightarrow> byte list" where
  "encode_labels ls = concat (map (\<lambda>l. of_nat (length l) # map of_char l) ls)"

text \<open>The reader of RFC 1035 for a name without compression: labels up to the empty one, and the bytes after it.\<close>

fun decode_name :: "byte list \<Rightarrow> (string list \<times> byte list) option" where
  "decode_name [] = None"
| "decode_name (n # bs) =
     (if n = 0 then Some ([], bs)
      else if 63 < n \<or> length bs < unat n then None
      else map_option (\<lambda>(ls, r). (map (\<lambda>w. char_of (unat w)) (take (unat n) bs) # ls, r)) (decode_name (drop (unat n) bs)))"

lemma labels_from_nonempty [simp]: "labels_from cur xs \<noteq> []"
  by (induction xs arbitrary: cur) auto

lemma length_encode_labels_from:
  "length (encode_labels (labels_from cur xs)) = Suc (length cur + length xs)"
  by (induction xs arbitrary: cur) (auto simp: encode_labels_def)

lemma length_encode_labels: "length (encode_labels (labels dm)) = Suc (length dm)"
  by (simp add: labels_def length_encode_labels_from)

lemma char_of_byte [simp]: "char_of (unat (of_char c :: byte)) = c"
proof -
  have "(of_char c :: byte) = of_nat (of_char c :: nat)"
    by (simp add: of_nat_of_char)
  moreover have "(of_char c :: nat) < 256"
    by (rule nat_of_char_less_256)
  ultimately show ?thesis
    by (simp add: unat_of_nat)
qed

lemma decode_encode:
  "\<forall>l\<in>set ls. label_ok l \<Longrightarrow> decode_name (encode_labels ls @ 0 # bs) = Some (ls, bs)"
proof (induction ls)
  case (Cons l ls)
  have "unat (of_nat (length l) :: byte) = length l"
    using Cons.prems by (auto simp: label_ok_def unat_of_nat)
  moreover have "(of_nat (length l) :: byte) \<noteq> 0 \<and> \<not> 63 < (of_nat (length l) :: byte)"
    using Cons.prems calculation by (auto simp: label_ok_def word_less_nat_alt)
  ultimately show ?case
    using Cons by (simp add: encode_labels_def comp_def)
qed (simp add: encode_labels_def)

definition domain_fin :: "byte list \<times> (int \<times> int \<times> int) option \<Rightarrow> (int \<times> byte list) option" where
  "domain_fin = (\<lambda>(buf, r). case r of None \<Rightarrow> Some (0, buf)
     | Some (i, j, dot) \<Rightarrow> do {
         (ok, buf) \<leftarrow> get_label_len buf j (i - j);
         Some (if ok = 0 \<or> dot < 1 \<or> i > 255 then 0 else i + 1, buf)
       })"

lemma construct_domain_field_fin:
  "construct_domain_field buf dm = do { buf \<leftarrow> wr buf 0 (of_char (CHR ''.'')); r \<leftarrow> domain_loop dm buf 0 0 0; domain_fin r }"
  by (simp add: construct_domain_field_def domain_fin_def case_prod_unfold)

lemma get_label_len_ok:
  "label_ok cur \<Longrightarrow> get_label_len (pre @ b # rest) (int (length pre)) (int (length cur)) =
     Some (1, pre @ of_nat (length cur) # rest)"
  by (auto simp: get_label_len_def label_ok_def wr_def)

lemma get_label_len_bad:
  "\<not> label_ok cur \<Longrightarrow> get_label_len buf j (int (length cur)) = Some (0, buf)"
  by (auto simp: get_label_len_def label_ok_def)

lemma domain_loop_ok:
  assumes "length pre + length cur + length xs \<le> 255" "length xs \<le> length rest"
    and "\<forall>l\<in>set (labels_from cur xs). label_ok l"
  shows "Option.bind (domain_loop xs (pre @ b # map of_char cur @ rest) (int (length pre + length cur)) (int (length pre)) dot)
           domain_fin =
         Some (if dot + int (length (labels_from cur xs)) < 2 then 0 else int (length pre + length cur + length xs) + 1,
               pre @ encode_labels (labels_from cur xs) @ drop (length xs) rest)"
  using assms
proof (induction xs arbitrary: pre cur rest b dot)
  case Nil
  then show ?case
    using get_label_len_ok [of cur pre b "map of_char cur @ rest"]
    by (auto simp: domain_fin_def encode_labels_def)
next
  case (Cons x xs)
  then obtain y ys where rest: "rest = y # ys" by (cases rest) auto
  show ?case
  proof (cases "x = CHR ''.''")
    case True
    then have "label_ok cur" using Cons.prems by simp
    then show ?thesis
      using Cons.IH [of "pre @ of_nat (length cur) # map of_char cur" "[]" ys y "dot + 1"] Cons.prems rest True
        get_label_len_ok [of cur pre b "map of_char cur @ rest"]
      by (auto simp: QUERY_DOMAIN_LEN_def encode_labels_def algebra_simps)
  next
    case False
    have "wr (pre @ b # map of_char cur @ y # ys) (1 + int (length pre + length cur)) (of_char x) =
        Some (pre @ b # map of_char (cur @ [x]) @ ys)"
      by (auto simp: wr_def list_update_append nat_add_distrib)
    then show ?thesis
      using Cons.IH [of pre "cur @ [x]" ys b dot] Cons.prems rest False
      by (auto simp: QUERY_DOMAIN_LEN_def algebra_simps)
  qed
qed


lemma domain_loop_bad:
  assumes "length pre + length cur + length xs \<le> 255" "length xs \<le> length rest"
    and "\<exists>l\<in>set (labels_from cur xs). \<not> label_ok l"
  shows "\<exists>buf. Option.bind (domain_loop xs (pre @ b # map of_char cur @ rest) (int (length pre + length cur))
           (int (length pre)) dot) domain_fin = Some (0, buf)"
  using assms
proof (induction xs arbitrary: pre cur rest b dot)
  case Nil
  then show ?case by (auto simp: domain_fin_def get_label_len_bad)
next
  case (Cons x xs)
  then obtain y ys where rest: "rest = y # ys" by (cases rest) auto
  show ?case
  proof (cases "x = CHR ''.''")
    case True
    show ?thesis
    proof (cases "label_ok cur")
      case ok: True
      then show ?thesis
        using Cons.IH [of "pre @ of_nat (length cur) # map of_char cur" "[]" ys y "dot + 1"] Cons.prems rest True
          get_label_len_ok [of cur pre b "map of_char cur @ rest"]
        by (auto simp: QUERY_DOMAIN_LEN_def algebra_simps)
    next
      case False
      then show ?thesis
        using Cons.prems True by (auto simp: QUERY_DOMAIN_LEN_def domain_fin_def get_label_len_bad)
    qed
  next
    case False
    have "wr (pre @ b # map of_char cur @ y # ys) (1 + int (length pre + length cur)) (of_char x) =
        Some (pre @ b # map of_char (cur @ [x]) @ ys)"
      by (auto simp: wr_def list_update_append nat_add_distrib)
    then show ?thesis
      using Cons.IH [of pre "cur @ [x]" ys b dot] Cons.prems rest False
      by (auto simp: QUERY_DOMAIN_LEN_def algebra_simps)
  qed
qed

definition valid_domain :: "string \<Rightarrow> bool" where
  "valid_domain dm \<longleftrightarrow> 2 \<le> length (labels dm) \<and> (\<forall>l\<in>set (labels dm). label_ok l)"

lemma construct_domain_ok:
  assumes "valid_domain dm" "length dm \<le> 255" "256 \<le> length buf"
  shows "construct_domain_field buf dm =
    Some (int (length dm) + 1, encode_labels (labels dm) @ drop (Suc (length dm)) buf)"
proof -
  obtain y ys where buf: "buf = y # ys" using assms(3) by (cases buf) auto
  show ?thesis
    using domain_loop_ok [of "[]" "[]" dm ys "of_char (CHR ''.'')" 0] assms buf
    by (auto simp: construct_domain_field_fin valid_domain_def labels_def wr_def)
qed

lemma construct_domain_bad:
  assumes "\<not> valid_domain dm" "length dm \<le> 255" "256 \<le> length buf"
  shows "\<exists>b. construct_domain_field buf dm = Some (0, b)"
proof -
  obtain y ys where buf: "buf = y # ys" using assms(3) by (cases buf) auto
  show ?thesis
  proof (cases "\<forall>l\<in>set (labels dm). label_ok l")
    case True
    then show ?thesis
      using domain_loop_ok [of "[]" "[]" dm ys "of_char (CHR ''.'')" 0] assms buf
      by (auto simp: construct_domain_field_fin valid_domain_def labels_def wr_def)
  next
    case False
    then show ?thesis
      using domain_loop_bad [of "[]" "[]" dm ys "of_char (CHR ''.'')" 0] assms buf
      by (auto simp: construct_domain_field_fin labels_def wr_def)
  qed
qed

lemma domain_loop_overrun:
  assumes "length buf = 256" "i + k = 255" "k < length xs" "xs ! k \<noteq> CHR ''.''" "j = int i - int (length cur)" "0 \<le> j"
    and "\<forall>l\<in>set (butlast (labels_from cur (take k xs))). label_ok l"
  shows "domain_loop xs buf (int i) j dot = None"
  using assms
proof (induction xs arbitrary: buf i k cur j dot)
  case (Cons x xs)
  show ?case
  proof (cases k)
    case 0
    then show ?thesis using Cons.prems by (auto simp: QUERY_DOMAIN_LEN_def wr_def)
  next
    case (Suc k')
    show ?thesis
    proof (cases "x = CHR ''.''")
      case True
      then have "label_ok cur" "\<forall>l\<in>set (butlast (labels_from [] (take k' xs))). label_ok l"
        using Cons.prems Suc by auto
      moreover have ij: "int i - j = int (length cur)" "nat j < 256"
        using Cons.prems by auto
      ultimately have "get_label_len buf j (int (length cur)) = Some (1, buf[nat j := of_nat (length cur)])"
        using Cons.prems by (auto simp: get_label_len_def wr_def label_ok_def)
      then show ?thesis
        using Cons.IH [of "buf[nat j := of_nat (length cur)]" "Suc i" k' "1 + int i" "[]" "dot + 1"] Cons.prems(1,2,3,4,7) Suc True ij
        by (simp add: QUERY_DOMAIN_LEN_def add.commute)
    next
      case False
      then show ?thesis
        using Cons.IH [of "buf[nat (1 + int i) := of_char x]" "Suc i" k' j "cur @ [x]" dot] Cons.prems Suc
        by (simp add: QUERY_DOMAIN_LEN_def wr_def add.commute)
    qed
  qed
qed simp

subsection \<open>Queries\<close>

lemma unat_byte: "n < 256 \<Longrightarrow> unat (of_nat n :: byte) = n"
  by (simp add: unat_of_nat)

lemma swap16_swap16 [simp]: "n < 65536 \<Longrightarrow> swap16 (swap16 n) = n"
  by (simp add: swap16_def)

lemma swap16_less [simp]: "swap16 n < 65536"
  by (simp add: swap16_def)

lemma get16_append:
  "get16 (A @ [of_nat a, of_nat b] @ B) (int (length A)) = Some (a mod 256 + 256 * (b mod 256))"
  by (auto simp: get16_def rd_def nth_append nat_add_distrib unat_of_nat)


lemma bytes16_get: "v < 65536 \<Longrightarrow> get16 (A @ bytes16 v @ B) (int (length A)) = Some v"
  using get16_append [of A "v mod 256" "v div 256" B] by (simp add: bytes16_def)

lemma length_bytes16 [simp]: "length (bytes16 v) = 2"
  by (simp add: bytes16_def)

text \<open>A header whose fields fit their bit fields.\<close>

definition header_ok :: "dns_header_t \<Rightarrow> bool" where
  "header_ok h \<longleftrightarrow> h_id h < 65536 \<and> h_rd h < 2 \<and> h_tc h < 2 \<and> h_aa h < 2 \<and> h_opcode h < 16 \<and> h_qr h < 2 \<and>
     h_rcode h < 16 \<and> h_z h < 8 \<and> h_ra h < 2 \<and> h_qdcount h < 65536 \<and> h_ancount h < 65536 \<and>
     h_nscount h < 65536 \<and> h_arcount h < 65536"

lemma length_header_bytes [simp]: "length (header_bytes h) = 12"
  by (simp add: header_bytes_def)

lemma low_digit: "(a :: nat) < m \<Longrightarrow> (a + m * b) mod m = a"
  by simp

lemma high_digits: "(a :: nat) < m \<Longrightarrow> (a + m * b) div m = b"
  by simp

lemma flag_bits:
  fixes rd tc aa op qr :: nat
  assumes "rd < 2" "tc < 2" "aa < 2" "op < 16" "qr < 2" "b = rd + 2 * tc + 4 * aa + 8 * op + 128 * qr"
  shows "b mod 2 = rd" "b div 2 mod 2 = tc" "b div 4 mod 2 = aa" "b div 8 mod 16 = op" "b div 128 mod 2 = qr" "b < 256"
proof -
  have b: "b = rd + 2 * (tc + 2 * (aa + 2 * (op + 16 * qr)))" using assms(6) by simp
  have d2: "b div 2 = tc + 2 * (aa + 2 * (op + 16 * qr))" unfolding b by (rule high_digits [OF assms(1)])
  have d4: "b div 4 = aa + 2 * (op + 16 * qr)"
    using div_mult2_eq [of b 2 2] d2 high_digits [OF assms(2)] by simp
  have d8: "b div 8 = op + 16 * qr"
    using div_mult2_eq [of b 4 2] d4 high_digits [OF assms(3)] by simp
  have d128: "b div 128 = qr"
    using div_mult2_eq [of b 8 16] d8 high_digits [OF assms(4)] by simp
  show "b mod 2 = rd" unfolding b by (rule low_digit [OF assms(1)])
  show "b div 2 mod 2 = tc" "b div 4 mod 2 = aa" "b div 8 mod 16 = op" "b div 128 mod 2 = qr"
    unfolding d2 d4 d8 d128 using assms by (simp_all only: low_digit mod_less)
  show "b < 256" using assms by linarith
qed

lemma code_bits:
  fixes rc z ra :: nat
  assumes "rc < 16" "z < 8" "ra < 2" "b = rc + 16 * z + 128 * ra"
  shows "b mod 16 = rc" "b div 16 mod 8 = z" "b div 128 mod 2 = ra" "b < 256"
proof -
  have b: "b = rc + 16 * (z + 8 * ra)" using assms(4) by simp
  have d16: "b div 16 = z + 8 * ra" unfolding b by (rule high_digits [OF assms(1)])
  have d128: "b div 128 = ra"
    using div_mult2_eq [of b 16 8] d16 high_digits [OF assms(2)] by simp
  show "b mod 16 = rc" unfolding b by (rule low_digit [OF assms(1)])
  show "b div 16 mod 8 = z" "b div 128 mod 2 = ra"
    unfolding d16 d128 using assms by (simp_all only: low_digit mod_less)
  show "b < 256" using assms by linarith
qed

lemma get_header_bytes:
  assumes "header_ok h"
  shows "get_header (header_bytes h @ B) = Some h"
proof -
  define b2 :: nat where "b2 = h_rd h + 2 * h_tc h + 4 * h_aa h + 8 * h_opcode h + 128 * h_qr h"
  define b3 :: nat where "b3 = h_rcode h + 16 * h_z h + 128 * h_ra h"
  have flags: "h_rd h < 2" "h_tc h < 2" "h_aa h < 2" "h_opcode h < 16" "h_qr h < 2" "h_rcode h < 16" "h_z h < 8" "h_ra h < 2"
    using assms by (simp_all add: header_ok_def)
  note bits = flag_bits [OF flags(1-5) b2_def] code_bits [OF flags(6-8) b3_def]
  let ?b = "header_bytes h @ B"
  have b: "?b = bytes16 (h_id h) @ of_nat b2 # of_nat b3 #
      bytes16 (h_qdcount h) @ bytes16 (h_ancount h) @ bytes16 (h_nscount h) @ bytes16 (h_arcount h) @ B"
    by (simp add: header_bytes_def b2_def b3_def)
  have "get16 ?b 0 = Some (h_id h)" "get16 ?b 4 = Some (h_qdcount h)" "get16 ?b 6 = Some (h_ancount h)"
       "get16 ?b 8 = Some (h_nscount h)" "get16 ?b 10 = Some (h_arcount h)"
    using assms bytes16_get [of "h_id h" "[]"]
      bytes16_get [of "h_qdcount h" "bytes16 (h_id h) @ [of_nat b2, of_nat b3]"]
      bytes16_get [of "h_ancount h" "bytes16 (h_id h) @ [of_nat b2, of_nat b3] @ bytes16 (h_qdcount h)"]
      bytes16_get [of "h_nscount h" "bytes16 (h_id h) @ [of_nat b2, of_nat b3] @ bytes16 (h_qdcount h) @ bytes16 (h_ancount h)"]
      bytes16_get [of "h_arcount h" "bytes16 (h_id h) @ [of_nat b2, of_nat b3] @ bytes16 (h_qdcount h) @
        bytes16 (h_ancount h) @ bytes16 (h_nscount h)"]
    unfolding b by (simp_all add: header_ok_def)
  moreover have "rd ?b 2 = Some (of_nat b2)" "rd ?b 3 = Some (of_nat b3)"
    unfolding b by (simp_all add: rd_def nth_append)
  ultimately show ?thesis
    using bits(6,10) by (simp add: get_header_def unat_byte bits)
qed

lemma blit_ok: "length B = length src \<Longrightarrow> blit (A @ B @ C) (int (length A)) src = Some (A @ src @ C)"
  by (simp add: blit_def)

definition query_header :: "nat \<Rightarrow> dns_header_t" where
  "query_header qid = \<lparr>h_id = qid, h_rd = 1, h_tc = 0, h_aa = 0, h_opcode = 0, h_qr = 0, h_rcode = 0, h_z = 0,
     h_ra = 0, h_qdcount = htons 1, h_ancount = 0, h_nscount = 0, h_arcount = 0\<rparr>"

lemma query_build_bytes:
  assumes "0 < qid" "valid_domain dm" "length dm \<le> 254" "1024 \<le> length buf"
  shows "mdns_query_build (Some buf) qid (Some dm) =
    Some (18 + int (length dm), Some (header_bytes (query_header qid) @ encode_labels (labels dm) @ 0 # [0, 1, 0, 1] @
      replicate (1024 - (18 + length dm)) 0 @ drop 1024 buf))"
proof -
  let ?n = "Suc (length dm)"
  let ?h = "header_bytes (query_header qid)" and ?e = "encode_labels (labels dm)"
  let ?r = "replicate (1024 - (18 + length dm)) 0 @ drop 1024 buf"
  have zero: "replicate 1024 0 @ drop 1024 buf = [] @ replicate 12 0 @ (replicate ?n 0 @ (0 # replicate 4 0 @ ?r))"
  proof -
    have "(1024 :: nat) = 12 + (?n + (1 + (4 + (1024 - (18 + length dm)))))"
      using assms(3) by simp
    then have "replicate 1024 (0 :: byte) = replicate (12 + (?n + (1 + (4 + (1024 - (18 + length dm)))))) 0"
      by (rule arg_cong)
    then show ?thesis
      unfolding replicate_add by simp
  qed
  have b1: "blit (replicate 1024 0 @ drop 1024 buf) 0 ?h = Some (?h @ (replicate ?n 0 @ (0 # replicate 4 0 @ ?r)))"
    using blit_ok [of "replicate 12 0" ?h "[]"] unfolding zero by simp
  have b2: "blit (?h @ (replicate ?n 0 @ (0 # replicate 4 0 @ ?r))) 12 ?e = Some (?h @ ?e @ (0 # replicate 4 0 @ ?r))"
    using blit_ok [of "replicate ?n 0" ?e ?h] by (simp add: length_encode_labels)
  have b3: "blit (?h @ ?e @ (0 # replicate 4 0 @ ?r)) (12 + int ?n + 1) [0, 1, 0, 1] = Some (?h @ ?e @ 0 # [0, 1, 0, 1] @ ?r)"
    using blit_ok [of "replicate 4 0" "[0, 1, 0, 1]" "?h @ ?e @ [0]" ?r] by (simp add: length_encode_labels)
  have q: "bytes16 (htons (Suc 0)) @ bytes16 (htons (Suc 0)) = [0, 1, 0, 1]"
    by (simp add: swap16_def bytes16_def)
  have d: "(int (length dm) + 1) mod 256 = int ?n" "int ?n \<noteq> 0" using assms(3) by simp_all
  show ?thesis
    using assms b1 b2 b3 unfolding query_header_def
    by (simp add: mdns_query_build_def construct_domain_ok QUERY_DOMAIN_LEN_def DNS_BUF_SIZE_def sizeof_dns_header_def
        sizeof_dns_question_def d q length_encode_labels Let_def query_header_def)
qed


subsection \<open>Responses\<close>

text \<open>
  A resource record as name servers send it: the owner name is a pointer to the name of the
  question, at offset 12.
\<close>

record answer =
  a_type :: nat
  a_class :: nat
  a_ttl :: nat
  a_rdata :: "byte list"

definition answer_bytes :: "answer \<Rightarrow> byte list" where
  "answer_bytes a = [0xC0, 0x0C] @ bytes16 (swap16 (a_type a)) @ bytes16 (swap16 (a_class a)) @
     bytes16 (swap16 (a_ttl a div 65536)) @ bytes16 (swap16 (a_ttl a mod 65536)) @
     bytes16 (swap16 (length (a_rdata a))) @ a_rdata a"

definition answer_ip :: "answer \<Rightarrow> bool" where
  "answer_ip a \<longleftrightarrow> a_class a = 1 \<and> (a_type a = 1 \<or> a_type a = 12)"

text \<open>
  The records the parser reads correctly: their type is below 256, so that the byte after the
  pointer is the zero at which the code's \<open>strlen\<close> stops, and an address is complete.
\<close>

definition answer_ok :: "answer \<Rightarrow> bool" where
  "answer_ok a \<longleftrightarrow> a_type a < 256 \<and> a_class a < 65536 \<and> length (a_rdata a) < 65536 \<and>
     (answer_ip a \<longrightarrow> 4 \<le> length (a_rdata a))"

definition answers_bytes :: "answer list \<Rightarrow> byte list" where
  "answers_bytes as = concat (map answer_bytes as)"

lemma length_answer_bytes [simp]: "length (answer_bytes a) = 12 + length (a_rdata a)"
  by (simp add: answer_bytes_def)

lemma swap16_inj: "a < 65536 \<Longrightarrow> b < 65536 \<Longrightarrow> swap16 a = swap16 b \<longleftrightarrow> a = b"
  by (metis swap16_swap16)

lemma strlen_answer: "a_type a < 256 \<Longrightarrow> strlen (answer_bytes a @ B) = Some 2"
  by (simp add: answer_bytes_def bytes16_def swap16_def)

text \<open>A record of a larger type, say CAA (257): the parser does not find the end of the owner's name.\<close>

lemma strlen_nonneg: "strlen xs = Some n \<Longrightarrow> 0 \<le> n"
  by (induction xs arbitrary: n) (auto split: if_splits)

lemma strlen_wide_type:
  assumes "256 \<le> a_type a" "a_type a < 65536" shows "strlen (answer_bytes a @ B) \<noteq> Some 2"
proof -
  have "swap16 (a_type a) mod 256 = a_type a div 256" using assms(2) by (simp add: swap16_def)
  moreover have "0 < a_type a div 256" "a_type a div 256 < 256" using assms by (auto simp: div_less_iff_less_mult less_eq_div_iff_mult_less_eq)
  ultimately have "(of_nat (swap16 (a_type a) mod 256) :: byte) \<noteq> 0" using unat_byte [of "a_type a div 256"] by force
  then show ?thesis by (auto simp: answer_bytes_def bytes16_def dest!: strlen_nonneg)
qed

lemma get_rr_answer:
  assumes "answer_ok a"
  shows "\<exists>rr. get_rr (A @ answer_bytes a @ B) (int (length A) + 2) = Some rr \<and> rr_type rr = swap16 (a_type a) \<and>
    rr_class rr = swap16 (a_class a) \<and> rr_rdlen rr = swap16 (length (a_rdata a))"
proof -
  let ?t = "bytes16 (swap16 (a_type a))" and ?c = "bytes16 (swap16 (a_class a))"
  let ?h = "bytes16 (swap16 (a_ttl a div 65536))" and ?l = "bytes16 (swap16 (a_ttl a mod 65536))"
  let ?r = "bytes16 (swap16 (length (a_rdata a)))" and ?D = "a_rdata a @ B"
  let ?b = "A @ answer_bytes a @ B" and ?P = "A @ [0xC0, 0x0C]"
  have b: "?b = ?P @ ?t @ ?c @ ?h @ ?l @ ?r @ ?D" by (simp add: answer_bytes_def)
  have "get16 ?b (int (length A) + 2) = Some (swap16 (a_type a))"
       "get16 ?b (int (length A) + 4) = Some (swap16 (a_class a))"
       "get16 ?b (int (length A) + 6) = Some (swap16 (a_ttl a div 65536))"
       "get16 ?b (int (length A) + 8) = Some (swap16 (a_ttl a mod 65536))"
       "get16 ?b (int (length A) + 10) = Some (swap16 (length (a_rdata a)))"
    using bytes16_get [of "swap16 (a_type a)" ?P "?c @ ?h @ ?l @ ?r @ ?D"]
      bytes16_get [of "swap16 (a_class a)" "?P @ ?t" "?h @ ?l @ ?r @ ?D"]
      bytes16_get [of "swap16 (a_ttl a div 65536)" "?P @ ?t @ ?c" "?l @ ?r @ ?D"]
      bytes16_get [of "swap16 (a_ttl a mod 65536)" "?P @ ?t @ ?c @ ?h" "?r @ ?D"]
      bytes16_get [of "swap16 (length (a_rdata a))" "?P @ ?t @ ?c @ ?h @ ?l" "?D"]
    unfolding b by (simp_all add: algebra_simps)
  then show ?thesis
    by (simp add: get_rr_def algebra_simps)
qed

text \<open>The result the answers of a response call for.\<close>

definition answers_result :: "answer list \<Rightarrow> byte list \<Rightarrow> int \<times> byte list" where
  "answers_result as out = (case find answer_ip as of
     None \<Rightarrow> (if as \<noteq> [] \<and> length (a_rdata (last as)) < 3 then -31 else -34, out) | Some a \<Rightarrow> (1, take 4 (a_rdata a) @ drop 4 out))"

lemma fetch_loop_ok:
  assumes "\<forall>a\<in>set as. answer_ok a" "4 \<le> length out"
    and "content_len = int (length A + length (answers_bytes as))"
  shows "fetch_loop (length as) (A @ answers_bytes as @ B) content_len (int (length A)) out = Some (answers_result as out)"
  using assms
proof (induction as arbitrary: A)
  case Nil
  then show ?case by (simp add: answers_result_def)
next
  case (Cons a as)
  let ?R = "answers_bytes as @ B"
  have a: "answer_ok a" using Cons.prems by simp
  obtain rr where rr: "get_rr (A @ answer_bytes a @ ?R) (int (length A) + 2) = Some rr" "rr_type rr = swap16 (a_type a)"
      "rr_class rr = swap16 (a_class a)" "rr_rdlen rr = swap16 (length (a_rdata a))"
    using get_rr_answer [OF a] by blast
  have len: "ntohs (rr_rdlen rr) = length (a_rdata a)" using a rr(4) by (simp add: answer_ok_def)
  have ip: "(rr_class rr = ntohs (Suc 0) \<and> (rr_type rr = ntohs (Suc 0) \<or> rr_type rr = ntohs 12)) = answer_ip a"
    using a rr(2,3) by (simp add: answer_ok_def answer_ip_def swap16_inj)
  have bytes: "answers_bytes (a # as) = answer_bytes a @ answers_bytes as" by (simp add: answers_bytes_def)
  have str: "strlen (answer_bytes a @ ?R) = Some 2" using a by (simp add: answer_ok_def strlen_answer)
  have cl: "content_len = int (length A) + 12 + int (length (a_rdata a)) + int (length (answers_bytes as))"
    using Cons.prems(3) by (simp add: bytes)
  have more: "12 \<le> length (answers_bytes as)" if "as \<noteq> []" using that by (cases as) (simp_all add: answers_bytes_def)
  show ?case
  proof (cases "answer_ip a")
    case True
    have "drop (length A + 12) (A @ answer_bytes a @ ?R) = a_rdata a @ ?R"
      by (simp add: answer_bytes_def bytes16_def)
    moreover have "memcpy out (a_rdata a @ ?R) 4 = Some (take 4 (a_rdata a) @ drop 4 out)"
      using a True Cons.prems(2) by (simp add: memcpy_def answer_ok_def)
    ultimately show ?thesis
      using True cl str rr(1) ip len a
      by (simp add: answer_ok_def bytes sizeof_dns_header_def sizeof_dns_rr_data_def answers_result_def nat_add_distrib)
  next
    case False
    show ?thesis
    proof (cases "as = [] \<and> length (a_rdata a) < 3")
      case True
      then show ?thesis using False cl by (simp add: bytes sizeof_dns_header_def answers_result_def answers_bytes_def)
    next
      case long: False
      then have "answers_result (a # as) out = answers_result as out"
        using False by (cases "as = []") (auto simp: answers_result_def)
      moreover have "2 < int (length (a_rdata a)) + int (length (answers_bytes as))" using long more by (cases "as = []") auto
      ultimately show ?thesis
        using False cl str rr(1) ip len Cons.IH [of "A @ answer_bytes a"] Cons.prems
        by (auto simp: bytes sizeof_dns_header_def sizeof_dns_rr_data_def algebra_simps)
    qed
  qed
qed

text \<open>A response repeats the question of the query and adds the answers.\<close>

definition response_header :: "dns_header_t \<Rightarrow> nat \<Rightarrow> bool" where
  "response_header h n \<longleftrightarrow> header_ok h \<and> h_qr h = 1 \<and> h_opcode h = 0 \<and> h_rd h = 1 \<and> h_z h = 0 \<and> h_rcode h = 0 \<and>
     h_qdcount h = htons 1 \<and> h_ancount h = htons n"

definition response_bytes :: "dns_header_t \<Rightarrow> string \<Rightarrow> answer list \<Rightarrow> byte list" where
  "response_bytes h dm as = header_bytes h @ encode_labels (labels dm) @ 0 # [0, 1, 0, 1] @ answers_bytes as"

lemma strncmp_eq_same: "n \<le> length A \<Longrightarrow> strncmp_eq n (A @ B) (A @ C) = Some True"
proof (induction n arbitrary: A)
  case (Suc n)
  then obtain x xs where "A = x # xs" by (cases A) auto
  then show ?case using Suc by (simp add: rd_def)
qed simp

lemma check_header_ok: "response_header h n \<Longrightarrow> 0 < n \<Longrightarrow> n < 65536 \<Longrightarrow> response_check_header (header_bytes h @ B) = Some 1"
proof -
  assume h: "response_header h n" and n: "0 < n" "n < 65536"
  have "h_ancount h \<noteq> 0" using h n swap16_inj [of n 0] by (auto simp: response_header_def swap16_def)
  then show ?thesis
    using h by (simp add: response_check_header_def get_header_bytes response_header_def)
qed

lemma get16_in: "0 \<le> i \<Longrightarrow> i + 1 < int (length buf) \<Longrightarrow> \<exists>v. get16 buf i = Some v"
  by (simp add: get16_def rd_def nat_less_iff)

lemma check_question_ok:
  assumes "valid_domain dm" "length dm \<le> 254" "length junk = 256"
  shows "response_check_question junk (response_bytes h dm as) (18 + int (length dm)) dm = Some 1"
proof -
  have "strncmp_eq (length dm) (encode_labels (labels dm) @ 0 # [0, 1, 0, 1] @ answers_bytes as)
      (encode_labels (labels dm) @ drop (Suc (length dm)) junk) = Some True"
    by (rule strncmp_eq_same) (simp add: length_encode_labels)
  moreover have "int (length (response_bytes h dm as)) = 18 + int (length dm) + int (length (answers_bytes as))"
    by (simp add: response_bytes_def length_encode_labels)
  moreover obtain t where "get16 (response_bytes h dm as) (14 + int (length dm)) = Some t"
    using calculation(2) get16_in [of "14 + int (length dm)" "response_bytes h dm as"] by auto
  moreover obtain c where "get16 (response_bytes h dm as) (16 + int (length dm)) = Some c"
    using calculation(2) get16_in [of "16 + int (length dm)" "response_bytes h dm as"] by auto
  moreover have "drop 12 (response_bytes h dm as) = encode_labels (labels dm) @ 0 # [0, 1, 0, 1] @ answers_bytes as"
    by (simp add: response_bytes_def)
  ultimately show ?thesis
    using assms
    by (simp add: response_check_question_def construct_domain_ok sizeof_dns_header_def sizeof_dns_question_def)
qed

lemma response_parse_bytes:
  assumes "response_header h (length as)" "valid_domain dm" "length dm \<le> 254" "length junk = 256"
    and "as \<noteq> []" "length as < 65536" "\<forall>a\<in>set as. answer_ok a" "4 \<le> length out"
  shows "mdns_response_parse junk (Some (response_bytes h dm as)) (int (length (response_bytes h dm as)))
      (18 + int (length dm)) (Some dm) (Some out) =
    Some (map_prod id Some (answers_result as out))"
proof -
  let ?A = "header_bytes h @ encode_labels (labels dm) @ 0 # [0, 1, 0, 1]"
  have b: "response_bytes h dm as = ?A @ answers_bytes as @ []" by (simp add: response_bytes_def)
  have A: "length ?A = 18 + length dm" by (simp add: length_encode_labels)
  have "fetch_loop (length as) (response_bytes h dm as) (int (length (response_bytes h dm as))) (18 + int (length dm)) out =
      Some (answers_result as out)"
    using fetch_loop_ok [OF assms(7,8), of "int (length (response_bytes h dm as))" ?A "[]"] unfolding b A
    by (simp add: length_encode_labels)
  moreover have "ntohs (h_ancount h) = length as" "get_header (response_bytes h dm as) = Some h"
    using assms(1,6) by (simp_all add: response_header_def response_bytes_def get_header_bytes)
  ultimately have "response_fetch_res (response_bytes h dm as) (int (length (response_bytes h dm as))) (18 + int (length dm)) out =
      Some (answers_result as out)"
    by (simp add: response_fetch_res_def)
  moreover have "response_check_header (response_bytes h dm as) = Some 1"
    using check_header_ok [OF assms(1)] assms(5,6) by (simp add: response_bytes_def)
  moreover have "0 < length (response_bytes h dm as)" by (simp add: response_bytes_def)
  ultimately show ?thesis
    using check_question_ok [OF assms(2-4)]
    by (auto simp: mdns_response_parse_def answers_result_def split: option.splits)
qed

subsection \<open>Properties\<close>

text \<open>
  C8: a query that \<open>mdns_query_build\<close> writes is read back.  For a valid
  domain of at most 254 characters and a non-zero id, the buffer holds a header with that
  id, the recursion flag and one question; decoding the name at offset 12 as RFC 1035 says
  gives the labels of the domain; after it come type A and class IN; the returned size is
  the offset after them; and \<open>mdns_response_fetch_qid\<close> returns the id.
\<close>

theorem mdns_query_roundtrip:
  assumes "0 < qid" "qid < 65536" "valid_domain dm" "length dm \<le> 254" "1024 \<le> length buf"
  shows "\<exists>b rest. mdns_query_build (Some buf) qid (Some dm) = Some (18 + int (length dm), Some b) \<and>
    length b = length buf \<and> get_header b = Some (query_header qid) \<and>
    decode_name (drop 12 b) = Some (labels dm, [0, 1, 0, 1] @ rest) \<and>
    mdns_response_fetch_qid (Some b) n = Some qid"
proof -
  let ?rest = "replicate (1024 - (18 + length dm)) 0 @ drop 1024 buf"
  let ?b = "header_bytes (query_header qid) @ encode_labels (labels dm) @ 0 # [0, 1, 0, 1] @ ?rest"
  have "header_ok (query_header qid)" using assms(2) by (simp add: header_ok_def query_header_def swap16_def)
  then have h: "get_header ?b = Some (query_header qid)" by (rule get_header_bytes)
  have "get16 ?b 0 = Some qid"
    using bytes16_get [OF assms(2), of "[]"] by (simp add: header_bytes_def query_header_def)
  moreover have "decode_name (drop 12 ?b) = Some (labels dm, [0, 1, 0, 1] @ ?rest)"
    using decode_encode [of "labels dm" "[0, 1, 0, 1] @ ?rest"] assms(3) by (simp add: valid_domain_def)
  moreover have "length ?b = length buf" using assms(4,5) by (simp add: length_encode_labels)
  ultimately show ?thesis
    using h query_build_bytes [OF assms(1,3,4,5)] by (auto simp: mdns_response_fetch_qid_def)
qed

theorem mdns_query_roundtrip_witness:
  "valid_domain ''a.bc'' \<and>
   (\<exists>b rest. mdns_query_build (Some (replicate 1024 0)) 7 (Some ''a.bc'') = Some (22, Some b) \<and>
      decode_name (drop 12 b) = Some ([''a'', ''bc''], [0, 1, 0, 1] @ rest))"
proof -
  have v: "valid_domain ''a.bc''" "labels ''a.bc'' = [''a'', ''bc'']"
    by (simp_all add: valid_domain_def labels_def label_ok_def)
  then show ?thesis
    using mdns_query_roundtrip [of 7 "''a.bc''" "replicate 1024 0" 0] by (auto simp del: replicate.simps)
qed

text \<open>
  The errors of \<open>mdns_query_build\<close>.  A NULL buffer, a NULL domain or
  the id 0 gives -1; a domain of at most 255 characters that is not valid (fewer than two
  labels, an empty label, or one longer than 63) gives -2; so does every valid domain of
  exactly 255 characters, whose encoded length 256 does not fit the \<open>uint8_t\<close> it is kept in.
  In each case the buffer is not written.
\<close>

lemma mdns_query_rejects:
  "mdns_query_build None qid d = Some (-1, None) \<and> mdns_query_build b qid None = Some (-1, b) \<and>
   mdns_query_build b 0 d = Some (-1, b) \<and>
   (0 < qid \<and> length dm \<le> 255 \<and> (\<not> valid_domain dm \<or> length dm = 255) \<longrightarrow>
     mdns_query_build (Some buf) qid (Some dm) = Some (-2, Some buf))"
proof (intro conjI impI)
  assume a: "0 < qid \<and> length dm \<le> 255 \<and> (\<not> valid_domain dm \<or> length dm = 255)"
  have "\<exists>r b. construct_domain_field (replicate 256 0) dm = Some (r, b) \<and> r mod 256 = 0"
    using construct_domain_bad [of dm "replicate 256 0"] construct_domain_ok [of dm "replicate 256 0"] a
    by (cases "valid_domain dm") auto
  then show "mdns_query_build (Some buf) qid (Some dm) = Some (-2, Some buf)"
    using a by (auto simp: mdns_query_build_def QUERY_DOMAIN_LEN_def)
qed (simp_all add: mdns_query_build_def split: option.splits)

text \<open>
  A domain longer than 255 characters whose first 255 characters have
  good labels makes \<open>_construct_domain_field\<close> write \<open>buf[256]\<close>, one byte beyond the 256 bytes
  of the buffers it is called with: the length check comes only after the loop.
\<close>

lemma mdns_domain_overrun:
  assumes "length buf = 256" "255 < length dm" "dm ! 255 \<noteq> CHR ''.''"
    and "\<forall>l\<in>set (butlast (labels (take 255 dm))). label_ok l"
  shows "construct_domain_field buf dm = None"
proof -
  have "domain_loop dm (buf[0 := of_char (CHR ''.'')]) (int 0) 0 0 = None"
    by (rule domain_loop_overrun [where k = 255 and cur = "[]"]) (use assms in \<open>auto simp: labels_def\<close>)
  then show ?thesis using assms(1) by (simp add: construct_domain_field_def wr_def)
qed

lemma labels_from_nodot: "CHR ''.'' \<notin> set xs \<Longrightarrow> labels_from cur xs = [cur @ xs]"
  by (induction xs arbitrary: cur) auto

text \<open>
  C33: parsing a well-formed reply.  The response repeats the question and carries
  at least one record; the owner of each is a pointer to the question, its type is below
  256, and a record of class IN and type A or PTR has at least four bytes of data.  Such a
  response is accepted: the result is the first four bytes of the first record of class IN
  whose type is A or, as the code has it, PTR; records of other types (an alias, say) are
  skipped by their length.  Without an address the output is untouched and the result is -34,
  or -31 when the last record has fewer than three bytes of data, which the code takes for a
  response that is cut off.
\<close>

theorem mdns_parse_answer:
  assumes "response_header h (length as)" "valid_domain dm" "length dm \<le> 254" "length junk = 256"
    and "as \<noteq> []" "length as < 65536" "\<forall>a\<in>set as. answer_ok a" "4 \<le> length out"
  shows "mdns_response_parse junk (Some (response_bytes h dm as)) (int (length (response_bytes h dm as)))
      (18 + int (length dm)) (Some dm) (Some out) =
    (case find answer_ip as of
       None \<Rightarrow> Some (if length (a_rdata (last as)) < 3 then -31 else -34, Some out)
     | Some a \<Rightarrow> Some (1, Some (take 4 (a_rdata a) @ drop 4 out)))"
  using response_parse_bytes [OF assms] assms(5) by (auto simp: answers_result_def split: option.splits)

definition sample_header :: dns_header_t where
  "sample_header = (query_header 7)\<lparr>h_qr := 1, h_ra := 1, h_ancount := htons 2\<rparr>"

definition sample_answers :: "answer list" where
  "sample_answers = [\<lparr>a_type = 5, a_class = 1, a_ttl = 60, a_rdata = [1, 97, 0]\<rparr>,
     \<lparr>a_type = 1, a_class = 1, a_ttl = 60, a_rdata = [10, 0, 0, 9]\<rparr>]"

theorem mdns_parse_answer_witness:
  "mdns_response_parse (replicate 256 0) (Some (response_bytes sample_header ''a.bc'' sample_answers))
     (int (length (response_bytes sample_header ''a.bc'' sample_answers))) 22 (Some ''a.bc'') (Some [0, 0, 0, 0]) =
   Some (1, Some [10, 0, 0, 9])"
proof -
  have "response_header sample_header (length sample_answers)"
    by (simp add: response_header_def sample_header_def query_header_def header_ok_def sample_answers_def swap16_def)
  moreover have "valid_domain ''a.bc''" by (simp add: valid_domain_def labels_def label_ok_def)
  moreover have "\<forall>a\<in>set sample_answers. answer_ok a" "find answer_ip sample_answers = Some (sample_answers ! 1)"
    by (simp_all add: sample_answers_def answer_ok_def answer_ip_def)
  ultimately show ?thesis
    using mdns_parse_answer [of sample_header sample_answers "''a.bc''" "replicate 256 0" "[0, 0, 0, 0]"]
    by (simp add: sample_answers_def del: replicate.simps)
qed

end
