(* ===== verification/Sample.thy ===== *)
theory Sample
  imports Api
begin

text \<open>
  A concrete environment for the examples: an operating system on which every call
  succeeds and nothing happens, a constant clock and a random source whose draws are high.
  The variant for sending records what is sent, at most two bytes a call.
\<close>

definition quiet_env :: "'w env" where
  "quiet_env = \<lparr>
     sys_gettimeofday = (\<lambda>w. ((1, 0), w)),
     sys_rand = (\<lambda>w. (0xffff, w)),
     sys_srand = (\<lambda>_ w. w),
     sys_sigpipe_ign = (\<lambda>w. w),
     sys_socket = (\<lambda>_ w. (5, None, w)),
     sys_close = (\<lambda>_ w. (0, None, w)),
     sys_setsockopt = (\<lambda>_ _ _ w. (0, None, w)),
     sys_getsockopt_error = (\<lambda>_ w. (0, 0, None, w)),
     sys_fcntl_getfl = (\<lambda>_ w. (0, None, w)),
     sys_fcntl_setfl = (\<lambda>_ _ w. (0, None, w)),
     sys_bind = (\<lambda>_ _ w. (0, None, w)),
     sys_listen = (\<lambda>_ _ w. (0, None, w)),
     sys_accept = (\<lambda>_ w. (6, addr_zero, None, w)),
     sys_connect = (\<lambda>_ _ w. (0, None, w)),
     sys_recv = (\<lambda>_ _ w. (1, [65], None, w)),
     sys_recvfrom = (\<lambda>_ _ w. (1, [65], Some (addr_zero, 16), None, w)),
     sys_send = (\<lambda>_ buf w. (int (length buf), None, w)),
     sys_sendto = (\<lambda>_ buf _ w. (int (length buf), None, w)),
     sys_getpeername = (\<lambda>_ w. (0, addr_zero, None, w)),
     sys_epoll_create = (\<lambda>_ w. (3, None, w)),
     sys_epoll_ctl = (\<lambda>_ _ _ _ w. (0, None, w)),
     sys_epoll_wait = (\<lambda>_ _ _ w. (0, [], None, w)),
     sys_inet_addr = (\<lambda>_. 0),
     sys_inet_ntoa = (\<lambda>_. ''0.0.0.0''),
     x_type_fn = (\<lambda>_ _ _. 1),
     x_filter_fn = (\<lambda>_ _ _ s. Some (1, s)),
     x_op_cb = (\<lambda>_ _ _ s. Some s),
     x_state_fn = (\<lambda>_ _ _ st _. Some st),
     x_recv_fn = (\<lambda>_ _ _ _ s. Some (0, [], s)),
     x_send_fn = (\<lambda>_ _ _ _ s. Some (0, s)),
     x_balancer = (\<lambda>_ _ _ s. Some (1, s))\<rparr>"

definition wire_env :: "byte list env" where
  "wire_env = quiet_env\<lparr>sys_send := (\<lambda>_ buf w. (int (length (take 2 buf)), None, w @ take 2 buf))\<rparr>"

definition broken_env :: "byte list env" where
  "broken_env = quiet_env\<lparr>sys_send := (\<lambda>_ _ w. (-1, Some 104, w))\<rparr>"

lemma high_draws: "rand_ends (\<lambda>w. (0xffff, w))"
  unfolding rand_ends_def by (intro allI exI [of _ 0]) (simp add: rand_low_def)

lemma env_rand_ends: "rand_ends (sys_rand quiet_env)" "rand_ends (sys_rand wire_env)"
  using high_draws by (simp_all add: quiet_env_def wire_env_def)

text \<open>The extension table as \<open>mnet_init\<close> leaves it, and a state with it.\<close>

definition sample_cfg :: "mnet_ext_t list" where
  "sample_cfg = (replicate 8 ext_zero)[1 := init_ext CHANN_TYPE_STREAM, 2 := init_ext CHANN_TYPE_DGRAM,
     3 := init_ext CHANN_TYPE_BROADCAST]"

definition sample_state :: "'w \<Rightarrow> 'w mnet_t" where
  "sample_state w = (mnet_start w)\<lparr>g_ext_config := sample_cfg,
     g_chg := \<lparr>se_size = 1, se_count = 0, se_array = [mevent_zero]\<rparr>\<rparr>"

lemma mnet_start_world [simp]: "g_world (mnet_start w) = w"
  by (simp add: mnet_start_def)

lemma sample_cfg_ok: "cfg_ok (sample_state w)"
  by (simp add: cfg_ok_def sample_state_def sample_cfg_def ctype_defs)

text \<open>A connected stream channel at address 1, with a given queue.\<close>

definition sample_chann :: "rwb_head_t \<Rightarrow> chann_t" where
  "sample_chann q = chann_zero\<lparr>c_fd := 5, c_state := CHANN_STATE_CONNECTED, c_ctype := CHANN_TYPE_STREAM, c_rwb_send := q\<rparr>"

definition sample_conn :: "rwb_head_t \<Rightarrow> byte list mnet_t" where
  "sample_conn q = (sample_state [])\<lparr>g_heap := [1 \<mapsto> sample_chann q], g_brk := 2, g_channs := Some 1, g_chann_count := 1\<rparr>"

end
