(* ===== verification/Tls.thy ===== *)
theory Tls
  imports Sample
begin

text \<open>
  The TLS channel type, src/extension/openssl/mnet_tls.c.

  An extension of the library: a table of callbacks registered for channel type 4 that
  runs the TLS handshake behind the events of a stream channel and hides them from the
  application until it is done.  OpenSSL is a parameter (\<open>ssl_ops\<close>).  The user data of the
  channels (\<open>mnet_tls_ud_t\<close>) lives in a memory of its own inside the world the library
  is run in; below it is the world of the operating system and of OpenSSL.
\<close>

subsection \<open>Data\<close>

definition CHANN_TYPE_TLS :: int where "CHANN_TYPE_TLS = 4"

record mnet_tls_ud_t =
  tu_ln :: "addr option"
  tu_state :: chann_state
  tu_ssl :: "addr option"

record 'w tls_world =
  tw_ud :: "addr \<rightharpoonup> mnet_tls_ud_t"
  tw_brk :: addr
  tw_os :: 'w

type_synonym 'w tls_t = "'w tls_world mnet_t"

datatype ssl_mode = SSL_MODE_ENABLE_PARTIAL_WRITE | SSL_MODE_ACCEPT_MOVING_WRITE_BUFFER

record 'w ssl_ops =
  SSL_new :: "addr option \<Rightarrow> 'w \<Rightarrow> addr option \<times> 'w"
  SSL_free :: "addr \<Rightarrow> 'w \<Rightarrow> 'w"
  SSL_set_mode :: "addr \<Rightarrow> ssl_mode \<Rightarrow> 'w \<Rightarrow> 'w"
  SSL_set_fd :: "addr \<Rightarrow> int \<Rightarrow> 'w \<Rightarrow> 'w"
  SSL_accept :: "addr \<Rightarrow> 'w \<Rightarrow> 'w sysret"
  SSL_connect :: "addr \<Rightarrow> 'w \<Rightarrow> 'w sysret"
  SSL_get_error :: "addr \<Rightarrow> int \<Rightarrow> 'w \<Rightarrow> int"
  SSL_shutdown :: "addr \<Rightarrow> 'w \<Rightarrow> 'w sysret"
  SSL_clear :: "addr \<Rightarrow> 'w \<Rightarrow> 'w sysret"
  SSL_read :: "addr \<Rightarrow> int \<Rightarrow> 'w \<Rightarrow> int \<times> byte list \<times> int option \<times> 'w"
  SSL_write :: "addr \<Rightarrow> byte list \<Rightarrow> 'w \<Rightarrow> 'w sysret"

definition SSL_ERROR_WANT_READ :: int where "SSL_ERROR_WANT_READ = 2"
definition SSL_ERROR_WANT_WRITE :: int where "SSL_ERROR_WANT_WRITE = 3"

definition ssl_do :: "('w \<Rightarrow> 'w) \<Rightarrow> 'w tls_t \<Rightarrow> 'w tls_t" where
  "ssl_do f s = s\<lparr>g_world := (g_world s)\<lparr>tw_os := f (tw_os (g_world s))\<rparr>\<rparr>"

definition ssl_call :: "('w \<Rightarrow> 'w sysret) \<Rightarrow> 'w tls_t \<Rightarrow> int \<times> 'w tls_t" where
  "ssl_call f s = (let (r, e, w) = f (tw_os (g_world s))
     in (r, (set_errno e s)\<lparr>g_world := (g_world s)\<lparr>tw_os := w\<rparr>\<rparr>))"

text \<open>Allocation, reading, writing and release of user data.\<close>

definition ud_new :: "mnet_tls_ud_t \<Rightarrow> 'w tls_t \<Rightarrow> addr \<times> 'w tls_t" where
  "ud_new t s = (let w = g_world s; a = tw_brk w
     in (a, s\<lparr>g_world := w\<lparr>tw_ud := (tw_ud w)(a \<mapsto> t), tw_brk := Suc a\<rparr>\<rparr>))"

definition ud_get :: "addr \<Rightarrow> 'w tls_t \<Rightarrow> mnet_tls_ud_t option" where
  "ud_get a s = tw_ud (g_world s) a"

definition ud_upd :: "addr \<Rightarrow> (mnet_tls_ud_t \<Rightarrow> mnet_tls_ud_t) \<Rightarrow> 'w tls_t \<Rightarrow> 'w tls_t option" where
  "ud_upd a f s = do {
     t \<leftarrow> ud_get a s;
     Some (s\<lparr>g_world := (g_world s)\<lparr>tw_ud := (tw_ud (g_world s))(a \<mapsto> f t)\<rparr>\<rparr>)
   }"

definition ud_free :: "addr \<Rightarrow> 'w tls_t \<Rightarrow> 'w tls_t option" where
  "ud_free a s = do {
     _ \<leftarrow> ud_get a s;
     Some (s\<lparr>g_world := (g_world s)\<lparr>tw_ud := (tw_ud (g_world s))(a := None)\<rparr>\<rparr>)
   }"

definition ud_zero :: mnet_tls_ud_t where
  "ud_zero = \<lparr>tu_ln = None, tu_state = CHANN_STATE_CLOSED, tu_ssl = None\<rparr>"

subsection \<open>Callbacks\<close>

definition ssl_is_rw :: "'w ssl_ops \<Rightarrow> addr \<Rightarrow> int \<Rightarrow> 'w tls_t \<Rightarrow> bool" where
  "ssl_is_rw ops ssl ret s =
     (let ssl_err = SSL_get_error ops ssl ret (tw_os (g_world s))
      in ssl_err = SSL_ERROR_WANT_READ \<or> ssl_err = SSL_ERROR_WANT_WRITE)"

definition ssl_set_fd :: "'w ssl_ops \<Rightarrow> addr \<Rightarrow> int \<Rightarrow> 'w tls_t \<Rightarrow> 'w tls_t" where
  "ssl_set_fd ops ssl fd s =
     (let s = ssl_do (SSL_set_mode ops ssl SSL_MODE_ENABLE_PARTIAL_WRITE) s;
          s = ssl_do (SSL_set_mode ops ssl SSL_MODE_ACCEPT_MOVING_WRITE_BUFFER) s
      in ssl_do (SSL_set_fd ops ssl fd) s)"

definition tls_type_fn :: "addr option \<Rightarrow> int \<Rightarrow> int" where
  "tls_type_fn ext_ctx ctype = CHANN_TYPE_STREAM"

definition tls_open_cb :: "addr option \<Rightarrow> addr \<Rightarrow> 'w tls_t \<Rightarrow> 'w tls_t option" where
  "tls_open_cb ext_ctx n s =
     (let (tu, s) = ud_new (ud_zero\<lparr>tu_state := CHANN_STATE_DISCONNECT\<rparr>) s
      in mnet_ext_chann_set_ud (Some n) (Some tu) s)"

definition tls_close_cb :: "'w ssl_ops \<Rightarrow> addr option \<Rightarrow> addr \<Rightarrow> 'w tls_t \<Rightarrow> 'w tls_t option" where
  "tls_close_cb ops ext_ctx n s = do {
     p \<leftarrow> mnet_ext_chann_get_ud (Some n) s;
     case p of
       None \<Rightarrow> Some s
     | Some tu \<Rightarrow> do {
         t \<leftarrow> ud_get tu s;
         if tu_state t > CHANN_STATE_CLOSED then do {
           s \<leftarrow> ud_upd tu (\<lambda>t. t\<lparr>tu_state := CHANN_STATE_CLOSED\<rparr>) s;
           let s = (case tu_ssl t of None \<Rightarrow> s | Some ssl \<Rightarrow> ssl_do (SSL_free ops ssl) s);
           s \<leftarrow> ud_free tu s;
           mnet_ext_chann_set_ud (Some n) None s
         } else Some s
       }
   }"

definition tls_listen_cb :: "addr option \<Rightarrow> addr \<Rightarrow> 'w tls_t \<Rightarrow> 'w tls_t option" where
  "tls_listen_cb ext_ctx n s = do {
     p \<leftarrow> mnet_ext_chann_get_ud (Some n) s;
     case p of
       None \<Rightarrow> Some s
     | Some tu \<Rightarrow> do { s \<leftarrow> mnet_ext_chann_set_ud (Some n) None s; ud_free tu s }
   }"

definition tls_disconnect_cb :: "'w ssl_ops \<Rightarrow> addr option \<Rightarrow> addr \<Rightarrow> 'w tls_t \<Rightarrow> 'w tls_t option" where
  "tls_disconnect_cb ops ext_ctx n s = do {
     p \<leftarrow> mnet_ext_chann_get_ud (Some n) s;
     case p of
       None \<Rightarrow> Some s
     | Some tu \<Rightarrow> do {
         t \<leftarrow> ud_get tu s;
         if tu_state t > CHANN_STATE_DISCONNECT then do {
           s \<leftarrow> ud_upd tu (\<lambda>t. t\<lparr>tu_state := CHANN_STATE_DISCONNECT\<rparr>) s;
           ssl \<leftarrow> tu_ssl t;
           let (_, s) = ssl_call (SSL_shutdown ops ssl) s;
           let (_, s) = ssl_call (SSL_clear ops ssl) s;
           Some s
         } else Some s
       }
   }"

text \<open>
  The callbacks are entered in the table under numbers.  A callback that disconnects its
  channel calls back into the library, which in turn runs the disconnect callback and no
  other: that call is made in an environment where this callback is known.
\<close>

definition CB_open :: nat where "CB_open = 0"
definition CB_close :: nat where "CB_close = 1"
definition CB_listen :: nat where "CB_listen = 2"
definition CB_accept :: nat where "CB_accept = 3"
definition CB_connect :: nat where "CB_connect = 4"
definition CB_disconnect :: nat where "CB_disconnect = 5"

lemmas cb_defs = CB_open_def CB_close_def CB_listen_def CB_accept_def CB_connect_def CB_disconnect_def

definition tls_env0 :: "'w ssl_ops \<Rightarrow> 'w tls_world env \<Rightarrow> 'w tls_world env" where
  "tls_env0 ops env = env\<lparr>x_op_cb := (\<lambda>k ctx n s.
     if k = CB_disconnect then tls_disconnect_cb ops ctx n s else x_op_cb env k ctx n s)\<rparr>"

text \<open>The common end of \<open>_tls_accept_cb\<close> and \<open>_tls_connect_cb\<close>: a fresh SSL, and the first attempt at the handshake.\<close>

definition tls_start :: "'w ssl_ops \<Rightarrow> 'w tls_world env \<Rightarrow> ('w ssl_ops \<Rightarrow> addr \<Rightarrow> 'w \<Rightarrow> 'w sysret) \<Rightarrow>
    addr option \<Rightarrow> addr \<Rightarrow> addr \<Rightarrow> 'w tls_t \<Rightarrow> 'w tls_t option" where
  "tls_start ops env handshake ext_ctx n tu s = do {
     let (p, w) = SSL_new ops ext_ctx (tw_os (g_world s));
     let s = s\<lparr>g_world := (g_world s)\<lparr>tw_os := w\<rparr>\<rparr>;
     s \<leftarrow> ud_upd tu (\<lambda>t. t\<lparr>tu_ssl := p\<rparr>) s;
     ssl \<leftarrow> p;
     fd \<leftarrow> mnet_chann_fd (Some n) s;
     let s = ssl_set_fd ops ssl fd s;
     let (ret, s) = ssl_call (handshake ops ssl) s;
     if ret = 1 then ud_upd tu (\<lambda>t. t\<lparr>tu_state := CHANN_STATE_CONNECTED\<rparr>) s
     else if \<not> ssl_is_rw ops ssl ret s then mnet_chann_disconnect (tls_env0 ops env) (Some n) s
     else Some s
   }"

definition tls_accept_cb :: "'w ssl_ops \<Rightarrow> 'w tls_world env \<Rightarrow> addr option \<Rightarrow> addr \<Rightarrow> 'w tls_t \<Rightarrow> 'w tls_t option" where
  "tls_accept_cb ops env ext_ctx n s = do {
     let (tu, s) = ud_new ud_zero s;
     s \<leftarrow> mnet_ext_chann_set_ud (Some n) (Some tu) s;
     s \<leftarrow> ud_upd tu (\<lambda>t. t\<lparr>tu_state := CHANN_STATE_LISTENING\<rparr>) s;
     tls_start ops env SSL_accept ext_ctx n tu s
   }"

definition tls_connect_cb :: "'w ssl_ops \<Rightarrow> 'w tls_world env \<Rightarrow> addr option \<Rightarrow> addr \<Rightarrow> 'w tls_t \<Rightarrow> 'w tls_t option" where
  "tls_connect_cb ops env ext_ctx n s = do {
     p \<leftarrow> mnet_ext_chann_get_ud (Some n) s;
     case p of
       None \<Rightarrow> Some s
     | Some tu \<Rightarrow> do {
         s \<leftarrow> ud_upd tu (\<lambda>t. t\<lparr>tu_state := CHANN_STATE_CONNECTING\<rparr>) s;
         tls_start ops env SSL_connect ext_ctx n tu s
       }
   }"

definition upd_msg :: "addr \<Rightarrow> (chann_msg_t \<Rightarrow> chann_msg_t) \<Rightarrow> 'w tls_t \<Rightarrow> 'w tls_t option" where
  "upd_msg n f s = upd_chann n (\<lambda>c. c\<lparr>c_msg := f (c_msg c)\<rparr>) s"

text \<open>The branch of \<open>_tls_filter_fn\<close> for CONNECTED and RECV, on the message of channel \<open>n\<close>.\<close>

definition tls_handshake :: "'w ssl_ops \<Rightarrow> 'w tls_world env \<Rightarrow> addr \<Rightarrow> 'w tls_t \<Rightarrow> (int \<times> 'w tls_t) option" where
  "tls_handshake ops env n s = do {
     c \<leftarrow> g_heap s n;
     p \<leftarrow> mnet_ext_chann_get_ud (m_n (c_msg c)) s;
     case p of
       None \<Rightarrow> Some (1, s)
     | Some tu \<Rightarrow> do {
         t \<leftarrow> ud_get tu s;
         if tu_state t = CHANN_STATE_CONNECTED then Some (1, s)
         else do {
           ssl \<leftarrow> tu_ssl t;
           let (ret, s) = ssl_call (if tu_state t = CHANN_STATE_LISTENING then SSL_accept ops ssl else SSL_connect ops ssl) s;
           if ret = 1 then do {
             s \<leftarrow> (if tu_state t = CHANN_STATE_LISTENING then do {
                     s \<leftarrow> upd_msg n (\<lambda>m. m\<lparr>m_event := Some CHANN_EVENT_ACCEPT, m_r := m_n m, m_n := tu_ln t\<rparr>) s;
                     ud_upd tu (\<lambda>t. t\<lparr>tu_ln := None\<rparr>) s
                   } else upd_msg n (\<lambda>m. m\<lparr>m_event := Some CHANN_EVENT_CONNECTED\<rparr>) s);
             s \<leftarrow> ud_upd tu (\<lambda>t. t\<lparr>tu_state := CHANN_STATE_CONNECTED\<rparr>) s;
             Some (1, s)
           } else if ssl_is_rw ops ssl ret s then Some (0, s)
           else if tu_state t = CHANN_STATE_LISTENING then do {
             s \<leftarrow> mnet_chann_disconnect (tls_env0 ops env) (m_n (c_msg c)) s;
             Some (0, s)
           } else do {
             s \<leftarrow> upd_msg n (\<lambda>m. m\<lparr>m_event := Some CHANN_EVENT_DISCONNECT\<rparr>) s;
             s \<leftarrow> mnet_chann_disconnect (tls_env0 ops env) (m_n (c_msg c)) s;
             Some (1, s)
           }
         }
       }
   }"

definition tls_filter_fn :: "'w ssl_ops \<Rightarrow> 'w tls_world env \<Rightarrow> addr option \<Rightarrow> addr \<Rightarrow> 'w tls_t \<Rightarrow> (int \<times> 'w tls_t) option" where
  "tls_filter_fn ops env ext_ctx n s = do {
     c \<leftarrow> g_heap s n;
     case m_event (c_msg c) of
       Some CHANN_EVENT_ACCEPT \<Rightarrow> do {
         p \<leftarrow> mnet_ext_chann_get_ud (m_r (c_msg c)) s;
         s \<leftarrow> (case p of None \<Rightarrow> Some s | Some tu \<Rightarrow> ud_upd tu (\<lambda>t. t\<lparr>tu_ln := m_n (c_msg c)\<rparr>) s);
         Some (0, s)
       }
     | Some CHANN_EVENT_CONNECTED \<Rightarrow> tls_handshake ops env n s
     | Some CHANN_EVENT_RECV \<Rightarrow> tls_handshake ops env n s
     | _ \<Rightarrow> Some (1, s)
   }"

definition tls_state_fn :: "addr option \<Rightarrow> addr \<Rightarrow> int \<Rightarrow> 'w tls_t \<Rightarrow> int option" where
  "tls_state_fn ext_ctx n state s = do {
     p \<leftarrow> mnet_ext_chann_get_ud (Some n) s;
     case p of None \<Rightarrow> Some state | Some tu \<Rightarrow> do { t \<leftarrow> ud_get tu s; Some (state_val (tu_state t)) }
   }"

definition tls_recv_fn :: "'w ssl_ops \<Rightarrow> addr option \<Rightarrow> addr \<Rightarrow> int \<Rightarrow> 'w tls_t \<Rightarrow> (int \<times> byte list \<times> 'w tls_t) option" where
  "tls_recv_fn ops ext_ctx n len s = do {
     p \<leftarrow> mnet_ext_chann_get_ud (Some n) s;
     case p of
       None \<Rightarrow> Some (-1, [], s)
     | Some tu \<Rightarrow> do {
         t \<leftarrow> ud_get tu s;
         ssl \<leftarrow> tu_ssl t;
         let (ret, bs, e, w) = SSL_read ops ssl len (tw_os (g_world s));
         let s = (set_errno e s)\<lparr>g_world := (g_world s)\<lparr>tw_os := w\<rparr>\<rparr>;
         Some (if ret > 0 then ret else if ssl_is_rw ops ssl ret s then 0 else ret, bs, s)
       }
   }"

definition tls_send_fn :: "'w ssl_ops \<Rightarrow> addr option \<Rightarrow> addr \<Rightarrow> byte list \<Rightarrow> 'w tls_t \<Rightarrow> (int \<times> 'w tls_t) option" where
  "tls_send_fn ops ext_ctx n buf s = do {
     p \<leftarrow> mnet_ext_chann_get_ud (Some n) s;
     case p of
       None \<Rightarrow> Some (-1, s)
     | Some tu \<Rightarrow> do {
         t \<leftarrow> ud_get tu s;
         ssl \<leftarrow> tu_ssl t;
         let (ret, s) = ssl_call (SSL_write ops ssl buf) s;
         Some (if ret > 0 then ret else if ssl_is_rw ops ssl ret s then 0 else ret, s)
       }
   }"

text \<open>The environment in which the library calls these functions, and their registration.\<close>

definition tls_op_cb :: "'w ssl_ops \<Rightarrow> 'w tls_world env \<Rightarrow> nat \<Rightarrow> addr option \<Rightarrow> addr \<Rightarrow> 'w tls_t \<Rightarrow> 'w tls_t option" where
  "tls_op_cb ops env k ctx n s =
     (if k = CB_open then tls_open_cb ctx n s
      else if k = CB_close then tls_close_cb ops ctx n s
      else if k = CB_listen then tls_listen_cb ctx n s
      else if k = CB_accept then tls_accept_cb ops env ctx n s
      else if k = CB_connect then tls_connect_cb ops env ctx n s
      else if k = CB_disconnect then tls_disconnect_cb ops ctx n s
      else x_op_cb env k ctx n s)"

definition tls_env :: "'w ssl_ops \<Rightarrow> 'w tls_world env \<Rightarrow> 'w tls_world env" where
  "tls_env ops env = env\<lparr>x_type_fn := (\<lambda>_. tls_type_fn), x_filter_fn := (\<lambda>_. tls_filter_fn ops env),
     x_op_cb := tls_op_cb ops env, x_state_fn := (\<lambda>_. tls_state_fn),
     x_recv_fn := (\<lambda>_. tls_recv_fn ops), x_send_fn := (\<lambda>_. tls_send_fn ops)\<rparr>"

definition tls_ext :: "addr option \<Rightarrow> mnet_ext_t" where
  "tls_ext ext_ctx = \<lparr>e_reserved = False, e_ext_ctx = ext_ctx, e_type_fn = Some (F_extern 0),
     e_filter_fn = Some (F_extern 0), e_open_cb = Some (F_extern CB_open), e_close_cb = Some (F_extern CB_close),
     e_listen_cb = Some (F_extern CB_listen), e_accept_cb = Some (F_extern CB_accept),
     e_connect_cb = Some (F_extern CB_connect), e_disconnect_cb = Some (F_extern CB_disconnect),
     e_state_fn = Some (F_extern 0), e_recv_fn = Some (F_extern 0), e_send_fn = Some (F_extern 0)\<rparr>"

definition mnet_tls_config :: "'w ssl_ops \<Rightarrow> 'w tls_world env \<Rightarrow> addr option \<Rightarrow> 'w tls_t \<Rightarrow> (int \<times> 'w tls_t) option" where
  "mnet_tls_config ops env ext_ctx s =
     (case ext_ctx of None \<Rightarrow> Some (0, s)
      | Some _ \<Rightarrow> mnet_ext_register (tls_env ops env) CHANN_TYPE_TLS (Some (tls_ext ext_ctx)) s)"


subsection \<open>The handshake\<close>

text \<open>
  A TLS channel: the type is registered, the channel has its user data.
\<close>

definition tls_registered :: "'w tls_t \<Rightarrow> bool" where
  "tls_registered s \<longleftrightarrow> (\<exists>ctx. ext_config s CHANN_TYPE_TLS = Some ((tls_ext ctx)\<lparr>e_reserved := True\<rparr>))"

definition tls_chann :: "'w tls_t \<Rightarrow> addr \<Rightarrow> chann_t \<Rightarrow> addr \<Rightarrow> mnet_tls_ud_t \<Rightarrow> bool" where
  "tls_chann s n c tu t \<longleftrightarrow> tls_registered s \<and> g_heap s n = Some c \<and> c_ctype c = CHANN_TYPE_TLS \<and>
     c_ext_ud c = Some tu \<and> ud_get tu s = Some t"

lemma tls_chann_ud: "tls_chann s n c tu t \<Longrightarrow> mnet_ext_chann_get_ud (Some n) s = Some (Some tu)"
  by (auto simp: tls_chann_def tls_registered_def mnet_ext_chann_get_ud_def)

lemma set_ud_reg:
  assumes "tls_registered s" "g_heap s n = Some c" "c_ctype c = CHANN_TYPE_TLS"
  shows "mnet_ext_chann_set_ud (Some n) p s = Some (s\<lparr>g_heap := (g_heap s)(n \<mapsto> c\<lparr>c_ext_ud := p\<rparr>)\<rparr>)"
  using assms by (auto simp: mnet_ext_chann_set_ud_def tls_registered_def upd_chann_def)

lemma ssl_call_core:
  assumes "ssl_call f s = (r, s')"
  obtains e w where "s' = s\<lparr>g_errno := e, g_world := (g_world s)\<lparr>tw_os := w\<rparr>\<rparr>"
proof -
  obtain e w where "f (tw_os (g_world s)) = (r, e, w)"
    using assms by (auto simp: ssl_call_def split: prod.splits)
  then have "s' = s\<lparr>g_errno := (case e of None \<Rightarrow> g_errno s | Some x \<Rightarrow> x), g_world := (g_world s)\<lparr>tw_os := w\<rparr>\<rparr>"
    using assms by (cases e) (simp_all add: ssl_call_def set_errno_def)
  then show ?thesis by (rule that)
qed

lemma ssl_core_simps [simp]:
  "ud_get a (s\<lparr>g_errno := e\<rparr>) = ud_get a s" "ud_get a (s\<lparr>g_heap := h\<rparr>) = ud_get a s"
  "ud_get a (s\<lparr>g_world := w\<rparr>) = tw_ud w a"
  "tls_registered (s\<lparr>g_errno := e\<rparr>) = tls_registered s" "tls_registered (s\<lparr>g_world := w\<rparr>) = tls_registered s"
  "tls_registered (s\<lparr>g_heap := h\<rparr>) = tls_registered s"
  by (simp_all add: ud_get_def tls_registered_def)

lemma handshake_run:
  assumes "tls_chann s n c tu t" "m_n (c_msg c) = Some n" "m_event (c_msg c) \<in> {Some CHANN_EVENT_CONNECTED, Some CHANN_EVENT_RECV}"
  shows "tls_filter_fn ops env ctx n s = tls_handshake ops env n s"
  using assms by (auto simp: tls_filter_fn_def tls_chann_def)

lemma tls_chann_facts:
  assumes "tls_chann s n c tu t"
  shows "g_heap s n = Some c" "tw_ud (g_world s) tu = Some t" "ud_get tu s = Some t"
    "mnet_ext_chann_get_ud (Some n) s = Some (Some tu)"
  using assms tls_chann_ud [OF assms] by (simp_all add: tls_chann_def ud_get_def)

lemma tls_filter_accept:
  assumes tc: "tls_chann s n c tu t" and l: "g_heap s ln = Some lc"
    and m: "m_event (c_msg lc) = Some CHANN_EVENT_ACCEPT" "m_r (c_msg lc) = Some n"
  shows "tls_filter_fn ops env ctx ln s = Some (0, s\<lparr>g_world := (g_world s)\<lparr>tw_ud := (tw_ud (g_world s))
    (tu \<mapsto> t\<lparr>tu_ln := m_n (c_msg lc)\<rparr>)\<rparr>\<rparr>)"
  using tls_chann_facts [OF tc] l m by (simp add: tls_filter_fn_def ud_upd_def)

lemma tls_filter_other:
  assumes tc: "tls_chann s n c tu t"
    and m: "m_event (c_msg c) \<notin> {Some CHANN_EVENT_ACCEPT, Some CHANN_EVENT_CONNECTED, Some CHANN_EVENT_RECV}"
  shows "tls_filter_fn ops env ctx n s = Some (1, s)"
  using tls_chann_facts [OF tc] m by (auto simp: tls_filter_fn_def split: option.splits chann_event.splits)

text \<open>The handshake behind the two events that carry it, in every state of the user data.\<close>

lemma tls_filter_handshake:
  assumes tc: "tls_chann s n c tu t" and m: "m_event (c_msg c) \<in> {Some CHANN_EVENT_CONNECTED, Some CHANN_EVENT_RECV}"
    "m_n (c_msg c) = Some n"
  shows "if tu_state t = CHANN_STATE_CONNECTED then tls_filter_fn ops env ctx n s = Some (1, s)
    else \<forall>ssl r s1. tu_ssl t = Some ssl \<and>
        ssl_call (if tu_state t = CHANN_STATE_LISTENING then SSL_accept ops ssl else SSL_connect ops ssl) s = (r, s1) \<longrightarrow>
      (if r = 1 then \<exists>u. tls_filter_fn ops env ctx n s = Some (1, u) \<and>
         (if tu_state t = CHANN_STATE_LISTENING then
            g_heap u = (g_heap s)(n \<mapsto> c\<lparr>c_msg := (c_msg c)\<lparr>m_event := Some CHANN_EVENT_ACCEPT, m_r := Some n, m_n := tu_ln t\<rparr>\<rparr>) \<and>
            ud_get tu u = Some (t\<lparr>tu_ln := None, tu_state := CHANN_STATE_CONNECTED\<rparr>)
          else
            g_heap u = (g_heap s)(n \<mapsto> c\<lparr>c_msg := (c_msg c)\<lparr>m_event := Some CHANN_EVENT_CONNECTED\<rparr>\<rparr>) \<and>
            ud_get tu u = Some (t\<lparr>tu_state := CHANN_STATE_CONNECTED\<rparr>))
       else if ssl_is_rw ops ssl r s1 then tls_filter_fn ops env ctx n s = Some (0, s1)
       else if tu_state t = CHANN_STATE_LISTENING then tls_filter_fn ops env ctx n s =
         map_option (\<lambda>u. (0, u)) (mnet_chann_disconnect (tls_env0 ops env) (Some n) s1)
       else tls_filter_fn ops env ctx n s = map_option (\<lambda>u. (1, u)) (mnet_chann_disconnect (tls_env0 ops env) (Some n)
         (s1\<lparr>g_heap := (g_heap s)(n \<mapsto> c\<lparr>c_msg := (c_msg c)\<lparr>m_event := Some CHANN_EVENT_DISCONNECT\<rparr>\<rparr>)\<rparr>)))"
proof -
  note c = tls_chann_facts [OF tc]
  note run = handshake_run [OF tc m(2,1), of ops env ctx]
  have bind: "Option.bind x (\<lambda>u. Some (k, u)) = map_option (\<lambda>u. (k, u)) x" for x :: "'a tls_t option" and k :: int
    by (cases x) auto
  show ?thesis
  proof (cases "tu_state t = CHANN_STATE_CONNECTED")
    case True
    then show ?thesis using c m(2) by (simp add: run tls_handshake_def)
  next
    case False
    show ?thesis
      unfolding if_not_P [OF False]
    proof (intro allI impI, elim conjE)
      fix ssl r s1
      assume t: "tu_ssl t = Some ssl"
        and ssl: "ssl_call (if tu_state t = CHANN_STATE_LISTENING then SSL_accept ops ssl else SSL_connect ops ssl) s = (r, s1)"
      obtain e w where s1: "s1 = s\<lparr>g_errno := e, g_world := (g_world s)\<lparr>tw_os := w\<rparr>\<rparr>" using ssl by (rule ssl_call_core)
      show "if r = 1 then \<exists>u. tls_filter_fn ops env ctx n s = Some (1, u) \<and>
         (if tu_state t = CHANN_STATE_LISTENING then
            g_heap u = (g_heap s)(n \<mapsto> c\<lparr>c_msg := (c_msg c)\<lparr>m_event := Some CHANN_EVENT_ACCEPT, m_r := Some n, m_n := tu_ln t\<rparr>\<rparr>) \<and>
            ud_get tu u = Some (t\<lparr>tu_ln := None, tu_state := CHANN_STATE_CONNECTED\<rparr>)
          else
            g_heap u = (g_heap s)(n \<mapsto> c\<lparr>c_msg := (c_msg c)\<lparr>m_event := Some CHANN_EVENT_CONNECTED\<rparr>\<rparr>) \<and>
            ud_get tu u = Some (t\<lparr>tu_state := CHANN_STATE_CONNECTED\<rparr>))
       else if ssl_is_rw ops ssl r s1 then tls_filter_fn ops env ctx n s = Some (0, s1)
       else if tu_state t = CHANN_STATE_LISTENING then tls_filter_fn ops env ctx n s =
         map_option (\<lambda>u. (0, u)) (mnet_chann_disconnect (tls_env0 ops env) (Some n) s1)
       else tls_filter_fn ops env ctx n s = map_option (\<lambda>u. (1, u)) (mnet_chann_disconnect (tls_env0 ops env) (Some n)
         (s1\<lparr>g_heap := (g_heap s)(n \<mapsto> c\<lparr>c_msg := (c_msg c)\<lparr>m_event := Some CHANN_EVENT_DISCONNECT\<rparr>\<rparr>)\<rparr>))"
        using c m(2) t ssl False
        by (cases "tu_state t = CHANN_STATE_LISTENING"; cases "r = 1"; cases "ssl_is_rw ops ssl r s1")
          (simp_all add: run tls_handshake_def bind upd_msg_def upd_chann_def ud_upd_def, simp_all add: s1)
    qed
  qed
qed

lemma tls_env_simps:
  "x_filter_fn (tls_env ops env) k = tls_filter_fn ops env" "x_send_fn (tls_env ops env) k = tls_send_fn ops" "e_filter_fn (tls_ext ctx) = Some (F_extern 0)"
  by (simp_all add: tls_env_def tls_ext_def)

lemma chann_msg_tls:
  assumes reg: "tls_registered s" and n: "g_heap s n = Some c" "c_ctype c = CHANN_TYPE_TLS"
  obtains ctx where "chann_msg (tls_env ops env) n ev r err s =
    tls_filter_fn ops env ctx n (s\<lparr>g_heap := (g_heap s)(n \<mapsto> event_msg n ev r err c)\<rparr>)"
proof -
  obtain ctx where ext: "ext_config s CHANN_TYPE_TLS = Some ((tls_ext ctx)\<lparr>e_reserved := True\<rparr>)"
    using reg by (auto simp: tls_registered_def)
  have "chann_msg (tls_env ops env) n ev r err s =
      tls_filter_fn ops env (e_ext_ctx (tls_ext ctx)) n (s\<lparr>g_heap := (g_heap s)(n \<mapsto> event_msg n ev r err c)\<rparr>)"
    using n ext by (simp add: chann_msg_def upd_chann_def event_msg_def call_filter_fn_def tls_env_simps)
  then show ?thesis by (rule that)
qed

lemma chann_msg_accept:
  assumes tc: "tls_chann s n c tu t" and l: "g_heap s ln = Some lc" "c_ctype lc = CHANN_TYPE_TLS" "ln \<noteq> n"
  shows "\<exists>s2. chann_msg (tls_env ops env) ln CHANN_EVENT_ACCEPT (Some n) err s = Some (0, s2) \<and>
    tls_chann s2 n c tu (t\<lparr>tu_ln := Some ln\<rparr>)"
proof -
  let ?lc = "event_msg ln CHANN_EVENT_ACCEPT (Some n) err lc"
  let ?s = "s\<lparr>g_heap := (g_heap s)(ln \<mapsto> ?lc)\<rparr>"
  have reg: "tls_registered s" using tc by (simp add: tls_chann_def)
  obtain ctx where run: "chann_msg (tls_env ops env) ln CHANN_EVENT_ACCEPT (Some n) err s = tls_filter_fn ops env ctx ln ?s"
    using chann_msg_tls [OF reg l(1,2)] by metis
  have tc': "tls_chann ?s n c tu t" using tc l(3) by (simp add: tls_chann_def)
  have "g_heap ?s ln = Some ?lc" "m_event (c_msg ?lc) = Some CHANN_EVENT_ACCEPT" "m_r (c_msg ?lc) = Some n"
    by (simp_all add: event_msg_def)
  from tls_filter_accept [OF tc' this, of ops env ctx] tc' show ?thesis by (simp add: run tls_chann_def event_msg_def)
qed

lemma chann_msg_recv:
  assumes tc: "tls_chann s n c tu t" and t: "tu_state t = CHANN_STATE_CONNECTED"
  shows "chann_msg (tls_env ops env) n CHANN_EVENT_RECV None err s =
    Some (1, s\<lparr>g_heap := (g_heap s)(n \<mapsto> event_msg n CHANN_EVENT_RECV None err c)\<rparr>)"
proof -
  let ?c = "event_msg n CHANN_EVENT_RECV None err c"
  let ?s = "s\<lparr>g_heap := (g_heap s)(n \<mapsto> ?c)\<rparr>"
  have reg: "tls_registered s" "g_heap s n = Some c" "c_ctype c = CHANN_TYPE_TLS" using tc by (simp_all add: tls_chann_def)
  obtain ctx where run: "chann_msg (tls_env ops env) n CHANN_EVENT_RECV None err s = tls_filter_fn ops env ctx n ?s"
    using chann_msg_tls [OF reg] by metis
  have "tls_chann ?s n ?c tu t" using tc by (simp add: tls_chann_def event_msg_def)
  from tls_filter_handshake [OF this, of ops env ctx] t show ?thesis by (simp add: run event_msg_def)
qed

text \<open>The accept callback when the handshake is over at once.\<close>

lemma tls_accept_cb_done:
  assumes reg: "tls_registered s" and n: "g_heap s n = Some c" "c_ctype c = CHANN_TYPE_TLS"
    and new: "SSL_new ops ctx (tw_os (g_world s)) = (Some ssl, w)" and acc: "\<forall>w. fst (SSL_accept ops ssl w) = 1"
  shows "\<exists>s1 tu. tls_accept_cb ops env ctx n s = Some s1 \<and> g_heap s1 = (g_heap s)(n \<mapsto> c\<lparr>c_ext_ud := Some tu\<rparr>) \<and>
    tls_chann s1 n (c\<lparr>c_ext_ud := Some tu\<rparr>) tu \<lparr>tu_ln = None, tu_state = CHANN_STATE_CONNECTED, tu_ssl = Some ssl\<rparr>"
proof -
  let ?b = "tw_brk (g_world s)" and ?t = "\<lparr>tu_ln = None, tu_state = CHANN_STATE_LISTENING, tu_ssl = Some ssl\<rparr>"
  define s0 where "s0 = s\<lparr>g_heap := (g_heap s)(n \<mapsto> c\<lparr>c_ext_ud := Some ?b\<rparr>),
      g_world := (g_world s)\<lparr>tw_brk := Suc ?b, tw_os := w, tw_ud := (tw_ud (g_world s))(?b \<mapsto> ?t)\<rparr>\<rparr>"
  define s1 where "s1 = ssl_set_fd ops ssl (c_fd c) s0"
  have "fst (ssl_call (SSL_accept ops ssl) s1) = 1" using acc by (simp add: ssl_call_def case_prod_beta Let_def)
  then obtain s2 where s2: "ssl_call (SSL_accept ops ssl) s1 = (1, s2)" by (metis prod.collapse)
  have "mnet_ext_chann_set_ud (Some n) (Some ?b) (snd (ud_new ud_zero s)) =
      Some ((snd (ud_new ud_zero s))\<lparr>g_heap := (g_heap s)(n \<mapsto> c\<lparr>c_ext_ud := Some ?b\<rparr>)\<rparr>)"
    using set_ud_reg [of "snd (ud_new ud_zero s)" n c] reg n by (simp add: ud_new_def Let_def)
  then have run: "tls_accept_cb ops env ctx n s = ud_upd ?b (\<lambda>t. t\<lparr>tu_state := CHANN_STATE_CONNECTED\<rparr>) s2"
    using new s2 by (simp add: tls_accept_cb_def tls_start_def ud_new_def Let_def ud_upd_def ud_zero_def mnet_chann_fd_def
        flip: s0_def s1_def)
  obtain e w' where k: "s2 = s1\<lparr>g_errno := e, g_world := (g_world s1)\<lparr>tw_os := w'\<rparr>\<rparr>" using s2 by (rule ssl_call_core)
  have "g_heap s1 = g_heap s0" "tls_registered s1 = tls_registered s0" "tw_ud (g_world s1) = tw_ud (g_world s0)"
    by (simp_all add: s1_def ssl_set_fd_def Let_def ssl_do_def)
  then have "g_heap s1 = (g_heap s)(n \<mapsto> c\<lparr>c_ext_ud := Some ?b\<rparr>)" "tls_registered s1"
    "tw_ud (g_world s1) ?b = Some ?t" using reg by (simp_all add: s0_def)
  then show ?thesis using n run
    by (simp add: k ud_upd_def) (intro exI [of _ ?b], simp add: tls_chann_def)
qed

subsection \<open>Data goes through OpenSSL, and only after the handshake\<close>







subsection \<open>The user data is never used after it is freed\<close>

text \<open>
  The user data a TLS channel points to, and the invariant: it is allocated, belongs to
  one channel, and has an SSL object once the handshake has begun.
\<close>

definition uds :: "(addr \<rightharpoonup> chann_t) \<Rightarrow> addr \<Rightarrow> addr option" where
  "uds h n = (case h n of None \<Rightarrow> None | Some c \<Rightarrow> if c_ctype c = CHANN_TYPE_TLS then c_ext_ud c else None)"

definition ud_ok :: "mnet_tls_ud_t \<Rightarrow> bool" where
  "ud_ok t \<longleftrightarrow> tu_state t > CHANN_STATE_CLOSED \<and> (tu_state t > CHANN_STATE_DISCONNECT \<longrightarrow> tu_ssl t \<noteq> None)"

definition tls_uds :: "(addr \<Rightarrow> addr option) \<Rightarrow> (addr \<rightharpoonup> mnet_tls_ud_t) \<Rightarrow> addr \<Rightarrow> bool" where
  "tls_uds f m b \<longleftrightarrow> (\<forall>n u. f n = Some u \<longrightarrow> u < b \<and> (\<exists>t. m u = Some t \<and> ud_ok t)) \<and>
     (\<forall>n k u. f n = Some u \<longrightarrow> f k = Some u \<longrightarrow> n = k)"

definition tls_inv :: "'w tls_t \<Rightarrow> bool" where
  "tls_inv s \<longleftrightarrow> tls_registered s \<and> tls_uds (uds (g_heap s)) (tw_ud (g_world s)) (tw_brk (g_world s))"

lemma tls_uds_drop: "tls_uds f m b \<Longrightarrow> tls_uds (f(n := None)) (case f n of None \<Rightarrow> m | Some u \<Rightarrow> m(u := None)) b"
  by (auto simp: tls_uds_def split: option.splits)

lemma tls_uds_fresh: "tls_uds f m b \<Longrightarrow> ud_ok t \<Longrightarrow> tls_uds (f(n := Some b)) (m(b \<mapsto> t)) (Suc b)"
  unfolding tls_uds_def by (auto simp: less_Suc_eq)

lemma tls_uds_upd: "tls_uds f m b \<Longrightarrow> ud_ok t \<Longrightarrow> tls_uds f (m(u \<mapsto> t)) b"
  by (auto simp: tls_uds_def)

lemma uds_upd [simp]:
  "uds (h(n \<mapsto> c)) = (uds h)(n := if c_ctype c = CHANN_TYPE_TLS then c_ext_ud c else None)"
  by (auto simp: uds_def fun_eq_iff)

lemma uds_eq: "h n = Some c \<Longrightarrow> c_ctype c = CHANN_TYPE_TLS \<Longrightarrow> uds h n = c_ext_ud c"
  by (simp add: uds_def)

lemma get_ud_eq:
  assumes "tls_registered s" "g_heap s n = Some c" "c_ctype c = CHANN_TYPE_TLS"
  shows "mnet_ext_chann_get_ud (Some n) s = Some (c_ext_ud c)"
  using assms by (auto simp: mnet_ext_chann_get_ud_def tls_registered_def)

lemma tls_inv_reg: "tls_inv s \<Longrightarrow> tls_registered s"
  by (simp add: tls_inv_def)

lemma tls_inv_ud:
  assumes "tls_inv s" "g_heap s n = Some c" "c_ctype c = CHANN_TYPE_TLS" "c_ext_ud c = Some tu"
  obtains t where "tw_ud (g_world s) tu = Some t" "ud_ok t" "ud_get tu s = Some t"
  using assms uds_eq [of "g_heap s" n c] by (fastforce simp: tls_inv_def tls_uds_def ud_get_def)

lemma tls_open_inv:
  assumes "tls_inv s" "g_heap s n = Some c" "c_ctype c = CHANN_TYPE_TLS"
  shows "\<exists>t. tls_open_cb ctx n s = Some t \<and> tls_inv t"
  using assms set_ud_reg [of "snd (ud_new (ud_zero\<lparr>tu_state := CHANN_STATE_DISCONNECT\<rparr>) s)" n c]
    tls_uds_fresh [of "uds (g_heap s)" "tw_ud (g_world s)" "tw_brk (g_world s)" "ud_zero\<lparr>tu_state := CHANN_STATE_DISCONNECT\<rparr>" n]
  by (simp add: tls_open_cb_def ud_new_def tls_inv_def  ud_ok_def ud_zero_def less_chann_state_def Let_def)

lemma tls_listen_inv:
  assumes "tls_inv s" "g_heap s n = Some c" "c_ctype c = CHANN_TYPE_TLS"
  shows "\<exists>t. tls_listen_cb ctx n s = Some t \<and> tls_inv t"
proof (cases "c_ext_ud c")
  case None
  then show ?thesis using assms get_ud_eq [OF tls_inv_reg [OF assms(1)] assms(2,3)] by (simp add: tls_listen_cb_def)
next
  case (Some tu)
  obtain t where t: "tw_ud (g_world s) tu = Some t" using assms Some by (rule tls_inv_ud)
  have reg: "tls_registered s" using assms(1) by (rule tls_inv_reg)
  have "tls_uds ((uds (g_heap s))(n := None)) ((tw_ud (g_world s))(tu := None)) (tw_brk (g_world s))"
    using tls_uds_drop [of "uds (g_heap s)" "tw_ud (g_world s)" _ n] assms Some uds_eq [of "g_heap s", OF assms(2,3)] by (simp add: tls_inv_def)
  then show ?thesis
    using assms Some t reg get_ud_eq [OF reg assms(2,3)] set_ud_reg [OF reg assms(2,3)]
    by (simp add: tls_listen_cb_def ud_free_def ud_get_def tls_inv_def)
qed

lemma ssl_do_simps [simp]:
  "g_heap (ssl_do f s) = g_heap s" "tls_registered (ssl_do f s) = tls_registered s"
  "tw_ud (g_world (ssl_do f s)) = tw_ud (g_world s)" "tw_brk (g_world (ssl_do f s)) = tw_brk (g_world s)"
  by (simp_all add: ssl_do_def)

lemma tls_close_inv:
  assumes "tls_inv s" "g_heap s n = Some c" "c_ctype c = CHANN_TYPE_TLS"
  shows "\<exists>t. tls_close_cb ops ctx n s = Some t \<and> tls_inv t"
proof (cases "c_ext_ud c")
  case None
  then show ?thesis using assms get_ud_eq [OF tls_inv_reg [OF assms(1)] assms(2,3)] by (simp add: tls_close_cb_def)
next
  case (Some tu)
  obtain t where t: "tw_ud (g_world s) tu = Some t" "ud_ok t" "ud_get tu s = Some t" using assms Some by (rule tls_inv_ud)
  have reg: "tls_registered s" using assms(1) by (rule tls_inv_reg)
  have u: "tls_uds ((uds (g_heap s))(n := None)) ((tw_ud (g_world s))(tu := None)) (tw_brk (g_world s))"
    using tls_uds_drop [of "uds (g_heap s)" "tw_ud (g_world s)" _ n] assms Some uds_eq [of "g_heap s", OF assms(2,3)] by (simp add: tls_inv_def)
  define s1 where "s1 = s\<lparr>g_world := (g_world s)\<lparr>tw_ud := (tw_ud (g_world s))(tu \<mapsto> t\<lparr>tu_state := CHANN_STATE_CLOSED\<rparr>)\<rparr>\<rparr>"
  define s2 where "s2 = (case tu_ssl t of None \<Rightarrow> s1 | Some ssl \<Rightarrow> ssl_do (SSL_free ops ssl) s1)"
  have s2: "tw_ud (g_world s2) = (tw_ud (g_world s))(tu \<mapsto> t\<lparr>tu_state := CHANN_STATE_CLOSED\<rparr>)" "g_heap s2 = g_heap s"
      "tls_registered s2" "tw_brk (g_world s2) = tw_brk (g_world s)"
    using reg by (simp_all add: s2_def s1_def split: option.splits)
  show ?thesis
    using assms Some t s2 u reg get_ud_eq [OF reg assms(2,3)]
      set_ud_reg [of "s2\<lparr>g_world := (g_world s2)\<lparr>tw_ud := (tw_ud (g_world s2))(tu := None)\<rparr>\<rparr>" n c None]
    by (simp add: tls_close_cb_def ud_upd_def ud_free_def ud_ok_def flip: s1_def s2_def)
       (simp add: ud_get_def tls_inv_def)
qed

lemma ssl_call_keeps:
  "g_heap (snd (ssl_call f s)) = g_heap s" "tls_registered (snd (ssl_call f s)) = tls_registered s"
  "tw_ud (g_world (snd (ssl_call f s))) = tw_ud (g_world s)"
  "tw_brk (g_world (snd (ssl_call f s))) = tw_brk (g_world s)"
  by (simp_all add: ssl_call_def set_errno_def tls_registered_def split: prod.splits option.splits)

text \<open>Disconnecting runs, keeps the channels as they are, and leaves the user data in the disconnected state.\<close>

lemma tls_disconnect_cb_inv:
  assumes "tls_inv s" "g_heap s n = Some c" "c_ctype c = CHANN_TYPE_TLS"
  shows "\<exists>t. tls_disconnect_cb ops ctx n s = Some t \<and> tls_inv t \<and> g_heap t = g_heap s"
proof (cases "c_ext_ud c")
  case None
  then show ?thesis using assms get_ud_eq [OF tls_inv_reg [OF assms(1)] assms(2,3)] by (simp add: tls_disconnect_cb_def)
next
  case (Some tu)
  obtain t where t: "tw_ud (g_world s) tu = Some t" "ud_ok t" "ud_get tu s = Some t" using assms Some by (rule tls_inv_ud)
  have reg: "tls_registered s" using assms(1) by (rule tls_inv_reg)
  show ?thesis
  proof (cases "tu_state t > CHANN_STATE_DISCONNECT")
    case True
    then obtain ssl where ssl: "tu_ssl t = Some ssl" using t(2) by (auto simp: ud_ok_def)
    define s1 where "s1 = s\<lparr>g_world := (g_world s)\<lparr>tw_ud := (tw_ud (g_world s))(tu \<mapsto> t\<lparr>tu_state := CHANN_STATE_DISCONNECT\<rparr>)\<rparr>\<rparr>"
    have "tls_inv s1"
      using assms(1) tls_uds_upd [of "uds (g_heap s)" "tw_ud (g_world s)" _ "t\<lparr>tu_state := CHANN_STATE_DISCONNECT\<rparr>" tu]
      by (simp add: tls_inv_def s1_def ud_ok_def less_chann_state_def)
    then show ?thesis
      using True ssl t get_ud_eq [OF reg assms(2,3)] Some
      by (simp add: tls_disconnect_cb_def ud_upd_def case_prod_beta tls_inv_def ssl_call_keeps flip: s1_def)
         (simp add: s1_def)
  next
    case False
    then show ?thesis using assms(1) t get_ud_eq [OF reg assms(2,3)] Some by (simp add: tls_disconnect_cb_def)
  qed
qed


text \<open>Closing a socket does not touch the user data.\<close>

definition os_keeps :: "'w tls_world env \<Rightarrow> bool" where
  "os_keeps env \<longleftrightarrow> (\<forall>fd w r e w'. sys_close env fd w = (r, e, w') \<longrightarrow> tw_ud w' = tw_ud w \<and> tw_brk w' = tw_brk w)"

lemma os_close_keeps:
  assumes "os_keeps env"
  shows "g_heap (snd (syscall (sys_close env fd) s)) = g_heap s"
    "tls_registered (snd (syscall (sys_close env fd) s)) = tls_registered s"
    "tw_ud (g_world (snd (syscall (sys_close env fd) s))) = tw_ud (g_world s)"
    "tw_brk (g_world (snd (syscall (sys_close env fd) s))) = tw_brk (g_world s)"
  using assms
  by (auto simp: os_keeps_def syscall_def set_errno_def tls_registered_def split: prod.splits option.splits)

lemma call_tls_disconnect:
  assumes "tls_inv s" "g_heap s n = Some c" "c_ctype c = CHANN_TYPE_TLS"
  obtains ext t where "ext_config s (c_ctype c) = Some ext"
    "call_op_cb (tls_env0 ops env) (e_disconnect_cb ext) ext n s = Some t" "tls_inv t" "g_heap t = g_heap s"
proof -
  obtain ctx where ext: "ext_config s (c_ctype c) = Some ((tls_ext ctx)\<lparr>e_reserved := True\<rparr>)"
    using tls_inv_reg [OF assms(1)] assms(3) by (auto simp: tls_registered_def)
  obtain t where t: "tls_disconnect_cb ops ctx n s = Some t" "tls_inv t" "g_heap t = g_heap s"
    using tls_disconnect_cb_inv [OF assms, of ops ctx] by blast
  show ?thesis
    by (rule that [OF ext _ t(2,3)]) (simp add: call_op_cb_def tls_ext_def tls_env0_def t(1))
qed

lemma tls_disconnect_inv:
  assumes s: "tls_inv s" "g_heap s n = Some c" "c_ctype c = CHANN_TYPE_TLS"
    and q: "rwb_inv (c_rwb_send c)" "rwb_count (c_rwb_send c) = 0" and os: "os_keeps env"
  shows "\<exists>t. mnet_chann_disconnect (tls_env0 ops env) (Some n) s = Some t \<and> tls_inv t"
proof (cases "c_fd c > 0 \<and> c_state c > CHANN_STATE_DISCONNECT")
  case True
  obtain ext s1 where s1: "ext_config s (c_ctype c) = Some ext"
      "call_op_cb (tls_env0 ops env) (e_disconnect_cb ext) ext n s = Some s1" "tls_inv s1" "g_heap s1 = g_heap s"
    using s by (rule call_tls_disconnect)
  have e0: "sys_close (tls_env0 ops env) = sys_close env" by (simp add: tls_env0_def)
  define s2 where "s2 = snd (syscall (sys_close env (c_fd c)) s1)"
  have s2: "g_heap s2 = g_heap s" "tls_inv s2"
    using s1(3,4) by (simp_all add: s2_def tls_inv_def os_close_keeps [OF os])
  have u: "(uds (g_heap s))(n := c_ext_ud c) = uds (g_heap s)"
    using uds_eq [of "g_heap s", OF s(2,3)] by (simp add: fun_upd_idem)
  show ?thesis
    using True s(2,3) q s1(1,2,4) s2 u
    by (simp add: mnet_chann_disconnect_def chann_disconnect_socket_def e0 case_prod_beta chann_rwb_destroy_def
        rwb_destroy_inv upd_chann_def flip: s2_def) (simp add: tls_inv_def)
next
  case False
  then show ?thesis
    using s by (auto simp: mnet_chann_disconnect_def chann_disconnect_socket_def)
qed

lemma tls_start_inv:
  assumes reg: "tls_registered s" and n: "g_heap s n = Some c" "c_ctype c = CHANN_TYPE_TLS"
    and tu: "tw_ud (g_world s) tu = Some t" "tu_state t > CHANN_STATE_CLOSED"
    and uds: "\<And>ssl. tls_uds (uds (g_heap s)) ((tw_ud (g_world s))(tu \<mapsto> t\<lparr>tu_ssl := Some ssl\<rparr>)) (tw_brk (g_world s))"
    and ssl: "SSL_new ops ctx (tw_os (g_world s)) = (Some ssl, w)"
    and q: "rwb_inv (c_rwb_send c)" "rwb_count (c_rwb_send c) = 0" and os: "os_keeps env"
  shows "\<exists>s'. tls_start ops env hs ctx n tu s = Some s' \<and> tls_inv s'"
proof -
  let ?t = "t\<lparr>tu_ssl := Some ssl\<rparr>"
  define s1 where "s1 = ssl_set_fd ops ssl (c_fd c) (s\<lparr>g_world := (g_world s)\<lparr>tw_os := w, tw_ud := (tw_ud (g_world s))(tu \<mapsto> ?t)\<rparr>\<rparr>)"
  have s1: "g_heap s1 = g_heap s" "tls_registered s1" "tw_ud (g_world s1) = (tw_ud (g_world s))(tu \<mapsto> ?t)"
      "tw_brk (g_world s1) = tw_brk (g_world s)"
    using reg by (simp_all add: s1_def ssl_set_fd_def Let_def)
  obtain ret s2 where s2: "ssl_call (hs ops ssl) s1 = (ret, s2)" by force
  have core: "g_heap s2 = g_heap s" "tls_registered s2" "tw_ud (g_world s2) = (tw_ud (g_world s))(tu \<mapsto> ?t)"
      "tw_brk (g_world s2) = tw_brk (g_world s)"
    using ssl_call_keeps [of "hs ops ssl" s1] s1 by (simp_all add: s2)
  have inv2: "tls_inv s2" using core uds by (simp add: tls_inv_def)
  have run: "tls_start ops env hs ctx n tu s =
      (if ret = 1 then ud_upd tu (\<lambda>t. t\<lparr>tu_state := CHANN_STATE_CONNECTED\<rparr>) s2
       else if \<not> ssl_is_rw ops ssl ret s2 then mnet_chann_disconnect (tls_env0 ops env) (Some n) s2 else Some s2)"
    using ssl tu(1) n(1) s2
    by (simp add: tls_start_def ud_upd_def ud_get_def mnet_chann_fd_def flip: s1_def)
  have "tls_uds (uds (g_heap s)) ((tw_ud (g_world s))(tu \<mapsto> ?t\<lparr>tu_state := CHANN_STATE_CONNECTED\<rparr>)) (tw_brk (g_world s))"
    using tls_uds_upd [OF uds [of ssl], of "?t\<lparr>tu_state := CHANN_STATE_CONNECTED\<rparr>" tu]
    by (simp add: ud_ok_def less_chann_state_def)
  then have "\<exists>s'. ud_upd tu (\<lambda>t. t\<lparr>tu_state := CHANN_STATE_CONNECTED\<rparr>) s2 = Some s' \<and> tls_inv s'"
    using core by (simp add: ud_upd_def ud_get_def tls_inv_def)
  moreover have "\<exists>s'. mnet_chann_disconnect (tls_env0 ops env) (Some n) s2 = Some s' \<and> tls_inv s'"
    using inv2 core(1) n q os by (intro tls_disconnect_inv) simp_all
  ultimately show ?thesis using run inv2 by simp
qed

lemma tls_accept_inv:
  assumes s: "tls_inv s" "g_heap s n = Some c" "c_ctype c = CHANN_TYPE_TLS"
    and ssl: "SSL_new ops ctx (tw_os (g_world s)) = (Some ssl, w)"
    and q: "rwb_inv (c_rwb_send c)" "rwb_count (c_rwb_send c) = 0" and os: "os_keeps env"
  shows "\<exists>s'. tls_accept_cb ops env ctx n s = Some s' \<and> tls_inv s'"
proof -
  let ?b = "tw_brk (g_world s)" and ?t = "ud_zero\<lparr>tu_state := CHANN_STATE_LISTENING\<rparr>"
  let ?s1 = "s\<lparr>g_world := (g_world s)\<lparr>tw_ud := (tw_ud (g_world s))(?b \<mapsto> ud_zero), tw_brk := Suc ?b\<rparr>\<rparr>"
  let ?s2 = "?s1\<lparr>g_heap := (g_heap s)(n \<mapsto> c\<lparr>c_ext_ud := Some ?b\<rparr>),
      g_world := (g_world s)\<lparr>tw_brk := Suc ?b, tw_ud := (tw_ud (g_world s))(?b \<mapsto> ?t)\<rparr>\<rparr>"
  have reg: "tls_registered s" using s(1) by (rule tls_inv_reg)
  have run: "tls_accept_cb ops env ctx n s = tls_start ops env SSL_accept ctx n ?b ?s2"
    using set_ud_reg [of ?s1 n c "Some ?b"] reg s
    by (simp add: tls_accept_cb_def ud_new_def Let_def ud_upd_def)
  have uds: "tls_uds ((uds (g_heap s))(n := Some ?b)) ((tw_ud (g_world s))(?b \<mapsto> ?t\<lparr>tu_ssl := Some ssl\<rparr>)) (Suc ?b)" for ssl
    using s(1) by (intro tls_uds_fresh) (auto simp: tls_inv_def ud_ok_def less_chann_state_def)
  from ssl show ?thesis
    unfolding run using reg s(2,3) q os uds
    by (intro tls_start_inv [where c = "c\<lparr>c_ext_ud := Some ?b\<rparr>" and t = ?t]) (auto simp: less_chann_state_def)
qed

lemma tls_connect_inv:
  assumes s: "tls_inv s" "g_heap s n = Some c" "c_ctype c = CHANN_TYPE_TLS"
    and ssl: "SSL_new ops ctx (tw_os (g_world s)) = (Some ssl, w)"
    and q: "rwb_inv (c_rwb_send c)" "rwb_count (c_rwb_send c) = 0" and os: "os_keeps env"
  shows "\<exists>s'. tls_connect_cb ops env ctx n s = Some s' \<and> tls_inv s'"
proof (cases "c_ext_ud c")
  case None
  then show ?thesis using s get_ud_eq [OF tls_inv_reg [OF s(1)] s(2,3)] by (simp add: tls_connect_cb_def)
next
  case (Some tu)
  obtain t where t: "tw_ud (g_world s) tu = Some t" "ud_get tu s = Some t" using s Some by (rule tls_inv_ud)
  have reg: "tls_registered s" using s(1) by (rule tls_inv_reg)
  let ?t = "t\<lparr>tu_state := CHANN_STATE_CONNECTING\<rparr>"
  let ?s1 = "s\<lparr>g_world := (g_world s)\<lparr>tw_ud := (tw_ud (g_world s))(tu \<mapsto> ?t)\<rparr>\<rparr>"
  have run: "tls_connect_cb ops env ctx n s = tls_start ops env SSL_connect ctx n tu ?s1"
    using get_ud_eq [OF reg s(2,3)] Some t by (simp add: tls_connect_cb_def ud_upd_def)
  have uds: "tls_uds (uds (g_heap s)) ((tw_ud (g_world s))(tu \<mapsto> ?t\<lparr>tu_ssl := Some ssl\<rparr>)) (tw_brk (g_world s))" for ssl
    using s(1) by (intro tls_uds_upd) (auto simp: tls_inv_def ud_ok_def less_chann_state_def)
  from ssl show ?thesis
    unfolding run using reg s(2,3) q os uds
    by (intro tls_start_inv [where c = c and t = ?t]) (auto simp: less_chann_state_def)
qed

subsection \<open>Properties\<close>

text \<open>The callbacks that create an SSL object use it without looking whether there is one.\<close>

definition needs_ssl :: "nat \<Rightarrow> chann_t \<Rightarrow> bool" where
  "needs_ssl k c \<longleftrightarrow> k = CB_accept \<or> k = CB_connect \<and> c_ext_ud c \<noteq> None"

lemma tls_start_null:
  assumes "fst (SSL_new ops ctx (tw_os (g_world s))) = None"
  shows "tls_start ops env hs ctx n tu s = None"
proof -
  obtain w where "SSL_new ops ctx (tw_os (g_world s)) = (None, w)" using assms by (metis prod.collapse)
  then show ?thesis by (simp add: tls_start_def bind_eq_None_conv)
qed

lemma tls_null_fault:
  assumes s: "tls_inv s" "g_heap s n = Some c" "c_ctype c = CHANN_TYPE_TLS"
    and null: "fst (SSL_new ops ctx (tw_os (g_world s))) = None"
  shows "tls_accept_cb ops env ctx n s = None"
    and "c_ext_ud c \<noteq> None \<Longrightarrow> tls_connect_cb ops env ctx n s = None"
proof -
  have reg: "tls_registered s" using s(1) by (rule tls_inv_reg)
  show "tls_accept_cb ops env ctx n s = None"
    using set_ud_reg [of "snd (ud_new ud_zero s)" n c] reg s(2,3) null
    by (simp add: tls_accept_cb_def ud_new_def Let_def ud_upd_def tls_start_null)
  assume "c_ext_ud c \<noteq> None"
  then obtain tu where tu: "c_ext_ud c = Some tu" by blast
  obtain t where "tw_ud (g_world s) tu = Some t" "ud_get tu s = Some t" using s tu by (rule tls_inv_ud)
  with get_ud_eq [OF reg s(2,3)] tu null show "tls_connect_cb ops env ctx n s = None"
    by (simp add: tls_connect_cb_def ud_upd_def tls_start_null)
qed

lemma tls_connect_none:
  assumes "tls_inv s" "g_heap s n = Some c" "c_ctype c = CHANN_TYPE_TLS" "c_ext_ud c = None"
  shows "tls_connect_cb ops env ctx n s = Some s"
  using assms get_ud_eq [OF tls_inv_reg [OF assms(1)] assms(2,3)] by (simp add: tls_connect_cb_def)

lemma tls_op_cb_inv:
  assumes s: "tls_inv s" "g_heap s n = Some c" "c_ctype c = CHANN_TYPE_TLS"
    and q: "rwb_inv (c_rwb_send c)" "rwb_count (c_rwb_send c) = 0" "os_keeps env" and k: "k \<le> CB_disconnect"
    and ssl: "needs_ssl k c \<Longrightarrow> fst (SSL_new ops ctx (tw_os (g_world s))) \<noteq> None"
  shows "\<exists>t. tls_op_cb ops env k ctx n s = Some t \<and> tls_inv t"
proof -
  have ks: "k = 0 \<or> k = 1 \<or> k = 2 \<or> k = 3 \<or> k = 4 \<or> k = 5" using k unfolding CB_disconnect_def by arith
  obtain d where dis: "tls_disconnect_cb ops ctx n s = Some d" "tls_inv d"
    using tls_disconnect_cb_inv [OF s, of ops ctx] by blast
  have acc: "\<exists>t. tls_accept_cb ops env ctx n s = Some t \<and> tls_inv t" if "k = 3"
  proof -
    from that ssl obtain p w where "SSL_new ops ctx (tw_os (g_world s)) = (Some p, w)"
      by (cases "SSL_new ops ctx (tw_os (g_world s))") (auto simp: needs_ssl_def cb_defs)
    with tls_accept_inv [OF s _ q] show ?thesis by blast
  qed
  have con: "\<exists>t. tls_connect_cb ops env ctx n s = Some t \<and> tls_inv t" if "k = 4"
  proof (cases "c_ext_ud c = None")
    case True
    with tls_connect_none [OF s] s(1) show ?thesis by simp
  next
    case False
    with that ssl obtain p w where "SSL_new ops ctx (tw_os (g_world s)) = (Some p, w)"
      by (cases "SSL_new ops ctx (tw_os (g_world s))") (auto simp: needs_ssl_def cb_defs)
    with tls_connect_inv [OF s _ q] show ?thesis by blast
  qed
  from ks show ?thesis
    using tls_open_inv [OF s] tls_close_inv [OF s] tls_listen_inv [OF s] dis acc con
    by (elim disjE) (simp_all add: tls_op_cb_def cb_defs)
qed

text \<open>A TLS state for the examples: one channel with user data, its handshake under way.\<close>

definition sample_ssl :: "unit ssl_ops" where
  "sample_ssl = \<lparr>SSL_new = (\<lambda>_ w. (Some 1, w)), SSL_free = (\<lambda>_ w. w), SSL_set_mode = (\<lambda>_ _ w. w),
     SSL_set_fd = (\<lambda>_ _ w. w), SSL_accept = (\<lambda>_ w. (1, None, w)), SSL_connect = (\<lambda>_ w. (-1, None, w)),
     SSL_get_error = (\<lambda>_ _ _. SSL_ERROR_WANT_READ), SSL_shutdown = (\<lambda>_ w. (1, None, w)),
     SSL_clear = (\<lambda>_ w. (1, None, w)), SSL_read = (\<lambda>_ _ w. (1, [65], None, w)),
     SSL_write = (\<lambda>_ buf w. (int (length buf), None, w))\<rparr>"

definition tls_chann0 :: chann_t where
  "tls_chann0 = chann_zero\<lparr>c_fd := 5, c_state := CHANN_STATE_CONNECTED, c_ctype := CHANN_TYPE_TLS, c_ext_ud := Some 7,
     c_msg := \<lparr>m_event = Some CHANN_EVENT_RECV, m_err = 0, m_n = Some 1, m_r = None, m_opaque = None\<rparr>\<rparr>"

definition tls_state0 :: "chann_state \<Rightarrow> unit tls_t" where
  "tls_state0 st = (mnet_start \<lparr>tw_ud = [7 \<mapsto> \<lparr>tu_ln = Some 2, tu_state = st, tu_ssl = Some 1\<rparr>], tw_brk = 8, tw_os = ()\<rparr>)
     \<lparr>g_ext_config := sample_cfg[4 := (tls_ext (Some 9))\<lparr>e_reserved := True\<rparr>], g_heap := [1 \<mapsto> tls_chann0], g_brk := 3\<rparr>"

lemma tls_state0_registered: "tls_registered (tls_state0 st)"
  unfolding tls_registered_def
  by (rule exI [of _ "Some 9"]) (simp add: ext_config_def tls_state0_def sample_cfg_def CHANN_TYPE_TLS_def rd_def)

lemma tls_state0_chann: "tls_chann (tls_state0 st) 1 tls_chann0 7 \<lparr>tu_ln = Some 2, tu_state = st, tu_ssl = Some 1\<rparr>"
  using tls_state0_registered [of st] by (simp add: tls_chann_def) (simp add: tls_state0_def tls_chann0_def ud_get_def)

text \<open>
  C38: the six callbacks of the TLS channel type on a channel without unsent bytes.
  Every TLS channel that has user data points to an allocated record of its own, with an SSL
  object whenever its handshake has begun; opening, closing, listening, accepting, connecting
  and disconnecting run without a fault and keep this, also when the handshake fails at once
  and the callback disconnects its own channel.  There is one exception: \<open>SSL_new\<close> may return
  NULL, and then the accept callback, and the connect callback on a channel with user data,
  pass NULL on to OpenSSL, which is a fault.  Closing a socket is assumed to leave the user
  data alone.
\<close>

theorem tls_callbacks_safe:
  assumes "tls_inv s" "g_heap s n = Some c" "c_ctype c = CHANN_TYPE_TLS"
    and "rwb_inv (c_rwb_send c)" "rwb_count (c_rwb_send c) = 0" "os_keeps env" "k \<le> CB_disconnect"
  shows "if needs_ssl k c \<and> fst (SSL_new ops ctx (tw_os (g_world s))) = None
    then x_op_cb (tls_env ops env) k ctx n s = None
    else \<exists>t. x_op_cb (tls_env ops env) k ctx n s = Some t \<and> tls_inv t"
proof (cases "needs_ssl k c \<and> fst (SSL_new ops ctx (tw_os (g_world s))) = None")
  case True
  with tls_null_fault [OF assms(1-3), of ops ctx env] show ?thesis
    by (auto simp: needs_ssl_def tls_env_def tls_op_cb_def cb_defs)
next
  case False
  with tls_op_cb_inv [OF assms, of ops ctx] show ?thesis by (auto simp: tls_env_def)
qed

lemma tls_state0_inv: "st > CHANN_STATE_CLOSED \<Longrightarrow> tls_inv (tls_state0 st)"
  using tls_state0_registered [of st] unfolding tls_inv_def
  by (auto simp: tls_uds_def uds_def tls_state0_def tls_chann0_def ud_ok_def split: if_splits)

theorem tls_callbacks_safe_witness:
  "list_all (\<lambda>k. \<exists>t. x_op_cb (tls_env sample_ssl quiet_env) k (Some 9) 1 (tls_state0 CHANN_STATE_CONNECTED) = Some t \<and> tls_inv t)
     [CB_open, CB_close, CB_listen, CB_accept, CB_connect, CB_disconnect]"
  unfolding list_all_iff
proof
  fix k assume k: "k \<in> set [CB_open, CB_close, CB_listen, CB_accept, CB_connect, CB_disconnect]"
  have "tls_inv (tls_state0 CHANN_STATE_CONNECTED)" by (rule tls_state0_inv) (simp add: less_chann_state_def)
  moreover have "g_heap (tls_state0 CHANN_STATE_CONNECTED) 1 = Some tls_chann0" "c_ctype tls_chann0 = CHANN_TYPE_TLS"
      "rwb_inv (c_rwb_send tls_chann0)" "rwb_count (c_rwb_send tls_chann0) = 0"
    using rwb_rep_inv [OF rwb_rep_zero]
    by (simp_all add: tls_state0_def tls_chann0_def chann_zero_def rwb_count_def rwb_zero_def)
  moreover have "os_keeps (quiet_env :: unit tls_world env)" by (simp add: os_keeps_def quiet_env_def)
  moreover have needs: "\<not> (needs_ssl k tls_chann0 \<and> fst (SSL_new sample_ssl (Some 9) w) = None)" for w by (simp add: sample_ssl_def)
  moreover have "k \<le> CB_disconnect" using k by (auto simp: cb_defs)
  ultimately show "\<exists>t. x_op_cb (tls_env sample_ssl quiet_env) k (Some 9) 1 (tls_state0 CHANN_STATE_CONNECTED) = Some t \<and> tls_inv t"
    using tls_callbacks_safe [of "tls_state0 CHANN_STATE_CONNECTED" 1 tls_chann0 quiet_env k sample_ssl "Some 9"]
    unfolding if_not_P [OF needs] by blast
qed

text \<open>
  C22: what the message filter lets through, for every event.  An ACCEPT posted for
  the accepted channel is swallowed, and the listening channel remembered in its user data.
  A CONNECTED or RECV of a channel whose handshake is done passes unchanged.  While it is not
  done they run the handshake, as the server on an accepted channel and as the client on any
  other: when OpenSSL wants more input or output the event is swallowed; when it completes,
  the event becomes the ACCEPT of the listening channel for this one, or a CONNECTED; when
  it fails, the channel is disconnected, and the event is swallowed on an accepted channel
  and becomes a DISCONNECT on any other.  All other events pass unchanged at any time.
\<close>

theorem tls_handshake_filter:
  assumes tc: "tls_chann s n c tu t"
  shows "(\<forall>ln lc. g_heap s ln = Some lc \<and> m_event (c_msg lc) = Some CHANN_EVENT_ACCEPT \<and> m_r (c_msg lc) = Some n \<longrightarrow>
      tls_filter_fn ops env ctx ln s = Some (0, s\<lparr>g_world := (g_world s)\<lparr>tw_ud := (tw_ud (g_world s))
        (tu \<mapsto> t\<lparr>tu_ln := m_n (c_msg lc)\<rparr>)\<rparr>\<rparr>)) \<and>
    (m_event (c_msg c) \<notin> {Some CHANN_EVENT_ACCEPT, Some CHANN_EVENT_CONNECTED, Some CHANN_EVENT_RECV} \<longrightarrow>
      tls_filter_fn ops env ctx n s = Some (1, s)) \<and>
    (m_event (c_msg c) \<in> {Some CHANN_EVENT_CONNECTED, Some CHANN_EVENT_RECV} \<and> m_n (c_msg c) = Some n \<longrightarrow>
      (if tu_state t = CHANN_STATE_CONNECTED then tls_filter_fn ops env ctx n s = Some (1, s)
       else \<forall>ssl r s1. tu_ssl t = Some ssl \<and>
           ssl_call (if tu_state t = CHANN_STATE_LISTENING then SSL_accept ops ssl else SSL_connect ops ssl) s = (r, s1) \<longrightarrow>
         (if r = 1 then \<exists>u. tls_filter_fn ops env ctx n s = Some (1, u) \<and>
            (if tu_state t = CHANN_STATE_LISTENING then
               g_heap u = (g_heap s)(n \<mapsto> c\<lparr>c_msg := (c_msg c)\<lparr>m_event := Some CHANN_EVENT_ACCEPT, m_r := Some n, m_n := tu_ln t\<rparr>\<rparr>) \<and>
               ud_get tu u = Some (t\<lparr>tu_ln := None, tu_state := CHANN_STATE_CONNECTED\<rparr>)
             else
               g_heap u = (g_heap s)(n \<mapsto> c\<lparr>c_msg := (c_msg c)\<lparr>m_event := Some CHANN_EVENT_CONNECTED\<rparr>\<rparr>) \<and>
               ud_get tu u = Some (t\<lparr>tu_state := CHANN_STATE_CONNECTED\<rparr>))
          else if ssl_is_rw ops ssl r s1 then tls_filter_fn ops env ctx n s = Some (0, s1)
          else if tu_state t = CHANN_STATE_LISTENING then tls_filter_fn ops env ctx n s =
            map_option (\<lambda>u. (0, u)) (mnet_chann_disconnect (tls_env0 ops env) (Some n) s1)
          else tls_filter_fn ops env ctx n s = map_option (\<lambda>u. (1, u)) (mnet_chann_disconnect (tls_env0 ops env) (Some n)
            (s1\<lparr>g_heap := (g_heap s)(n \<mapsto> c\<lparr>c_msg := (c_msg c)\<lparr>m_event := Some CHANN_EVENT_DISCONNECT\<rparr>\<rparr>)\<rparr>)))))"
  by (intro conjI impI allI; (elim conjE)?)
    (rule tls_filter_accept [OF tc] tls_filter_other [OF tc] tls_filter_handshake [OF tc]; assumption)+

theorem tls_handshake_filter_witness:
  "tls_chann (tls_state0 CHANN_STATE_LISTENING) 1 tls_chann0 7 \<lparr>tu_ln = Some 2, tu_state = CHANN_STATE_LISTENING, tu_ssl = Some 1\<rparr> \<and>
   (\<exists>u. tls_filter_fn sample_ssl quiet_env (Some 9) 1 (tls_state0 CHANN_STATE_LISTENING) = Some (1, u) \<and>
      ud_get 7 u = Some \<lparr>tu_ln = None, tu_state = CHANN_STATE_CONNECTED, tu_ssl = Some 1\<rparr>)"
proof -
  obtain s1 where "ssl_call (SSL_accept sample_ssl 1) (tls_state0 CHANN_STATE_LISTENING) = (1, s1)"
    by (auto simp: ssl_call_def sample_ssl_def)
  then show ?thesis
    using tls_handshake_filter [OF tls_state0_chann [of CHANN_STATE_LISTENING], of sample_ssl quiet_env "Some 9"]
      tls_state0_chann [of CHANN_STATE_LISTENING] by (auto simp: tls_chann0_def)
qed



text \<open>
  \<open>mnet_tls_config\<close> with a context registers the type exactly once.  If
  slot 4 is free the first call returns 1, installs the callbacks and changes nothing else;
  every later call returns 0 and changes nothing; a NULL context is refused.
\<close>

lemma tls_register_once:
  assumes "length (g_ext_config s) = 8" "\<not> e_reserved (g_ext_config s ! 4)"
  shows "mnet_tls_config ops env None s = Some (0, s) \<and>
    (\<exists>t. mnet_tls_config ops env (Some x) s = Some (1, t) \<and> tls_registered t \<and> g_heap t = g_heap s \<and> g_world t = g_world s \<and>
      mnet_tls_config ops env (Some y) t = Some (0, t))"
  using assms
  by (auto simp: mnet_tls_config_def mnet_ext_register_def ext_config_def rd_def wr_def ctype_defs CHANN_TYPE_TLS_def
      ext_complete_def tls_ext_def call_type_fn_def tls_env_def tls_type_fn_def tls_registered_def)

text \<open>
  C40: when \<open>SSL_accept\<close> succeeds already in the accept callback, the
  application never sees the new channel.  The callback leaves the handshake as done.  The
  ACCEPT that the event loop then posts on the listening channel is swallowed, in expectation
  of a later one from the handshake; but the handshake is over, so the next data on the
  channel is delivered as a plain RECV of a channel that was never announced, and its user
  data still remembers the listening channel.
\<close>

theorem tls_immediate_accept:
  assumes reg: "tls_registered s" and n: "g_heap s n = Some c" "c_ctype c = CHANN_TYPE_TLS"
    and ln: "g_heap s ln = Some lc" "c_ctype lc = CHANN_TYPE_TLS" "ln \<noteq> n"
    and new: "SSL_new ops ctx (tw_os (g_world s)) = (Some ssl, w)" and acc: "\<forall>w. fst (SSL_accept ops ssl w) = 1"
  shows "\<exists>s1 s2 s3 d tu. tls_accept_cb ops env ctx n s = Some s1 \<and>
    chann_msg (tls_env ops env) ln CHANN_EVENT_ACCEPT (Some n) 0 s1 = Some (0, s2) \<and>
    chann_msg (tls_env ops env) n CHANN_EVENT_RECV None 0 s2 = Some (1, s3) \<and>
    g_heap s3 n = Some d \<and> m_event (c_msg d) = Some CHANN_EVENT_RECV \<and> m_n (c_msg d) = Some n \<and>
    c_ext_ud d = Some tu \<and> ud_get tu s3 = Some \<lparr>tu_ln = Some ln, tu_state = CHANN_STATE_CONNECTED, tu_ssl = Some ssl\<rparr>"
proof -
  obtain s1 tu where s1: "tls_accept_cb ops env ctx n s = Some s1" "g_heap s1 = (g_heap s)(n \<mapsto> c\<lparr>c_ext_ud := Some tu\<rparr>)"
    "tls_chann s1 n (c\<lparr>c_ext_ud := Some tu\<rparr>) tu \<lparr>tu_ln = None, tu_state = CHANN_STATE_CONNECTED, tu_ssl = Some ssl\<rparr>"
    using tls_accept_cb_done [OF reg n new acc] by blast
  have "g_heap s1 ln = Some lc" using s1(2) ln by simp
  from chann_msg_accept [OF s1(3) this ln(2,3), of ops env] obtain s2 where
    s2: "chann_msg (tls_env ops env) ln CHANN_EVENT_ACCEPT (Some n) 0 s1 = Some (0, s2)"
    "tls_chann s2 n (c\<lparr>c_ext_ud := Some tu\<rparr>) tu \<lparr>tu_ln = Some ln, tu_state = CHANN_STATE_CONNECTED, tu_ssl = Some ssl\<rparr>" by auto
  have "ud_get tu s2 = Some \<lparr>tu_ln = Some ln, tu_state = CHANN_STATE_CONNECTED, tu_ssl = Some ssl\<rparr>"
    using s2(2) by (simp add: tls_chann_def)
  with chann_msg_recv [OF s2(2), of ops env] s1(1) s2(1) show ?thesis by (auto simp: event_msg_def)
qed

theorem tls_immediate_accept_witness:
  "\<exists>s s1 s2 s3. tls_accept_cb sample_ssl quiet_env (Some 9) 1 s = Some s1 \<and>
     chann_msg (tls_env sample_ssl quiet_env) 2 CHANN_EVENT_ACCEPT (Some 1) 0 s1 = Some (0, s2) \<and>
     chann_msg (tls_env sample_ssl quiet_env) 1 CHANN_EVENT_RECV None 0 s2 = Some (1, s3)"
proof -
  let ?c = "tls_chann0\<lparr>c_ext_ud := None\<rparr>" and ?lc = "chann_zero\<lparr>c_ctype := CHANN_TYPE_TLS\<rparr>"
  let ?s = "(tls_state0 CHANN_STATE_CONNECTED)\<lparr>g_heap := [1 \<mapsto> ?c, 2 \<mapsto> ?lc]\<rparr>"
  have "\<exists>s1 s2 s3 d tu. tls_accept_cb sample_ssl quiet_env (Some 9) 1 ?s = Some s1 \<and>
    chann_msg (tls_env sample_ssl quiet_env) 2 CHANN_EVENT_ACCEPT (Some 1) 0 s1 = Some (0, s2) \<and>
    chann_msg (tls_env sample_ssl quiet_env) 1 CHANN_EVENT_RECV None 0 s2 = Some (1, s3) \<and>
    g_heap s3 1 = Some d \<and> m_event (c_msg d) = Some CHANN_EVENT_RECV \<and> m_n (c_msg d) = Some 1 \<and>
    c_ext_ud d = Some tu \<and> ud_get tu s3 = Some \<lparr>tu_ln = Some 2, tu_state = CHANN_STATE_CONNECTED, tu_ssl = Some 1\<rparr>"
    by (rule tls_immediate_accept [where c = ?c and lc = ?lc and ssl = 1 and w = "()"])
      (use tls_state0_registered [of CHANN_STATE_CONNECTED] in \<open>simp_all add: tls_chann0_def sample_ssl_def\<close>)
  then show ?thesis by blast
qed

end
