(* ===== verification/Wepoll_Queue.thy ===== *)
theory Wepoll_Queue
  imports Chain
begin

text \<open>
  The intrusive queues of the Windows event port, src/src/wepoll.c lines 1468--1525.

  A queue is a ring of nodes through its own head; a node that is in no queue points to
  itself.  The two pointers of the nodes are kept as maps from addresses.  The lemmas show
  that the operations do on the ring what their names say on the list of its nodes, and
  touch no node of another queue.
\<close>

record queue_mem =
  qn_prev :: "addr \<rightharpoonup> addr"
  qn_next :: "addr \<rightharpoonup> addr"

definition set_qprev :: "queue_mem \<Rightarrow> addr \<Rightarrow> addr \<Rightarrow> queue_mem option" where
  "set_qprev m a v = do { _ \<leftarrow> qn_prev m a; Some (m\<lparr>qn_prev := (qn_prev m)(a \<mapsto> v)\<rparr>) }"

definition set_qnext :: "queue_mem \<Rightarrow> addr \<Rightarrow> addr \<Rightarrow> queue_mem option" where
  "set_qnext m a v = do { _ \<leftarrow> qn_next m a; Some (m\<lparr>qn_next := (qn_next m)(a \<mapsto> v)\<rparr>) }"

subsection \<open>Operations\<close>

definition queue_node_init :: "queue_mem \<Rightarrow> addr \<Rightarrow> queue_mem option" where
  "queue_node_init m node = do {
     m \<leftarrow> set_qprev m node node;
     set_qnext m node node
   }"

definition queue_init :: "queue_mem \<Rightarrow> addr \<Rightarrow> queue_mem option" where
  "queue_init m queue = queue_node_init m queue"

definition queue_detach_node :: "queue_mem \<Rightarrow> addr \<Rightarrow> queue_mem option" where
  "queue_detach_node m node = do {
     p \<leftarrow> qn_prev m node;
     n \<leftarrow> qn_next m node;
     m \<leftarrow> set_qnext m p n;
     n \<leftarrow> qn_next m node;
     p \<leftarrow> qn_prev m node;
     set_qprev m n p
   }"

definition queue_is_enqueued :: "queue_mem \<Rightarrow> addr \<Rightarrow> bool option" where
  "queue_is_enqueued m node = do { p \<leftarrow> qn_prev m node; Some (p \<noteq> node) }"

definition queue_is_empty :: "queue_mem \<Rightarrow> addr \<Rightarrow> bool option" where
  "queue_is_empty m queue = do { e \<leftarrow> queue_is_enqueued m queue; Some (\<not> e) }"

definition queue_first :: "queue_mem \<Rightarrow> addr \<Rightarrow> addr option option" where
  "queue_first m queue = do {
     e \<leftarrow> queue_is_empty m queue;
     if \<not> e then do { n \<leftarrow> qn_next m queue; Some (Some n) } else Some None
   }"

definition queue_last :: "queue_mem \<Rightarrow> addr \<Rightarrow> addr option option" where
  "queue_last m queue = do {
     e \<leftarrow> queue_is_empty m queue;
     if \<not> e then do { p \<leftarrow> qn_prev m queue; Some (Some p) } else Some None
   }"

definition queue_prepend :: "queue_mem \<Rightarrow> addr \<Rightarrow> addr \<Rightarrow> queue_mem option" where
  "queue_prepend m queue node = do {
     hn \<leftarrow> qn_next m queue;
     m \<leftarrow> set_qnext m node hn;
     m \<leftarrow> set_qprev m node queue;
     nn \<leftarrow> qn_next m node;
     m \<leftarrow> set_qprev m nn node;
     set_qnext m queue node
   }"

definition queue_append :: "queue_mem \<Rightarrow> addr \<Rightarrow> addr \<Rightarrow> queue_mem option" where
  "queue_append m queue node = do {
     m \<leftarrow> set_qnext m node queue;
     hp \<leftarrow> qn_prev m queue;
     m \<leftarrow> set_qprev m node hp;
     np \<leftarrow> qn_prev m node;
     m \<leftarrow> set_qnext m np node;
     set_qprev m queue node
   }"

definition queue_move_to_start :: "queue_mem \<Rightarrow> addr \<Rightarrow> addr \<Rightarrow> queue_mem option" where
  "queue_move_to_start m queue node = do {
     m \<leftarrow> queue_detach_node m node;
     queue_prepend m queue node
   }"

definition queue_move_to_end :: "queue_mem \<Rightarrow> addr \<Rightarrow> addr \<Rightarrow> queue_mem option" where
  "queue_move_to_end m queue node = do {
     m \<leftarrow> queue_detach_node m node;
     queue_append m queue node
   }"

definition queue_remove :: "queue_mem \<Rightarrow> addr \<Rightarrow> queue_mem option" where
  "queue_remove m node = do {
     m \<leftarrow> queue_detach_node m node;
     queue_node_init m node
   }"

subsection \<open>Queues as lists\<close>

text \<open>The queue with head \<open>q\<close> holds the nodes \<open>L\<close>, in this order.\<close>

definition queue :: "queue_mem \<Rightarrow> addr \<Rightarrow> addr list \<Rightarrow> bool" where
  "queue m q L \<longleftrightarrow> chain (qn_next m) (qn_prev m) q L q \<and> distinct (q # L)"

text \<open>An allocated node, and a node in no queue.\<close>

definition qnode :: "queue_mem \<Rightarrow> addr \<Rightarrow> bool" where
  "qnode m a \<longleftrightarrow> qn_prev m a \<noteq> None \<and> qn_next m a \<noteq> None"

definition idle :: "queue_mem \<Rightarrow> addr \<Rightarrow> bool" where
  "idle m a \<longleftrightarrow> qn_prev m a = Some a \<and> qn_next m a = Some a"

text \<open>Nothing outside a set of nodes changes.\<close>

definition only :: "addr set \<Rightarrow> queue_mem \<Rightarrow> queue_mem \<Rightarrow> bool" where
  "only A m m' \<longleftrightarrow> (\<forall>a. a \<notin> A \<longrightarrow> qn_prev m' a = qn_prev m a \<and> qn_next m' a = qn_next m a)"

lemma queue_qnode:
  assumes "queue m q L" "a \<in> set (q # L)"
  shows "qnode m a"
proof -
  have "chain nx pv x L y \<Longrightarrow> a \<in> set L \<Longrightarrow> nx a \<noteq> None \<and> pv a \<noteq> None" for nx pv x y
    by (induction L arbitrary: x) (auto dest: chain_first)
  then show ?thesis
    using assms chain_first [of "qn_next m" "qn_prev m" q L q] chain_last [of "qn_next m" "qn_prev m" q L q]
    by (auto simp: queue_def qnode_def)
qed

lemma queue_other: "queue m p K \<Longrightarrow> only A m m' \<Longrightarrow> A \<inter> set (p # K) = {} \<Longrightarrow> queue m' p K"
  unfolding queue_def only_def
  by (subst chain_cong [where nx' = "qn_next m" and pv' = "qn_prev m"]) auto

lemma queue_init_empty: "qnode m q \<Longrightarrow> \<exists>m'. queue_init m q = Some m' \<and> queue m' q [] \<and> only {q} m m'"
  by (auto simp: queue_init_def queue_node_init_def set_qprev_def set_qnext_def qnode_def queue_def only_def)

lemma queue_is_empty_iff: "queue m q L \<Longrightarrow> queue_is_empty m q = Some (L = [])"
  using chain_last [of "qn_next m" "qn_prev m" q L q]
  by (auto simp: queue_is_empty_def queue_is_enqueued_def queue_def split: if_splits)

lemma queue_is_enqueued_member:
  assumes "queue m q L" "a \<in> set L"
  shows "queue_is_enqueued m a = Some True"
proof -
  obtain xs ys where L: "L = xs @ a # ys" using assms(2) by (meson split_list)
  then have "qn_prev m a = Some (last (q # xs))" "last (q # xs) \<noteq> a"
    using assms(1) chain_last [of "qn_next m" "qn_prev m" q xs a]
    by (auto simp: queue_def chain_append dest: last_in_set)
  then show ?thesis by (simp add: queue_is_enqueued_def)
qed

lemma queue_ends:
  assumes "queue m q L"
  shows "queue_first m q = Some (if L = [] then None else Some (hd L))"
    "queue_last m q = Some (if L = [] then None else Some (last L))"
  using queue_is_empty_iff [OF assms] assms chain_first [of "qn_next m" "qn_prev m" q L q] chain_last [of "qn_next m" "qn_prev m" q L q]
  by (auto simp: queue_first_def queue_last_def queue_def)

lemma queue_append_list:
  assumes q: "queue m q L" and n: "qnode m n" "n \<notin> set (q # L)"
  shows "\<exists>m'. queue_append m q n = Some m' \<and> queue m' q (L @ [n]) \<and> only (set (n # q # L)) m m'"
proof -
  let ?p = "last (q # L)"
  have p: "qn_prev m q = Some ?p" using q by (auto simp: queue_def dest: chain_last)
  have "qnode m ?p" using q by (intro queue_qnode) auto
  then obtain pn where pn: "qn_next m ?p = Some pn" by (auto simp: qnode_def)
  have np: "?p \<noteq> n" using n(2) by (metis last_in_set list.distinct(1))
  let ?m = "m\<lparr>qn_prev := (qn_prev m)(n \<mapsto> ?p, q \<mapsto> n), qn_next := (qn_next m)(n \<mapsto> q, ?p \<mapsto> n)\<rparr>"
  have "queue_append m q n = Some ?m"
    using n p pn np by (auto simp: queue_append_def set_qnext_def set_qprev_def qnode_def)
  moreover have "chain (qn_next ?m) (qn_prev ?m) q (L @ [n]) q"
    using chain_insert [of "qn_next m" "qn_prev m" q L "[]" q n ?p q] q n by (simp add: queue_def)
  then have "queue ?m q (L @ [n])" using q n by (simp add: queue_def)
  moreover have "only (set (n # q # L)) m ?m" by (simp add: only_def)
  ultimately show ?thesis by blast
qed

lemma queue_prepend_list:
  assumes q: "queue m q L" and n: "qnode m n" "n \<notin> set (q # L)"
  shows "\<exists>m'. queue_prepend m q n = Some m' \<and> queue m' q (n # L) \<and> only (set (n # q # L)) m m'"
proof -
  let ?x = "hd (L @ [q])"
  have x: "qn_next m q = Some ?x" using q by (auto simp: queue_def dest: chain_first)
  have "qnode m ?x" by (rule queue_qnode [OF q]) (cases L; auto)
  then obtain xp where xp: "qn_prev m ?x = Some xp" by (auto simp: qnode_def)
  have nx: "?x \<noteq> n" using n(2) by (cases L) auto
  let ?m = "m\<lparr>qn_prev := (qn_prev m)(n \<mapsto> q, ?x \<mapsto> n), qn_next := (qn_next m)(n \<mapsto> ?x, q \<mapsto> n)\<rparr>"
  have "queue_prepend m q n = Some ?m"
    using n x xp nx by (auto simp: queue_prepend_def set_qnext_def set_qprev_def qnode_def)
  moreover have "chain (qn_next ?m) (qn_prev ?m) q (n # L) q"
    using chain_insert [of "qn_next m" "qn_prev m" q "[]" L q n q ?x] q n by (simp add: queue_def)
  then have "queue ?m q (n # L)" using q n by (simp add: queue_def)
  moreover have "only (set (n # q # L)) m ?m" by (cases L) (simp_all add: only_def)
  ultimately show ?thesis by blast
qed

lemma queue_detach_list:
  assumes q: "queue m q L" and n: "n \<in> set L"
  shows "\<exists>m'. queue_detach_node m n = Some m' \<and> queue m' q (remove1 n L) \<and> only (set (q # L)) m m' \<and> qnode m' n"
proof -
  obtain xs ys where L: "L = xs @ n # ys" "n \<notin> set xs" using n by (meson split_list_first)
  have d: "distinct (q # xs @ n # ys)" using q L by (simp add: queue_def)
  let ?p = "last (q # xs)" and ?x = "hd (ys @ [q])"
  have ch: "chain (qn_next m) (qn_prev m) q xs n" "chain (qn_next m) (qn_prev m) n ys q"
    using q L by (simp_all add: queue_def chain_append)
  have px: "qn_prev m n = Some ?p" "qn_next m n = Some ?x"
    using chain_last [OF ch(1)] chain_first [OF ch(2)] by auto
  have "qnode m ?p" "qnode m ?x" using q L by (auto intro!: queue_qnode [OF q]) (cases ys; auto)
  then obtain pn xp where e: "qn_next m ?p = Some pn" "qn_prev m ?x = Some xp" by (auto simp: qnode_def)
  have ne: "?p \<noteq> n" "?x \<noteq> n" using d by (cases xs rule: rev_cases; auto) (cases ys; use d in auto)
  let ?m = "m\<lparr>qn_next := (qn_next m)(?p \<mapsto> ?x), qn_prev := (qn_prev m)(?x \<mapsto> ?p)\<rparr>"
  have "queue_detach_node m n = Some ?m"
    using px e ne by (auto simp: queue_detach_node_def set_qnext_def set_qprev_def)
  moreover have "chain (qn_next ?m) (qn_prev ?m) q (xs @ ys) q"
    using chain_delete [of "qn_next m" "qn_prev m" q xs n ys q ?p ?x] q d L by (simp add: queue_def)
  then have "queue ?m q (remove1 n L)" using d L by (simp add: queue_def remove1_append)
  moreover have "only (set (q # L)) m ?m" using L by (cases ys) (auto simp: only_def)
  moreover have "qnode ?m n" using px ne by (simp add: qnode_def)
  ultimately show ?thesis by blast
qed


lemma only_mono: "only A m m' \<Longrightarrow> A \<subseteq> B \<Longrightarrow> only B m m'"
  by (auto simp: only_def)

lemma only_trans: "only A m m' \<Longrightarrow> only A m' m'' \<Longrightarrow> only A m m''"
  by (auto simp: only_def)

lemma detached_not_in: "queue m q L \<Longrightarrow> n \<in> set L \<Longrightarrow> n \<notin> set (q # remove1 n L)"
  by (auto simp: queue_def)

lemma queue_remove_list:
  assumes "queue m q L" "n \<in> set L"
  shows "\<exists>m'. queue_remove m n = Some m' \<and> queue m' q (remove1 n L) \<and> idle m' n \<and> only (set (q # L)) m m'"
proof -
  obtain m1 where m1: "queue_detach_node m n = Some m1" "queue m1 q (remove1 n L)" "only (set (q # L)) m m1" "qnode m1 n"
    using queue_detach_list [OF assms] by blast
  let ?m = "m1\<lparr>qn_prev := (qn_prev m1)(n \<mapsto> n), qn_next := (qn_next m1)(n \<mapsto> n)\<rparr>"
  have run: "queue_node_init m1 n = Some ?m"
    using m1(4) by (auto simp: queue_node_init_def set_qprev_def set_qnext_def qnode_def)
  have o: "only {n} m1 ?m" by (simp add: only_def)
  have "queue ?m q (remove1 n L)"
    by (rule queue_other [OF m1(2) o]) (use detached_not_in [OF assms] in auto)
  moreover have "only (set (q # L)) m ?m"
    by (rule only_trans [OF m1(3) only_mono [OF o]]) (use assms(2) in simp)
  moreover have "idle ?m n" by (simp add: idle_def)
  ultimately show ?thesis using run m1(1) by (simp add: queue_remove_def)
qed

lemma queue_move_list:
  assumes "queue m q L" "n \<in> set L"
  shows "\<exists>m'. queue_move_to_end m q n = Some m' \<and> queue m' q (remove1 n L @ [n]) \<and> only (set (q # L)) m m'"
    and "\<exists>m'. queue_move_to_start m q n = Some m' \<and> queue m' q (n # remove1 n L) \<and> only (set (q # L)) m m'"
proof -
  obtain m1 where m1: "queue_detach_node m n = Some m1" "queue m1 q (remove1 n L)" "only (set (q # L)) m m1" "qnode m1 n"
    using queue_detach_list [OF assms] by blast
  have sub: "set (n # q # remove1 n L) \<subseteq> set (q # L)" using assms(2) set_remove1_subset [of n L] by auto
  have o: "only (set (q # L)) m m'" if "only (set (n # q # remove1 n L)) m1 m'" for m'
    by (rule only_trans [OF m1(3) only_mono [OF that sub]])
  note n = detached_not_in [OF assms]
  show "\<exists>m'. queue_move_to_end m q n = Some m' \<and> queue m' q (remove1 n L @ [n]) \<and> only (set (q # L)) m m'"
    using queue_append_list [OF m1(2,4) n] m1(1) o by (auto simp del: list.set simp: queue_move_to_end_def)
  show "\<exists>m'. queue_move_to_start m q n = Some m' \<and> queue m' q (n # remove1 n L) \<and> only (set (q # L)) m m'"
    using queue_prepend_list [OF m1(2,4) n] m1(1) o by (auto simp del: list.set simp: queue_move_to_start_def)
qed

subsection \<open>Properties\<close>

text \<open>
  \<open>queue_append\<close> and \<open>queue_prepend\<close> of a node that is not in the queue
  put it at the end and at the front of the list of its nodes, without a fault; every other
  queue is unchanged, and \<open>queue_first\<close>, \<open>queue_last\<close> and \<open>queue_is_empty\<close> read the list.
\<close>

lemma wepoll_queue_insert:
  assumes "queue m q L" "qnode m n" "n \<notin> set (q # L)"
  shows "(\<exists>m'. queue_append m q n = Some m' \<and> queue m' q (L @ [n]) \<and> queue_last m' q = Some (Some n) \<and>
      (\<forall>p K. queue m p K \<longrightarrow> set (p # K) \<inter> set (n # q # L) = {} \<longrightarrow> queue m' p K)) \<and>
    (\<exists>m'. queue_prepend m q n = Some m' \<and> queue m' q (n # L) \<and> queue_first m' q = Some (Some n) \<and>
      (\<forall>p K. queue m p K \<longrightarrow> set (p # K) \<inter> set (n # q # L) = {} \<longrightarrow> queue m' p K)) \<and>
    queue_is_empty m q = Some (L = [])"
proof -
  obtain m1 where m1: "queue_append m q n = Some m1" "queue m1 q (L @ [n])" "only (set (n # q # L)) m m1"
    using queue_append_list [OF assms] by blast
  obtain m2 where m2: "queue_prepend m q n = Some m2" "queue m2 q (n # L)" "only (set (n # q # L)) m m2"
    using queue_prepend_list [OF assms] by blast
  have other: "queue m' p K" if "only (set (n # q # L)) m m'" "queue m p K" "set (p # K) \<inter> set (n # q # L) = {}" for m' p K
    using queue_other [OF that(2,1)] that(3) by blast
  show ?thesis
    using m1 m2 queue_ends(2) [OF m1(2)] queue_ends(1) [OF m2(2)] other [OF m1(3)] other [OF m2(3)] queue_is_empty_iff [OF assms(1)]
    by (auto simp del: list.set)
qed

text \<open>Two queues, with heads 0 and 10, and an idle node 3.\<close>

definition sample_queues :: queue_mem where
  "sample_queues = \<lparr>qn_prev = [0 \<mapsto> 2, 1 \<mapsto> 0, 2 \<mapsto> 1, 3 \<mapsto> 3, 10 \<mapsto> 10], qn_next = [0 \<mapsto> 1, 1 \<mapsto> 2, 2 \<mapsto> 0, 3 \<mapsto> 3, 10 \<mapsto> 10]\<rparr>"

lemma sample_queues_ok: "queue sample_queues 0 [1, 2]" "queue sample_queues 10 []" "qnode sample_queues 3"
  by (simp_all add: queue_def qnode_def sample_queues_def)

text \<open>
  C36: \<open>queue_remove\<close>, \<open>queue_move_to_end\<close> and \<open>queue_move_to_start\<close> of a node of
  the queue take it out of the list, or move it to its end or front, keep the order of
  the others, and leave every other queue alone; a removed node is idle again, so
  \<open>queue_is_enqueued\<close> is true of exactly the members.
\<close>

theorem wepoll_queue_move:
  assumes "queue m q L" "n \<in> set L"
  shows "queue_is_enqueued m n = Some True \<and>
    (\<exists>m'. queue_remove m n = Some m' \<and> queue m' q (remove1 n L) \<and> queue_is_enqueued m' n = Some False \<and>
      (\<forall>p K. queue m p K \<longrightarrow> set (p # K) \<inter> set (q # L) = {} \<longrightarrow> queue m' p K)) \<and>
    (\<exists>m'. queue_move_to_end m q n = Some m' \<and> queue m' q (remove1 n L @ [n]) \<and>
      (\<forall>p K. queue m p K \<longrightarrow> set (p # K) \<inter> set (q # L) = {} \<longrightarrow> queue m' p K)) \<and>
    (\<exists>m'. queue_move_to_start m q n = Some m' \<and> queue m' q (n # remove1 n L) \<and>
      (\<forall>p K. queue m p K \<longrightarrow> set (p # K) \<inter> set (q # L) = {} \<longrightarrow> queue m' p K))"
proof -
  have other: "queue m' p K" if "only (set (q # L)) m m'" "queue m p K" "set (p # K) \<inter> set (q # L) = {}" for m' p K
    using queue_other [OF that(2,1)] that(3) by blast
  obtain m1 where m1: "queue_remove m n = Some m1" "queue m1 q (remove1 n L)" "idle m1 n" "only (set (q # L)) m m1"
    using queue_remove_list [OF assms] by blast
  have idle: "queue_is_enqueued m1 n = Some False" using m1(3) by (simp add: queue_is_enqueued_def idle_def)
  show ?thesis
    using queue_is_enqueued_member [OF assms] m1 idle other [OF m1(4)] queue_move_list [OF assms] other
    by (auto simp del: list.set)
qed

theorem wepoll_queue_move_witness:
  "\<exists>m'. queue_move_to_end sample_queues 0 1 = Some m' \<and> queue m' 0 [2, 1]"
  using wepoll_queue_move [OF sample_queues_ok(1), of 1] by auto

end
