(* ===== verification/Wepoll_Tree.thy ===== *)
theory Wepoll_Tree
  imports Prelude "HOL-Library.Tree"
begin

text \<open>
  The red-black tree of src/src/wepoll.c, lines 507--527 and 1978--2190, which finds a
  socket by its number.  The nodes are in a store of addresses; a pointer is an address or
  \<open>None\<close> for NULL.  Reading through NULL or through a node that is not allocated has no
  result.  The macros that exist in two mirrored versions take the side as an argument.
\<close>

subsection \<open>The code\<close>

datatype side = SLeft | SRight

definition opp :: "side \<Rightarrow> side" where
  "opp s = (case s of SLeft \<Rightarrow> SRight | SRight \<Rightarrow> SLeft)"

record tree_node_t =
  tn_left :: "addr option"
  tn_right :: "addr option"
  tn_parent :: "addr option"
  tn_key :: nat
  tn_red :: bool

record tree_t =
  tr_root :: "addr option"
  tr_nodes :: "addr \<rightharpoonup> tree_node_t"

definition child :: "side \<Rightarrow> tree_node_t \<Rightarrow> addr option" where
  "child s nd = (case s of SLeft \<Rightarrow> tn_left nd | SRight \<Rightarrow> tn_right nd)"

definition set_child :: "side \<Rightarrow> addr option \<Rightarrow> tree_node_t \<Rightarrow> tree_node_t" where
  "set_child s x nd = (case s of SLeft \<Rightarrow> nd\<lparr>tn_left := x\<rparr> | SRight \<Rightarrow> nd\<lparr>tn_right := x\<rparr>)"

definition upd_node :: "addr \<Rightarrow> (tree_node_t \<Rightarrow> tree_node_t) \<Rightarrow> tree_t \<Rightarrow> tree_t option" where
  "upd_node a f tree = do { nd \<leftarrow> tr_nodes tree a; Some (tree\<lparr>tr_nodes := (tr_nodes tree)(a \<mapsto> f nd)\<rparr>) }"

definition set_red :: "addr \<Rightarrow> bool \<Rightarrow> tree_t \<Rightarrow> tree_t option" where
  "set_red a c tree = upd_node a (\<lambda>nd. nd\<lparr>tn_red := c\<rparr>) tree"

text \<open>\<open>node && node->red\<close>\<close>

definition is_red :: "addr option \<Rightarrow> tree_t \<Rightarrow> bool option" where
  "is_red p tree = (case p of None \<Rightarrow> Some False | Some a \<Rightarrow> do { nd \<leftarrow> tr_nodes tree a; Some (tn_red nd) })"

definition tree_init :: "tree_t \<Rightarrow> tree_t" where
  "tree_init tree = tree\<lparr>tr_root := None\<rparr>"

definition tree_node_init :: "addr \<Rightarrow> tree_t \<Rightarrow> tree_t option" where
  "tree_node_init node tree =
     upd_node node (\<lambda>_. \<lparr>tn_left = None, tn_right = None, tn_parent = None, tn_key = 0, tn_red = False\<rparr>) tree"

text \<open>The pointer to \<open>old\<close> in its parent, or in the tree, becomes \<open>new\<close>.\<close>

definition relink :: "addr option \<Rightarrow> addr \<Rightarrow> addr option \<Rightarrow> tree_t \<Rightarrow> tree_t option" where
  "relink parent old new tree =
     (case parent of
        Some pa \<Rightarrow> do {
          pn \<leftarrow> tr_nodes tree pa;
          if tn_left pn = Some old then upd_node pa (set_child SLeft new) tree
          else upd_node pa (set_child SRight new) tree
        }
      | None \<Rightarrow> Some (tree\<lparr>tr_root := new\<rparr>))"

definition tree_rotate :: "side \<Rightarrow> addr \<Rightarrow> tree_t \<Rightarrow> tree_t option" where
  "tree_rotate cis node tree = do {
     let p = node;
     pn \<leftarrow> tr_nodes tree p;
     let q = child (opp cis) pn;
     let parent = tn_parent pn;
     tree \<leftarrow> relink parent p q tree;
     q \<leftarrow> q;
     tree \<leftarrow> upd_node q (\<lambda>nd. nd\<lparr>tn_parent := parent\<rparr>) tree;
     tree \<leftarrow> upd_node p (\<lambda>nd. nd\<lparr>tn_parent := Some q\<rparr>) tree;
     qn \<leftarrow> tr_nodes tree q;
     tree \<leftarrow> upd_node p (set_child (opp cis) (child cis qn)) tree;
     tree \<leftarrow> (case child cis qn of None \<Rightarrow> Some tree | Some c \<Rightarrow> upd_node c (\<lambda>nd. nd\<lparr>tn_parent := Some p\<rparr>) tree);
     upd_node q (set_child cis (Some p)) tree
   }"

definition tree_rotate_left :: "addr \<Rightarrow> tree_t \<Rightarrow> tree_t option" where
  "tree_rotate_left node tree = tree_rotate SLeft node tree"

definition tree_rotate_right :: "addr \<Rightarrow> tree_t \<Rightarrow> tree_t option" where
  "tree_rotate_right node tree = tree_rotate SRight node tree"

text \<open>
  The search for the place of a key: \<open>None\<close> when the key is there, otherwise the parent,
  to which the new node has been linked.
\<close>

partial_function (option) add_descend :: "addr \<Rightarrow> nat \<Rightarrow> addr \<Rightarrow> tree_t \<Rightarrow> (addr option \<times> tree_t) option" where
  "add_descend node key parent tree = do {
     pn \<leftarrow> tr_nodes tree parent;
     if key = tn_key pn then Some (None, tree)
     else do {
       let side = (if key < tn_key pn then SLeft else SRight);
       case child side pn of
         Some parent \<Rightarrow> add_descend node key parent tree
       | None \<Rightarrow> do { tree \<leftarrow> upd_node parent (set_child side (Some node)) tree; Some (Some parent, tree) }
     }
   }"

definition rebalance_after_insert :: "side \<Rightarrow> addr \<Rightarrow> addr \<Rightarrow> tree_t \<Rightarrow> (addr \<times> tree_t) option" where
  "rebalance_after_insert cis node parent tree = do {
     pn \<leftarrow> tr_nodes tree parent;
     grandparent \<leftarrow> tn_parent pn;
     gn \<leftarrow> tr_nodes tree grandparent;
     let uncle = child (opp cis) gn;
     ured \<leftarrow> is_red uncle tree;
     if ured then do {
       u \<leftarrow> uncle;
       tree \<leftarrow> set_red u False tree;
       tree \<leftarrow> set_red parent False tree;
       tree \<leftarrow> set_red grandparent True tree;
       Some (grandparent, tree)
     } else do {
       (node, parent, tree) \<leftarrow> (if child (opp cis) pn = Some node then do {
            tree \<leftarrow> tree_rotate cis parent tree;
            let node = parent;
            nn \<leftarrow> tr_nodes tree node;
            parent \<leftarrow> tn_parent nn;
            Some (node, parent, tree)
          } else Some (node, parent, tree));
       tree \<leftarrow> set_red parent False tree;
       tree \<leftarrow> set_red grandparent True tree;
       tree \<leftarrow> tree_rotate (opp cis) grandparent tree;
       Some (node, tree)
     }
   }"

partial_function (option) add_rebalance :: "addr \<Rightarrow> addr option \<Rightarrow> tree_t \<Rightarrow> tree_t option" where
  "add_rebalance node parent tree =
     (case parent of
        None \<Rightarrow> Some tree
      | Some p \<Rightarrow> do {
          pn \<leftarrow> tr_nodes tree p;
          if \<not> tn_red pn then Some tree
          else do {
            g \<leftarrow> tn_parent pn;
            gn \<leftarrow> tr_nodes tree g;
            (node, tree) \<leftarrow> rebalance_after_insert (if tn_left gn = Some p then SLeft else SRight) node p tree;
            nn \<leftarrow> tr_nodes tree node;
            add_rebalance node (tn_parent nn) tree
          }
        })"

definition tree_add :: "addr \<Rightarrow> nat \<Rightarrow> tree_t \<Rightarrow> (int \<times> tree_t) option" where
  "tree_add node key tree = do {
     place \<leftarrow> (case tr_root tree of
         Some parent \<Rightarrow> do {
           (found, tree) \<leftarrow> add_descend node key parent tree;
           case found of None \<Rightarrow> Some None | Some parent \<Rightarrow> Some (Some (Some parent, tree))
         }
       | None \<Rightarrow> Some (Some (None, tree\<lparr>tr_root := Some node\<rparr>)));
     case place of
       None \<Rightarrow> Some (-1, tree)
     | Some (parent, tree) \<Rightarrow> do {
         tree \<leftarrow> upd_node node (\<lambda>_. \<lparr>tn_left = None, tn_right = None, tn_parent = parent, tn_key = key, tn_red = True\<rparr>) tree;
         tree \<leftarrow> add_rebalance node parent tree;
         root \<leftarrow> tr_root tree;
         tree \<leftarrow> set_red root False tree;
         Some (0, tree)
       }
   }"

text \<open>
  One round of the loop of \<open>tree_del\<close>: whether it leaves the loop, with the root as the node.
  First the part from the test of the sibling's children on.
\<close>

definition rebalance_sibling :: "side \<Rightarrow> addr \<Rightarrow> addr \<Rightarrow> tree_t \<Rightarrow> (bool \<times> tree_t) option" where
  "rebalance_sibling cis parent sibling tree = do {
     sn \<leftarrow> tr_nodes tree sibling;
     lred \<leftarrow> is_red (tn_left sn) tree;
     rred \<leftarrow> is_red (tn_right sn) tree;
     if lred \<or> rred then do {
       tred \<leftarrow> is_red (child (opp cis) sn) tree;
       (sibling, tree) \<leftarrow> (if \<not> tred then do {
            c \<leftarrow> child cis sn;
            tree \<leftarrow> set_red c False tree;
            tree \<leftarrow> set_red sibling True tree;
            tree \<leftarrow> tree_rotate (opp cis) sibling tree;
            pn \<leftarrow> tr_nodes tree parent;
            sibling \<leftarrow> child (opp cis) pn;
            Some (sibling, tree)
          } else Some (sibling, tree));
       pn \<leftarrow> tr_nodes tree parent;
       tree \<leftarrow> set_red sibling (tn_red pn) tree;
       sn \<leftarrow> tr_nodes tree sibling;
       t \<leftarrow> child (opp cis) sn;
       tree \<leftarrow> set_red t False tree;
       tree \<leftarrow> set_red parent False tree;
       tree \<leftarrow> tree_rotate cis parent tree;
       Some (True, tree)
     } else do {
       tree \<leftarrow> set_red sibling True tree;
       Some (False, tree)
     }
   }"

definition rebalance_after_remove :: "side \<Rightarrow> addr \<Rightarrow> tree_t \<Rightarrow> (bool \<times> tree_t) option" where
  "rebalance_after_remove cis parent tree = do {
     pn \<leftarrow> tr_nodes tree parent;
     sibling \<leftarrow> child (opp cis) pn;
     sn \<leftarrow> tr_nodes tree sibling;
     (sibling, tree) \<leftarrow> (if tn_red sn then do {
          tree \<leftarrow> set_red sibling False tree;
          tree \<leftarrow> set_red parent True tree;
          tree \<leftarrow> tree_rotate cis parent tree;
          pn \<leftarrow> tr_nodes tree parent;
          sibling \<leftarrow> child (opp cis) pn;
          Some (sibling, tree)
        } else Some (sibling, tree));
     rebalance_sibling cis parent sibling tree
   }"

partial_function (option) del_rebalance :: "addr option \<Rightarrow> addr option \<Rightarrow> tree_t \<Rightarrow> (addr option \<times> tree_t) option" where
  "del_rebalance node parent tree =
     (if node = tr_root tree then Some (node, tree)
      else do {
        p \<leftarrow> parent;
        pn \<leftarrow> tr_nodes tree p;
        (fin, tree) \<leftarrow> rebalance_after_remove (if tn_left pn = node then SLeft else SRight) p tree;
        if fin then Some (tr_root tree, tree)
        else do {
          pn \<leftarrow> tr_nodes tree p;
          if tn_red pn then Some (Some p, tree) else del_rebalance (Some p) (tn_parent pn) tree
        }
      })"

partial_function (option) leftmost :: "addr \<Rightarrow> tree_t \<Rightarrow> addr option" where
  "leftmost next tree = do {
     nd \<leftarrow> tr_nodes tree next;
     case tn_left nd of Some l \<Rightarrow> leftmost l tree | None \<Rightarrow> Some next
   }"

text \<open>
  \<open>tree_del\<close> up to its rebalancing: the colour that is taken out, the node that is now in the
  place of the removed one, its parent.
\<close>

definition del_splice :: "addr \<Rightarrow> tree_t \<Rightarrow> (bool \<times> addr option \<times> addr option \<times> tree_t) option" where
  "del_splice node tree = do {
     nd \<leftarrow> tr_nodes tree node;
     let parent = tn_parent nd;
     let left = tn_left nd;
     let right = tn_right nd;
     next \<leftarrow> (case left of None \<Rightarrow> Some right
             | Some _ \<Rightarrow> (case right of None \<Rightarrow> Some left | Some r \<Rightarrow> do { x \<leftarrow> leftmost r tree; Some (Some x) }));
     tree \<leftarrow> relink parent node next tree;
     (red, node, parent, tree) \<leftarrow> (if left \<noteq> None \<and> right \<noteq> None then do {
          l \<leftarrow> left; r \<leftarrow> right; x \<leftarrow> next;
          xn \<leftarrow> tr_nodes tree x;
          let red = tn_red xn;
          nd \<leftarrow> tr_nodes tree node;
          tree \<leftarrow> set_red x (tn_red nd) tree;
          tree \<leftarrow> upd_node x (\<lambda>xn. xn\<lparr>tn_left := left\<rparr>) tree;
          tree \<leftarrow> upd_node l (\<lambda>ln. ln\<lparr>tn_parent := next\<rparr>) tree;
          if next \<noteq> right then do {
            xn \<leftarrow> tr_nodes tree x;
            let parent = tn_parent xn;
            nd \<leftarrow> tr_nodes tree node;
            tree \<leftarrow> upd_node x (\<lambda>xn. xn\<lparr>tn_parent := tn_parent nd\<rparr>) tree;
            xn \<leftarrow> tr_nodes tree x;
            let node = tn_right xn;
            pa \<leftarrow> parent;
            tree \<leftarrow> upd_node pa (\<lambda>pn. pn\<lparr>tn_left := node\<rparr>) tree;
            tree \<leftarrow> upd_node x (\<lambda>xn. xn\<lparr>tn_right := right\<rparr>) tree;
            tree \<leftarrow> upd_node r (\<lambda>rn. rn\<lparr>tn_parent := next\<rparr>) tree;
            Some (red, node, parent, tree)
          } else do {
            tree \<leftarrow> upd_node x (\<lambda>xn. xn\<lparr>tn_parent := parent\<rparr>) tree;
            let parent = next;
            xn \<leftarrow> tr_nodes tree x;
            Some (red, tn_right xn, parent, tree)
          }
        } else do { nd \<leftarrow> tr_nodes tree node; Some (tn_red nd, next, parent, tree) });
     tree \<leftarrow> (case node of None \<Rightarrow> Some tree | Some c \<Rightarrow> upd_node c (\<lambda>cn. cn\<lparr>tn_parent := parent\<rparr>) tree);
     Some (red, node, parent, tree)
   }"

definition tree_del :: "addr \<Rightarrow> tree_t \<Rightarrow> tree_t option" where
  "tree_del node tree = do {
     (red, node, parent, tree) \<leftarrow> del_splice node tree;
     if red then Some tree
     else do {
       nred \<leftarrow> is_red node tree;
       if nred then do { c \<leftarrow> node; set_red c False tree }
       else do {
         (node, tree) \<leftarrow> del_rebalance node parent tree;
         case node of None \<Rightarrow> Some tree | Some c \<Rightarrow> set_red c False tree
       }
     }
   }"

partial_function (option) find_from :: "nat \<Rightarrow> addr option \<Rightarrow> tree_t \<Rightarrow> addr option option" where
  "find_from key node tree =
     (case node of
        None \<Rightarrow> Some None
      | Some a \<Rightarrow> do {
          nd \<leftarrow> tr_nodes tree a;
          if key < tn_key nd then find_from key (tn_left nd) tree
          else if key > tn_key nd then find_from key (tn_right nd) tree
          else Some node
        })"

definition tree_find :: "tree_t \<Rightarrow> nat \<Rightarrow> addr option option" where
  "tree_find tree key = find_from key (tr_root tree) tree"

definition tree_root :: "tree_t \<Rightarrow> addr option" where
  "tree_root tree = tr_root tree"

declare add_descend.simps [code] add_rebalance.simps [code] del_rebalance.simps [code] leftmost.simps [code] find_from.simps [code]

subsection \<open>Shapes\<close>

text \<open>
  A shape is the tree the pointers describe: at every node its address, key and colour.
  \<open>nd s v x y\<close> is the node \<open>v\<close> whose child on side \<open>s\<close> is \<open>x\<close>; a context is the path from a
  subtree up to the root, with the subtrees on the other side.
\<close>

type_synonym entry = "addr \<times> nat \<times> bool"
type_synonym shape = "entry tree"
type_synonym ctx = "(side \<times> entry \<times> shape) list"

definition nd :: "side \<Rightarrow> entry \<Rightarrow> shape \<Rightarrow> shape \<Rightarrow> shape" where
  "nd s v x y = (case s of SLeft \<Rightarrow> Node x v y | SRight \<Rightarrow> Node y v x)"

definition mkn :: "side \<Rightarrow> addr option \<Rightarrow> addr option \<Rightarrow> addr option \<Rightarrow> nat \<Rightarrow> bool \<Rightarrow> tree_node_t" where
  "mkn s x y p k c = (case s of SLeft \<Rightarrow> \<lparr>tn_left = x, tn_right = y, tn_parent = p, tn_key = k, tn_red = c\<rparr>
     | SRight \<Rightarrow> \<lparr>tn_left = y, tn_right = x, tn_parent = p, tn_key = k, tn_red = c\<rparr>)"

fun rootp :: "shape \<Rightarrow> addr option" where
  "rootp Leaf = None"
| "rootp (Node l (a, k, c) r) = Some a"

fun sh :: "(addr \<rightharpoonup> tree_node_t) \<Rightarrow> addr option \<Rightarrow> shape \<Rightarrow> bool" where
  "sh h par Leaf \<longleftrightarrow> True"
| "sh h par (Node l (a, k, c) r) \<longleftrightarrow> h a = Some (mkn SLeft (rootp l) (rootp r) par k c) \<and> sh h (Some a) l \<and> sh h (Some a) r"

fun items :: "shape \<Rightarrow> (nat \<times> addr) list" where
  "items Leaf = []"
| "items (Node l (a, k, c) r) = items l @ (k, a) # items r"

definition addrs :: "shape \<Rightarrow> addr set" where
  "addrs t = snd ` set (items t)"

fun plug :: "ctx \<Rightarrow> shape \<Rightarrow> shape" where
  "plug [] t = t"
| "plug ((s, v, y) # C) t = plug C (nd s v t y)"

fun cpar :: "ctx \<Rightarrow> addr option" where
  "cpar [] = None"
| "cpar ((s, (a, k, c), y) # C) = Some a"

fun csh :: "(addr \<rightharpoonup> tree_node_t) \<Rightarrow> addr option \<Rightarrow> ctx \<Rightarrow> bool" where
  "csh h p [] \<longleftrightarrow> True"
| "csh h p ((s, (a, k, c), y) # C) \<longleftrightarrow> h a = Some (mkn s p (rootp y) (cpar C) k c) \<and> sh h (Some a) y \<and> csh h (Some a) C"

fun lits :: "ctx \<Rightarrow> (nat \<times> addr) list" where
  "lits [] = []"
| "lits ((s, (a, k, c), y) # C) = lits C @ (case s of SLeft \<Rightarrow> [] | SRight \<Rightarrow> items y @ [(k, a)])"

fun rits :: "ctx \<Rightarrow> (nat \<times> addr) list" where
  "rits [] = []"
| "rits ((s, (a, k, c), y) # C) = (case s of SLeft \<Rightarrow> (k, a) # items y | SRight \<Rightarrow> []) @ rits C"

definition caddrs :: "ctx \<Rightarrow> addr set" where
  "caddrs C = snd ` (set (lits C) \<union> set (rits C))"

lemma opp_simps [simp]: "opp SLeft = SRight" "opp SRight = SLeft" "opp (opp s) = s" "opp s \<noteq> s" "s \<noteq> opp s"
  by (cases s; simp add: opp_def)+

lemma side_eq_opp: "t \<noteq> s \<longleftrightarrow> t = opp s"
  by (cases s; cases t) simp_all

lemma nd_opp: "nd (opp s) v y x = nd s v x y"
  by (cases s) (simp_all add: nd_def)

lemma mkn_opp: "mkn (opp s) y x p k c = mkn s x y p k c"
  by (cases s) (simp_all add: mkn_def)

lemma Node_nd: "Node l v r = nd SLeft v l r"
  by (simp add: nd_def)

lemma nd_cases: obtains (Leaf) "t = Leaf" | (nd) a k c x y where "t = nd s (a, k, c) x y"
proof (cases t)
  case (Node l v r)
  obtain a k c where "v = (a, k, c)" by (cases v) auto
  with Node that(2) show ?thesis by (cases s) (auto simp: nd_def)
qed (use that in simp)

lemma nd_simps [simp]:
  "rootp (nd s (a, k, c) x y) = Some a" "nd s v x y \<noteq> Leaf" "Leaf \<noteq> nd s v x y"
  "sh h par (nd s (a, k, c) x y) \<longleftrightarrow> h a = Some (mkn s (rootp x) (rootp y) par k c) \<and> sh h (Some a) x \<and> sh h (Some a) y"
  "addrs (nd s (a, k, c) x y) = insert a (addrs x \<union> addrs y)"
  "nd s v x y = nd s v' x' y' \<longleftrightarrow> v = v' \<and> x = x' \<and> y = y'"
  by (cases s; auto simp: nd_def mkn_def addrs_def)+

lemma addrs_Leaf [simp]: "addrs Leaf = {}"
  by (simp add: addrs_def)

lemma mkn_simps [simp]:
  "child s (mkn s x y p k c) = x" "child (opp s) (mkn s x y p k c) = y" "tn_parent (mkn s x y p k c) = p"
  "tn_key (mkn s x y p k c) = k" "tn_red (mkn s x y p k c) = c"
  "set_child s x' (mkn s x y p k c) = mkn s x' y p k c" "set_child (opp s) y' (mkn s x y p k c) = mkn s x y' p k c"
  "(mkn s x y p k c)\<lparr>tn_parent := p'\<rparr> = mkn s x y p' k c" "(mkn s x y p k c)\<lparr>tn_red := c'\<rparr> = mkn s x y p k c'"
  by (cases s; simp add: child_def set_child_def mkn_def)+

lemma child_left: "tn_left n = child SLeft n" "tn_right n = child SRight n"
  by (simp_all add: child_def)

lemma items_nd: "items (nd s (a, k, c) x y) = (case s of SLeft \<Rightarrow> items x @ (k, a) # items y | SRight \<Rightarrow> items y @ (k, a) # items x)"
  by (cases s) (simp_all add: nd_def)

lemma items_plug: "items (plug C t) = lits C @ items t @ rits C"
proof (induction C arbitrary: t)
  case (Cons x C)
  obtain s a k c y where "x = (s, (a, k, c), y)" by (cases x) auto
  then show ?case by (cases s) (simp_all add: Cons items_nd)
qed simp

lemma caddrs_Cons [simp]: "caddrs [] = {}" "caddrs ((s, (a, k, c), y) # C) = insert a (addrs y \<union> caddrs C)"
  by (cases s; auto simp: caddrs_def addrs_def)+

lemma rootp_None [simp]: "rootp t = None \<longleftrightarrow> t = Leaf"
  by (cases t) auto

lemma rootp_in: "rootp t = Some a \<Longrightarrow> a \<in> addrs t"
  by (cases t) (auto simp: addrs_def)

lemma cpar_in: "cpar C = Some a \<Longrightarrow> a \<in> caddrs C"
  by (cases C rule: cpar.cases) auto

lemma cpar_None [simp]: "cpar C = None \<longleftrightarrow> C = []"
  by (cases C rule: cpar.cases) auto

lemma sh_cong: "(\<And>a. a \<in> addrs t \<Longrightarrow> h a = h' a) \<Longrightarrow> sh h p t \<Longrightarrow> sh h' p t"
proof (induction t arbitrary: p rule: items.induct)
  case (2 l a k c r)
  have "h a = h' a" "sh h' (Some a) l" "sh h' (Some a) r" using 2 by (auto simp: addrs_def)
  then show ?case using 2(4) by simp
qed simp

lemma csh_cong: "(\<And>a. a \<in> caddrs C \<Longrightarrow> h a = h' a) \<Longrightarrow> csh h p C \<Longrightarrow> csh h' p C"
proof (induction C arbitrary: p rule: lits.induct)
  case (2 s a k c y C)
  have "sh h' (Some a) y" by (rule sh_cong [of _ h]) (use 2 in auto)
  moreover have "csh h' (Some a) C" by (rule 2(1)) (use 2 in auto)
  ultimately show ?case using 2 by auto
qed simp

lemma sh_plug: "sh h None (plug C t) \<longleftrightarrow> sh h (cpar C) t \<and> csh h (rootp t) C"
  by (induction C arbitrary: t rule: lits.induct) auto

lemma sh_alloc: "sh h p t \<Longrightarrow> addrs t \<subseteq> dom h"
proof (induction t arbitrary: p rule: items.induct)
  case (2 l a k c r)
  then have "addrs l \<subseteq> dom h" "addrs r \<subseteq> dom h" using 2(1) [of "Some a"] 2(2) [of "Some a"] by simp_all
  then show ?case using 2(3) by (auto simp: addrs_def)
qed simp

text \<open>A subtree under another parent.\<close>

lemma sh_reparent:
  assumes "sh h p t" "\<And>a. a \<in> addrs t \<Longrightarrow> rootp t \<noteq> Some a \<Longrightarrow> h' a = h a"
    and "\<And>a n. rootp t = Some a \<Longrightarrow> h a = Some n \<Longrightarrow> h' a = Some (n\<lparr>tn_parent := p'\<rparr>)" "distinct (map snd (items t))"
  shows "sh h' p' t"
proof (cases t rule: nd_cases [where s = SLeft])
  case (nd a k c x y)
  have "a \<notin> addrs x \<union> addrs y" using assms(4) nd by (auto simp: items_nd addrs_def)
  then have "h' b = h b" if "b \<in> addrs x \<union> addrs y" for b using that assms(2) nd by auto
  then have "sh h' (Some a) x" "sh h' (Some a) y" using assms(1) nd by (auto intro!: sh_cong [of _ h h'])
  then show ?thesis using assms(1,3) nd by auto
qed simp

subsection \<open>The representation\<close>

definition trep :: "tree_t \<Rightarrow> shape \<Rightarrow> bool" where
  "trep m t \<longleftrightarrow> tr_root m = rootp t \<and> sh (tr_nodes m) None t \<and> distinct (map snd (items t))"

text \<open>Two disjoint parts: the addresses of a subtree and those of its context.\<close>

lemma trep_parts:
  assumes "trep m (plug C t)"
  shows "sh (tr_nodes m) (cpar C) t" "csh (tr_nodes m) (rootp t) C" "addrs t \<inter> caddrs C = {}"
    "distinct (map snd (items t))" "distinct (map snd (lits C @ rits C))"
  using assms unfolding trep_def sh_plug items_plug by (auto simp: addrs_def caddrs_def)

lemma trepI:
  assumes "sh (tr_nodes m) (cpar C) t" "csh (tr_nodes m) (rootp t) C" "tr_root m = rootp (plug C t)"
    and "distinct (map snd (lits C @ items t @ rits C))"
  shows "trep m (plug C t)"
  using assms unfolding trep_def sh_plug items_plug by simp

lemma trep_node:
  assumes "trep m (plug C (nd s (a, k, c) x y))"
  shows "tr_nodes m a = Some (mkn s (rootp x) (rootp y) (cpar C) k c)"
  using trep_parts(1) [OF assms] by simp

lemma trep_parent:
  assumes "trep m (plug ((s, (a, k, c), y) # C) t)"
  shows "tr_nodes m a = Some (mkn s (rootp t) (rootp y) (cpar C) k c)"
  using trep_parts(2) [OF assms] by simp

lemma trep_red:
  assumes "trep m (plug C t)"
  shows "is_red (rootp t) m = Some (case t of Leaf \<Rightarrow> False | Node _ (_, _, c) _ \<Rightarrow> c)"
  using trep_parts(1) [OF assms] by (cases t rule: rootp.cases) (auto simp: is_red_def)

lemma upd_node_dom: "upd_node a f m = Some m' \<Longrightarrow> dom (tr_nodes m') = dom (tr_nodes m)"
  by (auto simp: upd_node_def bind_eq_Some_conv split: if_splits)

lemma rootp_plug: "rootp (plug C t) = (if C = [] then rootp t else rootp (plug C (nd SLeft v x y)))"
proof (induction C arbitrary: t v x y rule: lits.induct)
  case (2 s a k c z C)
  show ?case
  proof (cases "C = []")
    case False
    then show ?thesis using 2 [of "nd s (a, k, c) t z"] 2 [of "nd s (a, k, c) (nd SLeft v x y) z"] by simp
  qed simp
qed simp

lemma rootp_plug_cong: "rootp t = rootp u \<or> C \<noteq> [] \<Longrightarrow> rootp (plug C t) = rootp (plug C u)"
  by (subst (1 2) rootp_plug [where v = undefined and x = Leaf and y = Leaf]) auto

lemma relink_ok:
  assumes "csh (tr_nodes m) (Some a) C" "a \<notin> caddrs C" "distinct (map snd (lits C @ rits C))"
  shows "\<exists>m'. relink (cpar C) a new m = Some m' \<and> csh (tr_nodes m') new C \<and>
    tr_root m' = (if C = [] then new else tr_root m) \<and> dom (tr_nodes m') = dom (tr_nodes m) \<and>
    (\<forall>b. cpar C \<noteq> Some b \<longrightarrow> tr_nodes m' b = tr_nodes m b)"
proof (cases C rule: cpar.cases)
  case (2 s g k c y D)
  have g: "tr_nodes m g = Some (mkn s (Some a) (rootp y) (cpar D) k c)" and parts: "sh (tr_nodes m) (Some g) y" "csh (tr_nodes m) (Some g) D"
    using assms(1) 2 by auto
  let ?m = "m\<lparr>tr_nodes := (tr_nodes m)(g \<mapsto> mkn s new (rootp y) (cpar D) k c)\<rparr>"
  have left: "tn_left (mkn s (Some a) (rootp y) (cpar D) k c) = Some a \<longleftrightarrow> s = SLeft"
    using assms(2) 2 rootp_in [of y a] by (cases s) (auto simp: mkn_def)
  have run: "relink (cpar C) a new m = Some ?m"
    using g left 2 by (cases s) (auto simp: relink_def upd_node_def set_child_def mkn_def)
  have "g \<notin> addrs y" "g \<notin> caddrs D"
    using assms(3) 2 by (cases s; auto simp: addrs_def caddrs_def)+
  then have "sh (tr_nodes ?m) (Some g) y" "csh (tr_nodes ?m) (Some g) D"
    using parts by (auto intro!: sh_cong [OF _ parts(1)] csh_cong [OF _ parts(2)])
  then show ?thesis using run g 2 by (intro exI [of _ ?m]) auto
qed (simp add: relink_def)

text \<open>Recolouring and rotating a subtree in place.\<close>

lemma trep_recolour:
  assumes "trep m (plug C (nd s (a, k, c) x y))"
  shows "\<exists>m'. set_red a c' m = Some m' \<and> trep m' (plug C (nd s (a, k, c') x y)) \<and> dom (tr_nodes m') = dom (tr_nodes m)"
proof -
  let ?t = "nd s (a, k, c) x y" and ?u = "nd s (a, k, c') x y"
  let ?m = "m\<lparr>tr_nodes := (tr_nodes m)(a \<mapsto> mkn s (rootp x) (rootp y) (cpar C) k c')\<rparr>"
  note p = trep_parts [OF assms] and a = trep_node [OF assms]
  have it: "items ?u = items ?t" by (simp add: items_nd)
  have "a \<notin> addrs x \<union> addrs y" "a \<notin> caddrs C" using p(3,4) by (cases s; auto simp: items_nd addrs_def)+
  then have "sh (tr_nodes ?m) (cpar C) ?u" "csh (tr_nodes ?m) (rootp ?u) C"
    using p(1,2) by (auto intro: sh_cong [of _ "tr_nodes m"] csh_cong [of _ "tr_nodes m"])
  moreover have "tr_root ?m = rootp (plug C ?u)"
    using assms rootp_plug_cong [of ?t ?u C] by (simp add: trep_def)
  moreover have "distinct (map snd (lits C @ items ?u @ rits C))"
    using assms unfolding it trep_def items_plug by simp
  ultimately have "trep ?m (plug C ?u)" by (rule trepI)
  then show ?thesis using a by (intro exI [of _ ?m]) (auto simp: set_red_def upd_node_def)
qed

text \<open>The store after a node has got another parent, if it is there.\<close>

definition md :: "addr \<Rightarrow> (tree_node_t \<Rightarrow> tree_node_t) \<Rightarrow> (addr \<rightharpoonup> tree_node_t) \<Rightarrow> (addr \<rightharpoonup> tree_node_t)" where
  "md a f h = h(a := map_option f (h a))"

lemma md_dom [simp]: "dom (md a f h) = dom h"
  by (auto simp: md_def split: if_splits)

lemma md_other [simp]: "a \<noteq> b \<Longrightarrow> md a f h b = h b"
  by (simp add: md_def)

lemma md_same [simp]: "md a f h a = map_option f (h a)"
  by (simp add: md_def)

lemma upd_node_md: "a \<in> dom (tr_nodes m) \<Longrightarrow> upd_node a f m = Some (m\<lparr>tr_nodes := md a f (tr_nodes m)\<rparr>)"
  by (auto simp: upd_node_def md_def)

definition reparent :: "addr option \<Rightarrow> addr option \<Rightarrow> (addr \<rightharpoonup> tree_node_t) \<Rightarrow> (addr \<rightharpoonup> tree_node_t)" where
  "reparent b p h = (case b of None \<Rightarrow> h | Some a \<Rightarrow> md a (\<lambda>n. n\<lparr>tn_parent := p\<rparr>) h)"

lemma reparent_other: "b \<noteq> Some a \<Longrightarrow> reparent b p h a = h a"
  by (cases b) (simp_all add: reparent_def)

lemma reparent_dom [simp]: "dom (reparent b p h) = dom h"
  by (auto simp: reparent_def split: option.splits if_splits)

lemma reparent_run:
  assumes "\<And>a. b = Some a \<Longrightarrow> a \<in> dom (tr_nodes m)"
  shows "(case b of None \<Rightarrow> Some m | Some a \<Rightarrow> upd_node a (\<lambda>n. n\<lparr>tn_parent := p\<rparr>) m) = Some (m\<lparr>tr_nodes := reparent b p (tr_nodes m)\<rparr>)"
  using assms by (auto simp: reparent_def upd_node_md split: option.splits)

lemma sh_reparent_fun:
  assumes "sh h p t" "distinct (map snd (items t))"
  shows "sh (reparent (rootp t) p' h) p' t"
  by (rule sh_reparent [OF assms(1) _ _ assms(2)]) (auto simp: reparent_def split: option.splits)

lemma rotate_run:
  assumes p: "tr_nodes m p = Some (mkn s a (Some q) par pk pc)" and q: "tr_nodes m q = Some (mkn s b d (Some p) qk qc)" and "p \<noteq> q"
    and b: "\<And>x. b = Some x \<Longrightarrow> x \<noteq> p \<and> x \<noteq> q \<and> x \<in> dom (tr_nodes m)" and par: "par \<noteq> Some p" "par \<noteq> Some q"
    and m1: "relink par p (Some q) m = Some m1" "\<And>x. par \<noteq> Some x \<Longrightarrow> tr_nodes m1 x = tr_nodes m x" "dom (tr_nodes m1) = dom (tr_nodes m)"
  shows "tree_rotate s p m = Some (m1\<lparr>tr_nodes := (reparent b (Some p) (tr_nodes m1))(p \<mapsto> mkn s a b (Some q) pk pc, q \<mapsto> mkn s (Some p) d par qk qc)\<rparr>)"
proof -
  have n1: "tr_nodes m1 p = Some (mkn s a (Some q) par pk pc)" "tr_nodes m1 q = Some (mkn s b d (Some p) qk qc)" using p q par m1(2) by auto
  show ?thesis
  proof (cases b)
    case None
    then show ?thesis using p n1 \<open>p \<noteq> q\<close> m1(1)
      by (auto simp: tree_rotate_def upd_node_def reparent_def md_def fun_upd_twist)
  next
    case (Some x)
    then obtain xn where x: "tr_nodes m1 x = Some xn" "x \<noteq> p" "x \<noteq> q" using b m1(3) by blast
    then show ?thesis using p n1 \<open>p \<noteq> q\<close> m1(1) Some
      by (auto simp: tree_rotate_def upd_node_def reparent_def md_def fun_upd_twist)
  qed
qed

lemma trep_rotate:
  assumes "trep m (plug C (nd s (p, pk, pc) A (nd s (q, qk, qc) B D)))"
  shows "\<exists>m'. tree_rotate s p m = Some m' \<and> trep m' (plug C (nd s (q, qk, qc) (nd s (p, pk, pc) A B) D)) \<and>
    dom (tr_nodes m') = dom (tr_nodes m)"
proof -
  let ?t = "nd s (p, pk, pc) A (nd s (q, qk, qc) B D)" and ?u = "nd s (q, qk, qc) (nd s (p, pk, pc) A B) D"
  note parts = trep_parts [OF assms]
  have p: "tr_nodes m p = Some (mkn s (rootp A) (Some q) (cpar C) pk pc)" and q: "tr_nodes m q = Some (mkn s (rootp B) (rootp D) (Some p) qk qc)"
    and sub: "sh (tr_nodes m) (Some p) A" "sh (tr_nodes m) (Some q) B" "sh (tr_nodes m) (Some q) D" using parts(1) by auto
  have it: "items ?u = items ?t" by (cases s) (simp_all add: items_nd)
  have dis: "p \<noteq> q" "p \<notin> addrs A" "p \<notin> addrs B" "p \<notin> addrs D" "q \<notin> addrs A" "q \<notin> addrs B" "q \<notin> addrs D" "addrs A \<inter> addrs B = {}"
      "addrs B \<inter> addrs D = {}" "distinct (map snd (items B))"
    using parts(4) by (cases s; auto simp: items_nd addrs_def)+
  have ctx: "p \<notin> caddrs C" "q \<notin> caddrs C" "addrs A \<inter> caddrs C = {}" "addrs B \<inter> caddrs C = {}" "addrs D \<inter> caddrs C = {}" using parts(3) by auto
  have C: "csh (tr_nodes m) (Some p) C" using parts(2) by simp
  obtain m1 where m1: "relink (cpar C) p (Some q) m = Some m1" "csh (tr_nodes m1) (Some q) C" "tr_root m1 = (if C = [] then Some q else tr_root m)"
      "dom (tr_nodes m1) = dom (tr_nodes m)" "\<And>b. cpar C \<noteq> Some b \<Longrightarrow> tr_nodes m1 b = tr_nodes m b"
    using relink_ok [OF C ctx(1) parts(5), of "Some q"] by blast
  let ?h = "(reparent (rootp B) (Some p) (tr_nodes m1))(p \<mapsto> mkn s (rootp A) (rootp B) (Some q) pk pc, q \<mapsto> mkn s (Some p) (rootp D) (cpar C) qk qc)"
  let ?m = "m1\<lparr>tr_nodes := ?h\<rparr>"
  have alloc: "addrs B \<subseteq> dom (tr_nodes m)" using sh_alloc [OF sub(2)] .
  have run: "tree_rotate s p m = Some ?m"
    by (rule rotate_run [OF p q dis(1) _ _ _ m1(1) m1(5) m1(4)]) (use dis ctx alloc in \<open>auto dest: rootp_in cpar_in\<close>)
  have par: "cpar C \<noteq> Some b" if "b \<notin> caddrs C" for b using that cpar_in by blast
  have same: "tr_nodes m1 b = tr_nodes m b" if "b \<in> addrs A \<union> addrs B \<union> addrs D" for b
    using that ctx by (intro m1(5) par) auto
  have h: "?h b = tr_nodes m1 b" if "b \<noteq> p" "b \<noteq> q" "b \<notin> addrs B" for b
    using that reparent_other [of "rootp B" b] rootp_in [of B b] by auto
  have hAD: "tr_nodes m b = ?h b" if "b \<in> addrs A \<union> addrs D" for b
  proof -
    have "b \<noteq> p" "b \<noteq> q" "b \<notin> addrs B" using that dis by auto
    then show ?thesis using h same that by simp
  qed
  have "sh ?h (Some p) A" by (rule sh_cong [OF _ sub(1)], rule hAD) simp
  moreover have "sh ?h (Some q) D" by (rule sh_cong [OF _ sub(3)], rule hAD) simp
  moreover have "sh (tr_nodes m1) (Some q) B" by (rule sh_cong [OF _ sub(2)]) (use same in auto)
  then have "sh (reparent (rootp B) (Some p) (tr_nodes m1)) (Some p) B" using dis(10) by (rule sh_reparent_fun)
  then have "sh ?h (Some p) B" by (rule sh_cong [rotated]) (use dis in auto)
  ultimately have "sh (tr_nodes ?m) (cpar C) ?u" using dis(1) by simp
  moreover have "tr_nodes m1 b = ?h b" if "b \<in> caddrs C" for b
    by (rule h [symmetric]) (use that ctx in auto)
  then have "csh ?h (Some q) C" by (rule csh_cong [OF _ m1(2)])
  then have "csh (tr_nodes ?m) (rootp ?u) C" by simp
  moreover have "tr_root ?m = rootp (plug C ?u)"
    using m1(3) assms rootp_plug_cong [of ?t ?u C] by (auto simp: trep_def)
  moreover have "distinct (map snd (lits C @ items ?u @ rits C))" using assms unfolding it trep_def items_plug by simp
  ultimately have "trep ?m (plug C ?u)" by (rule trepI)
  moreover have "dom ?h = dom (tr_nodes m)" using m1(4) p q by auto
  ultimately show ?thesis using run by auto
qed

end
