(* ===== verification/Wepoll_Rbt.thy ===== *)
theory Wepoll_Rbt
  imports Wepoll_Tree
begin

text \<open>
  The search tree of wepoll stays a red-black tree, and refines a list of keys and nodes
  in the order of the keys: colours and heights of shapes and of their contexts, insertion,
  removal, search and the bound on the depth.
\<close>

subsection \<open>Colours and heights\<close>

text \<open>
  \<open>ok n t\<close>: no red node of \<open>t\<close> has a red child, and every path to a leaf has \<open>n\<close> black nodes.
  \<open>cok n C\<close>: the context is that of such a tree with a black root, when its hole is filled
  with a tree of black height \<open>n\<close>; \<open>nb C\<close>: the hole asks for a black root.
\<close>

fun black :: "shape \<Rightarrow> bool" where
  "black Leaf \<longleftrightarrow> True"
| "black (Node l (a, k, c) r) \<longleftrightarrow> \<not> c"

fun ok :: "nat \<Rightarrow> shape \<Rightarrow> bool" where
  "ok n Leaf \<longleftrightarrow> n = 0"
| "ok n (Node l (a, k, c) r) \<longleftrightarrow>
     (if c then ok n l \<and> ok n r \<and> black l \<and> black r else n \<noteq> 0 \<and> ok (n - 1) l \<and> ok (n - 1) r)"

fun nb :: "ctx \<Rightarrow> bool" where
  "nb [] \<longleftrightarrow> True"
| "nb ((s, (a, k, c), y) # C) \<longleftrightarrow> c"

fun cok :: "nat \<Rightarrow> ctx \<Rightarrow> bool" where
  "cok n [] \<longleftrightarrow> True"
| "cok n ((s, (a, k, c), y) # C) \<longleftrightarrow> ok n y \<and> (if c then black y \<and> \<not> nb C \<and> cok n C else cok (Suc n) C)"

definition rbt :: "shape \<Rightarrow> bool" where
  "rbt t \<longleftrightarrow> black t \<and> (\<exists>n. ok n t)"

lemma ok_nd [simp]:
  "black (nd s (a, k, c) x y) \<longleftrightarrow> \<not> c"
  "ok n (nd s (a, k, c) x y) \<longleftrightarrow>
     (if c then ok n x \<and> ok n y \<and> black x \<and> black y else n \<noteq> 0 \<and> ok (n - 1) x \<and> ok (n - 1) y)"
  by (cases s; auto simp: nd_def)+

lemma rbt_plug: "rbt (plug C t) \<longleftrightarrow> (\<exists>n. ok n t \<and> cok n C) \<and> (nb C \<longrightarrow> black t)"
proof (induction C arbitrary: t rule: lits.induct)
  case (2 s a k c y C)
  show ?case
  proof (cases c)
    case False
    have "(\<exists>n. (n \<noteq> 0 \<and> ok (n - 1) t \<and> ok (n - 1) y) \<and> cok n C) \<longleftrightarrow> (\<exists>n. ok n t \<and> ok n y \<and> cok (Suc n) C)"
      by (metis Suc_pred' diff_Suc_1 nat.discI gr0I)
    then show ?thesis using 2 [of "nd s (a, k, c) t y"] False by simp
  qed (use 2 [of "nd s (a, k, c) t y"] in auto)
qed (auto simp: rbt_def)

lemma is_red_black:
  assumes "trep m (plug C t)"
  shows "is_red (rootp t) m = Some (\<not> black t)"
  unfolding trep_red [OF assms] by (cases t rule: rootp.cases) auto

text \<open>The sides of a pair of brothers, told apart by the pointers.\<close>

lemma side_of:
  assumes "trep m (plug ((s, (g, gk, gc), u) # C) t)" "t \<noteq> Leaf \<or> u \<noteq> Leaf"
  shows "tn_left (mkn s (rootp t) (rootp u) p k c) = rootp t \<longleftrightarrow> s = SLeft"
proof -
  have "rootp t \<noteq> rootp u"
  proof
    assume eq: "rootp t = rootp u"
    then have "rootp t \<noteq> None" using assms(2) by (metis rootp_None)
    then obtain a where "rootp t = Some a" by blast
    then show False using eq trep_parts(3) [OF assms(1)] by (auto dest!: rootp_in)
  qed
  then show ?thesis by (cases s) (auto simp: mkn_def)
qed

subsection \<open>Insertion\<close>

definition blacken :: "shape \<Rightarrow> shape" where
  "blacken t = (case t of Leaf \<Rightarrow> Leaf | Node l (a, k, c) r \<Rightarrow> Node l (a, k, False) r)"

lemma blacken_nd [simp]: "blacken (nd s (a, k, c) x y) = nd s (a, k, False) x y"
  by (cases s) (simp_all add: blacken_def nd_def)

lemma blacken_black: "black t \<Longrightarrow> blacken t = t"
  by (cases t rule: rootp.cases) (auto simp: blacken_def)

lemma blacken_items: "items (blacken t) = items t"
  by (cases t rule: rootp.cases) (auto simp: blacken_def)

text \<open>The last rotation at the grandparent \<open>g\<close>.\<close>

lemma insert_finish:
  assumes "trep m (plug C (nd s (g, gk, False) (nd s (p, pk, True) x y) u))" "ok j x" "ok j y" "ok j u" "black y" "black u" "cok (Suc j) C"
  shows "\<exists>m'. (do { tree \<leftarrow> set_red p False m; tree \<leftarrow> set_red g True tree; tree_rotate (opp s) g tree }) = Some m' \<and>
    trep m' (plug C (nd s (p, pk, False) x (nd s (g, gk, True) y u))) \<and> dom (tr_nodes m') = dom (tr_nodes m) \<and>
    rbt (plug C (nd s (p, pk, False) x (nd s (g, gk, True) y u)))"
proof -
  have "trep m (plug ((s, (g, gk, False), u) # C) (nd s (p, pk, True) x y))" using assms(1) by simp
  from trep_recolour [OF this, of False] obtain m1 where m1: "set_red p False m = Some m1"
      "trep m1 (plug C (nd s (g, gk, False) (nd s (p, pk, False) x y) u))" "dom (tr_nodes m1) = dom (tr_nodes m)" by auto
  from trep_recolour [OF m1(2), of True] obtain m2 where m2: "set_red g True m1 = Some m2"
      "trep m2 (plug C (nd s (g, gk, True) (nd s (p, pk, False) x y) u))" "dom (tr_nodes m2) = dom (tr_nodes m1)" by auto
  have "trep m2 (plug C (nd (opp s) (g, gk, True) u (nd (opp s) (p, pk, False) y x)))" using m2(2) by (simp add: nd_opp)
  from trep_rotate [OF this] obtain m3 where "tree_rotate (opp s) g m2 = Some m3"
      "trep m3 (plug C (nd s (p, pk, False) x (nd s (g, gk, True) y u)))" "dom (tr_nodes m3) = dom (tr_nodes m2)" by (auto simp: nd_opp)
  moreover have "rbt (plug C (nd s (p, pk, False) x (nd s (g, gk, True) y u)))"
    unfolding rbt_plug using assms by (auto intro!: exI [of _ "Suc j"])
  ultimately show ?thesis using m1 m2 by auto
qed

lemma add_rebalance_stop:
  assumes "trep m (plug ((s, (p, pk, False), y) # C) t)"
  shows "add_rebalance n (Some p) m = Some m"
  using trep_parent [OF assms] by (subst add_rebalance.simps) simp

text \<open>One round: the uncle is red.\<close>

lemma insert_recolour:
  assumes "trep m (plug C (nd s (g, gk, False) (nd s1 (p, pk, True) t y) (nd s (u, uk, True) ux uy)))" "rootp t = Some n"
  shows "\<exists>m'. rebalance_after_insert s n p m = Some (g, m') \<and> dom (tr_nodes m') = dom (tr_nodes m) \<and>
    trep m' (plug C (nd s (g, gk, True) (nd s1 (p, pk, False) t y) (nd s (u, uk, False) ux uy)))"
proof -
  let ?U = "\<lambda>c. nd s (u, uk, c) ux uy" and ?P = "\<lambda>c. nd s1 (p, pk, c) t y"
  have r0: "trep m (plug ((opp s, (g, gk, False), ?P True) # C) (?U True))" "trep m (plug ((s, (g, gk, False), ?U True) # C) (?P True))"
    using assms(1) by (simp_all add: nd_opp)
  note g = trep_node [OF assms(1)] and p = trep_node [OF r0(2)]
  obtain m1 where m1: "set_red u False m = Some m1" "trep m1 (plug ((opp s, (g, gk, False), ?P True) # C) (?U False))" "dom (tr_nodes m1) = dom (tr_nodes m)"
    using trep_recolour [OF r0(1), of False] by auto
  have r1: "trep m1 (plug ((s, (g, gk, False), ?U False) # C) (?P True))" using m1(2) by (simp add: nd_opp)
  obtain m2 where m2: "set_red p False m1 = Some m2" "trep m2 (plug C (nd s (g, gk, False) (?P False) (?U False)))" "dom (tr_nodes m2) = dom (tr_nodes m1)"
    using trep_recolour [OF r1, of False] by auto
  obtain m3 where m3: "set_red g True m2 = Some m3" "trep m3 (plug C (nd s (g, gk, True) (?P False) (?U False)))" "dom (tr_nodes m3) = dom (tr_nodes m2)"
    using trep_recolour [OF m2(2), of True] by auto
  have "is_red (Some u) m = Some True" using is_red_black [OF r0(1)] by simp
  then show ?thesis using g p m1 m2 m3 by (auto simp: rebalance_after_insert_def)
qed

text \<open>The other rounds are the last: the parent is on the same side as the node, or on the other.\<close>

lemma insert_outer:
  assumes "trep m (plug C (nd s (g, gk, False) (nd s (p, pk, True) t y) u))" "rootp t = Some n"
    and "ok j t" "ok j y" "ok j u" "black y" "black u" "cok (Suc j) C"
  shows "\<exists>m' T. rebalance_after_insert s n p m = Some (n, m') \<and> dom (tr_nodes m') = dom (tr_nodes m) \<and>
    trep m' T \<and> rbt T \<and> items T = items (plug C (nd s (g, gk, False) (nd s (p, pk, True) t y) u)) \<and>
    (\<exists>nn. tr_nodes m' n = Some nn \<and> add_rebalance n (tn_parent nn) m' = Some m')"
proof -
  let ?T = "nd s (p, pk, False) t (nd s (g, gk, True) y u)"
  have r0: "trep m (plug ((s, (g, gk, False), u) # C) (nd s (p, pk, True) t y))" "trep m (plug ((opp s, (g, gk, False), nd s (p, pk, True) t y) # C) u)"
    using assms(1) by (simp_all add: nd_opp)
  note g = trep_node [OF assms(1)] and p = trep_node [OF r0(1)]
  have ne: "rootp y \<noteq> Some n" using trep_parts(4) [OF r0(1)] assms(2) by (cases s; auto simp: items_nd addrs_def dest!: rootp_in)
  have u: "is_red (rootp u) m = Some False" using is_red_black [OF r0(2)] assms(7) by simp
  obtain m' where m': "(do { tree \<leftarrow> set_red p False m; tree \<leftarrow> set_red g True tree; tree_rotate (opp s) g tree }) = Some m'"
      "trep m' (plug C ?T)" "dom (tr_nodes m') = dom (tr_nodes m)" "rbt (plug C ?T)"
    using insert_finish [OF assms(1,3,4,5,6,7,8)] by blast
  have "rebalance_after_insert s n p m = Some (n, m')"
    using g p u ne m'(1) by (auto simp: rebalance_after_insert_def bind_eq_Some_conv)
  moreover have r1: "trep m' (plug ((s, (p, pk, False), nd s (g, gk, True) y u) # C) t)" using m'(2) by simp
  moreover obtain k c x z where t: "t = nd s (n, k, c) x z" using assms(2) by (cases t rule: nd_cases [where s = s]) auto
  moreover have "tr_nodes m' n = Some (mkn s (rootp x) (rootp z) (Some p) k c)" using trep_node [of m' _ s n k c x z] r1 t by fastforce
  moreover have "items (plug C ?T) = items (plug C (nd s (g, gk, False) (nd s (p, pk, True) t y) u))"
    by (cases s) (simp_all add: items_plug items_nd)
  ultimately show ?thesis using m' add_rebalance_stop [OF r1] by (intro exI [of _ m'] exI [of _ "plug C ?T"]) auto
qed

lemma insert_inner:
  assumes "trep m (plug C (nd s (g, gk, False) (nd s (p, pk, True) y (nd s (n, nk, True) x z)) u))"
    and "ok j (nd s (n, nk, True) x z)" "ok j y" "ok j u" "black y" "black u" "cok (Suc j) C"
  shows "\<exists>m' T. rebalance_after_insert s n p m = Some (p, m') \<and> dom (tr_nodes m') = dom (tr_nodes m) \<and>
    trep m' T \<and> rbt T \<and> items T = items (plug C (nd s (g, gk, False) (nd s (p, pk, True) y (nd s (n, nk, True) x z)) u)) \<and>
    (\<exists>nn. tr_nodes m' p = Some nn \<and> add_rebalance p (tn_parent nn) m' = Some m')"
proof -
  let ?P = "nd s (p, pk, True) y x"
  let ?T = "nd s (n, nk, False) ?P (nd s (g, gk, True) z u)"
  have r0: "trep m (plug ((s, (g, gk, False), u) # C) (nd s (p, pk, True) y (nd s (n, nk, True) x z)))"
      "trep m (plug ((opp s, (g, gk, False), nd s (p, pk, True) y (nd s (n, nk, True) x z)) # C) u)"
    using assms(1) by (simp_all add: nd_opp)
  note g = trep_node [OF assms(1)] and p = trep_node [OF r0(1)]
  have u: "is_red (rootp u) m = Some False" using is_red_black [OF r0(2)] assms(6) by simp
  obtain m1 where m1: "tree_rotate s p m = Some m1" "trep m1 (plug C (nd s (g, gk, False) (nd s (n, nk, True) ?P z) u))" "dom (tr_nodes m1) = dom (tr_nodes m)"
    using trep_rotate [OF r0(1)] by auto
  have r1: "trep m1 (plug ((s, (n, nk, True), z) # (s, (g, gk, False), u) # C) ?P)" using m1(2) by simp
  obtain m' where m': "(do { tree \<leftarrow> set_red n False m1; tree \<leftarrow> set_red g True tree; tree_rotate (opp s) g tree }) = Some m'"
      "trep m' (plug C ?T)" "dom (tr_nodes m') = dom (tr_nodes m1)" "rbt (plug C ?T)"
    using insert_finish [OF m1(2), of j] assms(2-7) by auto
  have "rebalance_after_insert s n p m = Some (p, m')"
    using g p u m1(1) trep_node [OF r1] m'(1) by (auto simp: rebalance_after_insert_def bind_eq_Some_conv)
  moreover have r2: "trep m' (plug ((s, (n, nk, False), nd s (g, gk, True) z u) # C) ?P)" using m'(2) by simp
  moreover have "items (plug C ?T) = items (plug C (nd s (g, gk, False) (nd s (p, pk, True) y (nd s (n, nk, True) x z)) u))"
    by (cases s) (simp_all add: items_plug items_nd)
  ultimately show ?thesis using m' m1(3) add_rebalance_stop [OF r2] trep_node [OF r2] by (intro exI [of _ m'] exI [of _ "plug C ?T"]) auto
qed

lemma insert_last:
  assumes "trep m (plug C (nd s2 (g, gk, False) (nd s1 (p, pk, True) (nd s (n, k, True) x y) z) u))" (is "trep m ?start")
    and "ok j (nd s (n, k, True) x y)" "ok j z" "black z" "ok j u" "black u" "cok (Suc j) C"
  shows "\<exists>m' T q nn. rebalance_after_insert s2 n p m = Some (q, m') \<and> dom (tr_nodes m') = dom (tr_nodes m) \<and>
    trep m' T \<and> rbt T \<and> items T = items ?start \<and> tr_nodes m' q = Some nn \<and> add_rebalance q (tn_parent nn) m' = Some m'"
proof (cases "s1 = s2")
  case True
  then show ?thesis using insert_outer [of m C s2 g gk p pk "nd s (n, k, True) x y" z u n j] assms by auto
next
  case False
  then have s1: "s1 = opp s2" by (cases s1; cases s2) auto
  obtain x' y' where t: "nd s (n, k, True) x y = nd s2 (n, k, True) x' y'" by (cases "s = s2") (auto simp: side_eq_opp nd_opp)
  show ?thesis
    using insert_inner [of m C s2 g gk p pk z n k x' y' u j] assms unfolding t s1 nd_opp by auto
qed

lemma add_rebalance_ok:
  assumes "trep m (plug C (nd s (n, k, True) x y))" "ok j (nd s (n, k, True) x y)" "cok j C"
  shows "\<exists>m' T. add_rebalance n (cpar C) m = Some m' \<and> trep m' T \<and> rbt (blacken T) \<and> T \<noteq> Leaf \<and>
    items T = items (plug C (nd s (n, k, True) x y)) \<and> dom (tr_nodes m') = dom (tr_nodes m)"
  using assms
proof (induction C arbitrary: m s n k x y j rule: length_induct)
  case (1 C)
  let ?t = "nd s (n, k, True) x y"
  note prems = 1(2-4)
  consider (root) "C = []" | (stop) s1 p pk z C1 where "C = (s1, (p, pk, False), z) # C1"
    | (red) s1 p pk z C1 where "C = (s1, (p, pk, True), z) # C1"
    by (metis (full_types) cpar.cases)
  then show ?case
  proof cases
    case root
    have "rbt (blacken ?t)" using prems(2) by (auto simp: rbt_def intro!: exI [of _ "Suc j"])
    then show ?thesis using root prems(1) by (intro exI [of _ m] exI [of _ ?t]) (simp add: add_rebalance.simps)
  next
    case stop
    have "rbt (plug C ?t)" unfolding rbt_plug using prems(2,3) stop by (intro conjI exI [of _ j]) auto
    moreover have "add_rebalance n (cpar C) m = Some m" using add_rebalance_stop [of m s1 p pk z C1] prems(1) stop by simp
    ultimately show ?thesis using prems(1) by (intro exI [of _ m] exI [of _ "plug C ?t"]) (auto simp: rbt_def blacken_black dest: arg_cong [of _ _ items] simp: items_plug items_nd split: side.splits)
  next
    case red
    have j: "ok j z" "black z" "\<not> nb C1" "cok j C1" using prems(3) red by auto
    then obtain s2 g gk u C2 where C1: "C1 = (s2, (g, gk, False), u) # C2" by (cases C1 rule: nb.cases) auto
    have u: "ok j u" "cok (Suc j) C2" using j(4) C1 by auto
    have rep: "trep m (plug C2 (nd s2 (g, gk, False) (nd s1 (p, pk, True) ?t z) u))" using prems(1) red C1 by simp
    then have rep1: "trep m (plug ((s2, (g, gk, False), u) # C2) (nd s1 (p, pk, True) ?t z))" by simp
    note gn = trep_node [OF rep] and pn = trep_node [OF rep1]
    have side: "(if tn_left (mkn s2 (Some p) (rootp u) (cpar C2) gk False) = Some p then SLeft else SRight) = s2"
      using side_of [OF rep1, of "cpar C2" gk False] by (cases s2) auto
    have step: "add_rebalance n (cpar C) m = do { (node, tree) \<leftarrow> rebalance_after_insert s2 n p m; nn \<leftarrow> tr_nodes tree node; add_rebalance node (tn_parent nn) tree }"
      using gn pn red side by (subst add_rebalance.simps) simp
    have it: "items (plug C ?t) = items (plug C2 (nd s2 (g, gk, False) (nd s1 (p, pk, True) ?t z) u))" using red C1 by simp
    show ?thesis
    proof (cases "black u")
      case True
      then obtain m' T q nn where f: "rebalance_after_insert s2 n p m = Some (q, m')" "dom (tr_nodes m') = dom (tr_nodes m)"
          "trep m' T" "rbt T" "items T = items (plug C ?t)" "tr_nodes m' q = Some nn" "add_rebalance q (tn_parent nn) m' = Some m'"
        using insert_last [OF rep prems(2) j(1,2) u(1) True u(2)] it by metis
      have "T \<noteq> Leaf" using f(5) by (auto simp: items_plug items_nd split: side.splits)
      then show ?thesis using f step by (intro exI [of _ m'] exI [of _ T]) (auto simp: rbt_def blacken_black)
    next
      case False
      then obtain ua uk ux uy where un: "u = nd s2 (ua, uk, True) ux uy" by (cases u rule: nd_cases [where s = s2]) auto
      let ?G = "nd s2 (g, gk, True) (nd s1 (p, pk, False) ?t z) (nd s2 (ua, uk, False) ux uy)"
      obtain m1 where m1: "rebalance_after_insert s2 n p m = Some (g, m1)" "dom (tr_nodes m1) = dom (tr_nodes m)" "trep m1 (plug C2 ?G)"
        using insert_recolour [of m C2 s2 g gk s1 p pk ?t z ua uk ux uy n] rep un by auto
      have G: "ok (Suc j) ?G" using prems(2) j(1,2) u(1) un by auto
      have len: "length C2 < length C" using red C1 by simp
      obtain m' T where f: "add_rebalance g (cpar C2) m1 = Some m'" "trep m' T" "rbt (blacken T)" "T \<noteq> Leaf" "items T = items (plug C2 ?G)"
          "dom (tr_nodes m') = dom (tr_nodes m1)"
        using 1(1) [rule_format, OF len m1(3) G u(2)] by blast
      moreover have "items (plug C2 ?G) = items (plug C ?t)" unfolding it un by (cases s2) (simp_all add: items_plug items_nd)
      ultimately show ?thesis using step m1 trep_node [OF m1(3)] by (intro exI [of _ m'] exI [of _ T]) auto
    qed
  qed
qed

text \<open>The search for the place of a key.\<close>

definition between :: "ctx \<Rightarrow> nat \<Rightarrow> bool" where
  "between C key \<longleftrightarrow> (\<forall>x\<in>set (lits C). fst x < key) \<and> (\<forall>x\<in>set (rits C). key < fst x)"

abbreviation sorted_items :: "(nat \<times> addr) list \<Rightarrow> bool" where
  "sorted_items L \<equiv> sorted_wrt (<) (map fst L)"

lemma between_step:
  assumes "sorted_items (items (plug C (nd s (a, k, c) x y)))" "between C key" "s = SLeft \<and> key < k \<or> s = SRight \<and> k < key"
  shows "between ((s, (a, k, c), y) # C) key" "\<And>b. (key, b) \<notin> set (items y)"
proof -
  have y: "\<forall>z\<in>set (items y). if s = SLeft then k < fst z else fst z < k"
    using assms(1) by (cases s) (auto simp: items_plug items_nd sorted_wrt_append)
  show "between ((s, (a, k, c), y) # C) key" using assms(2,3) y by (cases s) (fastforce simp: between_def)+
  show "(key, b) \<notin> set (items y)" for b using assms(3) y by (cases s) fastforce+
qed

lemma add_descend_ok:
  assumes "trep m (plug C t)" "sorted_items (items (plug C t))" "between C key" "rootp t = Some p"
  shows "if key \<in> fst ` set (items t) then add_descend n key p m = Some (None, m)
    else \<exists>s a k c y D. plug C t = plug ((s, (a, k, c), y) # D) Leaf \<and> between ((s, (a, k, c), y) # D) key \<and>
      add_descend n key p m = Some (Some a, m\<lparr>tr_nodes := (tr_nodes m)(a \<mapsto> mkn s (Some n) (rootp y) (cpar D) k c)\<rparr>)"
  using assms
proof (induction t arbitrary: C p)
  case (Node l v r)
  obtain a k c where v: "v = (a, k, c)" by (cases v) auto
  have t: "Node l v r = nd SLeft (a, k, c) l r" "Node l v r = nd SRight (a, k, c) r l" by (simp_all add: v nd_def)
  have p: "p = a" using Node.prems(4) v by simp
  show ?case
  proof (cases "key = k")
    case True
    have "key \<in> fst ` set (items (Node l v r))" using True v by simp
    moreover have "add_descend n key p m = Some (None, m)"
      using True trep_node [of m C SLeft a k c l r] Node.prems(1) t(1) p by (subst add_descend.simps) simp
    ultimately show ?thesis by presburger
  next
    case False
    define s where "s = (if key < k then SLeft else SRight)"
    define x y where "x = (if key < k then l else r)" and "y = (if key < k then r else l)"
    have nd: "Node l v r = nd s (a, k, c) x y" using t by (simp add: s_def x_def y_def)
    have rep: "trep m (plug C (nd s (a, k, c) x y))" "sorted_items (items (plug C (nd s (a, k, c) x y)))" using Node.prems(1,2) nd by simp_all
    have bt: "between ((s, (a, k, c), y) # C) key" "\<And>b. (key, b) \<notin> set (items y)"
      using between_step [OF rep(2) Node.prems(3)] False by (auto simp: s_def split: if_splits)
    have "items (nd s (a, k, c) x y) = items l @ (k, a) # items r" using nd v by (metis items.simps(2))
    then have mem: "key \<in> fst ` set (items (Node l v r)) \<longleftrightarrow> key \<in> fst ` set (items x)"
      using bt(2) False v by (auto simp: x_def y_def split: if_splits)
    have step: "add_descend n key p m = (case rootp x of Some q \<Rightarrow> add_descend n key q m
        | None \<Rightarrow> Some (Some a, m\<lparr>tr_nodes := (tr_nodes m)(a \<mapsto> mkn s (Some n) (rootp y) (cpar C) k c)\<rparr>))"
      using trep_node [OF rep(1)] p False by (subst add_descend.simps) (auto simp: s_def [symmetric] upd_node_def split: option.splits)
    show ?thesis
    proof (cases "rootp x")
      case None
      then have x: "x = Leaf" by simp
      then have "key \<notin> fst ` set (items (Node l v r))" using mem by simp
      moreover have "plug C (Node l v r) = plug ((s, (a, k, c), y) # C) Leaf" using nd x by simp
      ultimately show ?thesis using step bt(1) None by (simp only: if_False option.case) blast
    next
      case (Some q)
      have rep': "trep m (plug ((s, (a, k, c), y) # C) x)" "sorted_items (items (plug ((s, (a, k, c), y) # C) x))" using rep by simp_all
      consider "x = l" | "x = r" unfolding x_def by (cases "key < k") auto
      then have "if key \<in> fst ` set (items x) then add_descend n key q m = Some (None, m)
        else \<exists>s' a' k' c' y' D. plug ((s, (a, k, c), y) # C) x = plug ((s', (a', k', c'), y') # D) Leaf \<and> between ((s', (a', k', c'), y') # D) key \<and>
          add_descend n key q m = Some (Some a', m\<lparr>tr_nodes := (tr_nodes m)(a' \<mapsto> mkn s' (Some n) (rootp y') (cpar D) k' c')\<rparr>)"
      proof cases
        case 1
        show ?thesis unfolding 1 by (rule Node.IH(1)) (use rep' bt(1) Some 1 in \<open>simp_all del: plug.simps\<close>)
      next
        case 2
        show ?thesis unfolding 2 by (rule Node.IH(2)) (use rep' bt(1) Some 2 in \<open>simp_all del: plug.simps\<close>)
      qed
      moreover have "add_descend n key p m = add_descend n key q m" "plug C (Node l v r) = plug ((s, (a, k, c), y) # C) x" using step nd Some by simp_all
      ultimately show ?thesis unfolding mem by (simp only:)
    qed
  qed
qed simp

lemma between_notin:
  assumes "between C key"
  shows "key \<notin> fst ` set (items (plug C Leaf))"
  using assms by (force simp: between_def items_plug)

text \<open>Linking a new red node below its parent.\<close>

lemma trep_graft:
  assumes rep: "trep m (plug ((s, (a, k, c), y) # D) Leaf)" and n: "n \<notin> addrs (plug ((s, (a, k, c), y) # D) Leaf)"
  shows "trep (m\<lparr>tr_nodes := (tr_nodes m)(a \<mapsto> mkn s (Some n) (rootp y) (cpar D) k c, n \<mapsto> mkn SLeft None None (Some a) key True)\<rparr>)
    (plug ((s, (a, k, c), y) # D) (nd SLeft (n, key, True) Leaf Leaf))"
    (is "trep ?m (plug ?C ?t)")
proof (rule trepI)
  note parts = trep_parts [OF rep]
  have n': "n \<notin> caddrs ?C" using n by (auto simp: addrs_def caddrs_def items_plug simp del: plug.simps)
  have dis: "a \<notin> addrs y" "a \<notin> caddrs D" "n \<noteq> a" "n \<notin> addrs y" "n \<notin> caddrs D"
    using parts(5) n' by (cases s; auto simp: addrs_def caddrs_def)+
  have "sh (tr_nodes ?m) (Some a) y" by (rule sh_cong [of _ "tr_nodes m"]) (use dis parts(2) in auto)
  moreover have "csh (tr_nodes ?m) (Some a) D" by (rule csh_cong [of _ "tr_nodes m"]) (use dis parts(2) in auto)
  ultimately show "csh (tr_nodes ?m) (rootp ?t) ?C" using dis by auto
  show "sh (tr_nodes ?m) (cpar ?C) ?t" by simp
  show "tr_root ?m = rootp (plug ?C ?t)" using rep rootp_plug_cong [of Leaf ?t ?C] by (simp add: trep_def del: plug.simps)
  have "n \<notin> snd ` set (lits ?C)" "n \<notin> snd ` set (rits ?C)" using n' by (auto simp: caddrs_def simp del: lits.simps rits.simps)
  then show "distinct (map snd (lits ?C @ items ?t @ rits ?C))" using parts(5) by (simp add: items_nd del: lits.simps rits.simps) 
qed

subsection \<open>The tree as a sorted list\<close>

text \<open>The tree holds the list \<open>L\<close> of keys and nodes, in the order of the keys.\<close>

definition tree_holds :: "tree_t \<Rightarrow> (nat \<times> addr) list \<Rightarrow> bool" where
  "tree_holds m L \<longleftrightarrow> (\<exists>t. trep m t \<and> rbt t \<and> items t = L) \<and> sorted_items L"

lemma insort_key_split:
  assumes "\<forall>x\<in>set A. fst x < key" "\<forall>x\<in>set B. key < fst x"
  shows "insort_key fst (key, n) (A @ B) = A @ (key, n) # B"
  using assms
proof (induction A)
  case Nil
  then show ?case by (cases B) auto
qed auto

lemma add_finish:
  assumes rep: "trep m (plug C (nd SLeft (n, key, True) Leaf Leaf))" and "cok 0 C" "between C key" "sorted_items (lits C @ rits C)"
  shows "\<exists>m'. (do { tree \<leftarrow> add_rebalance n (cpar C) m; root \<leftarrow> tr_root tree; tree \<leftarrow> set_red root False tree; Some (0 :: int, tree) }) = Some (0, m') \<and>
    tree_holds m' (insort_key fst (key, n) (lits C @ rits C)) \<and> dom (tr_nodes m') = dom (tr_nodes m)"
proof -
  obtain m1 T where m1: "add_rebalance n (cpar C) m = Some m1" "trep m1 T" "rbt (blacken T)" "T \<noteq> Leaf"
      "items T = items (plug C (nd SLeft (n, key, True) Leaf Leaf))" "dom (tr_nodes m1) = dom (tr_nodes m)"
    using add_rebalance_ok [OF rep, of 0] assms(2) by auto
  obtain a k c x y where T: "T = nd SLeft (a, k, c) x y" using m1(4) by (cases T rule: nd_cases [where s = SLeft]) auto
  obtain m2 where m2: "set_red a False m1 = Some m2" "trep m2 (blacken T)" "dom (tr_nodes m2) = dom (tr_nodes m1)"
    using trep_recolour [of m1 "[]" SLeft a k c x y False] m1(2) T by auto
  have it: "items (blacken T) = insort_key fst (key, n) (lits C @ rits C)"
    using m1(5) assms(3) insort_key_split [of "lits C" key "rits C" n] by (simp add: blacken_items items_plug items_nd between_def)
  have "sorted_items (lits C @ (key, n) # rits C)" using assms(3,4) by (auto simp: sorted_wrt_append between_def)
  then have "tree_holds m2 (insort_key fst (key, n) (lits C @ rits C))"
    using m2(2) m1(3) it insort_key_split [of "lits C" key "rits C" n] assms(3) by (auto simp: tree_holds_def between_def)
  moreover have "tr_root m1 = Some a" using m1(2) T by (simp add: trep_def)
  ultimately show ?thesis using m1(1,6) m2 by auto
qed

lemma tree_add_ok:
  assumes "tree_holds m L" "n \<in> dom (tr_nodes m)" "n \<notin> snd ` set L"
  shows "if key \<in> fst ` set L then tree_add n key m = Some (-1, m)
    else \<exists>m'. tree_add n key m = Some (0, m') \<and> tree_holds m' (insort_key fst (key, n) L) \<and> dom (tr_nodes m') = dom (tr_nodes m)"
proof -
  obtain t where t: "trep m t" "rbt t" "items t = L" "sorted_items L" using assms(1) by (auto simp: tree_holds_def)
  let ?new = "\<lambda>p. mkn SLeft None None p key True"
  obtain nn where nn: "tr_nodes m n = Some nn" using assms(2) by blast
  show ?thesis
  proof (cases "rootp t")
    case None
    then have L: "L = []" "tr_root m = None" using t by (auto simp: trep_def)
    let ?m = "m\<lparr>tr_root := Some n, tr_nodes := (tr_nodes m)(n \<mapsto> ?new None)\<rparr>"
    have "trep ?m (plug [] (nd SLeft (n, key, True) Leaf Leaf))" by (simp add: trep_def items_nd)
    from add_finish [OF this] show ?thesis
      using L nn by (auto simp: tree_add_def upd_node_def mkn_def between_def insert_absorb)
  next
    case (Some p)
    have root: "tr_root m = Some p" using t(1) Some by (simp add: trep_def)
    note desc = add_descend_ok [of m "[]" t key p n, simplified, OF t(1) _ _ Some]
    show ?thesis
    proof (cases "key \<in> fst ` set L")
      case True
      then show ?thesis using desc t root by (auto simp: tree_add_def between_def)
    next
      case False
      obtain s a k c y D where d: "t = plug ((s, (a, k, c), y) # D) Leaf" "between ((s, (a, k, c), y) # D) key"
          "add_descend n key p m = Some (Some a, m\<lparr>tr_nodes := (tr_nodes m)(a \<mapsto> mkn s (Some n) (rootp y) (cpar D) k c)\<rparr>)"
        using desc t False by (auto simp: between_def)
      let ?C = "(s, (a, k, c), y) # D"
      let ?m = "m\<lparr>tr_nodes := (tr_nodes m)(a \<mapsto> mkn s (Some n) (rootp y) (cpar D) k c, n \<mapsto> ?new (Some a))\<rparr>"
      have L: "L = lits ?C @ rits ?C" using t(3) d(1) by (simp add: items_plug del: plug.simps lits.simps rits.simps)
      have "n \<notin> addrs (plug ?C Leaf)" using assms(3) t(3) d(1) by (simp add: addrs_def)
      then have rep: "trep ?m (plug ?C (nd SLeft (n, key, True) Leaf Leaf))" using trep_graft t(1) d(1) by blast
      have "cok 0 ?C" using t(2) unfolding d(1) rbt_plug by (auto simp del: cok.simps)
      from add_finish [OF rep this d(2)] obtain m' where
        m': "(do { tree \<leftarrow> add_rebalance n (cpar ?C) ?m; root \<leftarrow> tr_root tree; tree \<leftarrow> set_red root False tree; Some (0 :: int, tree) }) = Some (0, m')"
        "tree_holds m' (insort_key fst (key, n) L)" "dom (tr_nodes m') = dom (tr_nodes ?m)" using t(4) L by auto
      have "a \<in> dom (tr_nodes m)" using trep_parent [of m s a k c y D Leaf] t(1) d(1) by auto
      then have "dom (tr_nodes m') = dom (tr_nodes m)" using m'(3) assms(2) by auto
      moreover have "tree_add n key m = Some (0, m')" using d(3) root nn m'(1) by (auto simp: tree_add_def upd_node_def mkn_def)
      ultimately show ?thesis using m'(2) False by auto
    qed
  qed
qed

subsection \<open>Rebalancing after a removal\<close>

text \<open>
  The subtree \<open>t\<close> below \<open>p\<close> has one black node too few on its paths.  The last round: the
  sibling \<open>q\<close> is black and its outer child is red.
\<close>

lemma remove_finish:
  assumes "trep m (plug C (nd s (p, pk, pc) t (nd s (q, qk, False) x (nd s (w, wk, True) y z))))" (is "trep m ?start")
    and "ok n t" "black t" "ok n x" "ok n (nd s (w, wk, True) y z)" "if pc then \<not> nb C \<and> cok (Suc n) C else cok (Suc (Suc n)) C"
  shows "\<exists>m' T. (do { pn \<leftarrow> tr_nodes m p; tree \<leftarrow> set_red q (tn_red pn) m; sn \<leftarrow> tr_nodes tree q; t \<leftarrow> child (opp s) sn;
      tree \<leftarrow> set_red t False tree; tree \<leftarrow> set_red p False tree; tree \<leftarrow> tree_rotate s p tree; Some (True, tree) }) = Some (True, m') \<and>
    trep m' T \<and> rbt T \<and> items T = items ?start \<and> dom (tr_nodes m') = dom (tr_nodes m)"
proof -
  let ?W = "\<lambda>c. nd s (w, wk, c) y z"
  let ?T = "nd s (q, qk, pc) (nd s (p, pk, False) t x) (?W False)"
  have r0: "trep m (plug ((opp s, (p, pk, pc), t) # C) (nd s (q, qk, False) x (?W True)))" using assms(1) by (simp add: nd_opp)
  obtain m1 where m1: "set_red q pc m = Some m1" "trep m1 (plug ((opp s, (p, pk, pc), t) # C) (nd s (q, qk, pc) x (?W True)))"
      "dom (tr_nodes m1) = dom (tr_nodes m)" using trep_recolour [OF r0, of pc] by auto
  have r1: "trep m1 (plug ((opp s, (q, qk, pc), x) # (opp s, (p, pk, pc), t) # C) (?W True))" using m1(2) by (simp add: nd_opp)
  obtain m2 where m2: "set_red w False m1 = Some m2" "trep m2 (plug ((opp s, (q, qk, pc), x) # (opp s, (p, pk, pc), t) # C) (?W False))"
      "dom (tr_nodes m2) = dom (tr_nodes m1)" using trep_recolour [OF r1, of False] by auto
  have r2: "trep m2 (plug C (nd s (p, pk, pc) t (nd s (q, qk, pc) x (?W False))))" using m2(2) by (simp add: nd_opp)
  obtain m3 where m3: "set_red p False m2 = Some m3" "trep m3 (plug C (nd s (p, pk, False) t (nd s (q, qk, pc) x (?W False))))"
      "dom (tr_nodes m3) = dom (tr_nodes m2)" using trep_recolour [OF r2, of False] by auto
  obtain m4 where m4: "tree_rotate s p m3 = Some m4" "trep m4 (plug C ?T)" "dom (tr_nodes m4) = dom (tr_nodes m3)"
    using trep_rotate [OF m3(2)] by auto
  have "rbt (plug C ?T)" unfolding rbt_plug
    using assms(2-6) by (intro conjI exI [of _ "if pc then Suc n else Suc (Suc n)"]) (auto split: if_splits)
  moreover have "items (plug C ?T) = items ?start" by (cases s) (simp_all add: items_plug items_nd)
  ultimately show ?thesis
    using m1 m2 m3 m4 trep_node [OF assms(1)] trep_node [OF m1(2)] by (intro exI [of _ m4] exI [of _ "plug C ?T"]) simp
qed

text \<open>The inner child of the sibling is red and the outer one black: a rotation at the sibling first.\<close>

lemma remove_inner:
  assumes "trep m (plug C (nd s (p, pk, pc) t (nd s (q, qk, False) (nd s (w, wk, True) x y) z)))"
  shows "\<exists>m'. (do { tree \<leftarrow> set_red w False m; tree \<leftarrow> set_red q True tree; tree \<leftarrow> tree_rotate (opp s) q tree;
      pn \<leftarrow> tr_nodes tree p; sibling \<leftarrow> child (opp s) pn; Some (sibling, tree) }) = Some (w, m') \<and>
    trep m' (plug C (nd s (p, pk, pc) t (nd s (w, wk, False) x (nd s (q, qk, True) y z)))) \<and> dom (tr_nodes m') = dom (tr_nodes m)"
proof -
  let ?C = "(opp s, (p, pk, pc), t) # C"
  have r0: "trep m (plug ((s, (q, qk, False), z) # ?C) (nd s (w, wk, True) x y))" using assms by (simp add: nd_opp)
  obtain m1 where m1: "set_red w False m = Some m1" "trep m1 (plug ?C (nd s (q, qk, False) (nd s (w, wk, False) x y) z))"
      "dom (tr_nodes m1) = dom (tr_nodes m)" using trep_recolour [OF r0, of False] by auto
  obtain m2 where m2: "set_red q True m1 = Some m2" "trep m2 (plug ?C (nd s (q, qk, True) (nd s (w, wk, False) x y) z))"
      "dom (tr_nodes m2) = dom (tr_nodes m1)" using trep_recolour [OF m1(2), of True] by auto
  have r2: "trep m2 (plug ?C (nd (opp s) (q, qk, True) z (nd (opp s) (w, wk, False) y x)))" using m2(2) by (simp add: nd_opp)
  obtain m3 where m3: "tree_rotate (opp s) q m2 = Some m3" "trep m3 (plug C (nd s (p, pk, pc) t (nd s (w, wk, False) x (nd s (q, qk, True) y z))))"
      "dom (tr_nodes m3) = dom (tr_nodes m2)" using trep_rotate [OF r2] by (auto simp: nd_opp)
  show ?thesis using m1 m2 m3 trep_node [OF m3(2)] by auto
qed

lemma sibling_reds:
  assumes "trep m (plug C (nd s (q, qk, c) x y))"
  shows "is_red (rootp x) m = Some (\<not> black x)" "is_red (rootp y) m = Some (\<not> black y)"
    "is_red (tn_left (mkn s (rootp x) (rootp y) P K c')) m = Some (\<not> black (if s = SLeft then x else y))"
    "is_red (tn_right (mkn s (rootp x) (rootp y) P K c')) m = Some (\<not> black (if s = SLeft then y else x))"
proof -
  have "trep m (plug ((s, (q, qk, c), y) # C) x)" "trep m (plug ((opp s, (q, qk, c), x) # C) y)" using assms by (simp_all add: nd_opp)
  from this [THEN is_red_black] show r: "is_red (rootp x) m = Some (\<not> black x)" "is_red (rootp y) m = Some (\<not> black y)" by simp_all
  from r show "is_red (tn_left (mkn s (rootp x) (rootp y) P K c')) m = Some (\<not> black (if s = SLeft then x else y))"
    "is_red (tn_right (mkn s (rootp x) (rootp y) P K c')) m = Some (\<not> black (if s = SLeft then y else x))"
    by (cases s; simp add: mkn_def)+
qed

lemma rebalance_sibling_ok:
  assumes "trep m (plug C (nd s (p, pk, pc) t (nd s (q, qk, False) x y)))" (is "trep m ?start")
    and "ok n t" "black t" "ok n x" "ok n y" "if pc then \<not> nb C \<and> cok (Suc n) C else cok (Suc (Suc n)) C"
  shows "(\<exists>m' T. rebalance_sibling s p q m = Some (True, m') \<and> trep m' T \<and> rbt T \<and> items T = items ?start \<and> dom (tr_nodes m') = dom (tr_nodes m)) \<or>
    (\<exists>m' u. rebalance_sibling s p q m = Some (False, m') \<and> trep m' (plug C (nd s (p, pk, pc) t u)) \<and>
       items (plug C (nd s (p, pk, pc) t u)) = items ?start \<and> dom (tr_nodes m') = dom (tr_nodes m) \<and> ok (Suc n) (nd s (p, pk, False) t u))"
proof -
  have r0: "trep m (plug ((opp s, (p, pk, pc), t) # C) (nd s (q, qk, False) x y))" using assms(1) by (simp add: nd_opp)
  note reds = sibling_reds [OF r0] trep_node [OF r0]
  consider (none) "black x" "black y" | (outer) "\<not> black y" | (inner) "\<not> black x" "black y" by blast
  then show ?thesis
  proof cases
    case none
    obtain m1 where m1: "set_red q True m = Some m1" "trep m1 (plug ((opp s, (p, pk, pc), t) # C) (nd s (q, qk, True) x y))"
        "dom (tr_nodes m1) = dom (tr_nodes m)" using trep_recolour [OF r0, of True] by auto
    have "rebalance_sibling s p q m = Some (False, m1)" using none m1 reds by (simp add: rebalance_sibling_def)
    moreover have "items (plug C (nd s (p, pk, pc) t (nd s (q, qk, True) x y))) = items ?start" by (cases s) (simp_all add: items_plug items_nd)
    ultimately show ?thesis using m1(2,3) none assms(2,4,5) by (intro disjI2 exI [of _ m1] exI [of _ "nd s (q, qk, True) x y"]) (simp add: nd_opp)
  next
    case outer
    then obtain w wk y1 z where y: "y = nd s (w, wk, True) y1 z" by (cases y rule: nd_cases [where s = s]) auto
    note fin = remove_finish [OF assms(1) [unfolded y] assms(2,3,4) assms(5) [unfolded y] assms(6)]
    have "rebalance_sibling s p q m = (do { pn \<leftarrow> tr_nodes m p; tree \<leftarrow> set_red q (tn_red pn) m; sn \<leftarrow> tr_nodes tree q; t \<leftarrow> child (opp s) sn;
      tree \<leftarrow> set_red t False tree; tree \<leftarrow> set_red p False tree; tree \<leftarrow> tree_rotate s p tree; Some (True, tree) })"
      using outer reds by (simp add: rebalance_sibling_def)
    then show ?thesis using fin y by auto
  next
    case inner
    then obtain w wk x1 x2 where x: "x = nd s (w, wk, True) x1 x2" by (cases x rule: nd_cases [where s = s]) auto
    from remove_inner [OF assms(1) [unfolded x]] obtain m1 where
      m1: "(do { tree \<leftarrow> set_red w False m; tree \<leftarrow> set_red q True tree; tree \<leftarrow> tree_rotate (opp s) q tree;
        pn \<leftarrow> tr_nodes tree p; sibling \<leftarrow> child (opp s) pn; Some (sibling, tree) }) = Some (w, m1)"
      "trep m1 (plug C (nd s (p, pk, pc) t (nd s (w, wk, False) x1 (nd s (q, qk, True) x2 y))))" "dom (tr_nodes m1) = dom (tr_nodes m)" by blast
    have "rebalance_sibling s p q m = (do { pn \<leftarrow> tr_nodes m1 p; tree \<leftarrow> set_red w (tn_red pn) m1; sn \<leftarrow> tr_nodes tree w; t \<leftarrow> child (opp s) sn;
      tree \<leftarrow> set_red t False tree; tree \<leftarrow> set_red p False tree; tree \<leftarrow> tree_rotate s p tree; Some (True, tree) })"
      using inner reds m1(1) x by (simp add: rebalance_sibling_def)
    moreover have "items (plug C (nd s (p, pk, pc) t (nd s (w, wk, False) x1 (nd s (q, qk, True) x2 y)))) = items ?start"
      unfolding x by (cases s) (simp_all add: items_plug items_nd)
    ultimately show ?thesis using remove_finish [OF m1(2) assms(2,3)] assms(4,5,6) inner x m1(3) by auto
  qed
qed

text \<open>A whole round.\<close>

lemma rebalance_after_remove_ok:
  assumes "trep m (plug C (nd s (p, pk, pc) t sib))" (is "trep m ?start")
    and "ok n t" "black t" "cok (Suc n) ((s, (p, pk, pc), sib) # C)"
  shows "(\<exists>m' T. rebalance_after_remove s p m = Some (True, m') \<and> trep m' T \<and> rbt T \<and> items T = items ?start \<and> dom (tr_nodes m') = dom (tr_nodes m)) \<or>
    (\<exists>m' D c u. rebalance_after_remove s p m = Some (False, m') \<and> trep m' (plug D (nd s (p, pk, c) t u)) \<and>
       items (plug D (nd s (p, pk, c) t u)) = items ?start \<and> dom (tr_nodes m') = dom (tr_nodes m) \<and> ok (Suc n) (nd s (p, pk, False) t u) \<and>
       (if c then cok (Suc n) D else D = C \<and> cok (Suc (Suc n)) C))"
proof -
  have sib: "ok (Suc n) sib" "if pc then black sib \<and> \<not> nb C \<and> cok (Suc n) C else cok (Suc (Suc n)) C" using assms(4) by auto
  then obtain q qk qc x y where q: "sib = nd s (q, qk, qc) x y" by (cases sib rule: nd_cases [where s = s]) auto
  have r0: "trep m (plug ((opp s, (p, pk, pc), t) # C) (nd s (q, qk, qc) x y))" using assms(1) q by (simp add: nd_opp)
  note nodes = trep_node [OF assms(1) [unfolded q]] trep_node [OF r0]
  show ?thesis
  proof (cases qc)
    case False
    have run: "rebalance_after_remove s p m = rebalance_sibling s p q m" using nodes False by (simp add: rebalance_after_remove_def)
    have k: "ok n x" "ok n y" "if pc then \<not> nb C \<and> cok (Suc n) C else cok (Suc (Suc n)) C" using sib q False by (auto split: if_splits)
    have r: "trep m (plug C (nd s (p, pk, pc) t (nd s (q, qk, False) x y)))" using assms(1) q False by simp
    from rebalance_sibling_ok [OF r assms(2,3) k] show ?thesis
    proof (elim disjE exE)
      fix m' u assume "rebalance_sibling s p q m = Some (False, m') \<and> trep m' (plug C (nd s (p, pk, pc) t u)) \<and>
        items (plug C (nd s (p, pk, pc) t u)) = items (plug C (nd s (p, pk, pc) t (nd s (q, qk, False) x y))) \<and>
        dom (tr_nodes m') = dom (tr_nodes m) \<and> ok (Suc n) (nd s (p, pk, False) t u)"
      then show ?thesis unfolding run q using False k(3) by (intro disjI2 exI [of _ m'] exI [of _ C] exI [of _ pc] exI [of _ u]) simp
    next
      fix m' T assume "rebalance_sibling s p q m = Some (True, m') \<and> trep m' T \<and> rbt T \<and>
        items T = items (plug C (nd s (p, pk, pc) t (nd s (q, qk, False) x y))) \<and> dom (tr_nodes m') = dom (tr_nodes m)"
      then show ?thesis unfolding run q using False by (intro disjI1 exI [of _ m'] exI [of _ T]) simp
    qed
  next
    case True
    let ?C = "(s, (q, qk, False), y) # C"
    have pc: "\<not> pc" and cx: "ok (Suc n) x" "black x" "ok (Suc n) y" "cok (Suc (Suc n)) C" using sib q True by (auto split: if_splits)
    then obtain w wk x1 x2 where x: "x = nd s (w, wk, False) x1 x2" by (cases x rule: nd_cases [where s = s]) auto
    obtain m1 where m1: "set_red q False m = Some m1" "trep m1 (plug ((opp s, (p, pk, pc), t) # C) (nd s (q, qk, False) x y))"
        "dom (tr_nodes m1) = dom (tr_nodes m)" using trep_recolour [OF r0, of False] by auto
    have r1: "trep m1 (plug C (nd s (p, pk, pc) t (nd s (q, qk, False) x y)))" using m1(2) by (simp add: nd_opp)
    obtain m2 where m2: "set_red p True m1 = Some m2" "trep m2 (plug C (nd s (p, pk, True) t (nd s (q, qk, False) x y)))"
        "dom (tr_nodes m2) = dom (tr_nodes m1)" using trep_recolour [OF r1, of True] by auto
    obtain m3 where m3: "tree_rotate s p m2 = Some m3" "trep m3 (plug ?C (nd s (p, pk, True) t x))" "dom (tr_nodes m3) = dom (tr_nodes m2)"
      using trep_rotate [OF m2(2)] by auto
    have run: "rebalance_after_remove s p m = rebalance_sibling s p w m3"
      using nodes True m1(1) m2(1) m3(1) trep_node [OF m3(2)] x by (simp add: rebalance_after_remove_def)
    have it: "items (plug ?C (nd s (p, pk, True) t x)) = items ?start" unfolding q by (cases s) (simp_all add: items_plug items_nd)
    have k: "ok n x1" "ok n x2" "if True then \<not> nb ?C \<and> cok (Suc n) ?C else cok (Suc (Suc n)) ?C" using cx x by auto
    have r: "trep m3 (plug ?C (nd s (p, pk, True) t (nd s (w, wk, False) x1 x2)))" using m3(2) x by simp
    have d: "dom (tr_nodes m3) = dom (tr_nodes m)" using m3(3) m2(3) m1(3) by simp
    have c: "cok (Suc n) ?C" using k(3) by simp
    from rebalance_sibling_ok [OF r assms(2,3) k] show ?thesis unfolding d it [unfolded x]
    proof (elim disjE exE)
      fix m' u assume "rebalance_sibling s p w m3 = Some (False, m') \<and> trep m' (plug ?C (nd s (p, pk, True) t u)) \<and>
        items (plug ?C (nd s (p, pk, True) t u)) = items ?start \<and> dom (tr_nodes m') = dom (tr_nodes m) \<and> ok (Suc n) (nd s (p, pk, False) t u)"
      then show ?thesis unfolding run using c by (intro disjI2 exI [of _ m'] exI [of _ ?C] exI [of _ True] exI [of _ u]) (simp del: plug.simps)
    next
      fix m' T assume "rebalance_sibling s p w m3 = Some (True, m') \<and> trep m' T \<and> rbt T \<and> items T = items ?start \<and> dom (tr_nodes m') = dom (tr_nodes m)"
      then show ?thesis unfolding run by (intro disjI1 exI [of _ m'] exI [of _ T]) simp
    qed
  qed
qed

lemma root_of_plug:
  assumes "trep m (plug ((s, v, y) # C) t)"
  shows "rootp t \<noteq> tr_root m"
proof
  assume eq: "rootp t = tr_root m"
  obtain a k c where v: "v = (a, k, c)" by (cases v) auto
  have root: "tr_root m = rootp (plug ((s, v, y) # C) t)" using assms by (simp add: trep_def)
  have "\<exists>b. rootp (plug C' (nd s' v' t' y')) = Some b \<and> b \<in> insert (fst v') (caddrs C')" for C' s' v' t' y'
  proof (induction C' arbitrary: s' v' t' y')
    case Nil
    then show ?case by (cases v') simp
  next
    case (Cons x C')
    obtain s1 a1 k1 c1 y1 where x: "x = (s1, (a1, k1, c1), y1)" by (cases x) auto
    show ?case using Cons [of s1 "(a1, k1, c1)" "nd s' v' t' y'" y1] x by auto
  qed
  from this [of C s v t y] obtain b where "rootp t = Some b" "b \<in> caddrs ((s, v, y) # C)" using eq root v by auto
  then show False using trep_parts(3) [OF assms] rootp_in by blast
qed

text \<open>The end of \<open>tree_del\<close>: the node the loop stops at becomes black.\<close>

definition set_black :: "addr option \<times> tree_t \<Rightarrow> tree_t option" where
  "set_black r = (case fst r of None \<Rightarrow> Some (snd r) | Some c \<Rightarrow> set_red c False (snd r))"

lemma set_black_root:
  assumes "trep m T" "rbt T"
  shows "\<exists>m'. set_black (tr_root m, m) = Some m' \<and> trep m' T \<and> dom (tr_nodes m') = dom (tr_nodes m)"
proof (cases T rule: nd_cases [where s = SLeft])
  case (nd a k c x y)
  have "tr_root m = Some a" "\<not> c" using assms nd by (auto simp: trep_def rbt_def)
  then show ?thesis using trep_recolour [of m "[]" SLeft a k c x y False] assms(1) nd by (auto simp: set_black_def)
qed (use assms in \<open>auto simp: set_black_def trep_def\<close>)

lemma del_rebalance_ok:
  assumes "trep m (plug C t)" "ok n t" "black t" "cok (Suc n) C"
  shows "\<exists>m' T. del_rebalance (rootp t) (cpar C) m \<bind> set_black = Some m' \<and> trep m' T \<and> rbt T \<and> items T = items (plug C t) \<and>
    dom (tr_nodes m') = dom (tr_nodes m)"
  using assms
proof (induction C arbitrary: m t n rule: length_induct)
  case (1 C)
  note prems = 1(2-5)
  show ?case
  proof (cases C rule: cpar.cases)
    case 1
    then have "del_rebalance (rootp t) (cpar C) m = Some (tr_root m, m)" "rbt t"
      using prems by (auto simp: del_rebalance.simps trep_def rbt_def)
    then show ?thesis using set_black_root [of m t] prems(1) \<open>C = []\<close> by auto
  next
    case (2 s p pk pc sib D)
    have rep: "trep m (plug ((s, (p, pk, pc), sib) # D) t)" using prems(1) 2 by simp
    then have rep': "trep m (plug D (nd s (p, pk, pc) t sib))" by simp
    have "sib \<noteq> Leaf" using prems(4) 2 by auto
    then have side: "(if tn_left (mkn s (rootp t) (rootp sib) (cpar D) pk pc) = rootp t then SLeft else SRight) = s"
      using side_of [OF rep] by (cases s) auto
    have step: "del_rebalance (rootp t) (cpar C) m = do {
        (fin, tree) \<leftarrow> rebalance_after_remove s p m;
        if fin then Some (tr_root tree, tree)
        else do { pn \<leftarrow> tr_nodes tree p; if tn_red pn then Some (Some p, tree) else del_rebalance (Some p) (tn_parent pn) tree } }"
      using root_of_plug [OF rep] trep_node [OF rep'] side 2 by (subst del_rebalance.simps) simp
    from rebalance_after_remove_ok [OF rep' prems(2,3) prems(4) [unfolded 2]] show ?thesis
    proof (elim disjE exE conjE)
      fix m1 T assume m1: "rebalance_after_remove s p m = Some (True, m1)" "trep m1 T" "rbt T"
        "items T = items (plug D (nd s (p, pk, pc) t sib))" "dom (tr_nodes m1) = dom (tr_nodes m)"
      then show ?thesis using set_black_root [of m1 T] step 2 by auto
    next
      fix m1 E c u assume m1: "rebalance_after_remove s p m = Some (False, m1)" "trep m1 (plug E (nd s (p, pk, c) t u))"
        "items (plug E (nd s (p, pk, c) t u)) = items (plug D (nd s (p, pk, pc) t sib))" "dom (tr_nodes m1) = dom (tr_nodes m)"
        "ok (Suc n) (nd s (p, pk, False) t u)" "if c then cok (Suc n) E else E = D \<and> cok (Suc (Suc n)) D"
      show ?thesis
      proof (cases c)
        case True
        obtain m2 where m2: "set_red p False m1 = Some m2" "trep m2 (plug E (nd s (p, pk, False) t u))" "dom (tr_nodes m2) = dom (tr_nodes m1)"
          using trep_recolour [OF m1(2), of False] by auto
        have "rbt (plug E (nd s (p, pk, False) t u))" unfolding rbt_plug using m1(5,6) True by (intro conjI exI [of _ "Suc n"]) auto
        moreover have "items (plug E (nd s (p, pk, False) t u)) = items (plug C t)" using m1(3) 2 by (cases s) (simp_all add: items_plug items_nd)
        ultimately show ?thesis using step m1(1,4) trep_node [OF m1(2)] True m2
          by (intro exI [of _ m2] exI [of _ "plug E (nd s (p, pk, False) t u)"]) (simp add: set_black_def)
      next
        case False
        have E: "trep m1 (plug D (nd s (p, pk, False) t u))" "cok (Suc (Suc n)) D" using m1(2,6) False by auto
        have len: "length D < length C" using 2 by simp
        have b: "black (nd s (p, pk, False) t u)" by simp
        obtain m' T where "del_rebalance (rootp (nd s (p, pk, False) t u)) (cpar D) m1 \<bind> set_black = Some m'" "trep m' T" "rbt T"
            "items T = items (plug D (nd s (p, pk, False) t u))" "dom (tr_nodes m') = dom (tr_nodes m1)"
          using 1(1) [rule_format, OF len E(1) m1(5) b E(2)] by blast
        moreover have "items (plug D (nd s (p, pk, False) t u)) = items (plug C t)" using m1(3,6) 2 False by simp
        ultimately show ?thesis using step m1(1,4) trep_node [OF E(1)] by (intro exI [of _ m'] exI [of _ T]) simp
      qed
    qed
  qed
qed

subsection \<open>Taking a node out\<close>

text \<open>A node with at most one child: the child takes its place.\<close>

lemma splice_rep:
  assumes rep: "trep m (plug C (nd s (n, k, c) Leaf x))" and m1: "relink (cpar C) n (rootp x) m = Some m1"
  shows "trep (m1\<lparr>tr_nodes := reparent (rootp x) (cpar C) (tr_nodes m1)\<rparr>) (plug C x)" "dom (tr_nodes m1) = dom (tr_nodes m)"
    "tr_nodes m1 n = tr_nodes m n"
proof -
  note parts = trep_parts [OF rep]
  have dis: "n \<notin> caddrs C" "addrs x \<inter> caddrs C = {}" "distinct (map snd (items x))"
    using parts(3,4) by (cases s; auto simp: items_nd)+
  have r: "csh (tr_nodes m1) (rootp x) C" "tr_root m1 = (if C = [] then rootp x else tr_root m)" "dom (tr_nodes m1) = dom (tr_nodes m)"
      "\<And>b. cpar C \<noteq> Some b \<Longrightarrow> tr_nodes m1 b = tr_nodes m b"
    using relink_ok [of m n C "rootp x"] parts(2,5) dis(1) m1 by auto
  have same: "tr_nodes m1 b = tr_nodes m b" if "b \<notin> caddrs C" for b using r(4) that cpar_in by blast
  show "dom (tr_nodes m1) = dom (tr_nodes m)" "tr_nodes m1 n = tr_nodes m n" using r(3) same dis(1) by auto
  let ?h = "reparent (rootp x) (cpar C) (tr_nodes m1)"
  have "sh (tr_nodes m) (Some n) x" using parts(1) by simp
  then have "sh (tr_nodes m1) (Some n) x" by (rule sh_cong [rotated], intro same [symmetric]) (use dis in auto)
  then have "sh ?h (cpar C) x" using dis(3) by (rule sh_reparent_fun)
  moreover have "csh ?h (rootp x) C"
    by (rule csh_cong [OF _ r(1)]) (use dis(2) rootp_in [of x] in \<open>auto intro!: reparent_other [symmetric]\<close>)
  moreover have "tr_root m1 = rootp (plug C x)"
    using r(2) rep rootp_plug_cong [of "nd s (n, k, c) Leaf x" x C] by (auto simp: trep_def)
  moreover have "distinct (map snd (lits C @ items x @ rits C))"
    using rep unfolding trep_def items_plug by (cases s) (auto simp: items_nd)
  ultimately show "trep (m1\<lparr>tr_nodes := ?h\<rparr>) (plug C x)" by (intro trepI) simp_all
qed

lemma splice_one:
  assumes rep: "trep m (plug C (nd s (n, k, c) Leaf x))"
  shows "\<exists>m'. del_splice n m = Some (c, rootp x, cpar C, m') \<and> trep m' (plug C x) \<and> dom (tr_nodes m') = dom (tr_nodes m)"
proof -
  note parts = trep_parts [OF rep] and n = trep_node [OF rep]
  have "n \<notin> caddrs C" using parts(3) by auto
  then obtain m1 where m1: "relink (cpar C) n (rootp x) m = Some m1" using relink_ok [of m n C "rootp x"] parts(2,5) by auto
  note m2 = splice_rep [OF rep m1]
  have alloc: "a \<in> dom (tr_nodes m1)" if "rootp x = Some a" for a
    using sh_alloc [OF parts(1)] rootp_in [OF that] m2(2) by auto
  have "(case rootp x of None \<Rightarrow> Some m1 | Some a \<Rightarrow> upd_node a (\<lambda>cn. cn\<lparr>tn_parent := cpar C\<rparr>) m1) =
      Some (m1\<lparr>tr_nodes := reparent (rootp x) (cpar C) (tr_nodes m1)\<rparr>)"
    using alloc by (rule reparent_run)
  then have "del_splice n m = Some (c, rootp x, cpar C, m1\<lparr>tr_nodes := reparent (rootp x) (cpar C) (tr_nodes m1)\<rparr>)"
    using n m1 m2(3) by (cases s; cases "rootp x") (auto simp: del_splice_def mkn_def Let_def)
  then show ?thesis using m2 by auto
qed

text \<open>
  A node with two children: what the code does to the store, when the next node is the
  right child and when it is further down.
\<close>

lemma splice_run_far:
  assumes n: "tr_nodes m n = Some (mkn SLeft (Some l0) (Some r0) par k c)" and x: "leftmost r0 m = Some x" "x \<noteq> r0"
    and m1: "relink par n (Some x) m = Some m1" "tr_nodes m1 n = tr_nodes m n" "tr_nodes m1 x = Some (mkn SLeft None z (Some d) xk xc)"
    and alloc: "l0 \<in> dom (tr_nodes m1)" "r0 \<in> dom (tr_nodes m1)" "d \<in> dom (tr_nodes m1)" "\<And>a. z = Some a \<Longrightarrow> a \<in> dom (tr_nodes m1)"
    and ne: "l0 \<noteq> x" "n \<noteq> x" "l0 \<noteq> n"
  shows "del_splice n m = Some (xc, z, Some d, m1\<lparr>tr_nodes := reparent z (Some d) (md r0 (\<lambda>a. a\<lparr>tn_parent := Some x\<rparr>)
    (md x (\<lambda>a. a\<lparr>tn_right := Some r0\<rparr>) (md d (\<lambda>a. a\<lparr>tn_left := z\<rparr>) (md x (\<lambda>a. a\<lparr>tn_parent := par\<rparr>)
    (md l0 (\<lambda>a. a\<lparr>tn_parent := Some x\<rparr>) (md x (\<lambda>a. a\<lparr>tn_left := Some l0\<rparr>) (md x (\<lambda>a. a\<lparr>tn_red := c\<rparr>) (tr_nodes m1))))))))\<rparr>)"
proof -
  have xd: "x \<in> dom (tr_nodes m1)" using m1(3) by blast
  show ?thesis
    using n x m1 ne alloc xd
    by (cases z) (simp_all add: del_splice_def mkn_def Let_def set_red_def upd_node_md reparent_def domIff)
qed

lemma splice_run_near:
  assumes n: "tr_nodes m n = Some (mkn SLeft (Some l0) (Some x) par k c)" and x: "leftmost x m = Some x"
    and m1: "relink par n (Some x) m = Some m1" "tr_nodes m1 n = tr_nodes m n" "tr_nodes m1 x = Some (mkn SLeft None z (Some n) xk xc)"
    and alloc: "l0 \<in> dom (tr_nodes m1)" "\<And>a. z = Some a \<Longrightarrow> a \<in> dom (tr_nodes m1)"
    and ne: "l0 \<noteq> x" "n \<noteq> x" "l0 \<noteq> n"
  shows "del_splice n m = Some (xc, z, Some x, m1\<lparr>tr_nodes := reparent z (Some x) (md x (\<lambda>a. a\<lparr>tn_parent := par\<rparr>)
    (md l0 (\<lambda>a. a\<lparr>tn_parent := Some x\<rparr>) (md x (\<lambda>a. a\<lparr>tn_left := Some l0\<rparr>) (md x (\<lambda>a. a\<lparr>tn_red := c\<rparr>) (tr_nodes m1)))))\<rparr>)"
proof -
  have xd: "x \<in> dom (tr_nodes m1)" using m1(3) by blast
  show ?thesis
    using n x m1 ne alloc xd
    by (cases z) (simp_all add: del_splice_def mkn_def Let_def set_red_def upd_node_md reparent_def domIff)
qed

text \<open>The next node, leftmost below the right child.\<close>

lemma plug_append: "plug (D @ E) t = plug E (plug D t)"
  by (induction D arbitrary: t rule: lits.induct) auto

lemma cpar_append: "cpar (D @ E) = (if D = [] then cpar E else cpar D)"
  by (cases D rule: cpar.cases) auto

lemma leftmost_ok:
  assumes "sh (tr_nodes m) p r" "rootp r = Some r0"
  shows "\<exists>D x xk xc z. r = plug D (nd SLeft (x, xk, xc) Leaf z) \<and> lits D = [] \<and> leftmost r0 m = Some x"
  using assms
proof (induction r arbitrary: p r0)
  case (Node l v y)
  obtain a k c where v: "v = (a, k, c)" by (cases v) auto
  have a: "tr_nodes m r0 = Some (mkn SLeft (rootp l) (rootp y) p k c)" "r0 = a" "sh (tr_nodes m) (Some a) l" using Node.prems v by auto
  show ?case
  proof (cases "rootp l")
    case None
    then have "Node l v y = plug [] (nd SLeft (a, k, c) Leaf y)" by (simp add: nd_def v)
    moreover have "leftmost r0 m = Some a" using a None by (subst leftmost.simps) (simp add: mkn_def)
    moreover have "lits [] = []" by simp
    ultimately show ?thesis by blast
  next
    case (Some l0)
    obtain D x xk xc z where D: "l = plug D (nd SLeft (x, xk, xc) Leaf z)" "lits D = []" "leftmost l0 m = Some x"
      using Node.IH(1) [OF a(3) Some] by blast
    have "leftmost r0 m = Some x" using a Some D(3) by (subst leftmost.simps) (simp add: mkn_def)
    moreover have "Node l v y = plug (D @ [(SLeft, (a, k, c), y)]) (nd SLeft (x, xk, xc) Leaf z)" by (simp add: plug_append D(1) nd_def v)
    moreover have "lits (D @ [(SLeft, (a, k, c), y)]) = []" using D(2) by (induction D rule: lits.induct) auto
    ultimately show ?thesis by blast
  qed
qed simp

text \<open>Changing a subtree in its context.\<close>

lemma sh_subst:
  assumes "sh h p (plug D u)" "\<And>q. sh h q u \<Longrightarrow> sh h' q u'" "rootp u' = rootp u" "\<And>a. a \<in> caddrs D \<Longrightarrow> h' a = h a"
  shows "sh h' p (plug D u')"
  using assms
proof (induction D arbitrary: u u' rule: lits.induct)
  case (2 s a k c y D)
  have "sh h' q (nd s (a, k, c) u' y)" if "sh h q (nd s (a, k, c) u y)" for q
  proof -
    have "sh h' (Some a) y" by (rule sh_cong [of y h]) (use that "2.prems"(4) in auto)
    then show ?thesis using that "2.prems"(2-4) by auto
  qed
  then show ?case using 2(1) [of "nd s (a, k, c) u y" "nd s (a, k, c) u' y"] "2.prems" by auto
qed simp

lemma splice_below:
  assumes r: "sh h p (plug ((s, (d, dk, dc), y) # E) (nd SLeft (x, xk, xc) Leaf z))"
    and dis: "distinct (map snd (items (plug ((s, (d, dk, dc), y) # E) (nd SLeft (x, xk, xc) Leaf z))))"
  shows "sh (reparent (rootp z) (Some d) (md d (set_child s (rootp z)) h)) p (plug ((s, (d, dk, dc), y) # E) z)" (is "sh ?h p _")
proof -
  have dd: "d \<notin> addrs y" "d \<notin> addrs z" "d \<notin> caddrs E" "addrs z \<inter> addrs y = {}" "addrs z \<inter> caddrs E = {}" "distinct (map snd (items z))"
    using dis unfolding items_plug by (cases s; auto simp: items_nd addrs_def caddrs_def)+
  have agree: "?h b = h b" if "b \<noteq> d" "b \<notin> addrs z" for b
    using that rootp_in [of z b] by (subst reparent_other) auto
  have "sh ?h q (nd s (d, dk, dc) z y)" if sub: "sh h q (nd s (d, dk, dc) (nd SLeft (x, xk, xc) Leaf z) y)" for q
  proof -
    have "sh h (Some x) z" using sub by simp
    then have "sh (md d (set_child s (rootp z)) h) (Some x) z" by (rule sh_cong [rotated]) (metis md_other dd(2))
    then have "sh ?h (Some d) z" using dd(6) by (rule sh_reparent_fun)
    moreover have "sh ?h (Some d) y" by (rule sh_cong [of y h], rule agree [symmetric]) (use sub dd in auto)
    moreover have "?h d = Some (mkn s (rootp z) (rootp y) q dk dc)"
      using sub rootp_in [of z d] dd(2) by (subst reparent_other) auto
    ultimately show ?thesis by simp
  qed
  moreover have "?h b = h b" if "b \<in> caddrs E" for b by (rule agree) (use that dd in auto)
  ultimately show ?thesis using sh_subst [of h p E "nd s (d, dk, dc) (nd SLeft (x, xk, xc) Leaf z) y" ?h "nd s (d, dk, dc) z y"] r by simp
qed

lemma cok_rename: "cok j (D @ (s, (a, k, c), y) # C) \<longleftrightarrow> cok j (D @ (s, (b, l, c), y) # C)"
proof -
  have nb: "nb (D @ (s, (a, k, c), y) # C) \<longleftrightarrow> nb (D @ (s, (b, l, c), y) # C)" for D by (cases D rule: nb.cases) auto
  show ?thesis by (induction D arbitrary: j rule: lits.induct) (auto simp: nb)
qed

lemma splice_colours:
  assumes "rbt (plug C (nd s (n, k, c) Leaf x))"
  shows "\<exists>j. if c then rbt (plug C x) else ok j x \<and> cok (Suc j) C"
proof -
  obtain i where i: "ok i (nd s (n, k, c) Leaf x)" "cok i C" using assms by (auto simp: rbt_plug)
  then show ?thesis by (cases i) (auto simp: rbt_plug intro!: exI [of _ "i - 1"])
qed

text \<open>
  A node with two children: the next node takes its place and colour.  First the new store:
  it differs from the old one only as far as it has to.
\<close>

lemma replace_rep:
  assumes rep: "trep m (plug C (nd SLeft (n, k, c) l r))"
    and H: "H x = Some (mkn SLeft (rootp l) (rootp R) (cpar C) xk c)" "sh H (Some x) R"
      "\<And>b. b \<in> addrs l \<Longrightarrow> H b = reparent (rootp l) (Some x) (tr_nodes m) b" "\<And>b. b \<in> caddrs C \<Longrightarrow> H b = tr_nodes m1 b"
    and m1: "relink (cpar C) n (Some x) m = Some m1" and dis: "distinct (map snd (lits C @ items l @ (xk, x) # items R @ rits C))"
  shows "trep (m1\<lparr>tr_nodes := H\<rparr>) (plug C (nd SLeft (x, xk, c) l R))"
proof -
  note parts = trep_parts [OF rep]
  have d: "n \<notin> caddrs C" "distinct (map snd (items l))" using parts(3) dis by auto
  have r: "csh (tr_nodes m1) (Some x) C" "tr_root m1 = (if C = [] then Some x else tr_root m)"
    using relink_ok [of m n C "Some x"] parts(2,5) d(1) m1 by auto
  have "sh (tr_nodes m) (Some n) l" using parts(1) by simp
  then have "sh (reparent (rootp l) (Some x) (tr_nodes m)) (Some x) l" using d(2) by (rule sh_reparent_fun)
  then have "sh H (Some x) l" by (rule sh_cong [rotated]) (simp add: H(3))
  moreover have "csh H (Some x) C" by (rule csh_cong [OF _ r(1)]) (simp add: H(4))
  moreover have "tr_root m1 = rootp (plug C (nd SLeft (x, xk, c) l R))"
    using r(2) rep rootp_plug_cong [of "nd SLeft (n, k, c) l r" "nd SLeft (x, xk, c) l R" C] by (auto simp: trep_def)
  ultimately show ?thesis using H(1,2) dis by (intro trepI) (simp_all add: items_nd)
qed

lemma lits_append: "lits (D @ E) = lits E @ lits D" "rits (D @ E) = rits D @ rits E"
  by (induction D rule: lits.induct) auto

text \<open>The facts both cases start from.\<close>

lemma two_setup:
  assumes rep: "trep m (plug C (nd SLeft (n, k, c) l r))" and root: "rootp l = Some l0" "rootp r = Some r0"
    and r: "r = plug D (nd SLeft (x, xk, xc) Leaf z)" "lits D = []"
  shows "tr_nodes m n = Some (mkn SLeft (Some l0) (Some r0) (cpar C) k c)"
    "\<exists>m1. relink (cpar C) n (Some x) m = Some m1 \<and> dom (tr_nodes m1) = dom (tr_nodes m) \<and> (\<forall>b. b \<notin> caddrs C \<longrightarrow> tr_nodes m1 b = tr_nodes m b)"
    "tr_nodes m x = Some (mkn SLeft None (rootp z) (if D = [] then Some n else cpar D) xk xc)"
    "items r = (xk, x) # items (plug D z)" "distinct (map snd (lits C @ items l @ (k, n) # (xk, x) # items (plug D z) @ rits C))"
    "addrs l \<union> addrs r \<subseteq> dom (tr_nodes m)"
proof -
  note parts = trep_parts [OF rep]
  have rn: "n \<notin> caddrs C" using parts(3) by auto
  show "tr_nodes m n = Some (mkn SLeft (Some l0) (Some r0) (cpar C) k c)" using trep_node [OF rep] root by simp
  have "csh (tr_nodes m) (Some n) C" using parts(2) by simp
  from relink_ok [OF this rn parts(5), of "Some x"] show "\<exists>m1. relink (cpar C) n (Some x) m = Some m1 \<and>
      dom (tr_nodes m1) = dom (tr_nodes m) \<and> (\<forall>b. b \<notin> caddrs C \<longrightarrow> tr_nodes m1 b = tr_nodes m b)"
    using cpar_in by blast
  have "trep m (plug (D @ (SRight, (n, k, c), l) # C) (nd SLeft (x, xk, xc) Leaf z))"
    using rep r(1) by (simp add: plug_append nd_def)
  from trep_node [OF this] show "tr_nodes m x = Some (mkn SLeft None (rootp z) (if D = [] then Some n else cpar D) xk xc)"
    by (simp add: cpar_append)
  show it: "items r = (xk, x) # items (plug D z)" using r by (simp add: items_plug items_nd)
  show "distinct (map snd (lits C @ items l @ (k, n) # (xk, x) # items (plug D z) @ rits C))"
    using rep it by (simp add: trep_def items_plug items_nd)
  show "addrs l \<union> addrs r \<subseteq> dom (tr_nodes m)" using sh_alloc [OF parts(1)] by auto
qed

lemma splice_near:
  assumes rep: "trep m (plug C (nd SLeft (n, k, c) l r))" and l: "rootp l = Some l0"
    and r: "r = nd SLeft (x, xk, xc) Leaf z" and x: "leftmost x m = Some x"
  shows "\<exists>m'. del_splice n m = Some (xc, rootp z, Some x, m') \<and> trep m' (plug C (nd SLeft (x, xk, c) l z)) \<and> dom (tr_nodes m') = dom (tr_nodes m)"
proof -
  have rx: "rootp r = Some x" "r = plug [] (nd SLeft (x, xk, xc) Leaf z)" using r by simp_all
  note f = two_setup [OF rep l rx(1) rx(2) lits.simps(1), simplified]
  obtain m1 where m1: "relink (cpar C) n (Some x) m = Some m1" "dom (tr_nodes m1) = dom (tr_nodes m)" "\<And>b. b \<notin> caddrs C \<Longrightarrow> tr_nodes m1 b = tr_nodes m b"
    using f(2) by blast
  have dis: "n \<noteq> x" "n \<notin> addrs l" "x \<notin> addrs l" "x \<notin> addrs z" "addrs l \<inter> addrs z = {}" "n \<notin> caddrs C" "x \<notin> caddrs C" "addrs l \<inter> caddrs C = {}" "addrs z \<inter> caddrs C = {}"
    "distinct (map snd (items z))" using f(5) by (auto simp: addrs_def caddrs_def)
  have l0: "l0 \<in> addrs l" using rootp_in [OF l] .
  then have l0': "l0 \<noteq> x" "l0 \<noteq> n" "l0 \<notin> addrs z" "l0 \<notin> caddrs C" using dis by auto
  let ?h = "md x (\<lambda>a. a\<lparr>tn_parent := cpar C\<rparr>) (md l0 (\<lambda>a. a\<lparr>tn_parent := Some x\<rparr>) (md x (\<lambda>a. a\<lparr>tn_left := Some l0\<rparr>) (md x (\<lambda>a. a\<lparr>tn_red := c\<rparr>) (tr_nodes m1))))"
  let ?H = "reparent (rootp z) (Some x) ?h"
  have "a \<in> dom (tr_nodes m1)" if "rootp z = Some a" for a using f(6) rootp_in [OF that] r m1(2) by auto
  then have run: "del_splice n m = Some (xc, rootp z, Some x, m1\<lparr>tr_nodes := ?H\<rparr>)"
    using f(1,3,6) m1 x l0 l0' dis by (intro splice_run_near) auto
  have z: "rootp z \<noteq> Some b" if "b \<notin> addrs z" for b using that rootp_in by blast
  have same: "tr_nodes m1 b = tr_nodes m b" if "b \<in> addrs l \<union> addrs z" for b using m1(3) that dis by blast
  have "sh (tr_nodes m) (Some x) z" using trep_parts(1) [OF rep] r by simp
  then have "sh ?h (Some x) z" by (rule sh_cong [rotated]) (use dis l0' same in \<open>auto simp: md_def\<close>)
  then have "sh ?H (Some x) z" using dis(10) by (rule sh_reparent_fun)
  moreover have "?H x = Some (mkn SLeft (rootp l) (rootp z) (cpar C) xk c)"
    using f(3) m1(3) dis l0' l z by (simp add: reparent_other mkn_def)
  moreover have "?H b = reparent (rootp l) (Some x) (tr_nodes m) b" if "b \<in> addrs l" for b
    using that dis l z same by (subst reparent_other) (auto simp: reparent_def md_def)
  moreover have "?H b = tr_nodes m1 b" if "b \<in> caddrs C" for b
    using that dis l0' z by (subst reparent_other) (auto simp: md_def)
  ultimately have "trep (m1\<lparr>tr_nodes := ?H\<rparr>) (plug C (nd SLeft (x, xk, c) l z))"
    using f(5) m1(1) by (intro replace_rep [OF rep]) auto
  then show ?thesis using run m1(2) by auto
qed

lemma md_at: "md a f h b = (if b = a then map_option f (h b) else h b)"
  by (simp add: md_def)

lemma reparent_Some: "reparent (Some a) p h b = (if b = a then map_option (\<lambda>n. n\<lparr>tn_parent := p\<rparr>) (h b) else h b)"
  by (simp add: reparent_def md_at)

lemma set_child_left: "set_child SLeft p = (\<lambda>n. n\<lparr>tn_left := p\<rparr>)"
  by (simp add: set_child_def fun_eq_iff)

lemma addrs_plug: "addrs (plug C t) = addrs t \<union> caddrs C"
  by (auto simp: addrs_def caddrs_def items_plug)

lemma rootp_plug_in: "C \<noteq> [] \<Longrightarrow> rootp (plug C t) = Some b \<Longrightarrow> b \<in> caddrs C"
proof (induction C arbitrary: t rule: lits.induct)
  case (2 s a k c y C)
  then show ?case by (cases "C = []") auto
qed simp

lemma splice_far:
  assumes rep: "trep m (plug C (nd SLeft (n, k, c) l r))" and l: "rootp l = Some l0" and r0: "rootp r = Some r0"
    and r: "r = plug ((SLeft, (d, dk, dc), y) # E) (nd SLeft (x, xk, xc) Leaf z)" "lits ((SLeft, (d, dk, dc), y) # E) = []" and x: "leftmost r0 m = Some x"
  shows "\<exists>m'. del_splice n m = Some (xc, rootp z, Some d, m') \<and> trep m' (plug C (nd SLeft (x, xk, c) l (plug ((SLeft, (d, dk, dc), y) # E) z))) \<and>
    dom (tr_nodes m') = dom (tr_nodes m)"
proof -
  let ?D = "(SLeft, (d, dk, dc), y) # E"
  let ?R = "plug ?D z"
  note f = two_setup [OF rep l r0 r]
  obtain m1 where m1: "relink (cpar C) n (Some x) m = Some m1" "dom (tr_nodes m1) = dom (tr_nodes m)" "\<And>b. b \<notin> caddrs C \<Longrightarrow> tr_nodes m1 b = tr_nodes m b"
    using f(2) by blast
  have rR: "rootp ?R = Some r0" using r0 r(1) rootp_plug_cong [of z "nd SLeft (x, xk, xc) Leaf z" ?D] by simp
  have ctx: "r0 \<in> caddrs ?D" "d \<in> caddrs ?D" using rootp_plug_in [OF _ rR] by auto
  have aR: "addrs ?R = addrs z \<union> caddrs ?D" by (rule addrs_plug)
  have dR: "distinct (map snd (items ?R))" using f(5) by simp
  have "addrs z \<inter> caddrs ?D = {}" using dR unfolding items_plug by (auto simp: addrs_def caddrs_def simp del: lits.simps rits.simps)
  then have dz: "d \<notin> addrs z" "r0 \<notin> addrs z" using ctx by auto
  have R: "d \<in> addrs ?R" "r0 \<in> addrs ?R" "addrs z \<subseteq> addrs ?R" unfolding aR using ctx by auto
  have ar: "addrs r = insert x (addrs ?R)" using f(4) by (simp add: addrs_def del: plug.simps)
  have dis: "n \<noteq> x" "n \<notin> addrs l" "x \<notin> addrs l" "n \<notin> addrs ?R" "x \<notin> addrs ?R" "addrs l \<inter> addrs ?R = {}" "n \<notin> caddrs C" "x \<notin> caddrs C"
    "addrs l \<inter> caddrs C = {}" "addrs ?R \<inter> caddrs C = {}" using f(5) by (auto simp: addrs_def caddrs_def simp del: plug.simps)
  have l0: "l0 \<in> addrs l" using rootp_in [OF l] .
  have ne: "r0 \<noteq> x" "d \<noteq> x" "l0 \<noteq> x" "l0 \<noteq> n" "l0 \<noteq> r0" "l0 \<noteq> d" using R l0 dis by auto
  have same: "tr_nodes m1 b = tr_nodes m b" if "b \<in> addrs l \<union> addrs ?R" for b using m1(3) that dis by blast
  let ?h = "md r0 (\<lambda>a. a\<lparr>tn_parent := Some x\<rparr>)
    (md x (\<lambda>a. a\<lparr>tn_right := Some r0\<rparr>) (md d (\<lambda>a. a\<lparr>tn_left := rootp z\<rparr>) (md x (\<lambda>a. a\<lparr>tn_parent := cpar C\<rparr>)
    (md l0 (\<lambda>a. a\<lparr>tn_parent := Some x\<rparr>) (md x (\<lambda>a. a\<lparr>tn_left := Some l0\<rparr>) (md x (\<lambda>a. a\<lparr>tn_red := c\<rparr>) (tr_nodes m1)))))))"
  let ?H = "reparent (rootp z) (Some d) ?h"
  have alloc: "a \<in> dom (tr_nodes m1)" if "a \<in> addrs l \<union> addrs ?R" for a using f(6) that ar m1(2) by auto
  have run: "del_splice n m = Some (xc, rootp z, Some d, m1\<lparr>tr_nodes := ?H\<rparr>)"
  proof (rule splice_run_far [OF f(1) x(1)])
    show "tr_nodes m1 x = Some (mkn SLeft None (rootp z) (Some d) xk xc)" using f(3) m1(3) dis by simp
    show "a \<in> dom (tr_nodes m1)" if "rootp z = Some a" for a using alloc R(3) rootp_in [OF that] by blast
    show "d \<in> dom (tr_nodes m1)" "l0 \<in> dom (tr_nodes m1)" "r0 \<in> dom (tr_nodes m1)" using R l0 by (auto intro!: alloc)
    show "x \<noteq> r0" "l0 \<noteq> x" "n \<noteq> x" "l0 \<noteq> n" using ne dis(1) by auto
  qed (use m1 dis(7) in auto)
  have z: "rootp z \<noteq> Some b" if "b \<notin> addrs z" for b using that rootp_in by blast
  let ?K = "reparent (rootp z) (Some d) (md d (set_child SLeft (rootp z)) (tr_nodes m))"
  have "sh (tr_nodes m) (Some n) r" using trep_parts(1) [OF rep] by simp
  then have "sh ?K (Some n) ?R" using splice_below [of "tr_nodes m" "Some n" SLeft d dk dc y E x xk xc z] r(1) f(4,5) by simp
  then have sR: "sh (reparent (rootp ?R) (Some x) ?K) (Some x) ?R" using dR by (rule sh_reparent_fun)
  have "reparent (rootp ?R) (Some x) ?K b = ?H b" if b: "b \<in> addrs ?R" for b
  proof -
    have b': "b \<noteq> x" "b \<noteq> l0" "tr_nodes m1 b = tr_nodes m b" using b dis(5,6) l0 same by auto
    show ?thesis
    proof (cases "rootp z = Some b")
      case True
      then have "b \<noteq> d" "b \<noteq> r0" using dz rootp_in by blast+
      then show ?thesis unfolding rR True using b' by (simp add: reparent_def md_def)
    next
      case False
      then show ?thesis unfolding rR using b' by (simp only: reparent_Some reparent_other [OF False] md_at) (simp add: set_child_left option.map_comp comp_def)
    qed
  qed
  then have "sh ?H (Some x) ?R" using sR sh_cong by blast
  moreover have "?H x = Some (mkn SLeft (rootp l) (rootp ?R) (cpar C) xk c)"
  proof -
    have "rootp z \<noteq> Some x" using z R(3) dis(5) by blast
    then show ?thesis unfolding rR using f(3) m1(3) dis(8) ne l by (simp add: reparent_other mkn_def)
  qed
  moreover have "?H b = reparent (rootp l) (Some x) (tr_nodes m) b" if b: "b \<in> addrs l" for b
  proof -
    have b': "rootp z \<noteq> Some b" "b \<noteq> r0" "b \<noteq> d" "b \<noteq> x" using b z R dis(3,6) by blast+
    then show ?thesis using same [of b] b by (simp only: l reparent_Some reparent_other [OF b'(1)] md_at) auto
  qed
  moreover have "?H b = tr_nodes m1 b" if b: "b \<in> caddrs C" for b
  proof -
    have "rootp z \<noteq> Some b" "b \<noteq> r0" "b \<noteq> d" "b \<noteq> x" "b \<noteq> l0" using b z R dis(8-10) l0 by blast+
    then show ?thesis by (simp add: reparent_other)
  qed
  ultimately have "trep (m1\<lparr>tr_nodes := ?H\<rparr>) (plug C (nd SLeft (x, xk, c) l ?R))"
    using f(5) m1(1) by (intro replace_rep [OF rep]) auto
  then show ?thesis using run m1(2) by auto
qed

lemma splice_two:
  assumes rep: "trep m (plug C (nd SLeft (n, k, c) l r))" and rb: "rbt (plug C (nd SLeft (n, k, c) l r))" and ne: "l \<noteq> Leaf" "r \<noteq> Leaf"
  shows "\<exists>m' xc z E j. del_splice n m = Some (xc, rootp z, cpar E, m') \<and> trep m' (plug E z) \<and> dom (tr_nodes m') = dom (tr_nodes m) \<and>
    items (plug E z) = lits C @ items l @ items r @ rits C \<and> (if xc then rbt (plug E z) else ok j z \<and> cok (Suc j) E)"
proof -
  obtain l0 r0 where root: "rootp l = Some l0" "rootp r = Some r0" using ne by (meson not_None_eq rootp_None)
  have "sh (tr_nodes m) (Some n) r" using trep_parts(1) [OF rep] by simp
  from leftmost_ok [OF this root(2)] obtain D x xk xc z where
    r: "r = plug D (nd SLeft (x, xk, xc) Leaf z)" "lits D = []" "leftmost r0 m = Some x" by blast
  let ?E = "\<lambda>a k. D @ (SRight, (a, k, c), l) # C"
  have plug: "plug (?E a k') t = plug C (nd SLeft (a, k', c) l (plug D t))" for a k' t by (simp add: plug_append nd_def)
  have "\<exists>m'. del_splice n m = Some (xc, rootp z, cpar (?E x xk), m') \<and> trep m' (plug (?E x xk) z) \<and> dom (tr_nodes m') = dom (tr_nodes m)"
  proof (cases D rule: cpar.cases)
    case 1
    then show ?thesis using splice_near [OF rep root(1), of x xk xc z] r root(2) unfolding plug by simp
  next
    case (2 s d dk dc y E)
    have "s = SLeft" using r(2) 2 by (cases s) auto
    then show ?thesis using splice_far [OF rep root, of d dk dc y E x xk xc z] r 2 unfolding plug by simp
  qed
  moreover have "items (plug (?E x xk) z) = lits C @ items l @ items r @ rits C"
    using r(2) unfolding r(1) by (simp add: items_plug items_nd lits_append)
  moreover have "\<exists>j. if xc then rbt (plug (?E x xk) z) else ok j z \<and> cok (Suc j) (?E x xk)"
  proof -
    have "rbt (plug (?E n k) (nd SLeft (x, xk, xc) Leaf z))" using rb unfolding plug r(1) .
    then have "rbt (plug (?E x xk) (nd SLeft (x, xk, xc) Leaf z))" unfolding rbt_plug using cok_rename [of _ D SRight n k c l C x xk]
      by (cases D rule: nb.cases) auto
    then show ?thesis by (rule splice_colours)
  qed
  ultimately show ?thesis by blast
qed

lemma splice_ok:
  assumes rep: "trep m (plug C (nd SLeft (n, k, c) l r))" and rb: "rbt (plug C (nd SLeft (n, k, c) l r))"
  shows "\<exists>m' xc z E j. del_splice n m = Some (xc, rootp z, cpar E, m') \<and> trep m' (plug E z) \<and> dom (tr_nodes m') = dom (tr_nodes m) \<and>
    items (plug E z) = lits C @ items l @ items r @ rits C \<and> (if xc then rbt (plug E z) else ok j z \<and> cok (Suc j) E)"
proof -
  consider (left) "l = Leaf" | (right) "r = Leaf" | (two) "l \<noteq> Leaf" "r \<noteq> Leaf" by blast
  then show ?thesis
  proof cases
    case left
    then show ?thesis using splice_one [of m C SLeft n k c r] splice_colours [of C SLeft n k c r] rep rb by (fastforce simp: items_plug)
  next
    case right
    have t: "nd SLeft (n, k, c) l r = nd SRight (n, k, c) Leaf l" using right by (simp add: nd_def)
    show ?thesis using splice_one [of m C SRight n k c l] splice_colours [of C SRight n k c l] rep rb right unfolding t by (fastforce simp: items_plug)
  next
    case two
    then show ?thesis using splice_two [OF rep rb] by blast
  qed
qed

lemma ex_plug:
  assumes "(k, n) \<in> set (items t)"
  shows "\<exists>C c l r. t = plug C (nd SLeft (n, k, c) l r)"
  using assms
proof (induction t)
  case (Node l v r)
  obtain a k' c where v: "v = (a, k', c)" by (cases v) auto
  have t: "Node l v r = plug [] (nd SLeft (a, k', c) l r)" "Node l v r = plug [(SLeft, (a, k', c), r)] l" "Node l v r = plug [(SRight, (a, k', c), l)] r"
    by (simp_all add: nd_def v)
  consider "(k, n) = (k', a)" | "(k, n) \<in> set (items l)" | "(k, n) \<in> set (items r)" using Node.prems v by auto
  then show ?case
  proof cases
    case 1
    then show ?thesis using t(1) by blast
  next
    case 2
    then show ?thesis unfolding t(2) using Node.IH(1) by (metis plug_append)
  next
    case 3
    then show ?thesis unfolding t(3) using Node.IH(2) by (metis plug_append)
  qed
qed simp

lemma tree_del_ok:
  assumes "tree_holds m L" "(k, n) \<in> set L"
  shows "\<exists>m'. tree_del n m = Some m' \<and> tree_holds m' (remove1 (k, n) L) \<and> dom (tr_nodes m') = dom (tr_nodes m)"
proof -
  obtain t where t: "trep m t" "rbt t" "items t = L" "sorted_items L" using assms(1) by (auto simp: tree_holds_def)
  obtain C c l r where p: "t = plug C (nd SLeft (n, k, c) l r)" using ex_plug [of k n t] assms(2) t(3) by blast
  obtain m1 xc z E j where s: "del_splice n m = Some (xc, rootp z, cpar E, m1)" "trep m1 (plug E z)" "dom (tr_nodes m1) = dom (tr_nodes m)"
      "items (plug E z) = lits C @ items l @ items r @ rits C" "if xc then rbt (plug E z) else ok j z \<and> cok (Suc j) E"
    using splice_ok [OF t(1,2) [unfolded p]] by blast
  have L: "L = (lits C @ items l) @ (k, n) # items r @ rits C" using t(3) p by (simp add: items_plug items_nd)
  have "(k, n) \<notin> set (lits C @ items l)" using t(4) unfolding L by (auto simp: sorted_wrt_append)
  then have rem: "remove1 (k, n) L = items (plug E z)" unfolding s(4) L by (simp add: remove1_append)
  have "sorted_items (lits C @ items l @ items r @ rits C)" using t(4) unfolding L by (auto simp: sorted_wrt_append)
  then have srt: "sorted_items (remove1 (k, n) L)" unfolding rem s(4) .
  have fin: ?thesis if "tree_del n m = Some m'" "trep m' T" "rbt T" "items T = items (plug E z)" "dom (tr_nodes m') = dom (tr_nodes m1)" for m' T
    using that srt s(3) rem by (auto simp: tree_holds_def)
  show ?thesis
  proof (cases xc)
    case True
    then show ?thesis using s by (intro fin [of m1 "plug E z"]) (auto simp: tree_del_def)
  next
    case xc: False
    note red = is_red_black [OF s(2)]
    show ?thesis
    proof (cases "black z")
      case True
      have oz: "ok j z" "cok (Suc j) E" using s(5) xc by auto
      obtain m' T where d: "del_rebalance (rootp z) (cpar E) m1 \<bind> set_black = Some m'" "trep m' T" "rbt T" "items T = items (plug E z)"
          "dom (tr_nodes m') = dom (tr_nodes m1)" using del_rebalance_ok [OF s(2) oz(1) True oz(2)] by blast
      have "tree_del n m = del_rebalance (rootp z) (cpar E) m1 \<bind> set_black"
        using s(1) xc red True by (simp add: tree_del_def set_black_def [abs_def] case_prod_beta')
      then show ?thesis using d by (intro fin [of m' T]) simp_all
    next
      case False
      then obtain a ak x y where z: "z = nd SLeft (a, ak, True) x y" by (cases z rule: nd_cases [where s = SLeft]) auto
      obtain m2 where m2: "set_red a False m1 = Some m2" "trep m2 (plug E (nd SLeft (a, ak, False) x y))" "dom (tr_nodes m2) = dom (tr_nodes m1)"
        using trep_recolour [OF s(2) [unfolded z], of False] by blast
      have "rbt (plug E (nd SLeft (a, ak, False) x y))" unfolding rbt_plug using s(5) xc z by (intro conjI exI [of _ "Suc j"]) auto
      then show ?thesis using m2 s(1) xc red False z by (intro fin [of m2 "plug E (nd SLeft (a, ak, False) x y)"]) (auto simp: tree_del_def items_plug items_nd)
    qed
  qed
qed

subsection \<open>Search\<close>

lemma find_from_ok:
  assumes "sh (tr_nodes m) p t" "sorted_items (items t)"
  shows "find_from key (rootp t) m = Some (map_of (items t) key)"
  using assms
proof (induction t arbitrary: p)
  case Leaf
  then show ?case by (subst find_from.simps) simp
next
  case (Node l v r)
  obtain a k c where v: "v = (a, k, c)" by (cases v) auto
  have a: "tr_nodes m a = Some (mkn SLeft (rootp l) (rootp r) p k c)" using Node.prems(1) v by simp
  have IH: "find_from key (rootp l) m = Some (map_of (items l) key)" "find_from key (rootp r) m = Some (map_of (items r) key)"
    using Node.IH Node.prems v by (auto simp: sorted_wrt_append)
  have lt: "\<forall>x\<in>set (items l). fst x < k" "\<forall>x\<in>set (items r). k < fst x" using Node.prems(2) v by (auto simp: sorted_wrt_append)
  have none: "map_of (items l) key = None" if "k \<le> key" "key \<noteq> k \<or> True" using lt(1) that by (force simp: map_of_eq_None_iff)
  have none': "map_of (items r) key = None" if "key \<le> k" using lt(2) that by (force simp: map_of_eq_None_iff)
  have "map_of (items (Node l v r)) key = (if key < k then map_of (items l) key else if k < key then map_of (items r) key else Some a)"
    using none none' v by (auto simp: map_add_def split: option.splits)
  then show ?case using a IH v by (subst find_from.simps) (auto simp: mkn_def)
qed

lemma tree_find_ok: "tree_holds m L \<Longrightarrow> tree_find m key = Some (map_of L key)"
  using find_from_ok by (auto simp: tree_holds_def tree_find_def trep_def)

lemma tree_init_ok: "tree_holds (tree_init m) []"
  by (auto simp: tree_holds_def tree_init_def trep_def rbt_def intro!: exI [of _ Leaf])

lemma tree_holds_mem: "tree_holds m L \<Longrightarrow> distinct (map snd L) \<and> snd ` set L \<subseteq> dom (tr_nodes m)"
  using sh_alloc by (fastforce simp: tree_holds_def trep_def addrs_def)

subsection \<open>Balance\<close>

lemma ok_size: "ok n t \<Longrightarrow> 2 ^ n \<le> length (items t) + 1"
proof (induction t arbitrary: n)
  case (Node l v r)
  obtain a k c where v: "v = (a, k, c)" by (cases v) auto
  show ?case
  proof (cases c)
    case True
    then show ?thesis using Node.IH(1) [of n] Node.prems v by simp
  next
    case False
    then obtain m where n: "n = Suc m" "ok m l" "ok m r" using Node.prems v by (cases n) auto
    then show ?thesis using Node.IH(1) [OF n(2)] Node.IH(2) [OF n(3)] v by simp
  qed
qed simp

lemma ok_height: "ok n t \<Longrightarrow> height t \<le> 2 * n + (if black t then 0 else 1)"
proof (induction t arbitrary: n)
  case (Node l v r)
  obtain a k c where v: "v = (a, k, c)" by (cases v) auto
  show ?case
  proof (cases c)
    case True
    then show ?thesis using Node.IH(1) [of n] Node.IH(2) [of n] Node.prems v by auto
  next
    case False
    then obtain m where n: "n = Suc m" "ok m l" "ok m r" using Node.prems v by (cases n) auto
    then show ?thesis using Node.IH(1) [OF n(2)] Node.IH(2) [OF n(3)] v False by (auto split: if_splits)
  qed
qed simp

subsection \<open>The index as a partial map\<close>

text \<open>
  What the port asks of the structure that finds a node by its key.  The laws are those of
  a sorted list; the clients see a partial map from keys to nodes.
\<close>

locale key_index =
  fixes add :: "'a \<Rightarrow> nat \<Rightarrow> 'm \<Rightarrow> (int \<times> 'm) option" and del :: "'a \<Rightarrow> 'm \<Rightarrow> 'm option"
    and find :: "'m \<Rightarrow> nat \<Rightarrow> 'a option option" and holds :: "'m \<Rightarrow> (nat \<times> 'a) list \<Rightarrow> bool" and nodes :: "'m \<Rightarrow> 'a set"
  assumes find_holds: "holds m L \<Longrightarrow> find m key = Some (map_of L key)"
    and add_holds: "holds m L \<Longrightarrow> n \<in> nodes m \<Longrightarrow> n \<notin> snd ` set L \<Longrightarrow>
      if key \<in> fst ` set L then add n key m = Some (-1, m)
      else \<exists>m'. add n key m = Some (0, m') \<and> holds m' (insort_key fst (key, n) L) \<and> nodes m' = nodes m"
    and del_holds: "holds m L \<Longrightarrow> (k, n) \<in> set L \<Longrightarrow> \<exists>m'. del n m = Some m' \<and> holds m' (remove1 (k, n) L) \<and> nodes m' = nodes m"
    and holds_order: "holds m L \<Longrightarrow> sorted_wrt (<) (map fst L) \<and> distinct (map snd L) \<and> snd ` set L \<subseteq> nodes m"
begin

definition indexes :: "'m \<Rightarrow> (nat \<rightharpoonup> 'a) \<Rightarrow> bool" where
  "indexes m f \<longleftrightarrow> (\<exists>L. holds m L \<and> f = map_of L)"

lemma keys_distinct: "holds m L \<Longrightarrow> distinct (map fst L)"
  using holds_order [of m L] strict_sorted_iff by blast

lemma indexes_inj: "indexes m f \<Longrightarrow> f k = Some n \<Longrightarrow> f k' = Some n \<Longrightarrow> k = k'"
proof -
  assume "indexes m f" "f k = Some n" "f k' = Some n"
  then obtain L where L: "holds m L" "(k, n) \<in> set L" "(k', n) \<in> set L" by (auto simp: indexes_def dest: map_of_SomeD)
  then show "k = k'" using holds_order [OF L(1)] inj_onD [of snd "set L" "(k, n)" "(k', n)"] by (simp add: distinct_map)
qed

lemma indexes_nodes: "indexes m f \<Longrightarrow> ran f \<subseteq> nodes m"
  using holds_order by (fastforce simp: indexes_def ran_def dest: map_of_SomeD)

lemma indexes_finite: "indexes m f \<Longrightarrow> finite (dom f)"
  by (auto simp: indexes_def finite_dom_map_of)

lemma find_indexes: "indexes m f \<Longrightarrow> find m key = Some (f key)"
  using find_holds by (auto simp: indexes_def)

lemma add_indexes:
  assumes "indexes m f" "n \<in> nodes m" "n \<notin> ran f"
  shows "if key \<in> dom f then add n key m = Some (-1, m)
    else \<exists>m'. add n key m = Some (0, m') \<and> indexes m' (f(key \<mapsto> n)) \<and> nodes m' = nodes m"
proof -
  obtain L where L: "holds m L" "f = map_of L" using assms(1) by (auto simp: indexes_def)
  have mem: "n \<notin> snd ` set L" using assms(3) keys_distinct [OF L(1)] L(2) by (auto simp: ran_def map_of_eq_Some_iff)
  have dom: "key \<in> dom f \<longleftrightarrow> key \<in> fst ` set L" by (simp add: L(2) dom_map_of_conv_image_fst)
  have "map_of (insort_key fst (key, n) L) = map_of ((key, n) # L)" if "holds m' (insort_key fst (key, n) L)" "key \<notin> fst ` set L" for m'
    using keys_distinct [OF that(1)] keys_distinct [OF L(1)] that(2) by (subst map_of_inject_set) (simp_all add: set_insort_key)
  then have "map_of (insort_key fst (key, n) L) = f(key \<mapsto> n)" if "holds m' (insort_key fst (key, n) L)" "key \<notin> fst ` set L" for m'
    using that L(2) by simp
  then show ?thesis using add_holds [OF L(1) assms(2) mem, of key] dom unfolding indexes_def by metis
qed

lemma del_indexes:
  assumes "indexes m f" "f k = Some n"
  shows "\<exists>m'. del n m = Some m' \<and> indexes m' (f(k := None)) \<and> nodes m' = nodes m"
proof -
  obtain L where L: "holds m L" "f = map_of L" using assms(1) by (auto simp: indexes_def)
  have mem: "(k, n) \<in> set L" using assms(2) L(2) by (simp add: map_of_SomeD)
  obtain m' where m': "del n m = Some m'" "holds m' (remove1 (k, n) L)" "nodes m' = nodes m" using del_holds [OF L(1) mem] by blast
  have "remove1 (k, n) L = filter (\<lambda>x. fst x \<noteq> k) L"
    using keys_distinct [OF L(1)] mem by (induction L) (auto simp: eq_commute [of _ "filter _ _"] filter_id_conv intro: rev_image_eqI)
  then have "map_of (remove1 (k, n) L) = f(k := None)" by (simp add: map_of_remove L(2))
  then show ?thesis using m' unfolding indexes_def by metis
qed

end

interpretation tr: key_index tree_add tree_del tree_find tree_holds "\<lambda>m. dom (tr_nodes m)"
proof
  show "tree_holds m L \<Longrightarrow> tree_find m key = Some (map_of L key)" for m L key by (rule tree_find_ok)
  show "tree_holds m L \<Longrightarrow> n \<in> dom (tr_nodes m) \<Longrightarrow> n \<notin> snd ` set L \<Longrightarrow>
      if key \<in> fst ` set L then tree_add n key m = Some (-1, m)
      else \<exists>m'. tree_add n key m = Some (0, m') \<and> tree_holds m' (insort_key fst (key, n) L) \<and> dom (tr_nodes m') = dom (tr_nodes m)"
    for m L n key by (rule tree_add_ok)
  show "tree_holds m L \<Longrightarrow> (k, n) \<in> set L \<Longrightarrow>
      \<exists>m'. tree_del n m = Some m' \<and> tree_holds m' (remove1 (k, n) L) \<and> dom (tr_nodes m') = dom (tr_nodes m)" for m L k n
    by (rule tree_del_ok)
  show "tree_holds m L \<Longrightarrow> sorted_wrt (<) (map fst L) \<and> distinct (map snd L) \<and> snd ` set L \<subseteq> dom (tr_nodes m)" for m L
    using tree_holds_mem [of m L] by (simp add: tree_holds_def)
qed

subsection \<open>The contract of the tree\<close>

datatype tree_op = Tree_Add addr nat | Tree_Del addr

fun tree_run :: "tree_op list \<Rightarrow> tree_t \<Rightarrow> (int list \<times> tree_t) option" where
  "tree_run [] tree = Some ([], tree)"
| "tree_run (Tree_Add node key # ops) tree = do {
     (r, tree) \<leftarrow> tree_add node key tree;
     (rs, tree) \<leftarrow> tree_run ops tree;
     Some (r # rs, tree)
   }"
| "tree_run (Tree_Del node # ops) tree = do {
     tree \<leftarrow> tree_del node tree;
     (rs, tree) \<leftarrow> tree_run ops tree;
     Some (0 # rs, tree)
   }"

text \<open>The same operations on a partial map; a node is added only once, and deleted only if it is there.\<close>

fun map_run :: "tree_op list \<Rightarrow> (nat \<rightharpoonup> addr) \<Rightarrow> int list \<times> (nat \<rightharpoonup> addr)" where
  "map_run [] f = ([], f)"
| "map_run (Tree_Add node key # ops) f =
     (if f key = None then apfst (Cons 0) (map_run ops (f(key \<mapsto> node))) else apfst (Cons (-1)) (map_run ops f))"
| "map_run (Tree_Del node # ops) f = apfst (Cons 0) (map_run ops (\<lambda>k. if f k = Some node then None else f k))"

fun tree_ops_ok :: "tree_op list \<Rightarrow> addr set \<Rightarrow> (nat \<rightharpoonup> addr) \<Rightarrow> bool" where
  "tree_ops_ok [] N f \<longleftrightarrow> True"
| "tree_ops_ok (Tree_Add node key # ops) N f \<longleftrightarrow> node \<in> N \<and> node \<notin> ran f \<and> tree_ops_ok ops N (if f key = None then f(key \<mapsto> node) else f)"
| "tree_ops_ok (Tree_Del node # ops) N f \<longleftrightarrow> node \<in> ran f \<and> tree_ops_ok ops N (\<lambda>k. if f k = Some node then None else f k)"

lemma tree_run_ok:
  "tr.indexes m f \<Longrightarrow> tree_ops_ok ops (dom (tr_nodes m)) f \<Longrightarrow>
   \<exists>m'. tree_run ops m = Some (fst (map_run ops f), m') \<and> tr.indexes m' (snd (map_run ops f))"
proof (induction ops arbitrary: m f)
  case (Cons op ops)
  note IH = Cons.IH and prems = Cons.prems
  show ?case
  proof (cases op)
    case op: (Tree_Add node key)
    note ad = tr.add_indexes [OF prems(1), of node key]
    show ?thesis
    proof (cases "f key = None")
      case True
      then obtain m1 where m1: "tree_add node key m = Some (0, m1)" "tr.indexes m1 (f(key \<mapsto> node))" "dom (tr_nodes m1) = dom (tr_nodes m)"
        using ad prems(2) op by (auto split: if_splits)
      then show ?thesis using IH [OF m1(2)] prems(2) True op by fastforce
    next
      case False
      then have "tree_add node key m = Some (-1, m)" using ad prems(2) op by (auto split: if_splits)
      then show ?thesis using IH [OF prems(1)] prems(2) False op by fastforce
    qed
  next
    case op: (Tree_Del node)
    let ?f = "\<lambda>k. if f k = Some node then None else f k"
    obtain k where k: "f k = Some node" using prems(2) op by (auto simp: ran_def)
    have f: "?f = f(k := None)" using tr.indexes_inj [OF prems(1)] k by (auto simp: fun_eq_iff)
    obtain m1 where m1: "tree_del node m = Some m1" "tr.indexes m1 ?f" "dom (tr_nodes m1) = dom (tr_nodes m)"
      using tr.del_indexes [OF prems(1) k] unfolding f by blast
    then have "\<exists>m'. tree_run ops m1 = Some (fst (map_run ops ?f), m') \<and> tr.indexes m' (snd (map_run ops ?f))"
      using IH [OF m1(2)] prems(2) op by simp
    then show ?thesis using m1(1) op by auto
  qed
qed simp

text \<open>
  C17: The tree refines a partial map from keys to nodes.  From an empty tree, any
  sequence of \<open>tree_add\<close> of nodes that are not in it and \<open>tree_del\<close> of nodes that are runs
  without a fault, ends, reports -1 exactly for the keys that are taken, and leaves a tree
  in which \<open>tree_find\<close> gives for every key what the map has.
\<close>

theorem wepoll_tree_map:
  assumes "tree_ops_ok ops (dom (tr_nodes m)) Map.empty"
  shows "\<exists>m'. tree_run ops (tree_init m) = Some (fst (map_run ops Map.empty), m') \<and>
    (\<forall>key. tree_find m' key = Some (snd (map_run ops Map.empty) key))"
proof -
  have "tr.indexes (tree_init m) Map.empty" using tree_init_ok [of m] by (auto simp: tr.indexes_def)
  moreover have "tree_ops_ok ops (dom (tr_nodes (tree_init m))) Map.empty" using assms by (simp add: tree_init_def)
  ultimately show ?thesis using tree_run_ok tr.find_indexes by blast
qed

definition blank_nodes :: tree_t where
  "blank_nodes = \<lparr>tr_root = None, tr_nodes = (\<lambda>a. if a < 8
     then Some \<lparr>tn_left = None, tn_right = None, tn_parent = None, tn_key = 0, tn_red = False\<rparr> else None)\<rparr>"

theorem wepoll_tree_map_witness:
  "\<exists>m'. tree_run [Tree_Add 1 30, Tree_Add 2 10, Tree_Add 3 20, Tree_Add 4 20, Tree_Del 3] (tree_init blank_nodes) =
     Some ([0, 0, 0, -1, 0], m') \<and> tree_find m' 10 = Some (Some 2) \<and> tree_find m' 20 = Some None"
proof -
  have "tree_ops_ok [Tree_Add 1 30, Tree_Add 2 10, Tree_Add 3 20, Tree_Add 4 20, Tree_Del 3] (dom (tr_nodes blank_nodes)) Map.empty"
    by (auto simp: blank_nodes_def ran_def split: if_splits intro: exI [of _ 20])
  from wepoll_tree_map [OF this] show ?thesis by auto
qed

text \<open>
  The nodes one can go down through from a pointer, and the loop of \<open>tree_find\<close> with a limit on its
  rounds: \<open>None\<close> when the limit is reached first.
\<close>

fun tree_path :: "tree_t \<Rightarrow> addr option \<Rightarrow> addr list \<Rightarrow> bool" where
  "tree_path m x [] \<longleftrightarrow> True"
| "tree_path m x (a # p) \<longleftrightarrow> x = Some a \<and>
     (case tr_nodes m a of None \<Rightarrow> False | Some n \<Rightarrow> tree_path m (tn_left n) p \<or> tree_path m (tn_right n) p)"

fun find_within :: "nat \<Rightarrow> nat \<Rightarrow> addr option \<Rightarrow> tree_t \<Rightarrow> addr option option" where
  "find_within rounds key None tree = Some None"
| "find_within 0 key (Some a) tree = None"
| "find_within (Suc rounds) key (Some a) tree = do {
     nd \<leftarrow> tr_nodes tree a;
     if key < tn_key nd then find_within rounds key (tn_left nd) tree
     else if key > tn_key nd then find_within rounds key (tn_right nd) tree
     else Some (Some a)
   }"

lemma path_height: "sh (tr_nodes m) par t \<Longrightarrow> tree_path m (rootp t) p \<Longrightarrow> length p \<le> height t"
proof (induction p arbitrary: par t)
  case (Cons a p)
  then obtain l k c r where t: "t = Node l (a, k, c) r" by (cases t) auto
  have "tree_path m (rootp l) p \<or> tree_path m (rootp r) p" using Cons.prems t by (simp add: mkn_def)
  then show ?case using Cons.IH [of "Some a" l] Cons.IH [of "Some a" r] Cons.prems(1) t by auto
qed simp

lemma find_within_height:
  "sh (tr_nodes m) par t \<Longrightarrow> find_from key (rootp t) m = Some r \<Longrightarrow> height t \<le> k \<Longrightarrow> find_within k key (rootp t) m = Some r"
proof (induction t arbitrary: par k)
  case Leaf
  then show ?case by (subst (asm) find_from.simps) simp
next
  case (Node l v u)
  obtain a key' c where v: "v = (a, key', c)" by (cases v) auto
  have a: "tr_nodes m a = Some (mkn SLeft (rootp l) (rootp u) par key' c)" using Node.prems(1) v by simp
  obtain j where j: "k = Suc j" "height l \<le> j" "height u \<le> j" using Node.prems(3) by (cases k) auto
  have "(if key < key' then find_from key (rootp l) m else if key' < key then find_from key (rootp u) m else Some (Some a)) = Some r"
    using Node.prems(2) a unfolding v by (subst (asm) find_from.simps) (auto simp: mkn_def split: if_splits)
  then show ?case using Node.IH(1) [of "Some a" j] Node.IH(2) [of "Some a" j] Node.prems(1) j a v by (auto simp: mkn_def split: if_splits)
qed

lemma holds_height:
  assumes "tree_holds m L"
  obtains t where "trep m t" "items t = L" "2 ^ height t \<le> (length L + 1) ^ 2"
proof -
  obtain t n where t: "trep m t" "items t = L" "black t" "ok n t" using assms by (auto simp: tree_holds_def rbt_def)
  have "(2 :: nat) ^ height t \<le> 2 ^ (2 * n)" using ok_height [OF t(4)] t(3) by (intro power_increasing) simp_all
  also have "\<dots> = (2 ^ n) ^ 2" by (simp only: mult.commute [of 2 n] power_mult)
  also have "\<dots> \<le> (length L + 1) ^ 2" using ok_size [OF t(4)] t(2) by (intro power_mono) simp_all
  finally show ?thesis using t that by blast
qed

text \<open>
  C18: The tree stays balanced.  After any sequence of \<open>tree_add\<close> of nodes that
  are not in the tree and \<open>tree_del\<close> of nodes that are, no way down the pointers from the root is longer
  than twice the binary logarithm of \<open>n + 1\<close>, where \<open>n\<close> is the number of keys.  This bounds
  the way down of the search of \<open>tree_add\<close>, and the loop of \<open>tree_find\<close> gives its result
  within as many rounds.
\<close>

theorem wepoll_tree_balanced:
  assumes "tree_ops_ok ops (dom (tr_nodes m)) Map.empty" and "n = card (dom (snd (map_run ops Map.empty)))"
  shows "\<exists>rs m'. tree_run ops (tree_init m) = Some (rs, m') \<and>
    (\<forall>p. tree_path m' (tr_root m') p \<longrightarrow> 2 ^ length p \<le> (n + 1) ^ 2) \<and>
    (\<exists>k. 2 ^ k \<le> (n + 1) ^ 2 \<and> (\<forall>key. find_within k key (tr_root m') m' = tree_find m' key))"
proof -
  have "tr.indexes (tree_init m) Map.empty" using tree_init_ok [of m] by (auto simp: tr.indexes_def)
  moreover have "tree_ops_ok ops (dom (tr_nodes (tree_init m))) Map.empty" using assms(1) by (simp add: tree_init_def)
  ultimately obtain rs m' where r: "tree_run ops (tree_init m) = Some (rs, m')" "tr.indexes m' (snd (map_run ops Map.empty))"
    using tree_run_ok by blast
  then obtain L where L: "tree_holds m' L" "map_of L = snd (map_run ops Map.empty)" by (auto simp: tr.indexes_def)
  have "n = length L" unfolding assms(2) L(2) [symmetric] dom_map_of_conv_image_fst
    using distinct_card [of "map fst L"] tr.keys_distinct [OF L(1)] by simp
  then obtain t where t: "trep m' t" "items t = L" "2 ^ height t \<le> (n + 1) ^ 2" using holds_height [OF L(1)] by metis
  have s: "sh (tr_nodes m') None t" "tr_root m' = rootp t" using t(1) by (simp_all add: trep_def)
  have "2 ^ length p \<le> (n + 1) ^ 2" if "tree_path m' (tr_root m') p" for p
  proof -
    have "(2 :: nat) ^ length p \<le> 2 ^ height t" using path_height [OF s(1)] that s(2) by (intro power_increasing) simp_all
    then show ?thesis using t(3) by linarith
  qed
  moreover have "find_within (height t) key (tr_root m') m' = tree_find m' key" for key
    using find_within_height [OF s(1) _ order_refl] tree_find_ok [OF L(1), of key] unfolding s(2) tree_find_def by metis
  ultimately show ?thesis using r(1) t(3) by blast
qed

text \<open>Seven keys in ascending order: an unbalanced tree would be a path of seven nodes.\<close>

theorem wepoll_tree_balanced_witness:
  "\<exists>rs m'. tree_run (map (\<lambda>i. Tree_Add i (10 * i)) [1, 2, 3, 4, 5, 6, 7]) (tree_init blank_nodes) = Some (rs, m') \<and>
    (\<forall>p. tree_path m' (tr_root m') p \<longrightarrow> length p < 7)"
proof -
  let ?ops = "map (\<lambda>i. Tree_Add i (10 * i)) [1, 2, 3, 4, 5, 6, 7]"
  have ok: "tree_ops_ok ?ops (dom (tr_nodes blank_nodes)) Map.empty"
    by (auto simp: blank_nodes_def ran_def split: if_splits)
  have n: "7 = card (dom (snd (map_run ?ops Map.empty)))" by simp
  have "length p < 7" if "2 ^ length p \<le> ((7 :: nat) + 1) ^ 2" for p :: "addr list"
    by (rule ccontr) (use that power_increasing [of 7 "length p" "2 :: nat"] in simp)
  then show ?thesis using wepoll_tree_balanced [OF ok n] by blast
qed

end
