(* ===== verification/Wepoll_Afd.thy ===== *)
theory Wepoll_Afd
  imports Prelude "HOL-Library.Word"
begin

text \<open>
  The calls of src/src/wepoll.c to the system, lines 145--173, 324--424 and 2192--2260: polls
  are submitted to the socket driver through a helper handle and cancelled, and the base
  socket below layered service providers is looked up.  The system itself is a record of
  functions on an arbitrary world; a call that can fail returns the error with the result.
\<close>

type_synonym ntstatus = "32 word"

definition STATUS_SUCCESS :: ntstatus where "STATUS_SUCCESS = 0x00000000"
definition STATUS_PENDING :: ntstatus where "STATUS_PENDING = 0x00000103"
definition STATUS_CANCELLED :: ntstatus where "STATUS_CANCELLED = 0xC0000120"
definition STATUS_NOT_FOUND :: ntstatus where "STATUS_NOT_FOUND = 0xC0000225"

definition NT_SUCCESS :: "ntstatus \<Rightarrow> bool" where
  "NT_SUCCESS status \<longleftrightarrow> sint status \<ge> 0"

lemmas status_defs = STATUS_SUCCESS_def STATUS_PENDING_def STATUS_CANCELLED_def STATUS_NOT_FOUND_def

text \<open>How a poll came back: the status, the number of handles and the events of the first.\<close>

record completion =
  cp_status :: ntstatus
  cp_handles :: nat
  cp_events :: "32 word"

definition ERROR_INVALID_HANDLE :: int where "ERROR_INVALID_HANDLE = 6"
definition ERROR_NOT_ENOUGH_MEMORY :: int where "ERROR_NOT_ENOUGH_MEMORY = 8"
definition ERROR_INVALID_PARAMETER :: int where "ERROR_INVALID_PARAMETER = 87"
definition ERROR_ALREADY_EXISTS :: int where "ERROR_ALREADY_EXISTS = 183"
definition WAIT_TIMEOUT :: int where "WAIT_TIMEOUT = 258"
definition ERROR_IO_PENDING :: int where "ERROR_IO_PENDING = 997"
definition ERROR_NOT_FOUND :: int where "ERROR_NOT_FOUND = 1168"
definition WSAENOTSOCK :: int where "WSAENOTSOCK = 10038"

lemmas error_defs = ERROR_INVALID_HANDLE_def ERROR_NOT_ENOUGH_MEMORY_def ERROR_INVALID_PARAMETER_def ERROR_ALREADY_EXISTS_def
  WAIT_TIMEOUT_def ERROR_IO_PENDING_def ERROR_NOT_FOUND_def WSAENOTSOCK_def

definition INVALID_SOCKET :: nat where "INVALID_SOCKET = 2 ^ 64 - 1"
definition INVALID_HANDLE_VALUE :: int where "INVALID_HANDLE_VALUE = -1"
definition SIO_BSP_HANDLE_POLL :: "32 word" where "SIO_BSP_HANDLE_POLL = 0x4800001D"
definition SIO_BASE_HANDLE :: "32 word" where "SIO_BASE_HANDLE = 0x48000022"

text \<open>
  The system.  The status block of a poll is written by the kernel, so it is part of the
  world; a handle is an integer, and \<open>None\<close> is the NULL that a failed call returns.
\<close>

record 'w port_env =
  NtCreateFile :: "'w \<Rightarrow> ntstatus \<times> int \<times> 'w"
  NtDeviceIoControlFile :: "int \<Rightarrow> addr \<Rightarrow> nat \<Rightarrow> 32 word \<Rightarrow> 'w \<Rightarrow> ntstatus \<times> 'w"
  NtCancelIoFileEx :: "int \<Rightarrow> addr \<Rightarrow> 'w \<Rightarrow> ntstatus \<times> 'w"
  RtlNtStatusToDosError :: "ntstatus \<Rightarrow> int"
  iosb_Status :: "addr \<Rightarrow> 'w \<Rightarrow> ntstatus"
  set_iosb_Status :: "addr \<Rightarrow> ntstatus \<Rightarrow> 'w \<Rightarrow> 'w"
  CreateIoCompletionPort :: "int \<Rightarrow> int option \<Rightarrow> 'w \<Rightarrow> int option \<times> int \<times> 'w"
  SetFileCompletionNotificationModes :: "int \<Rightarrow> 'w \<Rightarrow> bool \<times> int \<times> 'w"
  CloseHandle :: "int \<Rightarrow> 'w \<Rightarrow> bool \<times> int \<times> 'w"
  GetQueuedCompletionStatusEx :: "int \<Rightarrow> nat \<Rightarrow> 32 word \<Rightarrow> 'w \<Rightarrow> (addr \<times> completion) list option \<times> int \<times> 'w"
  GetTickCount64 :: "'w \<Rightarrow> 64 word \<times> 'w"
  WSAIoctl :: "nat \<Rightarrow> 32 word \<Rightarrow> 'w \<Rightarrow> nat option \<times> int \<times> 'w"
  malloc_ok :: "'w \<Rightarrow> bool \<times> 'w"

subsection \<open>The driver\<close>

text \<open>The result, the error that was set, and the handle.\<close>

definition afd_create_helper_handle :: "'w port_env \<Rightarrow> int option \<Rightarrow> 'w \<Rightarrow> int \<times> int \<times> int \<times> 'w" where
  "afd_create_helper_handle env iocp_handle w =
     (let (status, afd_helper_handle, w) = NtCreateFile env w
      in if status \<noteq> STATUS_SUCCESS then (-1, RtlNtStatusToDosError env status, 0, w)
         else let (port, err, w) = CreateIoCompletionPort env afd_helper_handle iocp_handle w
              in if port = None
                 then let (closed, e, w) = CloseHandle env afd_helper_handle w in (-1, if closed then err else e, 0, w)
                 else let (ok, err, w) = SetFileCompletionNotificationModes env afd_helper_handle w
                      in if \<not> ok
                         then let (closed, e, w) = CloseHandle env afd_helper_handle w in (-1, if closed then err else e, 0, w)
                         else (0, 0, afd_helper_handle, w))"

definition afd_poll :: "'w port_env \<Rightarrow> int \<Rightarrow> addr \<Rightarrow> nat \<Rightarrow> 32 word \<Rightarrow> 'w \<Rightarrow> int \<times> int \<times> 'w" where
  "afd_poll env afd_helper_handle io_status_block handle events w =
     (let w = set_iosb_Status env io_status_block STATUS_PENDING w;
          (status, w) = NtDeviceIoControlFile env afd_helper_handle io_status_block handle events w
      in if status = STATUS_SUCCESS then (0, 0, w)
         else if status = STATUS_PENDING then (-1, ERROR_IO_PENDING, w)
         else (-1, RtlNtStatusToDosError env status, w))"

definition afd_cancel_poll :: "'w port_env \<Rightarrow> int \<Rightarrow> addr \<Rightarrow> 'w \<Rightarrow> int \<times> int \<times> 'w" where
  "afd_cancel_poll env afd_helper_handle io_status_block w =
     (if iosb_Status env io_status_block w \<noteq> STATUS_PENDING then (0, 0, w)
      else let (cancel_status, w) = NtCancelIoFileEx env afd_helper_handle io_status_block w
           in if cancel_status = STATUS_SUCCESS \<or> cancel_status = STATUS_NOT_FOUND then (0, 0, w)
              else (-1, RtlNtStatusToDosError env cancel_status, w))"

subsection \<open>Base sockets\<close>

definition ws_ioctl_get_bsp_socket :: "'w port_env \<Rightarrow> nat \<Rightarrow> 32 word \<Rightarrow> 'w \<Rightarrow> nat \<times> int \<times> 'w" where
  "ws_ioctl_get_bsp_socket env socket ioctl w =
     (let (r, err, w) = WSAIoctl env socket ioctl w
      in (case r of Some bsp_socket \<Rightarrow> bsp_socket | None \<Rightarrow> INVALID_SOCKET, err, w))"

text \<open>The loop down the chain of providers; no result when the chain does not end.\<close>

partial_function (option) ws_get_base_socket :: "'w port_env \<Rightarrow> nat \<Rightarrow> 'w \<Rightarrow> (nat \<times> int \<times> 'w) option" where
  "ws_get_base_socket env socket w =
     (let (base_socket, err, w) = ws_ioctl_get_bsp_socket env socket SIO_BASE_HANDLE w
      in if base_socket \<noteq> INVALID_SOCKET then Some (base_socket, 0, w)
         else if err = WSAENOTSOCK then Some (INVALID_SOCKET, err, w)
         else let (base_socket, _, w) = ws_ioctl_get_bsp_socket env socket SIO_BSP_HANDLE_POLL w
              in if base_socket \<noteq> INVALID_SOCKET \<and> base_socket \<noteq> socket
                 then ws_get_base_socket env base_socket w
                 else Some (INVALID_SOCKET, err, w))"

declare ws_get_base_socket.simps [code]

text \<open>The chain of providers below a socket ends when every step down lowers some rank.\<close>

definition chain_ends :: "'w port_env \<Rightarrow> (nat \<Rightarrow> nat) \<Rightarrow> bool" where
  "chain_ends env rank \<longleftrightarrow> (\<forall>s w t e w'. WSAIoctl env s SIO_BSP_HANDLE_POLL w = (Some t, e, w') \<longrightarrow> t \<noteq> s \<longrightarrow> rank t < rank s)"

lemma ws_get_base_socket_returns:
  assumes "chain_ends env rank"
  shows "\<exists>r. ws_get_base_socket env socket w = Some r"
proof (induction "rank socket" arbitrary: socket w rule: less_induct)
  case less
  obtain b e w1 where b: "ws_ioctl_get_bsp_socket env socket SIO_BASE_HANDLE w = (b, e, w1)" by (metis prod_cases3)
  obtain c e2 w2 where c: "ws_ioctl_get_bsp_socket env socket SIO_BSP_HANDLE_POLL w1 = (c, e2, w2)" by (metis prod_cases3)
  have "rank c < rank socket" if "c \<noteq> INVALID_SOCKET" "c \<noteq> socket"
  proof -
    have "\<exists>e w'. WSAIoctl env socket SIO_BSP_HANDLE_POLL w1 = (Some c, e, w')"
      using c that by (auto simp: ws_ioctl_get_bsp_socket_def split: prod.splits option.splits)
    then show ?thesis using that(2) assms unfolding chain_ends_def by blast
  qed
  then show ?case using less b c by (subst ws_get_base_socket.simps) auto
qed

end
