(* ===== verification/Wepoll_Sock.thy ===== *)
theory Wepoll_Sock
  imports Wepoll_Queue Wepoll_Rbt Wepoll_Afd Evt
begin

unbundle bit_operations_syntax

text \<open>
  The sockets of the Windows event port, src/src/wepoll.c lines 1358--1449 and 1594--1893.

  A socket asks the kernel driver for one poll at a time; what it monitors (the pending
  events) may lag behind what the user asks for, and a deleted socket may have to wait for
  its poll to come back.  A socket and a poll group are identified with their queue nodes.
  The sockets that are not deleted are in the search tree of Wepoll_Rbt under their number;
  the kernel driver is the parameter of Wepoll_Afd.  An assertion that fails has no result.
\<close>

subsection \<open>Events\<close>

definition EPOLLPRI :: "32 word" where "EPOLLPRI = 0x2"
definition EPOLLRDNORM :: "32 word" where "EPOLLRDNORM = 0x40"
definition EPOLLRDBAND :: "32 word" where "EPOLLRDBAND = 0x80"
definition EPOLLWRNORM :: "32 word" where "EPOLLWRNORM = 0x100"
definition EPOLLWRBAND :: "32 word" where "EPOLLWRBAND = 0x200"
definition EPOLLMSG :: "32 word" where "EPOLLMSG = 0x400"
definition EPOLLONESHOT :: "32 word" where "EPOLLONESHOT = 0x80000000"

definition AFD_POLL_RECEIVE :: "32 word" where "AFD_POLL_RECEIVE = 0x0001"
definition AFD_POLL_RECEIVE_EXPEDITED :: "32 word" where "AFD_POLL_RECEIVE_EXPEDITED = 0x0002"
definition AFD_POLL_SEND :: "32 word" where "AFD_POLL_SEND = 0x0004"
definition AFD_POLL_DISCONNECT :: "32 word" where "AFD_POLL_DISCONNECT = 0x0008"
definition AFD_POLL_ABORT :: "32 word" where "AFD_POLL_ABORT = 0x0010"
definition AFD_POLL_LOCAL_CLOSE :: "32 word" where "AFD_POLL_LOCAL_CLOSE = 0x0020"
definition AFD_POLL_ACCEPT :: "32 word" where "AFD_POLL_ACCEPT = 0x0080"
definition AFD_POLL_CONNECT_FAIL :: "32 word" where "AFD_POLL_CONNECT_FAIL = 0x0100"

lemmas wepoll_defs = epoll_defs EPOLLPRI_def EPOLLRDNORM_def EPOLLRDBAND_def EPOLLWRNORM_def EPOLLWRBAND_def
  EPOLLMSG_def EPOLLONESHOT_def
lemmas afd_defs = AFD_POLL_RECEIVE_def AFD_POLL_RECEIVE_EXPEDITED_def AFD_POLL_SEND_def AFD_POLL_DISCONNECT_def
  AFD_POLL_ABORT_def AFD_POLL_LOCAL_CLOSE_def AFD_POLL_ACCEPT_def AFD_POLL_CONNECT_FAIL_def

definition SOCK_KNOWN_EPOLL_EVENTS :: "32 word" where
  "SOCK_KNOWN_EPOLL_EVENTS = EPOLLIN OR EPOLLPRI OR EPOLLOUT OR EPOLLERR OR EPOLLHUP OR EPOLLRDNORM OR
     EPOLLRDBAND OR EPOLLWRNORM OR EPOLLWRBAND OR EPOLLMSG OR EPOLLRDHUP"

text \<open>\<open>if (events & msk) acc |= flags;\<close>\<close>

definition or_if :: "32 word \<Rightarrow> 32 word \<Rightarrow> 32 word \<Rightarrow> 32 word \<Rightarrow> 32 word" where
  "or_if events msk flags acc = (if events AND msk \<noteq> 0 then acc OR flags else acc)"

definition epoll_events_to_afd_events :: "32 word \<Rightarrow> 32 word" where
  "epoll_events_to_afd_events epoll_events =
     (let afd_events = AFD_POLL_LOCAL_CLOSE;
          afd_events = or_if epoll_events (EPOLLIN OR EPOLLRDNORM) (AFD_POLL_RECEIVE OR AFD_POLL_ACCEPT) afd_events;
          afd_events = or_if epoll_events (EPOLLPRI OR EPOLLRDBAND) AFD_POLL_RECEIVE_EXPEDITED afd_events;
          afd_events = or_if epoll_events (EPOLLOUT OR EPOLLWRNORM OR EPOLLWRBAND) AFD_POLL_SEND afd_events;
          afd_events = or_if epoll_events (EPOLLIN OR EPOLLRDNORM OR EPOLLRDHUP) AFD_POLL_DISCONNECT afd_events;
          afd_events = or_if epoll_events EPOLLHUP AFD_POLL_ABORT afd_events
      in or_if epoll_events EPOLLERR AFD_POLL_CONNECT_FAIL afd_events)"

definition afd_events_to_epoll_events :: "32 word \<Rightarrow> 32 word" where
  "afd_events_to_epoll_events afd_events =
     (let epoll_events = 0;
          epoll_events = or_if afd_events (AFD_POLL_RECEIVE OR AFD_POLL_ACCEPT) (EPOLLIN OR EPOLLRDNORM) epoll_events;
          epoll_events = or_if afd_events AFD_POLL_RECEIVE_EXPEDITED (EPOLLPRI OR EPOLLRDBAND) epoll_events;
          epoll_events = or_if afd_events AFD_POLL_SEND (EPOLLOUT OR EPOLLWRNORM OR EPOLLWRBAND) epoll_events;
          epoll_events = or_if afd_events AFD_POLL_DISCONNECT (EPOLLIN OR EPOLLRDNORM OR EPOLLRDHUP) epoll_events;
          epoll_events = or_if afd_events AFD_POLL_ABORT EPOLLHUP epoll_events
      in or_if afd_events AFD_POLL_CONNECT_FAIL
           (EPOLLIN OR EPOLLOUT OR EPOLLERR OR EPOLLRDNORM OR EPOLLWRNORM OR EPOLLRDHUP) epoll_events)"

subsection \<open>State\<close>

datatype poll_status = SOCK_POLL_IDLE | SOCK_POLL_PENDING | SOCK_POLL_CANCELLED

record sock_state_t =
  so_poll_group :: addr
  so_base_socket :: nat
  so_user_data :: nat
  so_user_events :: "32 word"
  so_pending_events :: "32 word"
  so_poll_status :: poll_status
  so_delete_pending :: bool

text \<open>The epoll event of the caller.\<close>

record epoll_event_t =
  ee_events :: "32 word"
  ee_data :: nat

record 'w port_state_t =
  ps_iocp_handle :: "int option"
  ps_sock_tree :: tree_t
  ps_update_queue :: addr
  ps_deleted_queue :: addr
  ps_group_queue :: addr
  ps_active_poll_count :: nat
  ps_nodes :: queue_mem
  ps_socks :: "addr \<rightharpoonup> sock_state_t"
  ps_group_size :: "addr \<rightharpoonup> int"
  ps_group_handle :: "addr \<rightharpoonup> int"
  ps_brk :: addr
  ps_last_error :: int
  ps_world :: 'w

definition POLL_GROUP_MAX_GROUP_SIZE :: int where "POLL_GROUP_MAX_GROUP_SIZE = 32"

type_synonym 'w port = "'w port_state_t"

definition upd_sock :: "addr \<Rightarrow> (sock_state_t \<Rightarrow> sock_state_t) \<Rightarrow> 'w port \<Rightarrow> 'w port option" where
  "upd_sock a f p = do { so \<leftarrow> ps_socks p a; Some (p\<lparr>ps_socks := (ps_socks p)(a \<mapsto> f so)\<rparr>) }"

definition upd_nodes :: "(queue_mem \<Rightarrow> queue_mem option) \<Rightarrow> 'w port \<Rightarrow> 'w port option" where
  "upd_nodes f p = do { m \<leftarrow> f (ps_nodes p); Some (p\<lparr>ps_nodes := m\<rparr>) }"

subsection \<open>The port's queues\<close>

definition port_request_socket_update :: "addr \<Rightarrow> 'w port \<Rightarrow> 'w port option" where
  "port_request_socket_update a p = do {
     e \<leftarrow> queue_is_enqueued (ps_nodes p) a;
     if e then Some p else upd_nodes (\<lambda>m. queue_append m (ps_update_queue p) a) p
   }"

definition port_cancel_socket_update :: "addr \<Rightarrow> 'w port \<Rightarrow> 'w port option" where
  "port_cancel_socket_update a p = do {
     e \<leftarrow> queue_is_enqueued (ps_nodes p) a;
     if \<not> e then Some p else upd_nodes (\<lambda>m. queue_remove m a) p
   }"

definition port_add_deleted_socket :: "addr \<Rightarrow> 'w port \<Rightarrow> 'w port option" where
  "port_add_deleted_socket a p = do {
     e \<leftarrow> queue_is_enqueued (ps_nodes p) a;
     if e then Some p else upd_nodes (\<lambda>m. queue_append m (ps_deleted_queue p) a) p
   }"

definition port_remove_deleted_socket :: "addr \<Rightarrow> 'w port \<Rightarrow> 'w port option" where
  "port_remove_deleted_socket a p = do {
     e \<leftarrow> queue_is_enqueued (ps_nodes p) a;
     if \<not> e then Some p else upd_nodes (\<lambda>m. queue_remove m a) p
   }"

definition port_unregister_socket :: "addr \<Rightarrow> 'w port \<Rightarrow> 'w port option" where
  "port_unregister_socket a p = do { tree \<leftarrow> tree_del a (ps_sock_tree p); Some (p\<lparr>ps_sock_tree := tree\<rparr>) }"

definition poll_group_release :: "addr \<Rightarrow> 'w port \<Rightarrow> 'w port option" where
  "poll_group_release g p = do {
     n \<leftarrow> ps_group_size p g;
     let p = p\<lparr>ps_group_size := (ps_group_size p)(g \<mapsto> n - 1)\<rparr>;
     if 0 \<le> n - 1 \<and> n - 1 < POLL_GROUP_MAX_GROUP_SIZE
     then upd_nodes (\<lambda>m. queue_move_to_end m (ps_group_queue p) g) p else None
   }"

subsection \<open>Socket operations\<close>

definition sock_cancel_poll :: "'w port_env \<Rightarrow> addr \<Rightarrow> 'w port \<Rightarrow> (int \<times> 'w port) option" where
  "sock_cancel_poll env a p = do {
     so \<leftarrow> ps_socks p a;
     if so_poll_status so = SOCK_POLL_PENDING then do {
       h \<leftarrow> ps_group_handle p (so_poll_group so);
       let (r, err, w) = afd_cancel_poll env h a (ps_world p);
       let p = p\<lparr>ps_world := w\<rparr>;
       if r < 0 then Some (-1, p\<lparr>ps_last_error := err\<rparr>)
       else do {
         p \<leftarrow> upd_sock a (\<lambda>so. so\<lparr>so_poll_status := SOCK_POLL_CANCELLED, so_pending_events := 0\<rparr>) p;
         Some (0, p)
       }
     } else None
   }"

text \<open>Freeing a socket also frees its queue node and its tree node.\<close>

definition sock_free :: "addr \<Rightarrow> 'w port \<Rightarrow> 'w port option" where
  "sock_free a p = do {
     _ \<leftarrow> ps_socks p a;
     Some (p\<lparr>ps_socks := (ps_socks p)(a := None),
             ps_sock_tree := (ps_sock_tree p)\<lparr>tr_nodes := (tr_nodes (ps_sock_tree p))(a := None)\<rparr>,
             ps_nodes := (ps_nodes p)\<lparr>qn_prev := (qn_prev (ps_nodes p))(a := None), qn_next := (qn_next (ps_nodes p))(a := None)\<rparr>\<rparr>)
   }"

definition sock_delete_with :: "'w port_env \<Rightarrow> addr \<Rightarrow> bool \<Rightarrow> 'w port \<Rightarrow> (int \<times> 'w port) option" where
  "sock_delete_with env a force p = do {
     so \<leftarrow> ps_socks p a;
     p \<leftarrow> (if \<not> so_delete_pending so then do {
            p \<leftarrow> (if so_poll_status so = SOCK_POLL_PENDING then do { (_, p) \<leftarrow> sock_cancel_poll env a p; Some p } else Some p);
            p \<leftarrow> port_cancel_socket_update a p;
            p \<leftarrow> port_unregister_socket a p;
            upd_sock a (\<lambda>so. so\<lparr>so_delete_pending := True\<rparr>) p
          } else Some p);
     so \<leftarrow> ps_socks p a;
     p \<leftarrow> (if force \<or> so_poll_status so = SOCK_POLL_IDLE then do {
            p \<leftarrow> port_remove_deleted_socket a p;
            p \<leftarrow> poll_group_release (so_poll_group so) p;
            sock_free a p
          } else port_add_deleted_socket a p);
     Some (0, p)
   }"

definition sock_delete :: "'w port_env \<Rightarrow> addr \<Rightarrow> 'w port \<Rightarrow> 'w port option" where
  "sock_delete env a p = do { (_, p) \<leftarrow> sock_delete_with env a False p; Some p }"

definition sock_force_delete :: "'w port_env \<Rightarrow> addr \<Rightarrow> 'w port \<Rightarrow> 'w port option" where
  "sock_force_delete env a p = do { (_, p) \<leftarrow> sock_delete_with env a True p; Some p }"

definition sock_set_event :: "addr \<Rightarrow> epoll_event_t \<Rightarrow> 'w port \<Rightarrow> (int \<times> 'w port) option" where
  "sock_set_event a ev p = do {
     let events = ee_events ev OR EPOLLERR OR EPOLLHUP;
     p \<leftarrow> upd_sock a (\<lambda>so. so\<lparr>so_user_events := events, so_user_data := ee_data ev\<rparr>) p;
     so \<leftarrow> ps_socks p a;
     p \<leftarrow> (if events AND SOCK_KNOWN_EPOLL_EVENTS AND NOT (so_pending_events so) \<noteq> 0
          then port_request_socket_update a p else Some p);
     Some (0, p)
   }"

definition sock_update :: "'w port_env \<Rightarrow> addr \<Rightarrow> 'w port \<Rightarrow> (int \<times> 'w port) option" where
  "sock_update env a p = do {
     so \<leftarrow> ps_socks p a;
     if so_delete_pending so then None
     else if so_poll_status so = SOCK_POLL_PENDING \<and>
             so_user_events so AND SOCK_KNOWN_EPOLL_EVENTS AND NOT (so_pending_events so) = 0 then do {
       p \<leftarrow> port_cancel_socket_update a p;
       Some (0, p)
     }
     else case so_poll_status so of
       SOCK_POLL_PENDING \<Rightarrow> do {
         (r, p) \<leftarrow> sock_cancel_poll env a p;
         if r < 0 then Some (-1, p)
         else do { p \<leftarrow> port_cancel_socket_update a p; Some (0, p) }
       }
     | SOCK_POLL_CANCELLED \<Rightarrow> do { p \<leftarrow> port_cancel_socket_update a p; Some (0, p) }
     | SOCK_POLL_IDLE \<Rightarrow> do {
         h \<leftarrow> ps_group_handle p (so_poll_group so);
         let (r, err, w) = afd_poll env h a (so_base_socket so)
               (epoll_events_to_afd_events (so_user_events so)) (ps_world p);
         let p = p\<lparr>ps_world := w\<rparr>;
         if r < 0 \<and> err = ERROR_INVALID_HANDLE then sock_delete_with env a False (p\<lparr>ps_last_error := err\<rparr>)
         else if r < 0 \<and> err \<noteq> ERROR_IO_PENDING then Some (-1, p\<lparr>ps_last_error := err\<rparr>)
         else do {
           p \<leftarrow> upd_sock a (\<lambda>so. so\<lparr>so_poll_status := SOCK_POLL_PENDING, so_pending_events := so_user_events so\<rparr>)
                 (if r < 0 then p\<lparr>ps_last_error := err\<rparr> else p);
           p \<leftarrow> port_cancel_socket_update a p;
           Some (0, p)
         }
       }
   }"

text \<open>A completion of the socket's poll; the event to report, if any.\<close>

definition sock_feed_event :: "'w port_env \<Rightarrow> addr \<Rightarrow> completion \<Rightarrow> 'w port \<Rightarrow>
    (int \<times> epoll_event_t option \<times> 'w port) option" where
  "sock_feed_event env a io p = do {
     p \<leftarrow> upd_sock a (\<lambda>so. so\<lparr>so_poll_status := SOCK_POLL_IDLE, so_pending_events := 0\<rparr>) p;
     so \<leftarrow> ps_socks p a;
     if so_delete_pending so then do { (r, p) \<leftarrow> sock_delete_with env a False p; Some (r, None, p) }
     else if cp_status io \<noteq> STATUS_CANCELLED \<and> NT_SUCCESS (cp_status io) \<and> cp_handles io \<ge> 1 \<and>
             cp_events io AND AFD_POLL_LOCAL_CLOSE \<noteq> 0
     then do { (r, p) \<leftarrow> sock_delete_with env a False p; Some (r, None, p) }
     else do {
       let epoll_events =
         (if cp_status io = STATUS_CANCELLED then 0
          else if \<not> NT_SUCCESS (cp_status io) then EPOLLERR
          else if cp_handles io < 1 then 0
          else afd_events_to_epoll_events (cp_events io));
       p \<leftarrow> port_request_socket_update a p;
       let epoll_events = epoll_events AND so_user_events so;
       if epoll_events = 0 then Some (0, None, p)
       else do {
         p \<leftarrow> (if so_user_events so AND EPOLLONESHOT \<noteq> 0 then upd_sock a (\<lambda>so. so\<lparr>so_user_events := 0\<rparr>) p else Some p);
         Some (1, Some \<lparr>ee_events = epoll_events, ee_data = so_user_data so\<rparr>, p)
       }
     }
   }"

text \<open>
  Submitting the polls that are wanted, until the update queue is empty; no result when an
  assertion fails or the loop does not end.
\<close>

partial_function (option) port_update_events :: "'w port_env \<Rightarrow> 'w port \<Rightarrow> (int \<times> 'w port) option" where
  "port_update_events env p = do {
     e \<leftarrow> queue_is_empty (ps_nodes p) (ps_update_queue p);
     if e then Some (0, p)
     else do {
       n \<leftarrow> queue_first (ps_nodes p) (ps_update_queue p);
       a \<leftarrow> n;
       (r, p) \<leftarrow> sock_update env a p;
       if r < 0 then Some (-1, p) else port_update_events env p
     }
   }"

declare port_update_events.simps [code]

definition port_update_events_if_polling :: "'w port_env \<Rightarrow> 'w port \<Rightarrow> 'w port option" where
  "port_update_events_if_polling env p =
     (if ps_active_poll_count p > 0 then do { (_, p) \<leftarrow> port_update_events env p; Some p } else Some p)"

text \<open>The completions come with the socket they are for; the events to report, in order.\<close>

fun port_feed_events :: "'w port_env \<Rightarrow> (addr \<times> completion) list \<Rightarrow> 'w port \<Rightarrow> (epoll_event_t list \<times> 'w port) option" where
  "port_feed_events env [] p = Some ([], p)"
| "port_feed_events env ((a, io) # ios) p = do {
     (r, ev, p) \<leftarrow> sock_feed_event env a io p;
     (evs, p) \<leftarrow> port_feed_events env ios p;
     Some ((case ev of Some ev \<Rightarrow> [ev] | None \<Rightarrow> []) @ evs, p)
   }"

subsection \<open>The three queues\<close>

text \<open>
  The update queue, the queue of deleted sockets and the queue of poll groups are disjoint;
  a socket is in the first, in the second, or idle.
\<close>

definition qrep :: "queue_mem \<Rightarrow> addr \<Rightarrow> addr \<Rightarrow> addr \<Rightarrow> addr set \<Rightarrow> addr list \<Rightarrow> addr list \<Rightarrow> addr list \<Rightarrow> bool" where
  "qrep m u d g S U D G \<longleftrightarrow> queue m u U \<and> queue m d D \<and> queue m g G \<and> distinct (u # d # g # U @ D @ G) \<and>
     set U \<subseteq> S \<and> set D \<subseteq> S \<and> S \<inter> set (u # d # g # G) = {} \<and> (\<forall>a\<in>S - set U - set D. idle m a)"

lemma idle_qnode: "idle m a \<Longrightarrow> qnode m a"
  by (simp add: idle_def qnode_def)

lemma idle_only: "idle m a \<Longrightarrow> only A m m' \<Longrightarrow> a \<notin> A \<Longrightarrow> idle m' a"
  by (simp add: idle_def only_def)

lemma qrep_enqueued:
  assumes "qrep m u d g S U D G" "a \<in> S"
  shows "queue_is_enqueued m a = Some (a \<in> set U \<or> a \<in> set D)"
proof (cases "a \<in> set U \<or> a \<in> set D")
  case True
  then show ?thesis using assms queue_is_enqueued_member by (auto simp: qrep_def)
next
  case False
  then have "idle m a" using assms by (simp add: qrep_def)
  then show ?thesis using False by (simp add: queue_is_enqueued_def idle_def)
qed

lemma qrep_append_update:
  assumes q: "qrep m u d g S U D G" and a: "a \<in> S" "a \<notin> set U" "a \<notin> set D"
  shows "\<exists>m'. queue_append m u a = Some m' \<and> qrep m' u d g S (U @ [a]) D G"
proof -
  have "idle m a" "a \<notin> set (u # U)" using q a by (auto simp: qrep_def)
  then obtain m' where m': "queue_append m u a = Some m'" "queue m' u (U @ [a])" "only (set (a # u # U)) m m'"
    using queue_append_list [of m u U a] q by (auto simp: qrep_def idle_qnode)
  have "queue m' d D" by (rule queue_other [OF _ m'(3)]) (use q a in \<open>auto simp: qrep_def\<close>)
  moreover have "queue m' g G" by (rule queue_other [OF _ m'(3)]) (use q a in \<open>auto simp: qrep_def\<close>)
  moreover have "\<forall>b\<in>S - set (U @ [a]) - set D. idle m' b"
    by (intro ballI idle_only [OF _ m'(3)]) (use q in \<open>auto simp: qrep_def\<close>)
  ultimately show ?thesis using m' q a by (auto simp: qrep_def)
qed

lemma qrep_append_deleted:
  assumes q: "qrep m u d g S U D G" and a: "a \<in> S" "a \<notin> set U" "a \<notin> set D"
  shows "\<exists>m'. queue_append m d a = Some m' \<and> qrep m' u d g S U (D @ [a]) G"
proof -
  have "idle m a" "a \<notin> set (d # D)" using q a by (auto simp: qrep_def)
  then obtain m' where m': "queue_append m d a = Some m'" "queue m' d (D @ [a])" "only (set (a # d # D)) m m'"
    using queue_append_list [of m d D a] q by (auto simp: qrep_def idle_qnode)
  have "queue m' u U" by (rule queue_other [OF _ m'(3)]) (use q a in \<open>auto simp: qrep_def\<close>)
  moreover have "queue m' g G" by (rule queue_other [OF _ m'(3)]) (use q a in \<open>auto simp: qrep_def\<close>)
  moreover have "\<forall>b\<in>S - set U - set (D @ [a]). idle m' b"
    by (intro ballI idle_only [OF _ m'(3)]) (use q in \<open>auto simp: qrep_def\<close>)
  ultimately show ?thesis using m' q a by (auto simp: qrep_def)
qed

lemma qrep_remove:
  assumes q: "qrep m u d g S U D G" and a: "a \<in> set U \<or> a \<in> set D"
  shows "\<exists>m'. queue_remove m a = Some m' \<and> qrep m' u d g S (remove1 a U) (remove1 a D) G"
proof -
  have dis: "distinct U" "distinct D" "\<not> (a \<in> set U \<and> a \<in> set D)" using q by (auto simp: qrep_def)
  have "\<exists>m' A. queue_remove m a = Some m' \<and> queue m' u (remove1 a U) \<and> queue m' d (remove1 a D) \<and> queue m' g G \<and>
      idle m' a \<and> only A m m' \<and> A \<subseteq> set (u # d # U @ D)"
  proof (cases "a \<in> set U")
    case True
    then obtain m' where m': "queue_remove m a = Some m'" "queue m' u (remove1 a U)" "idle m' a" "only (set (u # U)) m m'"
      using queue_remove_list [of m u U a] q by (auto simp: qrep_def)
    have "queue m' d D" by (rule queue_other [OF _ m'(4)]) (use q in \<open>auto simp: qrep_def\<close>)
    moreover have "queue m' g G" by (rule queue_other [OF _ m'(4)]) (use q in \<open>auto simp: qrep_def\<close>)
    ultimately show ?thesis using m' True dis by (auto simp: remove1_idem intro!: exI [of _ "set (u # U)"])
  next
    case False
    then obtain m' where m': "queue_remove m a = Some m'" "queue m' d (remove1 a D)" "idle m' a" "only (set (d # D)) m m'"
      using queue_remove_list [of m d D a] q a by (auto simp: qrep_def)
    have "queue m' u U" by (rule queue_other [OF _ m'(4)]) (use q in \<open>auto simp: qrep_def\<close>)
    moreover have "queue m' g G" by (rule queue_other [OF _ m'(4)]) (use q in \<open>auto simp: qrep_def\<close>)
    ultimately show ?thesis using m' False by (auto simp: remove1_idem intro!: exI [of _ "set (d # D)"])
  qed
  then obtain m' A where m': "queue_remove m a = Some m'" "queue m' u (remove1 a U)" "queue m' d (remove1 a D)" "queue m' g G"
      "idle m' a" "only A m m'" "A \<subseteq> set (u # d # U @ D)" by blast
  have "\<forall>b\<in>S - set (remove1 a U) - set (remove1 a D). idle m' b"
  proof
    fix b assume b: "b \<in> S - set (remove1 a U) - set (remove1 a D)"
    show "idle m' b"
    proof (cases "b = a")
      case False
      then have "b \<notin> A" "idle m b" using b m'(7) q by (auto simp: qrep_def)
      then show ?thesis using idle_only m'(6) by blast
    qed (use m'(5) in simp)
  qed
  then show ?thesis
    using m' q set_remove1_subset [of a U] set_remove1_subset [of a D]
    by (auto simp: qrep_def distinct_remove1)
qed

lemma qrep_move_group:
  assumes q: "qrep m u d g S U D G" and x: "x \<in> set G"
  shows "\<exists>m'. queue_move_to_end m g x = Some m' \<and> qrep m' u d g S U D (remove1 x G @ [x])"
proof -
  obtain m' where m': "queue_move_to_end m g x = Some m'" "queue m' g (remove1 x G @ [x])" "only (set (g # G)) m m'"
    using queue_move_list(1) [of m g G x] q x by (auto simp: qrep_def)
  have s: "set (remove1 x G @ [x]) = set G" using q x by (auto simp: qrep_def)
  have "queue m' u U" by (rule queue_other [OF _ m'(3)]) (use q in \<open>auto simp: qrep_def\<close>)
  moreover have "queue m' d D" by (rule queue_other [OF _ m'(3)]) (use q in \<open>auto simp: qrep_def\<close>)
  moreover have "\<forall>b\<in>S - set U - set D. idle m' b"
    by (intro ballI idle_only [OF _ m'(3)]) (use q in \<open>auto simp: qrep_def\<close>)
  moreover have "distinct (remove1 x G @ [x])" using q by (simp add: qrep_def distinct_remove1)
  ultimately show ?thesis using m' q s by (auto simp: qrep_def)
qed

lemma qrep_free:
  assumes q: "qrep m u d g S U D G" and a: "a \<in> S" "a \<notin> set U" "a \<notin> set D"
  shows "qrep (m\<lparr>qn_prev := (qn_prev m)(a := None), qn_next := (qn_next m)(a := None)\<rparr>) u d g (S - {a}) U D G"
    (is "qrep ?m _ _ _ _ _ _ _")
proof -
  have o: "only {a} m ?m" by (simp add: only_def)
  have "queue ?m u U" by (rule queue_other [OF _ o]) (use q a in \<open>auto simp: qrep_def\<close>)
  moreover have "queue ?m d D" by (rule queue_other [OF _ o]) (use q a in \<open>auto simp: qrep_def\<close>)
  moreover have "queue ?m g G" by (rule queue_other [OF _ o]) (use q a in \<open>auto simp: qrep_def\<close>)
  moreover have "\<forall>b\<in>S - {a} - set U - set D. idle ?m b"
    by (intro ballI idle_only [OF _ o]) (use q in \<open>auto simp: qrep_def\<close>)
  ultimately show ?thesis using q a by (auto simp: qrep_def)
qed


subsection \<open>The invariant of the port\<close>

definition sock_ok :: "sock_state_t \<Rightarrow> bool" where
  "sock_ok so \<longleftrightarrow> (so_poll_status so \<noteq> SOCK_POLL_PENDING \<longrightarrow> so_pending_events so = 0)"

definition members :: "(addr \<rightharpoonup> sock_state_t) \<Rightarrow> addr \<Rightarrow> addr set" where
  "members h g = {a. \<exists>so. h a = Some so \<and> so_poll_group so = g}"

text \<open>The sizes of the poll groups; the full ones come first in their queue.\<close>

definition full_first :: "(addr \<rightharpoonup> int) \<Rightarrow> addr list \<Rightarrow> bool" where
  "full_first sz G \<longleftrightarrow>
     sorted_wrt (\<lambda>g h. sz h = Some POLL_GROUP_MAX_GROUP_SIZE \<longrightarrow> sz g = Some POLL_GROUP_MAX_GROUP_SIZE) G"

definition groups_ok :: "(addr \<rightharpoonup> sock_state_t) \<Rightarrow> (addr \<rightharpoonup> int) \<Rightarrow> addr list \<Rightarrow> bool" where
  "groups_ok h sz G \<longleftrightarrow> finite (dom h) \<and> dom sz = set G \<and> (\<forall>a so. h a = Some so \<longrightarrow> so_poll_group so \<in> set G) \<and>
     (\<forall>g n. sz g = Some n \<longrightarrow> n = int (card (members h g)) \<and> n \<le> POLL_GROUP_MAX_GROUP_SIZE) \<and> full_first sz G"

text \<open>
  Where a socket is.  A deleted one is in the queue of deleted ones and its poll is still
  outstanding.  For any other, the pending poll covers all known events the user asks for,
  or the socket is in the update queue, or its poll is being cancelled.
\<close>

definition covered :: "sock_state_t \<Rightarrow> bool" where
  "covered so \<longleftrightarrow> so_user_events so AND SOCK_KNOWN_EPOLL_EVENTS AND NOT (so_pending_events so) = 0"

definition placed :: "addr list \<Rightarrow> addr list \<Rightarrow> addr \<Rightarrow> sock_state_t \<Rightarrow> bool" where
  "placed U D a so \<longleftrightarrow> (so_delete_pending so \<longleftrightarrow> a \<in> set D) \<and> (a \<in> set D \<longrightarrow> so_poll_status so \<noteq> SOCK_POLL_IDLE) \<and>
     (\<not> so_delete_pending so \<longrightarrow> a \<in> set U \<or> so_poll_status so = SOCK_POLL_CANCELLED \<or> covered so)"

text \<open>
  The tree indexes exactly the sockets that are not deleted, and the poll groups have their
  handles; every node is below the first free address.
\<close>

definition live_socks :: "(addr \<rightharpoonup> sock_state_t) \<Rightarrow> addr set" where
  "live_socks h = {a. \<exists>so. h a = Some so \<and> \<not> so_delete_pending so}"

definition index_ok :: "tree_t \<Rightarrow> (addr \<rightharpoonup> sock_state_t) \<Rightarrow> bool" where
  "index_ok t h \<longleftrightarrow> (\<exists>f. tr.indexes t f \<and> ran f = live_socks h) \<and> dom (tr_nodes t) = dom h"

definition port_mem :: "'w port \<Rightarrow> addr list \<Rightarrow> bool" where
  "port_mem p G \<longleftrightarrow> dom (ps_group_handle p) = set G \<and>
     dom (ps_socks p) \<union> set (ps_update_queue p # ps_deleted_queue p # ps_group_queue p # G) \<subseteq> {..<ps_brk p}"

text \<open>The set \<open>X\<close> exempts the socket an operation is working on.\<close>

definition port_rep :: "'w port \<Rightarrow> addr set \<Rightarrow> addr list \<Rightarrow> addr list \<Rightarrow> addr list \<Rightarrow> bool" where
  "port_rep p X U D G \<longleftrightarrow>
     qrep (ps_nodes p) (ps_update_queue p) (ps_deleted_queue p) (ps_group_queue p) (dom (ps_socks p)) U D G \<and>
     groups_ok (ps_socks p) (ps_group_size p) G \<and> index_ok (ps_sock_tree p) (ps_socks p) \<and> port_mem p G \<and>
     (\<forall>a so. ps_socks p a = Some so \<longrightarrow> sock_ok so \<and> (a \<notin> X \<longrightarrow> placed U D a so))"

definition port_inv :: "'w port \<Rightarrow> bool" where
  "port_inv p \<longleftrightarrow> (\<exists>U D G. port_rep p {} U D G)"

lemma dom_upd_in: "h a = Some x \<Longrightarrow> dom (h(a \<mapsto> y)) = dom h"
  by auto

lemma groups_upd:
  assumes "groups_ok h sz G" "h a = Some so" "so_poll_group so' = so_poll_group so"
  shows "groups_ok (h(a \<mapsto> so')) sz G"
proof -
  have "members (h(a \<mapsto> so')) g = members h g" for g using assms(2,3) by (auto simp: members_def)
  then show ?thesis using assms unfolding groups_ok_def by (auto simp: dom_upd_in split: if_splits)
qed

lemma index_upd:
  assumes "index_ok t h" "h a = Some so" "so_delete_pending so' = so_delete_pending so"
  shows "index_ok t (h(a \<mapsto> so'))"
proof -
  have "live_socks (h(a \<mapsto> so')) = live_socks h" "dom (h(a \<mapsto> so')) = dom h" using assms(2,3) by (auto simp: live_socks_def)
  then show ?thesis using assms(1) unfolding index_ok_def by simp
qed

lemma mem_upd: "port_mem p G \<Longrightarrow> ps_socks p a = Some so \<Longrightarrow> port_mem (p\<lparr>ps_socks := (ps_socks p)(a \<mapsto> so')\<rparr>) G"
  by (auto simp: port_mem_def)

lemma mem_simps [simp]:
  "port_mem (p\<lparr>ps_world := w\<rparr>) G = port_mem p G" "port_mem (p\<lparr>ps_last_error := e\<rparr>) G = port_mem p G"
  "port_mem (p\<lparr>ps_sock_tree := t\<rparr>) G = port_mem p G" "port_mem (p\<lparr>ps_nodes := m\<rparr>) G = port_mem p G"
  "port_mem (p\<lparr>ps_group_size := z\<rparr>) G = port_mem p G" "port_mem (p\<lparr>ps_active_poll_count := k\<rparr>) G = port_mem p G"
  "port_mem (p\<lparr>ps_iocp_handle := i\<rparr>) G = port_mem p G"
  by (simp_all add: port_mem_def)

lemma rep_upd_sock:
  assumes "port_rep p X U D G" "ps_socks p a = Some so" "so_poll_group (f so) = so_poll_group so" "sock_ok (f so)"
    "so_delete_pending (f so) = so_delete_pending so"
    and "a \<notin> Y \<Longrightarrow> placed U D a (f so)" "X \<subseteq> insert a Y"
  shows "\<exists>p'. upd_sock a f p = Some p' \<and> port_rep p' Y U D G \<and> p' = p\<lparr>ps_socks := (ps_socks p)(a \<mapsto> f so)\<rparr>"
  using assms groups_upd [of "ps_socks p" "ps_group_size p" G a so "f so"] index_upd [of "ps_sock_tree p" "ps_socks p" a so "f so"] mem_upd [of p G a so "f so"]
  unfolding port_rep_def by (auto simp: upd_sock_def insert_absorb domI split: if_splits)

lemma rep_world [simp]:
  "port_rep (p\<lparr>ps_world := w\<rparr>) X U D G = port_rep p X U D G" "port_rep (p\<lparr>ps_last_error := e\<rparr>) X U D G = port_rep p X U D G"
  "port_rep (p\<lparr>ps_active_poll_count := k\<rparr>) X U D G = port_rep p X U D G" "port_rep (p\<lparr>ps_iocp_handle := i\<rparr>) X U D G = port_rep p X U D G"
  by (simp_all add: port_rep_def)

lemma rep_request:
  assumes "port_rep p X U D G" "ps_socks p a = Some so" "a \<notin> set D"
  shows "\<exists>p' U'. port_request_socket_update a p = Some p' \<and> port_rep p' X U' D G \<and> a \<in> set U' \<and> ps_socks p' = ps_socks p"
proof -
  have q: "qrep (ps_nodes p) (ps_update_queue p) (ps_deleted_queue p) (ps_group_queue p) (dom (ps_socks p)) U D G" "a \<in> dom (ps_socks p)"
    using assms by (auto simp: port_rep_def)
  show ?thesis
  proof (cases "a \<in> set U")
    case True
    then show ?thesis using assms qrep_enqueued [OF q] by (auto simp: port_request_socket_update_def)
  next
    case False
    from qrep_append_update [OF q False assms(3)] obtain m' where
      "queue_append (ps_nodes p) (ps_update_queue p) a = Some m'"
      "qrep m' (ps_update_queue p) (ps_deleted_queue p) (ps_group_queue p) (dom (ps_socks p)) (U @ [a]) D G" by blast
    then show ?thesis
      using assms False qrep_enqueued [OF q]
      by (intro exI [of _ "p\<lparr>ps_nodes := m'\<rparr>"] exI [of _ "U @ [a]"])
         (auto simp: port_request_socket_update_def upd_nodes_def port_rep_def placed_def)
  qed
qed

lemma rep_unqueue:
  assumes "port_rep p X U D G" "ps_socks p a = Some so"
  shows "\<exists>p'. port_cancel_socket_update a p = Some p' \<and> port_remove_deleted_socket a p = Some p' \<and>
    port_rep p' (insert a X) (remove1 a U) (remove1 a D) G \<and> (\<exists>m. p' = p\<lparr>ps_nodes := m\<rparr>)"
proof -
  have q: "qrep (ps_nodes p) (ps_update_queue p) (ps_deleted_queue p) (ps_group_queue p) (dom (ps_socks p)) U D G" "a \<in> dom (ps_socks p)"
    using assms by (auto simp: port_rep_def)
  have pl: "placed (remove1 a U) (remove1 a D) b x \<longleftrightarrow> placed U D b x" if "b \<noteq> a" for b x
    using that by (simp add: placed_def)
  show ?thesis
  proof (cases "a \<in> set U \<or> a \<in> set D")
    case True
    from qrep_remove [OF q(1) True] obtain m' where m':
      "queue_remove (ps_nodes p) a = Some m'"
      "qrep m' (ps_update_queue p) (ps_deleted_queue p) (ps_group_queue p) (dom (ps_socks p)) (remove1 a U) (remove1 a D) G" by blast
    have "port_rep (p\<lparr>ps_nodes := m'\<rparr>) (insert a X) (remove1 a U) (remove1 a D) G"
      using assms(1) m'(2) pl unfolding port_rep_def by simp
    then show ?thesis
      using True m'(1) qrep_enqueued [OF q]
      by (auto simp: port_cancel_socket_update_def port_remove_deleted_socket_def upd_nodes_def)
  next
    case False
    have "port_rep p (insert a X) U D G" using assms(1) by (simp add: port_rep_def)
    then show ?thesis
      using False qrep_enqueued [OF q]
      by (auto simp: port_cancel_socket_update_def port_remove_deleted_socket_def remove1_idem intro: exI [of _ "ps_nodes p"])
  qed
qed

subsection \<open>Deleting a socket\<close>

lemma full_first_end:
  assumes "full_first sz G" "distinct G" "n \<noteq> POLL_GROUP_MAX_GROUP_SIZE"
  shows "full_first (sz(g \<mapsto> n)) (remove1 g G @ [g])"
proof -
  have "sorted_wrt (\<lambda>x y. sz y = Some POLL_GROUP_MAX_GROUP_SIZE \<longrightarrow> sz x = Some POLL_GROUP_MAX_GROUP_SIZE) (remove1 g G)"
    using assms(1,2) by (simp add: full_first_def distinct_remove1_removeAll removeAll_filter_not_eq sorted_wrt_filter)
  then have "sorted_wrt (\<lambda>x y. (sz(g \<mapsto> n)) y = Some POLL_GROUP_MAX_GROUP_SIZE \<longrightarrow> (sz(g \<mapsto> n)) x = Some POLL_GROUP_MAX_GROUP_SIZE) (remove1 g G)"
    by (rule sorted_wrt_mono_rel [rotated]) (use assms(2) in auto)
  then show ?thesis using assms(3) by (simp add: full_first_def sorted_wrt_append)
qed

lemma groups_remove:
  assumes "groups_ok h sz G" "h a = Some so" "so_poll_group so = g" "sz g = Some n" "set G' = set G"
    and G': "distinct G" "G' = remove1 g G @ [g]"
  shows "0 \<le> n - 1" "n - 1 < POLL_GROUP_MAX_GROUP_SIZE" "groups_ok (h(a := None)) (sz(g \<mapsto> n - 1)) G'"
proof -
  have fin: "finite (members h x)" for x
    using assms(1) by (auto simp: groups_ok_def members_def intro: finite_subset [of _ "dom h"])
  have n: "n = int (card (members h g))" "n \<le> POLL_GROUP_MAX_GROUP_SIZE" using assms(1,4) by (auto simp: groups_ok_def)
  have "a \<in> members h g" using assms(2,3) by (simp add: members_def)
  then have "0 < card (members h g)" using fin by (auto simp: card_gt_0_iff)
  then show "0 \<le> n - 1" "n - 1 < POLL_GROUP_MAX_GROUP_SIZE" using n by auto
  have "members (h(a := None)) x = (if x = g then members h g - {a} else members h x)" for x
    using assms(2,3) by (auto simp: members_def)
  then have "int (card (members (h(a := None)) x)) = (if x = g then n - 1 else int (card (members h x)))" for x
    using n \<open>a \<in> members h g\<close> \<open>0 < card (members h g)\<close> by (simp add: card_Diff_singleton)
  moreover have "n - 1 \<le> POLL_GROUP_MAX_GROUP_SIZE" using n(2) by simp
  moreover have "full_first (sz(g \<mapsto> n - 1)) G'" unfolding G'(2)
    by (rule full_first_end) (use assms(1) G'(1) n(2) in \<open>auto simp: groups_ok_def\<close>)
  ultimately show "groups_ok (h(a := None)) (sz(g \<mapsto> n - 1)) G'"
    using assms(1-5) unfolding groups_ok_def by (auto simp: insert_absorb domI split: if_splits)
qed

lemma tree_holds_free:
  assumes "tree_holds m L" "a \<notin> snd ` set L"
  shows "tree_holds (m\<lparr>tr_nodes := (tr_nodes m)(a := None)\<rparr>) L"
proof -
  obtain t where t: "trep m t" "rbt t" "items t = L" "sorted_items L" using assms(1) by (auto simp: tree_holds_def)
  have "sh ((tr_nodes m)(a := None)) None t" by (rule sh_cong [of _ "tr_nodes m"]) (use t assms(2) in \<open>auto simp: trep_def addrs_def\<close>)
  then show ?thesis using t by (auto simp: tree_holds_def trep_def)
qed

lemma index_free:
  assumes "index_ok t h" "h a = Some so" "so_delete_pending so"
  shows "index_ok (t\<lparr>tr_nodes := (tr_nodes t)(a := None)\<rparr>) (h(a := None))"
proof -
  obtain L where L: "tree_holds t L" "ran (map_of L) = live_socks h" using assms(1) by (auto simp: index_ok_def tr.indexes_def)
  have "a \<notin> live_socks h" "live_socks (h(a := None)) = live_socks h" using assms(2,3) by (auto simp: live_socks_def)
  moreover have "snd ` set L = ran (map_of L)" using tr.keys_distinct [OF L(1)] by (simp add: ran_distinct)
  ultimately have "tree_holds (t\<lparr>tr_nodes := (tr_nodes t)(a := None)\<rparr>) L" "ran (map_of L) = live_socks (h(a := None))"
    using tree_holds_free [OF L(1)] L(2) by auto
  then show ?thesis using assms(1) by (auto simp: index_ok_def tr.indexes_def)
qed

lemma mem_free: "port_mem p G \<Longrightarrow> set G' = set G \<Longrightarrow> port_mem (p\<lparr>ps_socks := (ps_socks p)(a := None)\<rparr>) G'"
  by (auto simp: port_mem_def)

lemma rep_release_free:
  assumes rep: "port_rep p {a} U D G" and so: "ps_socks p a = Some so" "so_delete_pending so" and a: "a \<notin> set U" "a \<notin> set D"
  shows "\<exists>p1 p2 G'. poll_group_release (so_poll_group so) p = Some p1 \<and> sock_free a p1 = Some p2 \<and> port_rep p2 {} U D G' \<and>
    ps_socks p2 = (ps_socks p)(a := None)"
proof -
  let ?g = "so_poll_group so"
  have q: "qrep (ps_nodes p) (ps_update_queue p) (ps_deleted_queue p) (ps_group_queue p) (dom (ps_socks p)) U D G"
    and grp: "groups_ok (ps_socks p) (ps_group_size p) G" using rep by (auto simp: port_rep_def)
  have g: "?g \<in> set G" using grp so by (auto simp: groups_ok_def)
  then have "?g \<in> dom (ps_group_size p)" using grp by (simp add: groups_ok_def)
  then obtain n where n: "ps_group_size p ?g = Some n" by blast
  have ad: "a \<in> dom (ps_socks p)" using so by blast
  let ?G = "remove1 ?g G @ [?g]"
  have G: "set ?G = set G" using q g by (auto simp: qrep_def)
  obtain m where m: "queue_move_to_end (ps_nodes p) (ps_group_queue p) ?g = Some m"
      "qrep m (ps_update_queue p) (ps_deleted_queue p) (ps_group_queue p) (dom (ps_socks p)) U D ?G"
    using qrep_move_group [OF q g] by blast
  have "distinct G" using q by (simp add: qrep_def)
  note rm = groups_remove [OF grp so(1) refl n G this refl]
  let ?p1 = "p\<lparr>ps_group_size := (ps_group_size p)(?g \<mapsto> n - 1), ps_nodes := m\<rparr>"
  let ?p2 = "?p1\<lparr>ps_socks := (ps_socks p)(a := None), ps_sock_tree := (ps_sock_tree p)\<lparr>tr_nodes := (tr_nodes (ps_sock_tree p))(a := None)\<rparr>, ps_nodes := m\<lparr>qn_prev := (qn_prev m)(a := None), qn_next := (qn_next m)(a := None)\<rparr>\<rparr>"
  have "poll_group_release ?g p = Some ?p1" using n m(1) rm(1,2) by (simp add: poll_group_release_def upd_nodes_def)
  moreover have "sock_free a ?p1 = Some ?p2" using so by (simp add: sock_free_def)
  moreover have "port_rep ?p2 {} U D ?G"
  proof -
    have ix: "index_ok (ps_sock_tree p) (ps_socks p)" using rep by (simp add: port_rep_def)
    have "index_ok (ps_sock_tree ?p2) (ps_socks ?p2)" using index_free [OF ix so] by simp
    moreover have "port_mem ?p2 ?G" using rep G by (auto simp: port_rep_def port_mem_def)
    ultimately show ?thesis using rep rm(3) qrep_free [OF m(2) ad a] unfolding port_rep_def by auto
  qed
  ultimately show ?thesis by fastforce
qed

lemma rep_exempt:
  assumes "port_rep p {a} U D G" "ps_socks p a = Some so" "placed U D a so"
  shows "port_rep p {} U D G"
proof -
  have "placed U D b x" if "ps_socks p b = Some x" for b x
    using assms that by (cases "b = a") (auto simp: port_rep_def)
  then show ?thesis using assms(1) unfolding port_rep_def by blast
qed

lemma rep_add_deleted:
  assumes rep: "port_rep p {a} U D G" and so: "ps_socks p a = Some so" "so_delete_pending so" "so_poll_status so \<noteq> SOCK_POLL_IDLE"
    and a: "a \<notin> set U"
  shows "\<exists>p' D'. port_add_deleted_socket a p = Some p' \<and> port_rep p' {} U D' G \<and> ps_socks p' = ps_socks p"
proof -
  have q: "qrep (ps_nodes p) (ps_update_queue p) (ps_deleted_queue p) (ps_group_queue p) (dom (ps_socks p)) U D G" "a \<in> dom (ps_socks p)"
    using rep so by (auto simp: port_rep_def)
  show ?thesis
  proof (cases "a \<in> set D")
    case True
    then have "port_rep p {} U D G" using rep_exempt [OF rep so(1)] so by (simp add: placed_def)
    then show ?thesis using True qrep_enqueued [OF q] by (auto simp: port_add_deleted_socket_def)
  next
    case False
    from qrep_append_deleted [OF q a False] obtain m' where m':
      "queue_append (ps_nodes p) (ps_deleted_queue p) a = Some m'"
      "qrep m' (ps_update_queue p) (ps_deleted_queue p) (ps_group_queue p) (dom (ps_socks p)) U (D @ [a]) G" by blast
    have "port_rep (p\<lparr>ps_nodes := m'\<rparr>) {a} U (D @ [a]) G" using rep m'(2) by (auto simp: port_rep_def placed_def)
    then have "port_rep (p\<lparr>ps_nodes := m'\<rparr>) {} U (D @ [a]) G" by (rule rep_exempt) (use so in \<open>auto simp: placed_def\<close>)
    then show ?thesis
      using m'(1) False a qrep_enqueued [OF q] by (auto simp: port_add_deleted_socket_def upd_nodes_def)
  qed
qed

text \<open>The second half of \<open>sock__delete\<close>: free the socket, or keep it until its poll is back.\<close>

lemma delete_tail:
  assumes rep: "port_rep p {a} U D G" and so: "ps_socks p a = Some so" "so_delete_pending so" and a: "a \<notin> set U"
  shows "\<exists>p' D' G'. (if force \<or> so_poll_status so = SOCK_POLL_IDLE then do {
            p \<leftarrow> port_remove_deleted_socket a p;
            p \<leftarrow> poll_group_release (so_poll_group so) p;
            sock_free a p
          } else port_add_deleted_socket a p) = Some p' \<and> port_rep p' {} U D' G' \<and>
    ps_socks p' = (if force \<or> so_poll_status so = SOCK_POLL_IDLE then (ps_socks p)(a := None) else ps_socks p)"
proof (cases "force \<or> so_poll_status so = SOCK_POLL_IDLE")
  case True
  obtain p1 m where p1: "port_remove_deleted_socket a p = Some p1" "port_rep p1 {a} U (remove1 a D) G" "p1 = p\<lparr>ps_nodes := m\<rparr>"
    using rep_unqueue [OF rep so(1)] a by (auto simp: remove1_idem)
  have d: "a \<notin> set U" "a \<notin> set (remove1 a D)" using a rep by (auto simp: port_rep_def qrep_def remove1_idem)
  have so1: "ps_socks p1 a = Some so" using p1(3) so(1) by simp
  obtain p2 p3 G' where "poll_group_release (so_poll_group so) p1 = Some p2" "sock_free a p2 = Some p3"
      "port_rep p3 {} U (remove1 a D) G'" "ps_socks p3 = (ps_socks p1)(a := None)"
    using rep_release_free [OF p1(2) so1 so(2) d] by blast
  then show ?thesis using True p1 by auto
next
  case False
  then show ?thesis using rep_add_deleted [OF rep so _ a] by auto
qed

lemma rep_handle:
  assumes "port_rep p X U D G" "ps_socks p a = Some so"
  shows "\<exists>h. ps_group_handle p (so_poll_group so) = Some h"
  using assms by (auto simp: port_rep_def port_mem_def groups_ok_def)

lemma cancel_poll_rep:
  assumes rep: "port_rep p {} U D G" and so: "ps_socks p a = Some so" "so_poll_status so = SOCK_POLL_PENDING"
  shows "\<exists>r p' so'. sock_cancel_poll env a p = Some (r, p') \<and> port_rep p' {} U D G \<and> ps_socks p' = (ps_socks p)(a \<mapsto> so') \<and>
    so_poll_status so' \<noteq> SOCK_POLL_IDLE \<and> so_delete_pending so' = so_delete_pending so \<and> so_poll_group so' = so_poll_group so \<and>
    so_user_events so' = so_user_events so \<and> so_user_data so' = so_user_data so \<and> so_base_socket so' = so_base_socket so \<and>
    (r = 0 \<or> r = -1) \<and> (0 \<le> r \<longrightarrow> so_poll_status so' = SOCK_POLL_CANCELLED)"
proof -
  obtain h where h: "ps_group_handle p (so_poll_group so) = Some h" using rep_handle [OF rep so(1)] by blast
  obtain r err w where c: "afd_cancel_poll env h a (ps_world p) = (r, err, w)" by (metis prod_cases3)
  show ?thesis
  proof (cases "r < 0")
    case True
    have "sock_cancel_poll env a p = Some (-1, p\<lparr>ps_world := w, ps_last_error := err\<rparr>)"
      using so h c True by (simp add: sock_cancel_poll_def)
    moreover have "ps_socks p = (ps_socks p)(a \<mapsto> so)" using so(1) by (simp add: fun_upd_idem)
    ultimately show ?thesis
      using so rep by (intro exI [of _ "-1"] exI [of _ "p\<lparr>ps_world := w, ps_last_error := err\<rparr>"] exI [of _ so]) simp
  next
    case False
    let ?f = "\<lambda>so. so\<lparr>so_poll_status := SOCK_POLL_CANCELLED, so_pending_events := 0\<rparr>"
    have d: "placed U D a (?f so)" using rep so(1) by (auto simp: port_rep_def placed_def)
    obtain p' where p': "upd_sock a ?f (p\<lparr>ps_world := w\<rparr>) = Some p'" "port_rep p' {} U D G"
        "p' = p\<lparr>ps_world := w, ps_socks := (ps_socks p)(a \<mapsto> ?f so)\<rparr>"
      using rep_upd_sock [of "p\<lparr>ps_world := w\<rparr>" "{}" U D G a so ?f "{}"] rep so(1) d by (auto simp: sock_ok_def)
    have "sock_cancel_poll env a p = Some (0, p')" using False so h c p'(1) by (simp add: sock_cancel_poll_def)
    then show ?thesis
      using p' by (intro exI [of _ 0] exI [of _ p'] exI [of _ "?f so"]) simp
  qed
qed


text \<open>The first half: cancel the poll, leave the update queue and the tree, and mark the socket.\<close>

lemma delete_cancel:
  assumes rep: "port_rep p X U D G" and so: "ps_socks p a = Some so" "\<not> so_delete_pending so"
    and X: "X = {} \<or> X = {a} \<and> so_poll_status so = SOCK_POLL_IDLE \<and> a \<notin> set D"
  shows "\<exists>p1 so1. (if so_poll_status so = SOCK_POLL_PENDING then do { (_, p) \<leftarrow> sock_cancel_poll env a p; Some p } else Some p) = Some p1 \<and>
      port_rep p1 X U D G \<and> ps_socks p1 = (ps_socks p)(a \<mapsto> so1) \<and> \<not> so_delete_pending so1 \<and>
      (so_poll_status so1 = SOCK_POLL_IDLE \<longleftrightarrow> so_poll_status so = SOCK_POLL_IDLE)"
proof (cases "so_poll_status so = SOCK_POLL_PENDING")
  case True
  then have X': "X = {}" using X by auto
  then have "port_rep p {} U D G" using rep by simp
  then show ?thesis using cancel_poll_rep [OF _ so(1) True, of U D G env] so(2) True unfolding X' by fastforce
next
  case False
  have "ps_socks p = (ps_socks p)(a \<mapsto> so)" using so(1) by (simp add: fun_upd_idem)
  then show ?thesis using False rep so(2) by (intro exI [of _ p] exI [of _ so]) simp
qed

lemma index_remove:
  assumes "index_ok t h" "h a = Some so" "\<not> so_delete_pending so" "so_delete_pending so'"
  shows "\<exists>t'. tree_del a t = Some t' \<and> index_ok t' (h(a \<mapsto> so'))"
proof -
  obtain f where f: "tr.indexes t f" "ran f = live_socks h" "dom (tr_nodes t) = dom h" using assms(1) by (auto simp: index_ok_def)
  have "a \<in> ran f" using f(2) assms(2,3) by (auto simp: live_socks_def)
  then obtain k where k: "f k = Some a" by (auto simp: ran_def)
  obtain t' where t': "tree_del a t = Some t'" "tr.indexes t' (f(k := None))" "dom (tr_nodes t') = dom (tr_nodes t)"
    using tr.del_indexes [OF f(1) k] by blast
  have "ran (f(k := None)) = ran f - {a}"
  proof (intro equalityI subsetI)
    fix b assume "b \<in> ran (f(k := None))"
    then obtain l where l: "l \<noteq> k" "f l = Some b" by (auto simp: ran_def split: if_splits)
    then have "b \<noteq> a" using tr.indexes_inj [OF f(1) k, of l] by blast
    then show "b \<in> ran f - {a}" using l(2) by (simp add: ranI)
  next
    fix b assume b: "b \<in> ran f - {a}"
    then obtain l where l: "f l = Some b" by (auto simp: ran_def)
    then have "(f(k := None)) l = Some b" using b k by auto
    then show "b \<in> ran (f(k := None))" by (rule ranI)
  qed
  also have "\<dots> = live_socks (h(a \<mapsto> so'))" using f(2) assms(4) by (auto simp: live_socks_def)
  finally have "ran (f(k := None)) = live_socks (h(a \<mapsto> so'))" .
  moreover have "dom (tr_nodes t') = dom (h(a \<mapsto> so'))" using t'(3) f(3) assms(2) by (simp add: insert_absorb domI)
  ultimately show ?thesis using t'(1,2) unfolding index_ok_def by blast
qed

text \<open>Leaving the tree and being marked as deleted.\<close>

lemma rep_unregister:
  assumes rep: "port_rep p {a} U D G" and so: "ps_socks p a = Some so" "\<not> so_delete_pending so"
  shows "\<exists>p'. port_unregister_socket a p \<bind> upd_sock a (\<lambda>so. so\<lparr>so_delete_pending := True\<rparr>) = Some p' \<and> port_rep p' {a} U D G \<and>
    ps_socks p' = (ps_socks p)(a \<mapsto> so\<lparr>so_delete_pending := True\<rparr>)"
proof -
  let ?so = "so\<lparr>so_delete_pending := True\<rparr>"
  have ix: "index_ok (ps_sock_tree p) (ps_socks p)" using rep by (simp add: port_rep_def)
  obtain t where t: "tree_del a (ps_sock_tree p) = Some t" "index_ok t ((ps_socks p)(a \<mapsto> ?so))" using index_remove [OF ix so, of ?so] by auto
  let ?p = "p\<lparr>ps_sock_tree := t, ps_socks := (ps_socks p)(a \<mapsto> ?so)\<rparr>"
  have "sock_ok ?so" using rep so(1) by (auto simp: port_rep_def sock_ok_def)
  then have "port_rep ?p {a} U D G"
    using rep so(1) t(2) groups_upd [of "ps_socks p" "ps_group_size p" G a so ?so] mem_upd [of p G a so ?so]
    unfolding port_rep_def port_mem_def by (auto simp: insert_absorb domI split: if_splits)
  then show ?thesis using t(1) so(1) by (auto simp: port_unregister_socket_def upd_sock_def)
qed

lemma delete_mark:
  assumes rep: "port_rep p X U D G" and so: "ps_socks p a = Some so" "\<not> so_delete_pending so"
    and X: "X = {} \<or> X = {a} \<and> so_poll_status so = SOCK_POLL_IDLE \<and> a \<notin> set D"
  shows "\<exists>p4 so4. (do {
            p \<leftarrow> (if so_poll_status so = SOCK_POLL_PENDING then do { (_, p) \<leftarrow> sock_cancel_poll env a p; Some p } else Some p);
            p \<leftarrow> port_cancel_socket_update a p;
            p \<leftarrow> port_unregister_socket a p;
            upd_sock a (\<lambda>so. so\<lparr>so_delete_pending := True\<rparr>) p
          }) = Some p4 \<and> port_rep p4 {a} (remove1 a U) D G \<and> ps_socks p4 = (ps_socks p)(a \<mapsto> so4) \<and> so_delete_pending so4 \<and>
      (so_poll_status so4 = SOCK_POLL_IDLE \<longleftrightarrow> so_poll_status so = SOCK_POLL_IDLE)"
proof -
  have D: "a \<notin> set D" and X': "insert a X = {a}" using rep so X by (auto simp: port_rep_def placed_def)
  obtain p1 so1 where p1: "(if so_poll_status so = SOCK_POLL_PENDING then do { (_, p) \<leftarrow> sock_cancel_poll env a p; Some p } else Some p) = Some p1"
      "port_rep p1 X U D G" "ps_socks p1 = (ps_socks p)(a \<mapsto> so1)"
      "so_poll_status so1 = SOCK_POLL_IDLE \<longleftrightarrow> so_poll_status so = SOCK_POLL_IDLE" "\<not> so_delete_pending so1"
    using delete_cancel [OF rep so X, of env] by blast
  have so1: "ps_socks p1 a = Some so1" using p1(3) by simp
  obtain p2 m where p2: "port_cancel_socket_update a p1 = Some p2" "port_rep p2 {a} (remove1 a U) (remove1 a D) G" "p2 = p1\<lparr>ps_nodes := m\<rparr>"
    using rep_unqueue [OF p1(2) so1] unfolding X' by auto
  have so2: "ps_socks p2 a = Some so1" using p2(3) so1 by simp
  have rep2: "port_rep p2 {a} (remove1 a U) D G" using p2(2) D by (simp add: remove1_idem)
  obtain p4 where p4: "port_unregister_socket a p2 \<bind> upd_sock a (\<lambda>so. so\<lparr>so_delete_pending := True\<rparr>) = Some p4"
      "port_rep p4 {a} (remove1 a U) D G" "ps_socks p4 = (ps_socks p2)(a \<mapsto> so1\<lparr>so_delete_pending := True\<rparr>)"
    using rep_unregister [OF rep2 so2 p1(5)] by blast
  then show ?thesis
    using p1(1,3,4) p2(1,3) by (intro exI [of _ p4] exI [of _ "so1\<lparr>so_delete_pending := True\<rparr>"]) (simp add: Let_def)
qed

lemma sock_delete_rep:
  assumes inv: "port_rep p X U D G" and so: "ps_socks p a = Some so" 
    and X: "X = {} \<or> X = {a} \<and> so_delete_pending so \<and> a \<in> set D \<or>
      X = {a} \<and> \<not> so_delete_pending so \<and> so_poll_status so = SOCK_POLL_IDLE \<and> a \<notin> set D"
  shows "\<exists>p' D' G'. sock_delete_with env a force p = Some (0, p') \<and> port_rep p' {} (remove1 a U) D' G' \<and>
    (if force \<or> so_poll_status so = SOCK_POLL_IDLE then ps_socks p' = (ps_socks p)(a := None)
     else \<exists>so'. ps_socks p' = (ps_socks p)(a \<mapsto> so') \<and> so_delete_pending so' \<and> so_poll_status so' \<noteq> SOCK_POLL_IDLE)"
proof -
  have "\<exists>p4 so4. (if \<not> so_delete_pending so then do {
            p \<leftarrow> (if so_poll_status so = SOCK_POLL_PENDING then do { (_, p) \<leftarrow> sock_cancel_poll env a p; Some p } else Some p);
            p \<leftarrow> port_cancel_socket_update a p;
            p \<leftarrow> port_unregister_socket a p;
            upd_sock a (\<lambda>so. so\<lparr>so_delete_pending := True\<rparr>) p
          } else Some p) = Some p4 \<and> port_rep p4 {a} (remove1 a U) D G \<and> ps_socks p4 = (ps_socks p)(a \<mapsto> so4) \<and> so_delete_pending so4 \<and>
      (so_poll_status so4 = SOCK_POLL_IDLE \<longleftrightarrow> so_poll_status so = SOCK_POLL_IDLE)"
  proof (cases "so_delete_pending so")
    case True
    have "port_rep p {a} U D G" "a \<in> set D" using inv X True so by (auto simp: port_rep_def placed_def)
    moreover have "a \<notin> set U" using calculation by (auto simp: port_rep_def qrep_def)
    moreover have "ps_socks p = (ps_socks p)(a \<mapsto> so)" using so by (simp add: fun_upd_idem)
    ultimately show ?thesis using True by (intro exI [of _ p] exI [of _ so]) (simp add: remove1_idem)
  next
    case False
    then have X': "X = {} \<or> X = {a} \<and> so_poll_status so = SOCK_POLL_IDLE \<and> a \<notin> set D" using X by auto
    show ?thesis using delete_mark [OF inv so False X', of env] False by fastforce
  qed
  then obtain p4 so4 where p4: "(if \<not> so_delete_pending so then do {
            p \<leftarrow> (if so_poll_status so = SOCK_POLL_PENDING then do { (_, p) \<leftarrow> sock_cancel_poll env a p; Some p } else Some p);
            p \<leftarrow> port_cancel_socket_update a p;
            p \<leftarrow> port_unregister_socket a p;
            upd_sock a (\<lambda>so. so\<lparr>so_delete_pending := True\<rparr>) p
          } else Some p) = Some p4" "port_rep p4 {a} (remove1 a U) D G" "ps_socks p4 = (ps_socks p)(a \<mapsto> so4)" "so_delete_pending so4"
      "so_poll_status so4 = SOCK_POLL_IDLE \<longleftrightarrow> so_poll_status so = SOCK_POLL_IDLE" by blast
  have U: "a \<notin> set (remove1 a U)" using inv by (auto simp: port_rep_def qrep_def)
  have so4: "ps_socks p4 a = Some so4" using p4(3) by simp
  from delete_tail [OF p4(2) so4 p4(4) U, of force] obtain p' D' G' where
    p': "(if force \<or> so_poll_status so4 = SOCK_POLL_IDLE then do {
            p \<leftarrow> port_remove_deleted_socket a p4; p \<leftarrow> poll_group_release (so_poll_group so4) p; sock_free a p
          } else port_add_deleted_socket a p4) = Some p'" "port_rep p' {} (remove1 a U) D' G'"
      "ps_socks p' = (if force \<or> so_poll_status so4 = SOCK_POLL_IDLE then (ps_socks p4)(a := None) else ps_socks p4)" by auto
  have "sock_delete_with env a force p = Some (0, p')"
    unfolding sock_delete_with_def by (simp only: so p4(1) so4 p'(1) bind.bind_lunit)
  then show ?thesis using p'(2,3) p4(3,4,5) by (intro exI [of _ p'] exI [of _ D'] exI [of _ G']) (auto split: if_splits)
qed

subsection \<open>Asking for events, polling, completions\<close>

lemma set_event_rep:
  assumes rep: "port_rep p {} U D G" and so: "ps_socks p a = Some so" "\<not> so_delete_pending so"
  shows "\<exists>p' U'. sock_set_event a ev p = Some (0, p') \<and> port_rep p' {} U' D G \<and>
    ps_socks p' = (ps_socks p)(a \<mapsto> so\<lparr>so_user_events := ee_events ev OR EPOLLERR OR EPOLLHUP, so_user_data := ee_data ev\<rparr>)"
proof -
  let ?f = "\<lambda>so. so\<lparr>so_user_events := ee_events ev OR EPOLLERR OR EPOLLHUP, so_user_data := ee_data ev\<rparr>"
  have D: "a \<notin> set D" and ok: "sock_ok (?f so)" using rep so by (auto simp: port_rep_def placed_def sock_ok_def)
  obtain p1 where p1: "upd_sock a ?f p = Some p1" "port_rep p1 {a} U D G" "p1 = p\<lparr>ps_socks := (ps_socks p)(a \<mapsto> ?f so)\<rparr>"
    using rep_upd_sock [OF rep so(1), of ?f "{a}"] ok by auto
  have so1: "ps_socks p1 a = Some (?f so)" using p1(3) by simp
  have pl: "placed V D a (?f so)" if "a \<in> set V \<or> covered (?f so)" for V
    using that D so(2) by (auto simp: placed_def)
  show ?thesis
  proof (cases "covered (?f so)")
    case True
    then have "port_rep p1 {} U D G" using rep_exempt [OF p1(2) so1] pl by blast
    moreover have "sock_set_event a ev p = Some (0, p1)"
      using True so1 unfolding sock_set_event_def Let_def p1(1) by (simp add: covered_def)
    ultimately show ?thesis using p1(3) by auto
  next
    case False
    obtain p2 U' where p2: "port_request_socket_update a p1 = Some p2" "port_rep p2 {a} U' D G" "a \<in> set U'" "ps_socks p2 = ps_socks p1"
      using rep_request [OF p1(2) so1 D] by blast
    have "port_rep p2 {} U' D G" using rep_exempt [OF p2(2)] so1 p2(3,4) pl by metis
    moreover have "sock_set_event a ev p = Some (0, p2)"
      using False so1 p2(1) unfolding sock_set_event_def Let_def p1(1) by (simp add: covered_def)
    ultimately show ?thesis using p1(3) p2(4) by auto
  qed
qed

text \<open>Leaving the update queue, by a socket that need not be there.\<close>

lemma rep_settle:
  assumes rep: "port_rep p X U D G" and X: "X \<subseteq> {a}" and so: "ps_socks p a = Some so" "\<not> so_delete_pending so" "a \<notin> set D"
    and c: "so_poll_status so = SOCK_POLL_CANCELLED \<or> covered so"
  shows "\<exists>p'. port_cancel_socket_update a p = Some p' \<and> port_rep p' {} (remove1 a U) D G \<and> ps_socks p' = ps_socks p"
proof -
  obtain p' m where p': "port_cancel_socket_update a p = Some p'" "port_rep p' (insert a X) (remove1 a U) (remove1 a D) G" "p' = p\<lparr>ps_nodes := m\<rparr>"
    using rep_unqueue [OF rep so(1)] by blast
  have eq: "insert a X = {a}" "remove1 a D = D" using X so(3) by (auto simp: remove1_idem)
  have "port_rep p' {a} (remove1 a U) D G" using p'(2) unfolding eq .
  then have "port_rep p' {} (remove1 a U) D G"
    by (rule rep_exempt) (use p'(3) so c in \<open>auto simp: placed_def\<close>)
  then show ?thesis using p'(1,3) by auto
qed

text \<open>
  What an update does with a socket: the new state of it, or \<open>None\<close> when it is freed, which
  happens only when the driver can answer that there is no such socket any more.
\<close>

definition reported_gone :: "'w port_env \<Rightarrow> nat \<Rightarrow> bool" where
  "reported_gone env base \<longleftrightarrow> (\<exists>h a events w r w'. afd_poll env h a base events w = (r, ERROR_INVALID_HANDLE, w') \<and> r < 0)"

definition updated :: "'w port_env \<Rightarrow> int \<Rightarrow> sock_state_t \<Rightarrow> sock_state_t option \<Rightarrow> bool" where
  "updated env r so x \<longleftrightarrow> (case x of None \<Rightarrow> r = 0 \<and> so_poll_status so = SOCK_POLL_IDLE \<and> reported_gone env (so_base_socket so)
     | Some so' \<Rightarrow> so_user_events so' = so_user_events so \<and> so_user_data so' = so_user_data so \<and> \<not> so_delete_pending so' \<and>
         so_base_socket so' = so_base_socket so \<and>
         (r = 0 \<longrightarrow> so_poll_status so' = SOCK_POLL_CANCELLED \<or> so_poll_status so' = SOCK_POLL_PENDING \<and> covered so'))"

lemma update_idle_rep:
  assumes rep: "port_rep p {} U D G" and so: "ps_socks p a = Some so" "\<not> so_delete_pending so" "so_poll_status so = SOCK_POLL_IDLE"
  shows "\<exists>r p' D' G'. sock_update env a p = Some (r, p') \<and> (r = 0 \<or> r = -1) \<and>
    port_rep p' {} (if r = 0 then remove1 a U else U) D' G' \<and>
    (\<exists>x. ps_socks p' = (ps_socks p)(a := x) \<and> updated env r so x)"
proof -
  obtain h where h: "ps_group_handle p (so_poll_group so) = Some h" using rep_handle [OF rep so(1)] by blast
  obtain r err w where c: "afd_poll env h a (so_base_socket so) (epoll_events_to_afd_events (so_user_events so))
      (ps_world p) = (r, err, w)" by (metis prod_cases3)
  have D: "a \<notin> set D" using rep so by (auto simp: port_rep_def placed_def)
  consider (closed) "r < 0 \<and> err = ERROR_INVALID_HANDLE" | (failed) "r < 0 \<and> err \<noteq> ERROR_INVALID_HANDLE \<and> err \<noteq> ERROR_IO_PENDING"
    | (ok) "\<not> (r < 0 \<and> err \<noteq> ERROR_IO_PENDING)" by blast
  then show ?thesis
  proof cases
    case closed
    let ?p = "p\<lparr>ps_world := w, ps_last_error := err\<rparr>"
    obtain p' D' G' where "sock_delete_with env a False ?p = Some (0, p')" "port_rep p' {} (remove1 a U) D' G'"
        "ps_socks p' = (ps_socks p)(a := None)"
      using sock_delete_rep [of ?p "{}" U D G a so env False] rep so by auto
    moreover have "reported_gone env (so_base_socket so)" using c closed unfolding reported_gone_def by blast
    ultimately show ?thesis using closed h c so by (intro exI [of _ 0] exI [of _ p']) (auto simp: sock_update_def updated_def)
  next
    case failed
    let ?p = "p\<lparr>ps_world := w, ps_last_error := err\<rparr>"
    have "ps_socks ?p = (ps_socks p)(a := Some so)" using so(1) by (simp add: fun_upd_idem)
    then show ?thesis using failed h c so rep
      by (intro exI [of _ "-1"] exI [of _ ?p] exI [of _ D] exI [of _ G]) (auto simp: sock_update_def updated_def)
  next
    case ok
    let ?p = "if r < 0 then p\<lparr>ps_world := w, ps_last_error := err\<rparr> else p\<lparr>ps_world := w\<rparr>"
    let ?f = "\<lambda>so. so\<lparr>so_poll_status := SOCK_POLL_PENDING, so_pending_events := so_user_events so\<rparr>"
    have cov: "covered (?f so)" unfolding covered_def by (rule bit_word_eqI) (auto simp: bit_simps)
    have rep1: "port_rep ?p {} U D G" and so1: "ps_socks ?p a = Some so" using rep so(1) by auto
    have okk: "sock_ok (?f so)" by (simp add: sock_ok_def)
    obtain p1 where p1: "upd_sock a ?f ?p = Some p1" "port_rep p1 {a} U D G" "p1 = ?p\<lparr>ps_socks := (ps_socks ?p)(a \<mapsto> ?f so)\<rparr>"
      using rep_upd_sock [OF rep1 so1, of ?f "{a}"] okk by auto
    obtain p2 where p2: "port_cancel_socket_update a p1 = Some p2" "port_rep p2 {} (remove1 a U) D G" "ps_socks p2 = ps_socks p1"
      using rep_settle [OF p1(2), of a "?f so"] p1(3) so D cov by auto
    have "sock_update env a p = Some (0, p2)"
      using ok h c so p1(1) p2(1) by (auto simp: sock_update_def error_defs)
    moreover have "updated env 0 so (Some (?f so))" using so(2) cov by (simp add: updated_def)
    ultimately show ?thesis using p1(3) p2(2,3) by (intro exI [of _ 0] exI [of _ p2]) auto
  qed
qed

lemma update_rep:
  assumes rep: "port_rep p {} U D G" and so: "ps_socks p a = Some so" "\<not> so_delete_pending so"
  shows "\<exists>r p' D' G'. sock_update env a p = Some (r, p') \<and> (r = 0 \<or> r = -1) \<and>
    port_rep p' {} (if r = 0 then remove1 a U else U) D' G' \<and>
    (\<exists>x. ps_socks p' = (ps_socks p)(a := x) \<and> updated env r so x)"
proof -
  have D: "a \<notin> set D" using rep so by (auto simp: port_rep_def placed_def)
  have same: "ps_socks p = (ps_socks p)(a := Some so)" using so(1) by (simp add: fun_upd_idem)
  have settle: "\<exists>p'. port_cancel_socket_update a p = Some p' \<and> port_rep p' {} (remove1 a U) D G \<and> ps_socks p' = (ps_socks p)(a := Some so)"
    if "so_poll_status so = SOCK_POLL_CANCELLED \<or> covered so"
    using rep_settle [OF rep _ so D that] same by auto
  have fin: ?thesis if "sock_update env a p = Some (0, p')" "port_rep p' {} (remove1 a U) D G" "ps_socks p' = (ps_socks p)(a \<mapsto> so')"
      "updated env 0 so (Some so')" for p' so'
    using that by (intro exI [of _ 0] exI [of _ p'] exI [of _ D] exI [of _ G]) auto
  show ?thesis
  proof (cases "so_poll_status so")
    case SOCK_POLL_IDLE
    then show ?thesis using update_idle_rep [OF rep so] by blast
  next
    case SOCK_POLL_CANCELLED
    then obtain p' where "port_cancel_socket_update a p = Some p'" "port_rep p' {} (remove1 a U) D G" "ps_socks p' = (ps_socks p)(a := Some so)"
      using settle by blast
    then show ?thesis using so SOCK_POLL_CANCELLED by (intro fin [of p' so]) (auto simp: sock_update_def updated_def)
  next
    case SOCK_POLL_PENDING
    show ?thesis
    proof (cases "covered so")
      case True
      then obtain p' where "port_cancel_socket_update a p = Some p'" "port_rep p' {} (remove1 a U) D G" "ps_socks p' = (ps_socks p)(a := Some so)"
        using settle by blast
      then show ?thesis using so SOCK_POLL_PENDING True
        by (intro fin [of p' so]) (auto simp: sock_update_def updated_def covered_def)
    next
      case False
      obtain r p1 so' where c: "sock_cancel_poll env a p = Some (r, p1)" "port_rep p1 {} U D G" "ps_socks p1 = (ps_socks p)(a \<mapsto> so')"
          "so_delete_pending so' = so_delete_pending so" "so_user_events so' = so_user_events so" "so_user_data so' = so_user_data so"
          "so_base_socket so' = so_base_socket so" "r = 0 \<or> r = -1" "0 \<le> r \<longrightarrow> so_poll_status so' = SOCK_POLL_CANCELLED"
        using cancel_poll_rep [OF rep so(1) SOCK_POLL_PENDING, of env] by blast
      have ev: "sock_update env a p = (if r < 0 then Some (-1, p1) else do { p \<leftarrow> port_cancel_socket_update a p1; Some (0, p) })"
        using so SOCK_POLL_PENDING False c(1) by (simp add: sock_update_def covered_def)
      show ?thesis
      proof (cases "r < 0")
        case True
        then show ?thesis using ev c so by (intro exI [of _ "-1"] exI [of _ p1] exI [of _ D] exI [of _ G]) (auto simp: updated_def)
      next
        case False
        obtain p2 where "port_cancel_socket_update a p1 = Some p2" "port_rep p2 {} (remove1 a U) D G" "ps_socks p2 = ps_socks p1"
          using rep_settle [OF c(2), of a so'] c so D False by auto
        then show ?thesis using ev c so False by (intro fin [of p2 so']) (auto simp: updated_def)
      qed
    qed
  qed
qed

text \<open>
  The loop ends: an update that does not fail takes one socket out of the queue and puts
  none in.  When none fails no socket waits for a poll.  A socket stays as it is for the user
  unless the driver reports it gone.
\<close>

definition socks_stay :: "'w port_env \<Rightarrow> (addr \<rightharpoonup> sock_state_t) \<Rightarrow> (addr \<rightharpoonup> sock_state_t) \<Rightarrow> bool" where
  "socks_stay env h h' \<longleftrightarrow> (\<forall>a so. h a = Some so \<longrightarrow> reported_gone env (so_base_socket so) \<or>
     (\<exists>so'. h' a = Some so' \<and> so_base_socket so' = so_base_socket so \<and> so_delete_pending so' = so_delete_pending so))"

lemma sock_stays_refl: "socks_stay env h h"
  by (simp add: socks_stay_def)

lemma sock_stays_trans: "socks_stay env h h' \<Longrightarrow> socks_stay env h' h'' \<Longrightarrow> socks_stay env h h''"
  unfolding socks_stay_def by metis

lemma updated_stays: "h a = Some so \<Longrightarrow> \<not> so_delete_pending so \<Longrightarrow> updated env r so x \<Longrightarrow> socks_stay env h (h(a := x))"
  unfolding socks_stay_def updated_def by (auto split: option.splits)

lemma update_events_rep:
  assumes "port_rep p {} U D G"
  shows "\<exists>r p' U' D' G'. port_update_events env p = Some (r, p') \<and> (r = 0 \<or> r = -1) \<and> port_rep p' {} U' D' G' \<and>
    (r = 0 \<longrightarrow> U' = []) \<and> socks_stay env (ps_socks p) (ps_socks p')"
  using assms
proof (induction "length U" arbitrary: p U D G)
  case 0
  then have "queue_is_empty (ps_nodes p) (ps_update_queue p) = Some True"
    using queue_is_empty_iff [of "ps_nodes p" "ps_update_queue p" U] by (simp add: port_rep_def qrep_def)
  then show ?case using 0 sock_stays_refl by (subst port_update_events.simps) auto
next
  case (Suc k)
  then obtain a V where U: "U = a # V" by (cases U) auto
  have q: "queue (ps_nodes p) (ps_update_queue p) U" and dom: "a \<in> dom (ps_socks p)" and D: "a \<notin> set D"
    using Suc.prems U by (auto simp: port_rep_def qrep_def)
  obtain so where so: "ps_socks p a = Some so" using dom by blast
  then have nd: "\<not> so_delete_pending so" using Suc.prems D by (auto simp: port_rep_def placed_def)
  obtain r p1 D1 G1 x where p1: "sock_update env a p = Some (r, p1)" "r = 0 \<or> r = -1"
      "port_rep p1 {} (if r = 0 then remove1 a U else U) D1 G1" "ps_socks p1 = (ps_socks p)(a := x)" "updated env r so x"
    using update_rep [OF Suc.prems so nd, of env] by blast
  have st: "socks_stay env (ps_socks p) (ps_socks p1)" unfolding p1(4) by (rule updated_stays [OF _ nd p1(5)]) (rule so)
  have step: "port_update_events env p = (if r < 0 then Some (-1, p1) else port_update_events env p1)"
    using U p1(1) queue_is_empty_iff [OF q] queue_ends [OF q] by (subst port_update_events.simps) simp
  show ?case
  proof (cases "r = 0")
    case True
    then have "port_rep p1 {} V D1 G1" "length V = k" using p1(3) U Suc.hyps(2) by auto
    then obtain r' p' U' D' G' where "port_update_events env p1 = Some (r', p')" "r' = 0 \<or> r' = -1" "port_rep p' {} U' D' G'"
        "r' = 0 \<longrightarrow> U' = []" "socks_stay env (ps_socks p1) (ps_socks p')"
      using Suc.hyps(1) [of V p1 D1 G1] by blast
    then show ?thesis using True step sock_stays_trans [OF st] by auto
  next
    case False
    then show ?thesis using step p1 st by (intro exI [of _ "-1"] exI [of _ p1]) auto
  qed
qed

text \<open>What the caller is told of a completion.\<close>

definition reported :: "completion \<Rightarrow> 32 word \<Rightarrow> 32 word" where
  "reported io wanted = wanted AND (if cp_status io = STATUS_CANCELLED then 0
     else if \<not> NT_SUCCESS (cp_status io) then EPOLLERR
     else if cp_handles io = 0 then 0 else afd_events_to_epoll_events (cp_events io))"

definition locally_closed :: "completion \<Rightarrow> bool" where
  "locally_closed io \<longleftrightarrow> cp_status io \<noteq> STATUS_CANCELLED \<and> NT_SUCCESS (cp_status io) \<and> cp_handles io \<noteq> 0 \<and> cp_events io AND AFD_POLL_LOCAL_CLOSE \<noteq> 0"

lemma feed_rep:
  assumes rep: "port_rep p {} U D G" and so: "ps_socks p a = Some so"
  shows "\<exists>r ev p' U' D' G'. sock_feed_event env a io p = Some (r, ev, p') \<and> port_rep p' {} U' D' G' \<and>
    (if so_delete_pending so \<or> locally_closed io then r = 0 \<and> ev = None \<and> ps_socks p' = (ps_socks p)(a := None)
     else a \<in> set U' \<and>
       (\<exists>so'. ps_socks p' = (ps_socks p)(a \<mapsto> so') \<and> so_poll_status so' = SOCK_POLL_IDLE \<and> \<not> so_delete_pending so' \<and>
        so_user_data so' = so_user_data so \<and>
       (if reported io (so_user_events so) = 0 then r = 0 \<and> ev = None \<and> so_user_events so' = so_user_events so
        else r = 1 \<and> ev = Some \<lparr>ee_events = reported io (so_user_events so), ee_data = so_user_data so\<rparr> \<and>
          so_user_events so' = (if so_user_events so AND EPOLLONESHOT \<noteq> 0 then 0 else so_user_events so))))"
proof -
  let ?f = "\<lambda>so. so\<lparr>so_poll_status := SOCK_POLL_IDLE, so_pending_events := 0\<rparr>"
  have D: "a \<in> set D \<longleftrightarrow> so_delete_pending so" using rep so by (auto simp: port_rep_def placed_def)
  obtain p1 where p1: "upd_sock a ?f p = Some p1" "port_rep p1 {a} U D G" "p1 = p\<lparr>ps_socks := (ps_socks p)(a \<mapsto> ?f so)\<rparr>"
    using rep_upd_sock [OF rep so, of ?f "{a}"] by (auto simp: sock_ok_def)
  have so1: "ps_socks p1 a = Some (?f so)" using p1(3) by simp
  show ?thesis
  proof (cases "so_delete_pending so \<or> locally_closed io")
    case True
    obtain p2 D' G' where p2: "sock_delete_with env a False p1 = Some (0, p2)" "port_rep p2 {} (remove1 a U) D' G'"
        "ps_socks p2 = (ps_socks p1)(a := None)"
      using sock_delete_rep [OF p1(2) so1, of env False] D by auto
    have "sock_feed_event env a io p = Some (0, None, p2)"
      using True p1(1) so1 p2(1) by (auto simp: sock_feed_event_def locally_closed_def)
    then show ?thesis using True p2(2,3) p1(3) by (intro exI [of _ 0] exI [of _ None] exI [of _ p2]) auto
  next
    case False
    then have a: "a \<notin> set D" using D by simp
    obtain p2 U' where p2: "port_request_socket_update a p1 = Some p2" "port_rep p2 {a} U' D G" "a \<in> set U'" "ps_socks p2 = ps_socks p1"
      using rep_request [OF p1(2) so1 a] by blast
    have so2: "ps_socks p2 a = Some (?f so)" using so1 p2(4) by simp
    let ?g = "\<lambda>so. so\<lparr>so_user_events := 0\<rparr>"
    have pl: "placed U' D a (?f so)" "placed U' D a (?g (?f so))" using p2(3) a D by (auto simp: placed_def)
    then have rep2: "port_rep p2 {} U' D G" using rep_exempt [OF p2(2) so2] by blast
    obtain p3 where p3: "upd_sock a ?g p2 = Some p3" "port_rep p3 {} U' D G" "p3 = p2\<lparr>ps_socks := (ps_socks p2)(a \<mapsto> ?g (?f so))\<rparr>"
      using rep_upd_sock [OF rep2 so2, of ?g "{}"] pl(2) by (auto simp: sock_ok_def)
    let ?e = "reported io (so_user_events so)" and ?one = "so_user_events so AND EPOLLONESHOT \<noteq> 0"
    let ?p = "if ?e \<noteq> 0 \<and> ?one then p3 else p2"
    let ?ev = "if ?e = 0 then None else Some \<lparr>ee_events = ?e, ee_data = so_user_data so\<rparr>"
    have "sock_feed_event env a io p = Some (if ?e = 0 then 0 else 1, ?ev, ?p)"
      using False p1(1) so1 p2(1) p3(1)
      by (auto simp: sock_feed_event_def locally_closed_def reported_def and.commute not_less split: if_splits)
    moreover have "port_rep ?p {} U' D G" using rep2 p3(2) by simp
    ultimately show ?thesis using False p2(3) p2(4) p3(3) p1(3)
      by (intro exI [of _ "if ?e = 0 then 0 else 1"] exI [of _ ?ev] exI [of _ ?p] exI [of _ U'] exI [of _ D] exI [of _ G]) auto
  qed
qed

subsection \<open>Event translation\<close>

lemma single_bit:
  fixes e :: "'a::len word"
  assumes "w = 2 ^ k" "k < LENGTH('a)"
  shows "bit w n \<longleftrightarrow> n = k" "e AND w = 0 \<longleftrightarrow> \<not> bit e k"
proof -
  show b: "bit w n \<longleftrightarrow> n = k" for n using assms by (auto simp: bit_simps)
  show "e AND w = 0 \<longleftrightarrow> \<not> bit e k"
    using assms(2) unfolding bit_eq_iff [of "e AND w"] bit_and_iff b by (auto dest: spec [of _ k])
qed

lemma event_bit [simp]:
  "bit EPOLLIN n \<longleftrightarrow> n = 0" "bit EPOLLPRI n \<longleftrightarrow> n = 1" "bit EPOLLOUT n \<longleftrightarrow> n = 2" "bit EPOLLERR n \<longleftrightarrow> n = 3"
  "bit EPOLLHUP n \<longleftrightarrow> n = 4" "bit EPOLLRDNORM n \<longleftrightarrow> n = 6" "bit EPOLLRDBAND n \<longleftrightarrow> n = 7" "bit EPOLLWRNORM n \<longleftrightarrow> n = 8"
  "bit EPOLLWRBAND n \<longleftrightarrow> n = 9" "bit EPOLLMSG n \<longleftrightarrow> n = 10" "bit EPOLLRDHUP n \<longleftrightarrow> n = 13"
  "bit AFD_POLL_RECEIVE n \<longleftrightarrow> n = 0" "bit AFD_POLL_RECEIVE_EXPEDITED n \<longleftrightarrow> n = 1" "bit AFD_POLL_SEND n \<longleftrightarrow> n = 2"
  "bit AFD_POLL_DISCONNECT n \<longleftrightarrow> n = 3" "bit AFD_POLL_ABORT n \<longleftrightarrow> n = 4" "bit AFD_POLL_LOCAL_CLOSE n \<longleftrightarrow> n = 5"
  "bit AFD_POLL_ACCEPT n \<longleftrightarrow> n = 7" "bit AFD_POLL_CONNECT_FAIL n \<longleftrightarrow> n = 8"
  by (rule single_bit; simp add: wepoll_defs afd_defs)+

lemma event_mask [simp]:
  fixes e :: "32 word"
  shows "e AND EPOLLIN = 0 \<longleftrightarrow> \<not> bit e 0" "e AND EPOLLPRI = 0 \<longleftrightarrow> \<not> bit e 1" "e AND EPOLLOUT = 0 \<longleftrightarrow> \<not> bit e 2"
  "e AND EPOLLERR = 0 \<longleftrightarrow> \<not> bit e 3" "e AND EPOLLHUP = 0 \<longleftrightarrow> \<not> bit e 4" "e AND EPOLLRDNORM = 0 \<longleftrightarrow> \<not> bit e 6"
  "e AND EPOLLRDBAND = 0 \<longleftrightarrow> \<not> bit e 7" "e AND EPOLLWRNORM = 0 \<longleftrightarrow> \<not> bit e 8" "e AND EPOLLWRBAND = 0 \<longleftrightarrow> \<not> bit e 9"
  "e AND EPOLLRDHUP = 0 \<longleftrightarrow> \<not> bit e 13"
  "e AND AFD_POLL_RECEIVE = 0 \<longleftrightarrow> \<not> bit e 0" "e AND AFD_POLL_RECEIVE_EXPEDITED = 0 \<longleftrightarrow> \<not> bit e 1"
  "e AND AFD_POLL_SEND = 0 \<longleftrightarrow> \<not> bit e 2" "e AND AFD_POLL_DISCONNECT = 0 \<longleftrightarrow> \<not> bit e 3" "e AND AFD_POLL_ABORT = 0 \<longleftrightarrow> \<not> bit e 4"
  "e AND AFD_POLL_LOCAL_CLOSE = 0 \<longleftrightarrow> \<not> bit e 5" "e AND AFD_POLL_ACCEPT = 0 \<longleftrightarrow> \<not> bit e 7"
  "e AND AFD_POLL_CONNECT_FAIL = 0 \<longleftrightarrow> \<not> bit e 8"
  by (rule single_bit; simp add: wepoll_defs afd_defs)+

lemma or_if_bit: "bit (or_if e m f acc) n \<longleftrightarrow> bit acc n \<or> e AND m \<noteq> 0 \<and> bit f n"
  by (auto simp: or_if_def bit_or_iff)

lemma mask_or: "(e :: 32 word) AND (m OR k) = 0 \<longleftrightarrow> e AND m = 0 \<and> e AND k = 0"
  by (simp add: bit.conj_disj_distrib or_eq_0_iff)

lemma afd_bits:
  "bit (epoll_events_to_afd_events e) n \<longleftrightarrow> n = 5 \<or> (n = 0 \<or> n = 7) \<and> (bit e 0 \<or> bit e 6) \<or> n = 1 \<and> (bit e 1 \<or> bit e 7) \<or>
     n = 2 \<and> (bit e 2 \<or> bit e 8 \<or> bit e 9) \<or> n = 3 \<and> (bit e 0 \<or> bit e 6 \<or> bit e 13) \<or> n = 4 \<and> bit e 4 \<or> n = 8 \<and> bit e 3"
  unfolding epoll_events_to_afd_events_def Let_def or_if_bit mask_or bit_or_iff by auto

lemma epoll_bits:
  "bit (afd_events_to_epoll_events e) n \<longleftrightarrow> (n = 0 \<or> n = 6) \<and> (bit e 0 \<or> bit e 7 \<or> bit e 3 \<or> bit e 8) \<or>
     (n = 1 \<or> n = 7) \<and> bit e 1 \<or> (n = 2 \<or> n = 8 ) \<and> (bit e 2 \<or> bit e 8) \<or> n = 9 \<and> bit e 2 \<or>
     n = 13 \<and> (bit e 3 \<or> bit e 8) \<or> n = 4 \<and> bit e 4 \<or> n = 3 \<and> bit e 8"
  unfolding afd_events_to_epoll_events_def Let_def or_if_bit mask_or bit_or_iff by auto

text \<open>
  C35: Translating the events a user asks for to the driver's and
  back, and keeping those that were asked for, gives exactly the known events that were
  asked for, apart from \<open>EPOLLMSG\<close>, which the driver has no counterpart of; so every such
  event can be reported.  The driver is always asked for local closes, and no other event
  is ever reported to the user.
\<close>

theorem wepoll_events_roundtrip:
  "e AND afd_events_to_epoll_events (epoll_events_to_afd_events e) = e AND SOCK_KNOWN_EPOLL_EVENTS AND NOT EPOLLMSG \<and>
   epoll_events_to_afd_events e AND AFD_POLL_LOCAL_CLOSE \<noteq> 0 \<and>
   afd_events_to_epoll_events a AND NOT (SOCK_KNOWN_EPOLL_EVENTS AND NOT EPOLLMSG) = 0"
  by (auto simp: bit_eq_iff [where 'a = "32 word"] bit_simps afd_bits epoll_bits SOCK_KNOWN_EPOLL_EVENTS_def)

text \<open>More is asked of the driver when the user asks for more.\<close>

lemma afd_covers:
  assumes "e AND SOCK_KNOWN_EPOLL_EVENTS AND NOT f = 0"
  shows "epoll_events_to_afd_events e AND NOT (epoll_events_to_afd_events f) = 0"
proof -
  have k: "bit e i \<Longrightarrow> bit f i" if "bit SOCK_KNOWN_EPOLL_EVENTS i" for i
  proof -
    have "\<not> bit (e AND SOCK_KNOWN_EPOLL_EVENTS AND NOT f) i" using assms by simp
    moreover assume "bit e i"
    moreover have "i < 32" using bit_imp_le_length [OF that] by simp
    ultimately show "bit f i" using that by (simp add: bit_and_iff bit_not_iff)
  qed
  have b: "bit SOCK_KNOWN_EPOLL_EVENTS i" if "i \<in> {0, 1, 2, 3, 4, 6, 7, 8, 9, 13}" for i
    using that by (auto simp: SOCK_KNOWN_EPOLL_EVENTS_def bit_or_iff)
  have "bit (epoll_events_to_afd_events e) n \<Longrightarrow> bit (epoll_events_to_afd_events f) n" for n
    unfolding afd_bits using k [OF b, of 0] k [OF b, of 1] k [OF b, of 2] k [OF b, of 3] k [OF b, of 4] k [OF b, of 6] k [OF b, of 7]
      k [OF b, of 8] k [OF b, of 9] k [OF b, of 13] by simp blast
  then show ?thesis by (intro bit_word_eqI) (auto simp: bit_and_iff bit_not_iff)
qed

subsection \<open>The contract of the port's sockets\<close>

text \<open>
  A port with one poll group and two sockets, the first waiting in the update queue, the
  second deleted while its poll is outstanding; a driver that takes every poll.
\<close>

definition waiting_sock :: sock_state_t where
  "waiting_sock = \<lparr>so_poll_group = 4, so_base_socket = 70, so_user_data = 9, so_user_events = EPOLLIN OR EPOLLONESHOT,
     so_pending_events = 0, so_poll_status = SOCK_POLL_IDLE, so_delete_pending = False\<rparr>"

definition dying_sock :: sock_state_t where
  "dying_sock = waiting_sock\<lparr>so_poll_status := SOCK_POLL_CANCELLED, so_delete_pending := True\<rparr>"

definition sample_tree :: tree_t where
  "sample_tree = \<lparr>tr_root = Some 5, tr_nodes =
     [5 \<mapsto> \<lparr>tn_left = None, tn_right = None, tn_parent = None, tn_key = 70, tn_red = False\<rparr>,
      6 \<mapsto> \<lparr>tn_left = None, tn_right = None, tn_parent = None, tn_key = 71, tn_red = False\<rparr>]\<rparr>"

definition sample_port :: "unit port" where
  "sample_port = \<lparr>ps_iocp_handle = Some 3, ps_sock_tree = sample_tree, ps_update_queue = 1, ps_deleted_queue = 2, ps_group_queue = 3,
     ps_active_poll_count = 0,
     ps_nodes = \<lparr>qn_prev = [1 \<mapsto> 5, 5 \<mapsto> 1, 2 \<mapsto> 6, 6 \<mapsto> 2, 3 \<mapsto> 4, 4 \<mapsto> 3],
                 qn_next = [1 \<mapsto> 5, 5 \<mapsto> 1, 2 \<mapsto> 6, 6 \<mapsto> 2, 3 \<mapsto> 4, 4 \<mapsto> 3]\<rparr>,
     ps_socks = [5 \<mapsto> waiting_sock, 6 \<mapsto> dying_sock], ps_group_size = [4 \<mapsto> 2], ps_group_handle = [4 \<mapsto> 9], ps_brk = 7,
     ps_last_error = 0, ps_world = ()\<rparr>"

definition sample_driver :: "'w port_env" where
  "sample_driver = \<lparr>NtCreateFile = (\<lambda>w. (STATUS_SUCCESS, 9, w)), NtDeviceIoControlFile = (\<lambda>_ _ _ _ w. (STATUS_PENDING, w)),
     NtCancelIoFileEx = (\<lambda>_ _ w. (STATUS_SUCCESS, w)), RtlNtStatusToDosError = (\<lambda>_. 87), iosb_Status = (\<lambda>_ _. STATUS_PENDING),
     set_iosb_Status = (\<lambda>_ _ w. w), CreateIoCompletionPort = (\<lambda>_ _ w. (Some 3, 0, w)),
     SetFileCompletionNotificationModes = (\<lambda>_ w. (True, 0, w)), CloseHandle = (\<lambda>_ w. (True, 0, w)),
     GetQueuedCompletionStatusEx = (\<lambda>_ _ _ w. (None, WAIT_TIMEOUT, w)), GetTickCount64 = (\<lambda>w. (0, w)),
     WSAIoctl = (\<lambda>s _ w. (Some s, 0, w)), malloc_ok = (\<lambda>w. (True, w))\<rparr>"

lemma port_invI: "port_rep p {} U D G \<Longrightarrow> port_inv p"
  by (auto simp: port_inv_def)

lemma sample_groups: "groups_ok (ps_socks sample_port) (ps_group_size sample_port) [4]"
proof -
  have "members (ps_socks sample_port) 4 = {5, 6}"
    by (auto simp: members_def sample_port_def waiting_sock_def dying_sock_def)
  then show ?thesis
    by (auto simp: groups_ok_def full_first_def sample_port_def waiting_sock_def dying_sock_def POLL_GROUP_MAX_GROUP_SIZE_def split: if_splits)
qed

lemma sample_tree_indexes: "tr.indexes sample_tree [70 \<mapsto> 5]"
proof -
  have "sh (tr_nodes sample_tree) None (Node Leaf (5, 70, False) Leaf)" "rbt (Node Leaf (5, 70, False) Leaf)"
    by (auto simp: sample_tree_def mkn_def rbt_def)
  then have "tree_holds sample_tree [(70, 5)]" unfolding tree_holds_def trep_def
    by (intro conjI exI [of _ "Node Leaf (5, 70, False) Leaf"]) (simp_all add: sample_tree_def)
  then show ?thesis unfolding tr.indexes_def by (intro exI [of _ "[(70, 5)]"]) simp
qed

lemma sample_index: "index_ok (ps_sock_tree sample_port) (ps_socks sample_port)"
proof -
  have "live_socks (ps_socks sample_port) = {5}"
    by (auto simp: live_socks_def sample_port_def waiting_sock_def dying_sock_def split: if_splits)
  moreover have "dom (tr_nodes sample_tree) = dom (ps_socks sample_port)" "ps_sock_tree sample_port = sample_tree" "ran [70 \<mapsto> 5] = {5}"
    by (auto simp: sample_port_def sample_tree_def)
  ultimately show ?thesis unfolding index_ok_def using sample_tree_indexes by metis
qed

lemma sample_port_queues: "qrep (ps_nodes sample_port) (ps_update_queue sample_port) (ps_deleted_queue sample_port) (ps_group_queue sample_port)
    (dom (ps_socks sample_port)) [5] [6] [4]"
  unfolding qrep_def by (intro conjI ballI) (auto simp: queue_def sample_port_def)

lemma sample_mem: "port_mem sample_port [4]"
  unfolding port_mem_def by (simp add: sample_port_def)

lemma sample_placed: "ps_socks sample_port a = Some so \<Longrightarrow> sock_ok so \<and> placed [5] [6] a so"
  by (auto simp: placed_def sock_ok_def sample_port_def waiting_sock_def dying_sock_def split: if_splits)

lemma sample_port_inv: "port_inv sample_port"
  by (rule port_invI [of _ "[5]" "[6]" "[4]"])
    (simp add: port_rep_def sample_groups sample_index sample_port_queues sample_mem sample_placed)

lemma sample_socks: "ps_socks sample_port 5 = Some waiting_sock" "ps_socks sample_port 6 = Some dying_sock"
  by (simp_all add: sample_port_def)

text \<open>
  C23: Deleting a socket frees it at once when no poll of it is outstanding;
  otherwise it is kept, marked, and the completion of its poll, whatever it says, frees it
  without reporting an event.  A forced deletion always frees it.  Every state in between
  is valid, so that no queue ever holds a freed socket.
\<close>

theorem wepoll_delete:
  assumes "port_inv p" "ps_socks p a = Some so"
  shows "(\<exists>p'. sock_delete env a p = Some p' \<and> port_inv p' \<and>
      (if so_poll_status so = SOCK_POLL_IDLE then ps_socks p' = (ps_socks p)(a := None)
       else (\<exists>so'. ps_socks p' = (ps_socks p)(a \<mapsto> so') \<and> so_delete_pending so') \<and>
         (\<exists>p''. sock_feed_event env a io p' = Some (0, None, p'') \<and> port_inv p'' \<and> ps_socks p'' = (ps_socks p)(a := None)))) \<and>
    (\<exists>p'. sock_force_delete env a p = Some p' \<and> port_inv p' \<and> ps_socks p' = (ps_socks p)(a := None))"
proof (intro conjI)
  obtain U D G where rep: "port_rep p {} U D G" using assms(1) by (auto simp: port_inv_def)
  show "\<exists>p'. sock_force_delete env a p = Some p' \<and> port_inv p' \<and> ps_socks p' = (ps_socks p)(a := None)"
    using sock_delete_rep [OF rep assms(2), of env True] port_invI by (fastforce simp: sock_force_delete_def)
  obtain p' D' G' where p': "sock_delete_with env a False p = Some (0, p')" "port_rep p' {} (remove1 a U) D' G'"
      "if so_poll_status so = SOCK_POLL_IDLE then ps_socks p' = (ps_socks p)(a := None)
       else \<exists>so'. ps_socks p' = (ps_socks p)(a \<mapsto> so') \<and> so_delete_pending so' \<and> so_poll_status so' \<noteq> SOCK_POLL_IDLE"
    using sock_delete_rep [OF rep assms(2), of env False] by auto
  have "\<exists>p''. sock_feed_event env a io p' = Some (0, None, p'') \<and> port_inv p'' \<and> ps_socks p'' = (ps_socks p)(a := None)"
    if busy: "so_poll_status so \<noteq> SOCK_POLL_IDLE"
  proof -
    obtain so' where so': "ps_socks p' = (ps_socks p)(a \<mapsto> so')" "so_delete_pending so'" using p'(3) busy by auto
    then have "ps_socks p' a = Some so'" by simp
    from feed_rep [OF p'(2) this, of env io] show ?thesis using so' by (auto simp: port_inv_def)
  qed
  then show "\<exists>p'. sock_delete env a p = Some p' \<and> port_inv p' \<and>
      (if so_poll_status so = SOCK_POLL_IDLE then ps_socks p' = (ps_socks p)(a := None)
       else (\<exists>so'. ps_socks p' = (ps_socks p)(a \<mapsto> so') \<and> so_delete_pending so') \<and>
         (\<exists>p''. sock_feed_event env a io p' = Some (0, None, p'') \<and> port_inv p'' \<and> ps_socks p'' = (ps_socks p)(a := None)))"
    using p' by (intro exI [of _ p']) (auto simp: sock_delete_def port_inv_def split: if_splits)
qed

theorem wepoll_delete_witness:
  "\<exists>p'. sock_delete sample_driver 5 sample_port = Some p' \<and> port_inv p' \<and> ps_socks p' 5 = None"
  using wepoll_delete [OF sample_port_inv sample_socks(1), of sample_driver] by (auto simp: waiting_sock_def)

text \<open>
  C34: A completion of a socket's poll makes the socket idle.  It reports
  at most one event: exactly the events of the completion that the user asks for, with the
  user's data, and nothing for a cancelled poll; a failed poll counts as \<open>EPOLLERR\<close>.  The
  socket is queued for a new poll, and with \<open>EPOLLONESHOT\<close> a report clears what the user
  asks for.  A deleted socket, and one whose close the driver reports, is freed.
\<close>

theorem wepoll_feed_event:
  assumes "port_inv p" "ps_socks p a = Some so"
  shows "\<exists>ev p'. sock_feed_event env a io p = Some (if ev = None then 0 else 1, ev, p') \<and> port_inv p' \<and>
    (if so_delete_pending so \<or> locally_closed io then ev = None \<and> ps_socks p' = (ps_socks p)(a := None)
     else queue_is_enqueued (ps_nodes p') a = Some True \<and>
       ev = (if reported io (so_user_events so) = 0 then None
             else Some \<lparr>ee_events = reported io (so_user_events so), ee_data = so_user_data so\<rparr>) \<and>
       (\<exists>so'. ps_socks p' = (ps_socks p)(a \<mapsto> so') \<and> so_poll_status so' = SOCK_POLL_IDLE \<and>
         so_user_events so' = (if ev \<noteq> None \<and> so_user_events so AND EPOLLONESHOT \<noteq> 0 then 0 else so_user_events so)))"
proof -
  obtain U D G where "port_rep p {} U D G" using assms(1) by (auto simp: port_inv_def)
  from feed_rep [OF this assms(2), of env io] obtain r ev p' U' D' G' where
    f: "sock_feed_event env a io p = Some (r, ev, p')" "port_rep p' {} U' D' G'" and
    g: "if so_delete_pending so \<or> locally_closed io then r = 0 \<and> ev = None \<and> ps_socks p' = (ps_socks p)(a := None)
     else a \<in> set U' \<and>
       (\<exists>so'. ps_socks p' = (ps_socks p)(a \<mapsto> so') \<and> so_poll_status so' = SOCK_POLL_IDLE \<and> \<not> so_delete_pending so' \<and>
        so_user_data so' = so_user_data so \<and>
       (if reported io (so_user_events so) = 0 then r = 0 \<and> ev = None \<and> so_user_events so' = so_user_events so
        else r = 1 \<and> ev = Some \<lparr>ee_events = reported io (so_user_events so), ee_data = so_user_data so\<rparr> \<and>
          so_user_events so' = (if so_user_events so AND EPOLLONESHOT \<noteq> 0 then 0 else so_user_events so)))" by blast
  have "queue_is_enqueued (ps_nodes p') a = Some True" if "a \<in> set U'"
    using f(2) that by (auto simp: port_rep_def qrep_def dest: qrep_enqueued intro: queue_is_enqueued_member)
  then show ?thesis using f g
    by (intro exI [of _ ev] exI [of _ p']) (auto simp: port_inv_def split: if_splits)
qed

theorem wepoll_feed_event_witness:
  "\<exists>p'. sock_feed_event sample_driver 5 \<lparr>cp_status = STATUS_SUCCESS, cp_handles = 1, cp_events = AFD_POLL_RECEIVE\<rparr> sample_port =
      Some (1, Some \<lparr>ee_events = EPOLLIN, ee_data = 9\<rparr>, p') \<and> port_inv p'"
proof -
  have "reported \<lparr>cp_status = STATUS_SUCCESS, cp_handles = 1, cp_events = AFD_POLL_RECEIVE\<rparr> (EPOLLIN OR EPOLLONESHOT) = EPOLLIN"
      "EPOLLIN \<noteq> 0" "AFD_POLL_RECEIVE AND AFD_POLL_LOCAL_CLOSE = 0"
    by (simp_all add: reported_def afd_events_to_epoll_events_def or_if_def wepoll_defs afd_defs NT_SUCCESS_def status_defs)
  moreover have "NT_SUCCESS STATUS_SUCCESS" "STATUS_SUCCESS \<noteq> STATUS_CANCELLED" by (simp_all add: NT_SUCCESS_def status_defs)
  ultimately show ?thesis
    using wepoll_feed_event [OF sample_port_inv sample_socks(1), of sample_driver
        "\<lparr>cp_status = STATUS_SUCCESS, cp_handles = 1, cp_events = AFD_POLL_RECEIVE\<rparr>"]
    by (auto simp: waiting_sock_def locally_closed_def)
qed

end
