(* ===== verification/Wepoll_Port.thy ===== *)
theory Wepoll_Port
  imports Wepoll_Sock
begin

unbundle bit_operations_syntax

text \<open>
  The event port of src/src/wepoll.c: poll groups (lines 956--1031), creation, control,
  waiting and deletion of a port (lines 1056--1417), new sockets (lines 1641--1680).

  Memory is handed out at the first free address, and the allocator may refuse.  A result
  \<open>None\<close> of the outer option is a failed assertion, a bad memory access, or a loop that does
  not end; a NULL that the code returns is an inner \<open>None\<close>.  An operation runs with the
  port's lock held; \<open>port__poll\<close> is split where it gives the lock up.
\<close>

subsection \<open>Poll groups\<close>

definition port_get_iocp_handle :: "'w port \<Rightarrow> int option" where
  "port_get_iocp_handle p = ps_iocp_handle p"

definition poll_group_free :: "addr \<Rightarrow> 'w port \<Rightarrow> 'w port" where
  "poll_group_free g p = p\<lparr>ps_group_size := (ps_group_size p)(g := None), ps_group_handle := (ps_group_handle p)(g := None),
     ps_nodes := (ps_nodes p)\<lparr>qn_prev := (qn_prev (ps_nodes p))(g := None), qn_next := (qn_next (ps_nodes p))(g := None)\<rparr>\<rparr>"

definition poll_group_new :: "'w port_env \<Rightarrow> 'w port \<Rightarrow> (addr option \<times> 'w port) option" where
  "poll_group_new env p = do {
     iocp_handle \<leftarrow> port_get_iocp_handle p;
     let (ok, w) = malloc_ok env (ps_world p);
     let p = p\<lparr>ps_world := w\<rparr>;
     if \<not> ok then Some (None, p\<lparr>ps_last_error := ERROR_NOT_ENOUGH_MEMORY\<rparr>)
     else do {
       let g = ps_brk p;
       let p = p\<lparr>ps_brk := g + 1, ps_group_size := (ps_group_size p)(g \<mapsto> 0), ps_group_handle := (ps_group_handle p)(g \<mapsto> 0),
                 ps_nodes := \<lparr>qn_prev = (qn_prev (ps_nodes p))(g \<mapsto> 0), qn_next = (qn_next (ps_nodes p))(g \<mapsto> 0)\<rparr>\<rparr>;
       p \<leftarrow> upd_nodes (\<lambda>m. queue_node_init m g) p;
       let (r, err, h, w) = afd_create_helper_handle env (Some iocp_handle) (ps_world p);
       let p = p\<lparr>ps_world := w\<rparr>;
       if r < 0 then Some (None, poll_group_free g (p\<lparr>ps_last_error := err\<rparr>))
       else do {
         let p = p\<lparr>ps_group_handle := (ps_group_handle p)(g \<mapsto> h)\<rparr>;
         p \<leftarrow> upd_nodes (\<lambda>m. queue_append m (ps_group_queue p) g) p;
         Some (Some g, p)
       }
     }
   }"

definition poll_group_delete :: "'w port_env \<Rightarrow> addr \<Rightarrow> 'w port \<Rightarrow> 'w port option" where
  "poll_group_delete env g p = do {
     n \<leftarrow> ps_group_size p g;
     if n = 0 then do {
       h \<leftarrow> ps_group_handle p g;
       let (_, _, w) = CloseHandle env h (ps_world p);
       let p = p\<lparr>ps_world := w\<rparr>;
       p \<leftarrow> upd_nodes (\<lambda>m. queue_remove m g) p;
       Some (poll_group_free g p)
     } else None
   }"

definition poll_group_acquire :: "'w port_env \<Rightarrow> 'w port \<Rightarrow> (addr option \<times> 'w port) option" where
  "poll_group_acquire env p = do {
     poll_group \<leftarrow> queue_last (ps_nodes p) (ps_group_queue p);
     full \<leftarrow> (case poll_group of None \<Rightarrow> Some True
              | Some g \<Rightarrow> do { n \<leftarrow> ps_group_size p g; Some (n \<ge> POLL_GROUP_MAX_GROUP_SIZE) });
     (poll_group, p) \<leftarrow> (if full then poll_group_new env p else Some (poll_group, p));
     case poll_group of None \<Rightarrow> Some (None, p)
     | Some g \<Rightarrow> do {
         n \<leftarrow> ps_group_size p g;
         let p = p\<lparr>ps_group_size := (ps_group_size p)(g \<mapsto> n + 1)\<rparr>;
         p \<leftarrow> (if n + 1 = POLL_GROUP_MAX_GROUP_SIZE then upd_nodes (\<lambda>m. queue_move_to_start m (ps_group_queue p) g) p else Some p);
         Some (Some g, p)
       }
   }"

subsection \<open>Registration\<close>

definition port_register_socket :: "addr \<Rightarrow> nat \<Rightarrow> 'w port \<Rightarrow> (int \<times> 'w port) option" where
  "port_register_socket a socket p = do {
     (r, tree) \<leftarrow> tree_add a socket (ps_sock_tree p);
     let p = p\<lparr>ps_sock_tree := tree\<rparr>;
     if r < 0 then Some (-1, p\<lparr>ps_last_error := ERROR_ALREADY_EXISTS\<rparr>) else Some (0, p)
   }"

definition port_find_socket :: "nat \<Rightarrow> 'w port \<Rightarrow> (addr option \<times> 'w port) option" where
  "port_find_socket socket p = do {
     tree_node \<leftarrow> tree_find (ps_sock_tree p) socket;
     case tree_node of None \<Rightarrow> Some (None, p\<lparr>ps_last_error := ERROR_NOT_FOUND\<rparr>) | Some a \<Rightarrow> Some (Some a, p)
   }"

text \<open>The memory of a socket, all zero, with its queue node and its tree node.\<close>

definition blank_sock :: sock_state_t where
  "blank_sock = \<lparr>so_poll_group = 0, so_base_socket = 0, so_user_data = 0, so_user_events = 0, so_pending_events = 0,
     so_poll_status = SOCK_POLL_IDLE, so_delete_pending = False\<rparr>"

definition sock_alloc :: "'w port_env \<Rightarrow> 'w port \<Rightarrow> addr option \<times> 'w port" where
  "sock_alloc env p =
     (let (ok, w) = malloc_ok env (ps_world p);
          p = p\<lparr>ps_world := w\<rparr>
      in if \<not> ok then (None, p\<lparr>ps_last_error := ERROR_NOT_ENOUGH_MEMORY\<rparr>)
         else let a = ps_brk p
              in (Some a, p\<lparr>ps_brk := a + 1, ps_socks := (ps_socks p)(a \<mapsto> blank_sock),
                   ps_nodes := \<lparr>qn_prev = (qn_prev (ps_nodes p))(a \<mapsto> 0), qn_next = (qn_next (ps_nodes p))(a \<mapsto> 0)\<rparr>,
                   ps_sock_tree := (ps_sock_tree p)\<lparr>tr_nodes := (tr_nodes (ps_sock_tree p))
                     (a \<mapsto> \<lparr>tn_left = None, tn_right = None, tn_parent = None, tn_key = 0, tn_red = False\<rparr>)\<rparr>\<rparr>))"

text \<open>\<open>sock_new\<close> from the assignments to the fields up to the registration.\<close>

definition sock_setup :: "addr \<Rightarrow> nat \<Rightarrow> addr \<Rightarrow> nat \<Rightarrow> 'w port \<Rightarrow> (int \<times> 'w port) option" where
  "sock_setup a base_socket poll_group socket p = do {
     p \<leftarrow> upd_sock a (\<lambda>so. so\<lparr>so_base_socket := base_socket, so_poll_group := poll_group\<rparr>) p;
     tree \<leftarrow> tree_node_init a (ps_sock_tree p);
     let p = p\<lparr>ps_sock_tree := tree\<rparr>;
     p \<leftarrow> upd_nodes (\<lambda>m. queue_node_init m a) p;
     port_register_socket a socket p
   }"

definition sock_new :: "'w port_env \<Rightarrow> nat \<Rightarrow> 'w port \<Rightarrow> (addr option \<times> 'w port) option" where
  "sock_new env socket p =
     (if socket = 0 \<or> socket = INVALID_SOCKET then Some (None, p\<lparr>ps_last_error := ERROR_INVALID_HANDLE\<rparr>)
      else do {
        (base_socket, err, w) \<leftarrow> ws_get_base_socket env socket (ps_world p);
        let p = p\<lparr>ps_world := w\<rparr>;
        if base_socket = INVALID_SOCKET then Some (None, p\<lparr>ps_last_error := err\<rparr>)
        else do {
          (poll_group, p) \<leftarrow> poll_group_acquire env p;
          case poll_group of None \<Rightarrow> Some (None, p)
          | Some g \<Rightarrow>
              (case sock_alloc env p of
                 (None, p) \<Rightarrow> do { p \<leftarrow> poll_group_release g p; Some (None, p) }
               | (Some a, p) \<Rightarrow> do {
                   (r, p) \<leftarrow> sock_setup a base_socket g socket p;
                   if r < 0 then do {
                     p \<leftarrow> sock_free a p;
                     p \<leftarrow> poll_group_release g p;
                     Some (None, p)
                   } else Some (Some a, p)
                 })
        }
      })"

subsection \<open>Control\<close>

text \<open>The operations of wepoll.h; two of their numbers are not those of Linux.\<close>

definition EPOLL_CTL_ADD_win :: int where "EPOLL_CTL_ADD_win = 1"
definition EPOLL_CTL_MOD_win :: int where "EPOLL_CTL_MOD_win = 2"
definition EPOLL_CTL_DEL_win :: int where "EPOLL_CTL_DEL_win = 3"

lemmas ctl_defs = EPOLL_CTL_ADD_win_def EPOLL_CTL_MOD_win_def EPOLL_CTL_DEL_win_def

definition port_ctl_add :: "'w port_env \<Rightarrow> nat \<Rightarrow> epoll_event_t \<Rightarrow> 'w port \<Rightarrow> (int \<times> 'w port) option" where
  "port_ctl_add env sock ev p = do {
     (sock_state, p) \<leftarrow> sock_new env sock p;
     case sock_state of None \<Rightarrow> Some (-1, p)
     | Some a \<Rightarrow> do {
         (r, p) \<leftarrow> sock_set_event a ev p;
         if r < 0 then do { p \<leftarrow> sock_delete env a p; Some (-1, p) }
         else do { p \<leftarrow> port_update_events_if_polling env p; Some (0, p) }
       }
   }"

definition port_ctl_mod :: "'w port_env \<Rightarrow> nat \<Rightarrow> epoll_event_t \<Rightarrow> 'w port \<Rightarrow> (int \<times> 'w port) option" where
  "port_ctl_mod env sock ev p = do {
     (sock_state, p) \<leftarrow> port_find_socket sock p;
     case sock_state of None \<Rightarrow> Some (-1, p)
     | Some a \<Rightarrow> do {
         (r, p) \<leftarrow> sock_set_event a ev p;
         if r < 0 then Some (-1, p)
         else do { p \<leftarrow> port_update_events_if_polling env p; Some (0, p) }
       }
   }"

definition port_ctl_del :: "'w port_env \<Rightarrow> nat \<Rightarrow> 'w port \<Rightarrow> (int \<times> 'w port) option" where
  "port_ctl_del env sock p = do {
     (sock_state, p) \<leftarrow> port_find_socket sock p;
     case sock_state of None \<Rightarrow> Some (-1, p)
     | Some a \<Rightarrow> do { p \<leftarrow> sock_delete env a p; Some (0, p) }
   }"

definition port_ctl_op :: "'w port_env \<Rightarrow> int \<Rightarrow> nat \<Rightarrow> epoll_event_t \<Rightarrow> 'w port \<Rightarrow> (int \<times> 'w port) option" where
  "port_ctl_op env op sock ev p =
     (if op = EPOLL_CTL_ADD_win then port_ctl_add env sock ev p
      else if op = EPOLL_CTL_MOD_win then port_ctl_mod env sock ev p
      else if op = EPOLL_CTL_DEL_win then port_ctl_del env sock p
      else Some (-1, p\<lparr>ps_last_error := ERROR_INVALID_PARAMETER\<rparr>))"

text \<open>The lock is held throughout.\<close>

definition port_ctl :: "'w port_env \<Rightarrow> int \<Rightarrow> nat \<Rightarrow> epoll_event_t \<Rightarrow> 'w port \<Rightarrow> (int \<times> 'w port) option" where
  "port_ctl env op sock ev p = port_ctl_op env op sock ev p"

subsection \<open>Waiting\<close>

definition NULL_handle :: int where "NULL_handle = 0"
definition INFINITE :: "32 word" where "INFINITE = 0xFFFFFFFF"
definition PORT_MAX_ON_STACK_COMPLETIONS :: nat where "PORT_MAX_ON_STACK_COMPLETIONS = 256"

text \<open>\<open>port__poll\<close> up to the place where it gives up the lock, the call without it, the rest.\<close>

definition port_poll_enter :: "'w port_env \<Rightarrow> 'w port \<Rightarrow> (int \<times> 'w port) option" where
  "port_poll_enter env p = do {
     (r, p) \<leftarrow> port_update_events env p;
     if r < 0 then Some (-1, p) else Some (0, p\<lparr>ps_active_poll_count := ps_active_poll_count p + 1\<rparr>)
   }"

definition port_poll_dequeue :: "'w port_env \<Rightarrow> nat \<Rightarrow> 32 word \<Rightarrow> 'w port \<Rightarrow> ((addr \<times> completion) list option \<times> int) \<times> 'w port" where
  "port_poll_dequeue env maxevents timeout p =
     (let (r, err, w) = GetQueuedCompletionStatusEx env (case ps_iocp_handle p of Some h \<Rightarrow> h | None \<Rightarrow> NULL_handle)
            maxevents timeout (ps_world p)
      in ((r, err), p\<lparr>ps_world := w\<rparr>))"

definition port_poll_leave :: "'w port_env \<Rightarrow> (addr \<times> completion) list option \<times> int \<Rightarrow> 'w port \<Rightarrow>
    (int \<times> epoll_event_t list \<times> 'w port) option" where
  "port_poll_leave env res p = do {
     let p = p\<lparr>ps_active_poll_count := ps_active_poll_count p - 1\<rparr>;
     case res of
       (None, err) \<Rightarrow> Some (-1, [], p\<lparr>ps_last_error := err\<rparr>)
     | (Some completions, _) \<Rightarrow> do {
         (evs, p) \<leftarrow> port_feed_events env completions p;
         Some (int (length evs), evs, p)
       }
   }"

definition port_poll :: "'w port_env \<Rightarrow> nat \<Rightarrow> 32 word \<Rightarrow> 'w port \<Rightarrow> (int \<times> epoll_event_t list \<times> 'w port) option" where
  "port_poll env maxevents timeout p = do {
     (r, p) \<leftarrow> port_poll_enter env p;
     if r < 0 then Some (-1, [], p)
     else (case port_poll_dequeue env maxevents timeout p of (res, p) \<Rightarrow> port_poll_leave env res p)
   }"

text \<open>The loop of \<open>port_wait\<close>.\<close>

partial_function (option) port_wait_loop :: "'w port_env \<Rightarrow> nat \<Rightarrow> int \<Rightarrow> 64 word \<Rightarrow> 32 word \<Rightarrow> 'w port \<Rightarrow>
    (int \<times> epoll_event_t list \<times> 'w port) option" where
  "port_wait_loop env maxevents timeout due_time gqcs_timeout p = do {
     (result, evs, p) \<leftarrow> port_poll env maxevents gqcs_timeout p;
     if result < 0 \<or> result > 0 then Some (result, evs, p)
     else if timeout < 0 then port_wait_loop env maxevents timeout due_time gqcs_timeout p
     else (case GetTickCount64 env (ps_world p) of (now, w) \<Rightarrow>
       if now \<ge> due_time then Some (result, evs, p\<lparr>ps_world := w, ps_last_error := WAIT_TIMEOUT\<rparr>)
       else port_wait_loop env maxevents timeout due_time (ucast (due_time - now)) (p\<lparr>ps_world := w\<rparr>))
   }"

declare port_wait_loop.simps [code]

definition port_wait :: "'w port_env \<Rightarrow> int \<Rightarrow> int \<Rightarrow> 'w port \<Rightarrow> (int \<times> epoll_event_t list \<times> 'w port) option" where
  "port_wait env maxevents timeout p =
     (if maxevents \<le> 0 then Some (-1, [], p\<lparr>ps_last_error := ERROR_INVALID_PARAMETER\<rparr>)
      else do {
        let (maxevents, p) =
          (if nat maxevents \<le> PORT_MAX_ON_STACK_COMPLETIONS then (nat maxevents, p)
           else let (ok, w) = malloc_ok env (ps_world p)
                in (if ok then nat maxevents else PORT_MAX_ON_STACK_COMPLETIONS, p\<lparr>ps_world := w\<rparr>));
        let (due, gqcs_timeout, p) =
          (if timeout > 0 then let (now, w) = GetTickCount64 env (ps_world p)
                               in (now + word_of_int timeout, word_of_int timeout, p\<lparr>ps_world := w\<rparr>)
           else if timeout = 0 then (0, 0, p) else (0, INFINITE, p));
        (result, evs, p) \<leftarrow> port_wait_loop env maxevents timeout due gqcs_timeout p;
        p \<leftarrow> port_update_events_if_polling env p;
        if result \<ge> 0 then Some (result, evs, p)
        else if ps_last_error p = WAIT_TIMEOUT then Some (0, evs, p)
        else Some (-1, evs, p)
      })"

subsection \<open>Creation and deletion\<close>

text \<open>The port and its handle, or NULL with the error; the three queue heads are in the port.\<close>

definition port_create_iocp :: "'w port_env \<Rightarrow> 'w \<Rightarrow> int option \<times> int \<times> 'w" where
  "port_create_iocp env w = CreateIoCompletionPort env INVALID_HANDLE_VALUE None w"

definition port_new :: "'w port_env \<Rightarrow> 'w \<Rightarrow> ((int \<times> 'w port) option \<times> int \<times> 'w) option" where
  "port_new env w =
     (let (ok, w) = malloc_ok env w
      in if \<not> ok then Some (None, ERROR_NOT_ENOUGH_MEMORY, w)
         else case port_create_iocp env w of
           (None, err, w) \<Rightarrow> Some (None, err, w)
         | (Some iocp_handle, _, w) \<Rightarrow> do {
             let m = \<lparr>qn_prev = [1 \<mapsto> 0, 2 \<mapsto> 0, 3 \<mapsto> 0], qn_next = [1 \<mapsto> 0, 2 \<mapsto> 0, 3 \<mapsto> 0]\<rparr>;
             m \<leftarrow> queue_init m 1;
             m \<leftarrow> queue_init m 2;
             m \<leftarrow> queue_init m 3;
             Some (Some (iocp_handle, \<lparr>ps_iocp_handle = Some iocp_handle, ps_sock_tree = tree_init \<lparr>tr_root = None, tr_nodes = Map.empty\<rparr>,
               ps_update_queue = 1, ps_deleted_queue = 2, ps_group_queue = 3, ps_active_poll_count = 0, ps_nodes = m,
               ps_socks = Map.empty, ps_group_size = Map.empty, ps_group_handle = Map.empty, ps_brk = 4, ps_last_error = 0,
               ps_world = w\<rparr>), 0, w)
           })"

definition port_close :: "'w port_env \<Rightarrow> 'w port \<Rightarrow> int \<times> 'w port" where
  "port_close env p =
     (let h = (case ps_iocp_handle p of Some h \<Rightarrow> h | None \<Rightarrow> NULL_handle);
          (ok, err, w) = CloseHandle env h (ps_world p);
          p = p\<lparr>ps_iocp_handle := None, ps_world := w\<rparr>
      in if \<not> ok then (-1, p\<lparr>ps_last_error := err\<rparr>) else (0, p))"

text \<open>The three loops of \<open>port_delete\<close>.\<close>

partial_function (option) delete_registered :: "'w port_env \<Rightarrow> 'w port \<Rightarrow> 'w port option" where
  "delete_registered env p =
     (case tree_root (ps_sock_tree p) of None \<Rightarrow> Some p
      | Some a \<Rightarrow> do { p \<leftarrow> sock_force_delete env a p; delete_registered env p })"

partial_function (option) delete_deleted :: "'w port_env \<Rightarrow> 'w port \<Rightarrow> 'w port option" where
  "delete_deleted env p = do {
     n \<leftarrow> queue_first (ps_nodes p) (ps_deleted_queue p);
     case n of None \<Rightarrow> Some p
     | Some a \<Rightarrow> do { p \<leftarrow> sock_force_delete env a p; delete_deleted env p }
   }"

partial_function (option) delete_groups :: "'w port_env \<Rightarrow> 'w port \<Rightarrow> 'w port option" where
  "delete_groups env p = do {
     n \<leftarrow> queue_first (ps_nodes p) (ps_group_queue p);
     case n of None \<Rightarrow> Some p
     | Some g \<Rightarrow> do { p \<leftarrow> poll_group_delete env g p; delete_groups env p }
   }"

declare delete_registered.simps [code] delete_deleted.simps [code] delete_groups.simps [code]

definition port_delete :: "'w port_env \<Rightarrow> 'w port \<Rightarrow> (int \<times> 'w port) option" where
  "port_delete env p =
     (if ps_iocp_handle p = None then do {
        p \<leftarrow> delete_registered env p;
        p \<leftarrow> delete_deleted env p;
        p \<leftarrow> delete_groups env p;
        e \<leftarrow> queue_is_empty (ps_nodes p) (ps_update_queue p);
        if e then Some (0, p) else None
      } else None)"

subsection \<open>Allocation and the queues\<close>

lemma qrep_only:
  assumes "qrep m u d g S U D G" "only A m m'" "A \<inter> (set (u # d # g # G) \<union> S) = {}"
  shows "qrep m' u d g S U D G"
proof -
  have "queue m' u U" "queue m' d D" "queue m' g G"
    by (rule queue_other [OF _ assms(2)], use assms(1,3) in \<open>auto simp: qrep_def\<close>)+
  moreover have "\<forall>a\<in>S - set U - set D. idle m' a"
    by (intro ballI idle_only [OF _ assms(2)]) (use assms(1,3) in \<open>auto simp: qrep_def\<close>)
  ultimately show ?thesis using assms(1) by (simp add: qrep_def)
qed

lemma qrep_append_group:
  assumes q: "qrep m u d g S U D G" and x: "qnode m x" "x \<notin> set (u # d # g # G) \<union> S"
  shows "\<exists>m'. queue_append m g x = Some m' \<and> qrep m' u d g S U D (G @ [x])"
proof -
  obtain m' where m': "queue_append m g x = Some m'" "queue m' g (G @ [x])" "only (set (x # g # G)) m m'"
    using queue_append_list [of m g G x] q x by (auto simp: qrep_def)
  have "queue m' u U" "queue m' d D"
    by (rule queue_other [OF _ m'(3)], use q x in \<open>auto simp: qrep_def\<close>)+
  moreover have "\<forall>b\<in>S - set U - set D. idle m' b"
    by (intro ballI idle_only [OF _ m'(3)]) (use q x in \<open>auto simp: qrep_def\<close>)
  ultimately show ?thesis using m' q x by (auto simp: qrep_def)
qed

lemma qrep_group_start:
  assumes q: "qrep m u d g S U D G" and x: "x \<in> set G"
  shows "\<exists>m'. queue_move_to_start m g x = Some m' \<and> qrep m' u d g S U D (x # remove1 x G)"
proof -
  obtain m' where m': "queue_move_to_start m g x = Some m'" "queue m' g (x # remove1 x G)" "only (set (g # G)) m m'"
    using queue_move_list(2) [of m g G x] q x by (auto simp: qrep_def)
  have "queue m' u U" "queue m' d D"
    by (rule queue_other [OF _ m'(3)], use q in \<open>auto simp: qrep_def\<close>)+
  moreover have "\<forall>b\<in>S - set U - set D. idle m' b"
    by (intro ballI idle_only [OF _ m'(3)]) (use q in \<open>auto simp: qrep_def\<close>)
  moreover have "distinct (x # remove1 x G)" "set (x # remove1 x G) = set G" using q x by (auto simp: qrep_def distinct_remove1)
  ultimately show ?thesis using m' q by (auto simp: qrep_def)
qed

lemma qrep_remove_group:
  assumes q: "qrep m u d g S U D G" and x: "x \<in> set G"
  shows "\<exists>m'. queue_remove m x = Some m' \<and> qrep m' u d g S U D (remove1 x G)"
proof -
  obtain m' where m': "queue_remove m x = Some m'" "queue m' g (remove1 x G)" "only (set (g # G)) m m'"
    using queue_remove_list [of m g G x] q x by (auto simp: qrep_def)
  have "queue m' u U" "queue m' d D"
    by (rule queue_other [OF _ m'(3)], use q in \<open>auto simp: qrep_def\<close>)+
  moreover have "\<forall>b\<in>S - set U - set D. idle m' b"
    by (intro ballI idle_only [OF _ m'(3)]) (use q in \<open>auto simp: qrep_def\<close>)
  moreover have "distinct (remove1 x G)" "set (remove1 x G) \<subseteq> set G" using q by (auto simp: qrep_def distinct_remove1 set_remove1_eq)
  ultimately show ?thesis using m' q by (auto simp: qrep_def)
qed

text \<open>New memory is used by nothing.\<close>

lemma brk_fresh:
  assumes "port_rep p X U D G"
  shows "ps_brk p \<notin> set (ps_update_queue p # ps_deleted_queue p # ps_group_queue p # G) \<union> dom (ps_socks p)"
    "ps_socks p (ps_brk p) = None" "tr_nodes (ps_sock_tree p) (ps_brk p) = None" "ps_group_size p (ps_brk p) = None"
proof -
  have m: "dom (ps_socks p) \<union> set (ps_update_queue p # ps_deleted_queue p # ps_group_queue p # G) \<subseteq> {..<ps_brk p}"
    using assms by (simp add: port_rep_def port_mem_def)
  show f: "ps_brk p \<notin> set (ps_update_queue p # ps_deleted_queue p # ps_group_queue p # G) \<union> dom (ps_socks p)" using m by auto
  then show "ps_socks p (ps_brk p) = None" by (simp add: domIff)
  have "dom (tr_nodes (ps_sock_tree p)) = dom (ps_socks p)" "dom (ps_group_size p) = set G"
    using assms by (auto simp: port_rep_def index_ok_def groups_ok_def)
  then have "ps_brk p \<notin> dom (tr_nodes (ps_sock_tree p))" "ps_brk p \<notin> dom (ps_group_size p)" using f by auto
  then show "tr_nodes (ps_sock_tree p) (ps_brk p) = None" "ps_group_size p (ps_brk p) = None" by (simp_all add: domIff)
qed

lemma node_init_ok:
  "\<exists>m'. queue_node_init \<lparr>qn_prev = (qn_prev m)(a \<mapsto> x), qn_next = (qn_next m)(a \<mapsto> y)\<rparr> a = Some m' \<and> idle m' a \<and> only {a} m m'"
  by (auto simp: queue_node_init_def set_qprev_def set_qnext_def idle_def only_def)

subsection \<open>Poll groups\<close>

lemma groups_new:
  assumes "groups_ok h sz G" "g \<notin> set G"
  shows "groups_ok h (sz(g \<mapsto> 0)) (G @ [g])"
proof -
  have "members h g = {}" using assms by (auto simp: groups_ok_def members_def)
  moreover have "full_first (sz(g \<mapsto> 0)) (G @ [g])"
  proof -
    have "full_first sz G" using assms(1) by (simp add: groups_ok_def)
    then have "sorted_wrt (\<lambda>x y. (sz(g \<mapsto> 0)) y = Some POLL_GROUP_MAX_GROUP_SIZE \<longrightarrow> (sz(g \<mapsto> 0)) x = Some POLL_GROUP_MAX_GROUP_SIZE) G"
      unfolding full_first_def by (rule sorted_wrt_mono_rel [rotated]) (use assms(2) in auto)
    then show ?thesis by (simp add: full_first_def sorted_wrt_append POLL_GROUP_MAX_GROUP_SIZE_def)
  qed
  ultimately show ?thesis using assms unfolding groups_ok_def
    by (auto simp: POLL_GROUP_MAX_GROUP_SIZE_def split: if_splits)
qed

lemma mem_brk: "port_mem p G \<Longrightarrow> ps_brk p \<le> b \<Longrightarrow> port_mem (p\<lparr>ps_brk := b\<rparr>) G"
  by (auto simp: port_mem_def)

text \<open>The system has enough memory, and it opens the helper handles.\<close>

definition resources :: "'w port_env \<Rightarrow> bool" where
  "resources env \<longleftrightarrow> (\<forall>w. fst (malloc_ok env w)) \<and> (\<forall>h w. 0 \<le> fst (afd_create_helper_handle env h w))"

text \<open>
  What the request itself makes adding a socket fail with: the number is invalid, it is no
  socket the provider of the system knows (\<open>WSAENOTSOCK\<close>, or what else \<open>WSAIoctl\<close> reports), or
  it is registered already.
\<close>

definition add_error :: "'w port_env \<Rightarrow> nat set \<Rightarrow> nat \<Rightarrow> 'w \<Rightarrow> int option" where
  "add_error env known socket w =
     (if socket \<in> {0, INVALID_SOCKET} then Some ERROR_INVALID_HANDLE
      else case ws_get_base_socket env socket w of
        None \<Rightarrow> None
      | Some (base_socket, err, _) \<Rightarrow>
          if base_socket = INVALID_SOCKET then Some err
          else if socket \<in> known then Some ERROR_ALREADY_EXISTS else None)"

lemma resourcesD:
  "resources env \<Longrightarrow> malloc_ok env w = (got, w') \<Longrightarrow> got"
  "resources env \<Longrightarrow> afd_create_helper_handle env h w = (r, rest) \<Longrightarrow> 0 \<le> r"
  unfolding resources_def by (metis fst_conv)+

lemma group_new_rep:
  assumes rep: "port_rep p {} U D G" and h: "ps_iocp_handle p = Some h"
  shows "\<exists>r p'. poll_group_new env p = Some (r, p') \<and> ps_socks p' = ps_socks p \<and> ps_sock_tree p' = ps_sock_tree p \<and>
    (case r of None \<Rightarrow> port_rep p' {} U D G \<and> \<not> resources env
     | Some g \<Rightarrow> port_rep p' {} U D (G @ [g]) \<and> ps_group_size p' = (ps_group_size p)(g \<mapsto> 0) \<and> g \<notin> set G)"
proof -
  obtain ok w where m: "malloc_ok env (ps_world p) = (ok, w)" by fastforce
  obtain r err hd w' where a: "afd_create_helper_handle env (Some h) w = (r, err, hd, w')" by (metis prod_cases4)
  let ?g = "ps_brk p"
  note f = brk_fresh [OF rep]
  obtain m1 where m1: "queue_node_init \<lparr>qn_prev = (qn_prev (ps_nodes p))(?g \<mapsto> 0), qn_next = (qn_next (ps_nodes p))(?g \<mapsto> 0)\<rparr> ?g = Some m1"
      "idle m1 ?g" "only {?g} (ps_nodes p) m1" using node_init_ok by blast
  have q1: "qrep m1 (ps_update_queue p) (ps_deleted_queue p) (ps_group_queue p) (dom (ps_socks p)) U D G"
    by (rule qrep_only [OF _ m1(3)]) (use rep f(1) in \<open>auto simp: port_rep_def\<close>)
  obtain m2 where m2: "queue_append m1 (ps_group_queue p) ?g = Some m2"
      "qrep m2 (ps_update_queue p) (ps_deleted_queue p) (ps_group_queue p) (dom (ps_socks p)) U D (G @ [?g])"
    using qrep_append_group [OF q1 idle_qnode [OF m1(2)] f(1)] by blast
  show ?thesis
  proof (cases "ok \<and> \<not> r < 0")
    case False
    let ?q = "if ok then poll_group_free ?g (p\<lparr>ps_brk := ?g + 1, ps_group_size := (ps_group_size p)(?g \<mapsto> 0),
        ps_group_handle := (ps_group_handle p)(?g \<mapsto> 0), ps_nodes := m1, ps_world := w', ps_last_error := err\<rparr>)
      else p\<lparr>ps_world := w, ps_last_error := ERROR_NOT_ENOUGH_MEMORY\<rparr>"
    have "poll_group_new env p = Some (None, ?q)"
      using False h m a m1(1) by (simp add: Let_def poll_group_new_def port_get_iocp_handle_def upd_nodes_def)
    moreover have "port_rep ?q {} U D G"
    proof (cases ok)
      case True
      let ?m = "m1\<lparr>qn_prev := (qn_prev m1)(?g := None), qn_next := (qn_next m1)(?g := None)\<rparr>"
      have "only {?g} m1 ?m" by (simp add: only_def)
      then have "qrep ?m (ps_update_queue p) (ps_deleted_queue p) (ps_group_queue p) (dom (ps_socks p)) U D G"
        by (rule qrep_only [OF q1]) (use f(1) in auto)
      moreover have "(ps_group_size p)(?g := None) = ps_group_size p" "(ps_group_handle p)(?g := None) = ps_group_handle p"
        using f rep by (auto simp: port_rep_def port_mem_def fun_upd_idem domIff)
      ultimately show ?thesis using True rep by (auto simp: port_rep_def port_mem_def poll_group_free_def)
    qed (use rep in simp)
    moreover have "\<not> resources env" using False resourcesD(1) [OF _ m] resourcesD(2) [OF _ a] by auto
    ultimately show ?thesis by (auto simp: poll_group_free_def)
  next
    case True
    let ?p = "p\<lparr>ps_world := w', ps_brk := ?g + 1, ps_group_size := (ps_group_size p)(?g \<mapsto> 0),
        ps_group_handle := (ps_group_handle p)(?g \<mapsto> hd), ps_nodes := m2\<rparr>"
    have "poll_group_new env p = Some (Some ?g, ?p)"
      using True h m a m1(1) m2(1) by (simp add: Let_def poll_group_new_def port_get_iocp_handle_def upd_nodes_def)
    moreover have "port_rep ?p {} U D (G @ [?g])"
      using rep m2(2) groups_new [of "ps_socks p" "ps_group_size p" G ?g] f by (auto simp: port_rep_def port_mem_def)
    ultimately show ?thesis using f(1) by auto
  qed
qed

text \<open>
  A port one of whose poll groups counts a member that is not there yet; any new socket can
  be the one.
\<close>

definition acquired :: "'w port \<Rightarrow> addr \<Rightarrow> addr list \<Rightarrow> addr list \<Rightarrow> addr list \<Rightarrow> bool" where
  "acquired p g U D G \<longleftrightarrow>
     qrep (ps_nodes p) (ps_update_queue p) (ps_deleted_queue p) (ps_group_queue p) (dom (ps_socks p)) U D G \<and>
     g \<in> set G \<and> (\<forall>x so. ps_socks p x = None \<longrightarrow> so_poll_group so = g \<longrightarrow> groups_ok ((ps_socks p)(x \<mapsto> so)) (ps_group_size p) G) \<and>
     index_ok (ps_sock_tree p) (ps_socks p) \<and> port_mem p G \<and>
     (\<forall>a so. ps_socks p a = Some so \<longrightarrow> sock_ok so \<and> placed U D a so)"

lemma full_first_more:
  assumes "full_first sz G" "distinct G" "sz g = Some n" "n < POLL_GROUP_MAX_GROUP_SIZE"
  shows "if n + 1 = POLL_GROUP_MAX_GROUP_SIZE then full_first (sz(g \<mapsto> n + 1)) (g # remove1 g G) else full_first (sz(g \<mapsto> n + 1)) G"
proof (cases "n + 1 = POLL_GROUP_MAX_GROUP_SIZE")
  case True
  have "sorted_wrt (\<lambda>x y. sz y = Some POLL_GROUP_MAX_GROUP_SIZE \<longrightarrow> sz x = Some POLL_GROUP_MAX_GROUP_SIZE) (remove1 g G)"
    using assms(1,2) by (simp add: full_first_def distinct_remove1_removeAll removeAll_filter_not_eq sorted_wrt_filter)
  then have "full_first (sz(g \<mapsto> n + 1)) (remove1 g G)"
    unfolding full_first_def by (rule sorted_wrt_mono_rel [rotated]) (use assms(2) in auto)
  then show ?thesis using True by (simp add: full_first_def)
next
  case False
  have "full_first (sz(g \<mapsto> n + 1)) G" unfolding full_first_def
    by (rule sorted_wrt_mono_rel [OF _ iffD1 [OF full_first_def assms(1)]]) (use assms(3,4) False in auto)
  then show ?thesis using False by simp
qed

lemma groups_more:
  assumes ok: "groups_ok h sz G" and n: "sz g = Some n" "n < POLL_GROUP_MAX_GROUP_SIZE" and d: "distinct G"
    and x: "h x = None" "so_poll_group so = g"
  shows "groups_ok (h(x \<mapsto> so)) (sz(g \<mapsto> n + 1)) (if n + 1 = POLL_GROUP_MAX_GROUP_SIZE then g # remove1 g G else G)"
proof -
  have g: "g \<in> set G" using ok n(1) by (auto simp: groups_ok_def)
  have fin: "finite (members h y)" for y
    using ok by (auto simp: groups_ok_def members_def intro: finite_subset [of _ "dom h"])
  have "members (h(x \<mapsto> so)) y = (if y = g then insert x (members h g) else members h y)" for y
    using x by (auto simp: members_def)
  moreover have "x \<notin> members h g" "n = int (card (members h g))" using x(1) ok n(1) by (auto simp: members_def groups_ok_def)
  ultimately have c: "int (card (members (h(x \<mapsto> so)) y)) = (if y = g then n + 1 else int (card (members h y)))" for y
    using fin by simp
  have s: "set (if n + 1 = POLL_GROUP_MAX_GROUP_SIZE then g # remove1 g G else G) = set G" using g d by auto
  have f: "full_first (sz(g \<mapsto> n + 1)) (if n + 1 = POLL_GROUP_MAX_GROUP_SIZE then g # remove1 g G else G)"
  proof -
    have "full_first sz G" using ok by (simp add: groups_ok_def)
    from full_first_more [OF this d n] show ?thesis by auto
  qed
  show ?thesis unfolding groups_ok_def
  proof (intro conjI allI impI)
    show "dom (sz(g \<mapsto> n + 1)) = set (if n + 1 = POLL_GROUP_MAX_GROUP_SIZE then g # remove1 g G else G)"
      using ok g unfolding s by (auto simp: groups_ok_def)
    show "so_poll_group so' \<in> set (if n + 1 = POLL_GROUP_MAX_GROUP_SIZE then g # remove1 g G else G)" if "(h(x \<mapsto> so)) a = Some so'" for a so'
      using that ok g x(2) unfolding s by (auto simp: groups_ok_def split: if_splits)
    show "k = int (card (members (h(x \<mapsto> so)) y))" "k \<le> POLL_GROUP_MAX_GROUP_SIZE" if "(sz(g \<mapsto> n + 1)) y = Some k" for y k
      using that ok n(2) unfolding c by (auto simp: groups_ok_def split: if_splits)
  qed (use ok f in \<open>auto simp: groups_ok_def\<close>)
qed

lemma acquire_rep:
  assumes rep: "port_rep p {} U D G" and n: "ps_group_size p g = Some n" "n < POLL_GROUP_MAX_GROUP_SIZE"
  shows "\<exists>p' G'. (let p = p\<lparr>ps_group_size := (ps_group_size p)(g \<mapsto> n + 1)\<rparr> in
      if n + 1 = POLL_GROUP_MAX_GROUP_SIZE then upd_nodes (\<lambda>m. queue_move_to_start m (ps_group_queue p) g) p else Some p) = Some p' \<and>
    acquired p' g U D G' \<and> ps_socks p' = ps_socks p \<and> ps_sock_tree p' = ps_sock_tree p"
proof -
  have q: "qrep (ps_nodes p) (ps_update_queue p) (ps_deleted_queue p) (ps_group_queue p) (dom (ps_socks p)) U D G"
    and ok: "groups_ok (ps_socks p) (ps_group_size p) G" and mem: "port_mem p G" and dis: "distinct G"
    using rep by (auto simp: port_rep_def qrep_def)
  have g: "g \<in> set G" using ok n(1) by (auto simp: groups_ok_def)
  note more = groups_more [OF ok n dis]
  show ?thesis
  proof (cases "n + 1 = POLL_GROUP_MAX_GROUP_SIZE")
    case True
    obtain m' where m': "queue_move_to_start (ps_nodes p) (ps_group_queue p) g = Some m'"
        "qrep m' (ps_update_queue p) (ps_deleted_queue p) (ps_group_queue p) (dom (ps_socks p)) U D (g # remove1 g G)"
      using qrep_group_start [OF q g] by blast
    let ?p = "p\<lparr>ps_group_size := (ps_group_size p)(g \<mapsto> n + 1), ps_nodes := m'\<rparr>"
    have s: "set (g # remove1 g G) = set G" using g dis by auto
    have "port_mem ?p (g # remove1 g G)" using mem s unfolding port_mem_def by auto
    then have "acquired ?p g U D (g # remove1 g G)"
      using rep m'(2) more True unfolding acquired_def port_rep_def by auto
    then show ?thesis using True m'(1) by (auto simp: upd_nodes_def)
  next
    case False
    let ?p = "p\<lparr>ps_group_size := (ps_group_size p)(g \<mapsto> n + 1)\<rparr>"
    have "acquired ?p g U D G" using rep g more False unfolding acquired_def port_rep_def by auto
    then show ?thesis using False by auto
  qed
qed

lemma acquire_ok:
  assumes rep: "port_rep p {} U D G" and h: "ps_iocp_handle p \<noteq> None \<or> poll_group_acquire env p \<noteq> None"
  shows "\<exists>r p' G'. poll_group_acquire env p = Some (r, p') \<and> ps_socks p' = ps_socks p \<and> ps_sock_tree p' = ps_sock_tree p \<and>
    (case r of None \<Rightarrow> port_rep p' {} U D G' \<and> \<not> resources env | Some g \<Rightarrow> acquired p' g U D G')"
proof -
  have q: "queue (ps_nodes p) (ps_group_queue p) G" and dom: "dom (ps_group_size p) = set G"
    using rep by (auto simp: port_rep_def qrep_def groups_ok_def)
  define full where "full = (G = [] \<or> (\<exists>n\<ge>POLL_GROUP_MAX_GROUP_SIZE. ps_group_size p (last G) = Some n))"
  show ?thesis
  proof (cases full)
    case True
    then have "poll_group_acquire env p = None" if "ps_iocp_handle p = None"
      using that queue_ends(2) [OF q] by (auto simp: poll_group_acquire_def full_def poll_group_new_def port_get_iocp_handle_def)
    then obtain h where h: "ps_iocp_handle p = Some h" using h by blast
    obtain r p1 where p1: "poll_group_new env p = Some (r, p1)" "ps_socks p1 = ps_socks p" "ps_sock_tree p1 = ps_sock_tree p"
        "case r of None \<Rightarrow> port_rep p1 {} U D G \<and> \<not> resources env
         | Some g \<Rightarrow> port_rep p1 {} U D (G @ [g]) \<and> ps_group_size p1 = (ps_group_size p)(g \<mapsto> 0) \<and> g \<notin> set G"
      using group_new_rep [OF rep h, of env] by blast
    show ?thesis
    proof (cases r)
      case None
      then show ?thesis using p1 True queue_ends(2) [OF q] by (auto simp: poll_group_acquire_def full_def)
    next
      case (Some g)
      have z: "ps_group_size p1 g = Some 0" "(0::int) < POLL_GROUP_MAX_GROUP_SIZE" using p1(4) Some by (auto simp: POLL_GROUP_MAX_GROUP_SIZE_def)
      have rep1: "port_rep p1 {} U D (G @ [g])" using p1(4) Some by simp
      show ?thesis using acquire_rep [OF rep1 z] p1 Some True queue_ends(2) [OF q]
        by (auto simp: poll_group_acquire_def full_def Let_def z)
    qed
  next
    case False
    then have "last G \<in> dom (ps_group_size p)" unfolding dom by (simp add: full_def)
    then obtain n where n: "ps_group_size p (last G) = Some n" "n < POLL_GROUP_MAX_GROUP_SIZE" using False by (fastforce simp: full_def)
    show ?thesis using acquire_rep [OF rep n] False n queue_ends(2) [OF q]
      by (auto simp: poll_group_acquire_def full_def Let_def)
  qed
qed

text \<open>A group gives its members to the caller only while one is not full: the last one.\<close>

lemma last_full_all:
  assumes "port_rep p X U D G" "ps_group_size p (last G) = Some n" "n \<ge> POLL_GROUP_MAX_GROUP_SIZE" "g \<in> set G"
  shows "ps_group_size p g = Some POLL_GROUP_MAX_GROUP_SIZE"
proof -
  have ok: "groups_ok (ps_socks p) (ps_group_size p) G" using assms(1) by (simp add: port_rep_def)
  then have n: "n = POLL_GROUP_MAX_GROUP_SIZE" using assms(2,3) by (fastforce simp: groups_ok_def)
  have "G \<noteq> []" using assms(4) by auto
  then have G: "G = butlast G @ [last G]" by simp
  have "full_first (ps_group_size p) (butlast G @ [last G])" using ok G by (simp add: groups_ok_def)
  then show ?thesis using assms(2,4) n G unfolding full_first_def sorted_wrt_append
    by (metis Un_iff list.set_intros(1) empty_iff empty_set set_ConsD set_append)
qed

lemma release_acquired:
  assumes a: "acquired p g U D G"
  shows "\<exists>p' G'. poll_group_release g p = Some p' \<and> port_rep p' {} U D G' \<and> ps_socks p' = ps_socks p \<and> ps_sock_tree p' = ps_sock_tree p \<and>
    ps_last_error p' = ps_last_error p"
proof -
  have q: "qrep (ps_nodes p) (ps_update_queue p) (ps_deleted_queue p) (ps_group_queue p) (dom (ps_socks p)) U D G"
    and g: "g \<in> set G" and mem: "port_mem p G" using a by (auto simp: acquired_def)
  let ?so = "blank_sock\<lparr>so_poll_group := g\<rparr>" and ?x = "ps_brk p"
  have x: "ps_socks p ?x = None" using mem by (auto simp: port_mem_def)
  have grp: "groups_ok ((ps_socks p)(?x \<mapsto> ?so)) (ps_group_size p) G" using a x by (simp add: acquired_def)
  have "g \<in> dom (ps_group_size p)" using grp g by (simp add: groups_ok_def)
  then obtain n where n: "ps_group_size p g = Some n" by blast
  have G: "set (remove1 g G @ [g]) = set G" "distinct G" using q g by (auto simp: qrep_def)
  note rm = groups_remove [OF grp _ _ n G(1) G(2) refl, of ?x ?so]
  obtain m where m: "queue_move_to_end (ps_nodes p) (ps_group_queue p) g = Some m"
      "qrep m (ps_update_queue p) (ps_deleted_queue p) (ps_group_queue p) (dom (ps_socks p)) U D (remove1 g G @ [g])"
    using qrep_move_group [OF q g] by blast
  let ?p = "p\<lparr>ps_group_size := (ps_group_size p)(g \<mapsto> n - 1), ps_nodes := m\<rparr>"
  have "poll_group_release g p = Some ?p" using n m(1) rm(1,2) by (simp add: poll_group_release_def upd_nodes_def)
  moreover have "groups_ok (ps_socks p) ((ps_group_size p)(g \<mapsto> n - 1)) (remove1 g G @ [g])" using rm(3) x by (simp add: fun_upd_idem)
  moreover have "port_mem ?p (remove1 g G @ [g])" using mem G(1) unfolding port_mem_def by auto
  ultimately show ?thesis using a m(2) unfolding acquired_def port_rep_def by auto
qed

subsection \<open>New sockets\<close>

lemma tree_holds_alloc:
  assumes "tree_holds m L" "tr_nodes m a = None"
  shows "tree_holds (m\<lparr>tr_nodes := (tr_nodes m)(a \<mapsto> x)\<rparr>) L"
proof -
  obtain t where t: "trep m t" "rbt t" "items t = L" "sorted_items L" using assms(1) by (auto simp: tree_holds_def)
  have "sh (tr_nodes m) None t" using t(1) by (simp add: trep_def)
  moreover have "a \<notin> addrs t" using sh_alloc [OF calculation] assms(2) by (meson domIff subsetD)
  ultimately have "sh ((tr_nodes m)(a \<mapsto> x)) None t" by - (rule sh_cong [of t "tr_nodes m", rotated], auto)
  then have "trep (m\<lparr>tr_nodes := (tr_nodes m)(a \<mapsto> x)\<rparr>) t" using t(1) by (simp add: trep_def)
  then show ?thesis using t(2-4) unfolding tree_holds_def by blast
qed

lemma index_register:
  assumes ix: "index_ok t h" and f: "tr.indexes t f" and a: "h a = None" "\<not> so_delete_pending so"
    and t1: "t1 = t\<lparr>tr_nodes := (tr_nodes t)(a \<mapsto> y)\<rparr>"
  shows "if k \<in> dom f then tree_add a k t1 = Some (-1, t1)
    else \<exists>t'. tree_add a k t1 = Some (0, t') \<and> tr.indexes t' (f(k \<mapsto> a)) \<and> index_ok t' (h(a \<mapsto> so))"
proof -
  obtain f' where f': "tr.indexes t f'" "ran f' = live_socks h" "dom (tr_nodes t) = dom h" using ix by (auto simp: index_ok_def)
  have "f' = f" using tr.find_indexes [OF f] tr.find_indexes [OF f'(1)] by (auto simp: fun_eq_iff)
  then have r: "ran f = live_socks h" using f'(2) by simp
  have n: "tr_nodes t a = None" using f'(3) a(1) by blast
  have f1: "tr.indexes t1 f" using f tree_holds_alloc [OF _ n] unfolding tr.indexes_def t1 by blast
  have "a \<notin> live_socks h" using a(1) by (simp add: live_socks_def)
  then have ar: "a \<in> dom (tr_nodes t1)" "a \<notin> ran f" using r t1 by auto
  have "live_socks (h(a \<mapsto> so)) = insert a (live_socks h)" using a by (auto simp: live_socks_def)
  moreover have "ran (f(k \<mapsto> a)) = insert a (ran f)" if "k \<notin> dom f" using that by (simp add: ran_map_upd domIff)
  moreover have "dom (tr_nodes t1) = dom (h(a \<mapsto> so))" using f'(3) t1 by simp
  ultimately show ?thesis using tr.add_indexes [OF f1 ar, of k] r unfolding index_ok_def by (auto split: if_splits)
qed

text \<open>From the allocation of the socket on.\<close>

lemma register_ok:
  assumes a: "acquired p g U D G" and f: "tr.indexes (ps_sock_tree p) f" and ok: "sock_alloc env p0 = (Some x, p1)"
    and p: "p = p0\<lparr>ps_world := w\<rparr>" "malloc_ok env (ps_world p0) = (True, w)"
  shows "\<exists>r p'. sock_setup x b g k p1 = Some (r, p') \<and>
     (if k \<in> dom f then r = -1 \<and> ps_last_error p' = ERROR_ALREADY_EXISTS \<and> (\<exists>p''. sock_free x p' = Some p'' \<and> acquired p'' g U D G \<and>
         ps_socks p'' = ps_socks p \<and> ps_sock_tree p'' = ps_sock_tree p \<and> ps_last_error p'' = ERROR_ALREADY_EXISTS)
      else r = 0 \<and> port_rep p' {} U D G \<and> ps_socks p x = None \<and>
         ps_socks p' = (ps_socks p)(x \<mapsto> blank_sock\<lparr>so_base_socket := b, so_poll_group := g\<rparr>) \<and>
         tr.indexes (ps_sock_tree p') (f(k \<mapsto> x)))"
proof -
  let ?so = "blank_sock\<lparr>so_base_socket := b, so_poll_group := g\<rparr>"
  let ?t = "(ps_sock_tree p)\<lparr>tr_nodes := (tr_nodes (ps_sock_tree p))
      (x \<mapsto> \<lparr>tn_left = None, tn_right = None, tn_parent = None, tn_key = 0, tn_red = False\<rparr>)\<rparr>"
  have x: "x = ps_brk p" using ok p by (auto simp: sock_alloc_def Let_def)
  have mem: "port_mem p G" and q: "qrep (ps_nodes p) (ps_update_queue p) (ps_deleted_queue p) (ps_group_queue p) (dom (ps_socks p)) U D G"
    and ix: "index_ok (ps_sock_tree p) (ps_socks p)" using a by (auto simp: acquired_def)
  have fresh: "ps_socks p x = None" "x \<notin> set (ps_update_queue p # ps_deleted_queue p # ps_group_queue p # G) \<union> dom (ps_socks p)"
    using mem x by (auto simp: port_mem_def)
  obtain m where m: "queue_node_init \<lparr>qn_prev = (qn_prev (ps_nodes p))(x \<mapsto> 0), qn_next = (qn_next (ps_nodes p))(x \<mapsto> 0)\<rparr> x = Some m"
      "idle m x" "only {x} (ps_nodes p) m" using node_init_ok by blast
  let ?p = "p1\<lparr>ps_socks := (ps_socks p)(x \<mapsto> ?so), ps_nodes := m\<rparr>"
  have p1: "ps_socks p1 = (ps_socks p)(x \<mapsto> blank_sock)" "ps_sock_tree p1 = ?t" "ps_brk p1 = Suc x"
      "ps_nodes p1 = \<lparr>qn_prev = (qn_prev (ps_nodes p))(x \<mapsto> 0), qn_next = (qn_next (ps_nodes p))(x \<mapsto> 0)\<rparr>"
      "ps_update_queue p1 = ps_update_queue p" "ps_deleted_queue p1 = ps_deleted_queue p" "ps_group_queue p1 = ps_group_queue p"
      "ps_group_size p1 = ps_group_size p" "ps_group_handle p1 = ps_group_handle p"
    using ok p by (auto simp: sock_alloc_def Let_def)
  have run: "sock_setup x b g k p1 = do {
       (r, tree) \<leftarrow> tree_add x k ?t;
       if r < 0 then Some (-1, ?p\<lparr>ps_sock_tree := tree, ps_last_error := ERROR_ALREADY_EXISTS\<rparr>) else Some (0, ?p\<lparr>ps_sock_tree := tree\<rparr>) }"
    using p1 m(1) by (cases "tree_add x k ?t") (auto simp: sock_setup_def port_register_socket_def upd_sock_def tree_node_init_def upd_node_def upd_nodes_def Let_def)
  have reg: "if k \<in> dom f then tree_add x k ?t = Some (-1, ?t)
    else \<exists>t'. tree_add x k ?t = Some (0, t') \<and> tr.indexes t' (f(k \<mapsto> x)) \<and> index_ok t' ((ps_socks p)(x \<mapsto> ?so))"
    by (rule index_register [OF ix f fresh(1) _ refl]) (simp add: blank_sock_def)
  show ?thesis
  proof (cases "k \<in> dom f")
    case True
    let ?q = "?p\<lparr>ps_sock_tree := ?t, ps_last_error := ERROR_ALREADY_EXISTS\<rparr>"
    let ?m = "m\<lparr>qn_prev := (qn_prev m)(x := None), qn_next := (qn_next m)(x := None)\<rparr>"
    let ?r = "?q\<lparr>ps_socks := ps_socks p, ps_sock_tree := ps_sock_tree p, ps_nodes := ?m\<rparr>"
    have "tr_nodes (ps_sock_tree p) x = None" using ix fresh(1) by (auto simp: index_ok_def)
    then have "sock_free x ?q = Some ?r" using fresh(1) by (simp add: sock_free_def fun_upd_idem)
    moreover have "qrep ?m (ps_update_queue p) (ps_deleted_queue p) (ps_group_queue p) (dom (ps_socks p)) U D G"
      by (rule qrep_only [OF q, of "{x}"]) (use m(3) fresh(2) in \<open>auto simp: only_def\<close>)
    then have "acquired ?r g U D G" using a x mem p1 unfolding acquired_def port_mem_def by auto
    moreover have "tree_add x k ?t = Some (-1, ?t)" using True reg by simp
    ultimately show ?thesis unfolding run using True by (intro exI [of _ "-1"] exI [of _ ?q]) simp
  next
    case False
    then obtain t' where t': "tree_add x k ?t = Some (0, t')" "tr.indexes t' (f(k \<mapsto> x))" "index_ok t' ((ps_socks p)(x \<mapsto> ?so))"
      using reg by auto
    let ?q = "?p\<lparr>ps_sock_tree := t'\<rparr>"
    have "qrep m (ps_update_queue p) (ps_deleted_queue p) (ps_group_queue p) (dom ((ps_socks p)(x \<mapsto> ?so))) U D G"
      using qrep_only [OF q m(3)] m(2) fresh(2) by (auto simp: qrep_def)
    moreover have "groups_ok ((ps_socks p)(x \<mapsto> ?so)) (ps_group_size p) G" using a fresh(1) by (simp add: acquired_def)
    moreover have "port_mem ?q G" using mem x p1 by (auto simp: port_mem_def)
    moreover have "sock_ok ?so" "placed U D x ?so"
      using q fresh(2) by (auto simp: sock_ok_def placed_def covered_def blank_sock_def qrep_def)
    ultimately have "port_rep ?q {} U D G" using a p1 t'(3) unfolding port_rep_def acquired_def by simp
    then show ?thesis unfolding run using False t' fresh(1) p1 by (intro exI [of _ 0] exI [of _ ?q]) simp
  qed
qed

lemma acquired_world [simp]: "acquired (p\<lparr>ps_world := w\<rparr>) g U D G = acquired p g U D G"
  by (simp add: acquired_def)

lemma alloc_fails:
  assumes a: "acquired p g U D G" and m: "malloc_ok env (ps_world p) = (False, w)"
  shows "\<exists>p1 p' G'. sock_alloc env p = (None, p1) \<and> poll_group_release g p1 = Some p' \<and> port_rep p' {} U D G' \<and>
    ps_socks p' = ps_socks p \<and> ps_sock_tree p' = ps_sock_tree p"
proof -
  let ?p = "p\<lparr>ps_world := w, ps_last_error := ERROR_NOT_ENOUGH_MEMORY\<rparr>"
  have "acquired ?p g U D G" using a by (simp add: acquired_def)
  from release_acquired [OF this] show ?thesis using m by (auto simp: sock_alloc_def)
qed

lemma new_from_group:
  assumes g: "acquired p g U D G" and f: "tr.indexes (ps_sock_tree p) f"
  shows "\<exists>r p' G'. (case sock_alloc env p of (None, p) \<Rightarrow> do { p \<leftarrow> poll_group_release g p; Some (None, p) }
      | (Some a, p) \<Rightarrow> do {
          (r, p) \<leftarrow> sock_setup a b g socket p;
          if r < 0 then do { p \<leftarrow> sock_free a p; p \<leftarrow> poll_group_release g p; Some (None, p) } else Some (Some a, p) }) = Some (r, p') \<and>
    port_rep p' {} U D G' \<and>
    (case r of None \<Rightarrow> ps_socks p' = ps_socks p \<and> ps_sock_tree p' = ps_sock_tree p \<and>
         (resources env \<longrightarrow> socket \<in> dom f \<and> ps_last_error p' = ERROR_ALREADY_EXISTS)
     | Some a \<Rightarrow> socket \<notin> dom f \<and> ps_socks p a = None \<and> tr.indexes (ps_sock_tree p') (f(socket \<mapsto> a)) \<and>
         ps_socks p' = (ps_socks p)(a \<mapsto> blank_sock\<lparr>so_base_socket := b, so_poll_group := g\<rparr>))"
proof -
  obtain ok w where m: "malloc_ok env (ps_world p) = (ok, w)" by fastforce
  have g': "acquired (p\<lparr>ps_world := w\<rparr>) g U D G" "tr.indexes (ps_sock_tree (p\<lparr>ps_world := w\<rparr>)) f" using g f by simp_all
  consider (full) "malloc_ok env (ps_world p) = (False, w)"
    | (got) x p1 where "malloc_ok env (ps_world p) = (True, w)" "sock_alloc env p = (Some x, p1)"
    using m by (cases ok) (auto simp: sock_alloc_def Let_def)
  then show ?thesis
  proof cases
    case full
    obtain p1 p2 G' where "sock_alloc env p = (None, p1)" "poll_group_release g p1 = Some p2" "port_rep p2 {} U D G'"
        "ps_socks p2 = ps_socks p" "ps_sock_tree p2 = ps_sock_tree p"
      using alloc_fails [OF g full] by blast
    moreover have "\<not> resources env" using resourcesD(1) [OF _ full] by blast
    ultimately show ?thesis by (intro exI [of _ None] exI [of _ p2] exI [of _ G']) simp
  next
    case got
    note reg = register_ok [OF g' got(2) refl got(1), of b socket]
    show ?thesis
    proof (cases "socket \<in> dom f")
      case True
      then obtain p2 p3 where p3: "sock_setup x b g socket p1 = Some (-1, p2)" "sock_free x p2 = Some p3" "acquired p3 g U D G"
          "ps_socks p3 = ps_socks p" "ps_sock_tree p3 = ps_sock_tree p" "ps_last_error p3 = ERROR_ALREADY_EXISTS" using reg by auto
      obtain p4 G' where "poll_group_release g p3 = Some p4" "port_rep p4 {} U D G'" "ps_socks p4 = ps_socks p3" "ps_sock_tree p4 = ps_sock_tree p3"
          "ps_last_error p4 = ps_last_error p3"
        using release_acquired [OF p3(3)] by blast
      then show ?thesis using p3 got(2) True by (intro exI [of _ None] exI [of _ p4] exI [of _ G']) simp
    next
      case False
      then obtain p2 where "sock_setup x b g socket p1 = Some (0, p2)" "port_rep p2 {} U D G" "ps_socks p x = None"
          "ps_socks p2 = (ps_socks p)(x \<mapsto> blank_sock\<lparr>so_base_socket := b, so_poll_group := g\<rparr>)" "tr.indexes (ps_sock_tree p2) (f(socket \<mapsto> x))"
        using reg by auto
      then show ?thesis using got(2) False by (intro exI [of _ "Some x"] exI [of _ p2] exI [of _ G]) simp
    qed
  qed
qed

text \<open>On a closed port a new socket needs a group that is there already.\<close>

lemma sock_new_gen:
  assumes rep: "port_rep p {} U D G" and h: "ps_iocp_handle p \<noteq> None \<or> sock_new env socket p \<noteq> None" and f: "tr.indexes (ps_sock_tree p) f"
    and ends: "chain_ends env rank"
  shows "\<exists>r p' G'. sock_new env socket p = Some (r, p') \<and> port_rep p' {} U D G' \<and>
    (case r of None \<Rightarrow> ps_socks p' = ps_socks p \<and> ps_sock_tree p' = ps_sock_tree p \<and>
         (resources env \<longrightarrow> add_error env (dom f) socket (ps_world p) = Some (ps_last_error p'))
     | Some a \<Rightarrow> add_error env (dom f) socket (ps_world p) = None \<and> socket \<notin> dom f \<and> ps_socks p a = None \<and> tr.indexes (ps_sock_tree p') (f(socket \<mapsto> a)) \<and>
         (\<exists>b g err w. ws_get_base_socket env socket (ps_world p) = Some (b, err, w) \<and>
            ps_socks p' = (ps_socks p)(a \<mapsto> blank_sock\<lparr>so_base_socket := b, so_poll_group := g\<rparr>)))"
proof (cases "socket = 0 \<or> socket = INVALID_SOCKET")
  case True
  then show ?thesis using rep by (auto simp: sock_new_def add_error_def)
next
  case valid: False
  obtain b err w where b: "ws_get_base_socket env socket (ps_world p) = Some (b, err, w)"
    using ws_get_base_socket_returns [OF ends, of socket "ps_world p"] by auto
  show ?thesis
  proof (cases "b = INVALID_SOCKET")
    case True
    have "sock_new env socket p = Some (None, p\<lparr>ps_world := w, ps_last_error := err\<rparr>)" using valid b True by (simp add: sock_new_def)
    moreover have "add_error env (dom f) socket (ps_world p) = Some err" using valid b True by (simp add: add_error_def)
    ultimately show ?thesis using rep by (intro exI [of _ None] exI [of _ "p\<lparr>ps_world := w, ps_last_error := err\<rparr>"] exI [of _ G]) simp
  next
    case base: False
    have rep1: "port_rep (p\<lparr>ps_world := w\<rparr>) {} U D G" using rep by simp
    have h1: "ps_iocp_handle (p\<lparr>ps_world := w\<rparr>) \<noteq> None \<or> poll_group_acquire env (p\<lparr>ps_world := w\<rparr>) \<noteq> None"
      using h valid b base by (cases "poll_group_acquire env (p\<lparr>ps_world := w\<rparr>)") (auto simp: sock_new_def)
    obtain r p2 G2 where p2: "poll_group_acquire env (p\<lparr>ps_world := w\<rparr>) = Some (r, p2)" "ps_socks p2 = ps_socks p" "ps_sock_tree p2 = ps_sock_tree p"
        "case r of None \<Rightarrow> port_rep p2 {} U D G2 \<and> \<not> resources env | Some g \<Rightarrow> acquired p2 g U D G2"
      using acquire_ok [OF rep1 h1] by auto
    consider (none) "r = None" | (group) g where "r = Some g" "acquired p2 g U D G2" using p2(4) by (cases r) auto
    then show ?thesis
    proof cases
      case none
      have "sock_new env socket p = Some (None, p2)" using valid b base none p2(1) by (simp add: sock_new_def)
      then show ?thesis using none p2 by (intro exI [of _ None] exI [of _ p2] exI [of _ G2]) simp
    next
      case group
      have "tr.indexes (ps_sock_tree p2) f" using f p2(3) by simp
      then obtain r' p' G' where r': "(case sock_alloc env p2 of (None, p) \<Rightarrow> do { p \<leftarrow> poll_group_release g p; Some (None, p) }
        | (Some a, p) \<Rightarrow> do {
            (r, p) \<leftarrow> sock_setup a b g socket p;
            if r < 0 then do { p \<leftarrow> sock_free a p; p \<leftarrow> poll_group_release g p; Some (None, p) } else Some (Some a, p) }) = Some (r', p')"
        "port_rep p' {} U D G'" "case r' of None \<Rightarrow> ps_socks p' = ps_socks p2 \<and> ps_sock_tree p' = ps_sock_tree p2 \<and>
             (resources env \<longrightarrow> socket \<in> dom f \<and> ps_last_error p' = ERROR_ALREADY_EXISTS)
         | Some a \<Rightarrow> socket \<notin> dom f \<and> ps_socks p2 a = None \<and> tr.indexes (ps_sock_tree p') (f(socket \<mapsto> a)) \<and>
           ps_socks p' = (ps_socks p2)(a \<mapsto> blank_sock\<lparr>so_base_socket := b, so_poll_group := g\<rparr>)"
        using new_from_group [OF group(2), where env = env and b = b and socket = socket] by blast
      have "sock_new env socket p = Some (r', p')" using valid b base group(1) p2(1) r'(1) by (simp add: sock_new_def)
      moreover have "add_error env (dom f) socket (ps_world p) = (if socket \<in> dom f then Some ERROR_ALREADY_EXISTS else None)"
        using valid b base by (simp add: add_error_def)
      ultimately show ?thesis using r'(2,3) p2(2,3) b
        by (intro exI [of _ r'] exI [of _ p'] exI [of _ G']) (cases r'; auto)
    qed
  qed
qed

lemma sock_new_ok:
  assumes "port_rep p {} U D G" "ps_iocp_handle p = Some h" "tr.indexes (ps_sock_tree p) f" "chain_ends env rank"
  shows "\<exists>r p' G'. sock_new env socket p = Some (r, p') \<and> port_rep p' {} U D G' \<and>
    (case r of None \<Rightarrow> ps_socks p' = ps_socks p \<and> ps_sock_tree p' = ps_sock_tree p \<and>
         (resources env \<longrightarrow> add_error env (dom f) socket (ps_world p) = Some (ps_last_error p'))
     | Some a \<Rightarrow> add_error env (dom f) socket (ps_world p) = None \<and> socket \<notin> dom f \<and> ps_socks p a = None \<and> tr.indexes (ps_sock_tree p') (f(socket \<mapsto> a)) \<and>
         (\<exists>b g err w. ws_get_base_socket env socket (ps_world p) = Some (b, err, w) \<and>
            ps_socks p' = (ps_socks p)(a \<mapsto> blank_sock\<lparr>so_base_socket := b, so_poll_group := g\<rparr>)))"
  by (rule sock_new_gen) (use assms in auto)

subsection \<open>Creation and deletion\<close>

lemma port_new_ok:
  "\<exists>r err w'. port_new env w = Some (r, err, w') \<and>
    (case r of None \<Rightarrow> True | Some (h, p) \<Rightarrow> port_rep p {} [] [] [] \<and> ps_iocp_handle p = Some h \<and> ps_socks p = Map.empty \<and>
      ps_active_poll_count p = 0 \<and> ps_world p = w' \<and> tr.indexes (ps_sock_tree p) Map.empty)"
proof -
  obtain ok w1 where m: "malloc_ok env w = (ok, w1)" by fastforce
  obtain h err w2 where c: "port_create_iocp env w1 = (h, err, w2)" by (metis prod_cases3)
  show ?thesis
  proof (cases "ok \<and> h \<noteq> None")
    case False
    then show ?thesis using m c by (auto simp: port_new_def split: option.splits)
  next
    case True
    then obtain k where h: "h = Some k" by blast
    let ?m = "\<lparr>qn_prev = [1 \<mapsto> 1, 2 \<mapsto> 2, 3 \<mapsto> 3], qn_next = [1 \<mapsto> 1, 2 \<mapsto> 2, 3 \<mapsto> 3]\<rparr>"
    let ?t = "\<lparr>tr_root = None, tr_nodes = Map.empty\<rparr>"
    let ?p = "\<lparr>ps_iocp_handle = Some k, ps_sock_tree = ?t,
               ps_update_queue = 1, ps_deleted_queue = 2, ps_group_queue = 3, ps_active_poll_count = 0, ps_nodes = ?m,
               ps_socks = Map.empty, ps_group_size = Map.empty, ps_group_handle = Map.empty, ps_brk = 4, ps_last_error = 0,
               ps_world = w2\<rparr>"
    have "port_new env w = Some (Some (k, ?p), 0, w2)"
      using m c True h by (simp add: port_new_def queue_init_def queue_node_init_def set_qprev_def set_qnext_def tree_init_def fun_eq_iff)
    moreover have t: "tr.indexes ?t Map.empty"
      using tree_init_ok [of ?t] unfolding tr.indexes_def by (intro exI [of _ "[]"]) (simp add: tree_init_def)
    have "port_rep ?p {} [] [] []"
      using t by (auto simp: port_rep_def qrep_def queue_def groups_ok_def full_first_def index_ok_def live_socks_def port_mem_def intro!: exI [of _ Map.empty])
    ultimately show ?thesis using t by simp
  qed
qed

lemma root_live:
  assumes "index_ok t h"
  shows "case tree_root t of None \<Rightarrow> live_socks h = {} | Some a \<Rightarrow> a \<in> live_socks h"
proof -
  obtain L where L: "tree_holds t L" "ran (map_of L) = live_socks h" using assms by (auto simp: index_ok_def tr.indexes_def)
  then obtain s where s: "trep t s" "items s = L" by (auto simp: tree_holds_def)
  have r: "snd ` set L = live_socks h" using tr.keys_distinct [OF L(1)] L(2) by (simp add: ran_distinct)
  show ?thesis
  proof (cases s)
    case Leaf
    then show ?thesis using s r by (auto simp: trep_def tree_root_def)
  next
    case (Node l v u)
    then obtain a k c where "v = (a, k, c)" by (cases v) auto
    then have "tree_root t = Some a" "a \<in> snd ` set L" using Node s by (auto simp: trep_def tree_root_def)
    then show ?thesis using r by simp
  qed
qed

lemma force_delete_ok:
  assumes "port_rep p {} U D G" "ps_socks p a = Some so"
  shows "\<exists>p' U' D' G'. sock_force_delete env a p = Some p' \<and> port_rep p' {} U' D' G' \<and> ps_socks p' = (ps_socks p)(a := None)"
  using sock_delete_rep [OF assms, of env True] by (fastforce simp: sock_force_delete_def)

lemma card_dom_less: "finite (dom f) \<Longrightarrow> f a = Some x \<Longrightarrow> card (dom (f(a := None))) < card (dom f)"
  using card_Diff1_less [of "dom f" a] by (simp add: domI)

lemma rep_finite: "port_rep p X U D G \<Longrightarrow> finite (dom (ps_socks p))"
  by (simp add: port_rep_def groups_ok_def)

lemma delete_registered_ok:
  assumes "port_rep p {} U D G"
  shows "\<exists>p' U' D' G'. delete_registered env p = Some p' \<and> port_rep p' {} U' D' G' \<and> live_socks (ps_socks p') = {}"
  using assms
proof (induction "card (dom (ps_socks p))" arbitrary: p U D G rule: less_induct)
  case less
  have r: "case tree_root (ps_sock_tree p) of None \<Rightarrow> live_socks (ps_socks p) = {} | Some a \<Rightarrow> a \<in> live_socks (ps_socks p)"
    using root_live less.prems by (simp add: port_rep_def)
  show ?case
  proof (cases "tree_root (ps_sock_tree p)")
    case None
    then have "delete_registered env p = Some p" by (subst delete_registered.simps) simp
    then show ?thesis using r None less.prems by auto
  next
    case (Some a)
    then obtain so where so: "ps_socks p a = Some so" using r by (auto simp: live_socks_def)
    then obtain p1 U1 D1 G1 where p1: "sock_force_delete env a p = Some p1" "port_rep p1 {} U1 D1 G1" "ps_socks p1 = (ps_socks p)(a := None)"
      using force_delete_ok [OF less.prems so, of env] by blast
    have "card (dom (ps_socks p1)) < card (dom (ps_socks p))"
      unfolding p1(3) by (rule card_dom_less [OF rep_finite [OF less.prems] so])
    note IH = less.hyps [OF this p1(2)]
    have "delete_registered env p = delete_registered env p1" by (subst delete_registered.simps) (simp add: Some p1(1))
    then show ?thesis using IH by simp
  qed
qed

lemma delete_deleted_ok:
  assumes "port_rep p {} U D G" "live_socks (ps_socks p) = {}"
  shows "\<exists>p' G'. delete_deleted env p = Some p' \<and> port_rep p' {} [] [] G' \<and> ps_socks p' = Map.empty"
  using assms
proof (induction "card (dom (ps_socks p))" arbitrary: p U D G rule: less_induct)
  case less
  have f: "queue_first (ps_nodes p) (ps_deleted_queue p) = Some (if D = [] then None else Some (hd D))"
    using less.prems(1) by (intro queue_ends(1)) (simp add: port_rep_def qrep_def)
  show ?case
  proof (cases D)
    case Nil
    have "ps_socks p a = None" for a
    proof (cases "ps_socks p a")
      case (Some so)
      then have "placed U [] a so" "so_delete_pending so" using less.prems Nil by (auto simp: port_rep_def live_socks_def)
      then show ?thesis by (simp add: placed_def)
    qed
    then have e: "ps_socks p = Map.empty" by auto
    then have "U = []" using less.prems(1) by (simp add: port_rep_def qrep_def)
    moreover have "delete_deleted env p = Some p" by (subst delete_deleted.simps) (simp add: f Nil)
    ultimately show ?thesis using Nil e less.prems(1) by auto
  next
    case (Cons a D')
    then have "a \<in> dom (ps_socks p)" using less.prems(1) by (auto simp: port_rep_def qrep_def)
    then obtain so where so: "ps_socks p a = Some so" by blast
    obtain p1 U1 D1 G1 where p1: "sock_force_delete env a p = Some p1" "port_rep p1 {} U1 D1 G1" "ps_socks p1 = (ps_socks p)(a := None)"
      using force_delete_ok [OF less.prems(1) so, of env] by blast
    have "card (dom (ps_socks p1)) < card (dom (ps_socks p))"
      unfolding p1(3) by (rule card_dom_less [OF rep_finite [OF less.prems(1)] so])
    moreover have "live_socks (ps_socks p1) = {}" using less.prems(2) p1(3) by (auto simp: live_socks_def)
    ultimately have IH: "\<exists>p' G'. delete_deleted env p1 = Some p' \<and> port_rep p' {} [] [] G' \<and> ps_socks p' = Map.empty"
      using less.hyps p1(2) by blast
    have "delete_deleted env p = delete_deleted env p1" by (subst delete_deleted.simps) (simp add: f Cons p1(1))
    then show ?thesis using IH by simp
  qed
qed

lemma group_delete_ok:
  assumes rep: "port_rep p {} [] [] (g # G)" and e: "ps_socks p = Map.empty"
  shows "\<exists>p'. poll_group_delete env g p = Some p' \<and> port_rep p' {} [] [] G \<and> ps_socks p' = Map.empty"
proof -
  have q: "qrep (ps_nodes p) (ps_update_queue p) (ps_deleted_queue p) (ps_group_queue p) {} [] [] (g # G)"
    and ok: "groups_ok Map.empty (ps_group_size p) (g # G)" and mem: "port_mem p (g # G)" using rep e by (auto simp: port_rep_def)
  have "g \<in> dom (ps_group_size p)" "g \<in> dom (ps_group_handle p)" using ok mem by (auto simp: groups_ok_def port_mem_def)
  then obtain n h where n: "ps_group_size p g = Some n" "ps_group_handle p g = Some h" by blast
  have z: "n = 0" using ok n(1) by (auto simp: groups_ok_def members_def)
  obtain c err w where c: "CloseHandle env h (ps_world p) = (c, err, w)" by (metis prod_cases3)
  obtain m where m: "queue_remove (ps_nodes p) g = Some m" "qrep m (ps_update_queue p) (ps_deleted_queue p) (ps_group_queue p) {} [] [] G"
    using qrep_remove_group [OF q, of g] by auto
  let ?m = "m\<lparr>qn_prev := (qn_prev m)(g := None), qn_next := (qn_next m)(g := None)\<rparr>"
  let ?p = "poll_group_free g (p\<lparr>ps_world := w, ps_nodes := m\<rparr>)"
  have dis: "g \<notin> set (ps_update_queue p # ps_deleted_queue p # ps_group_queue p # G)" using q by (auto simp: qrep_def)
  have "qrep ?m (ps_update_queue p) (ps_deleted_queue p) (ps_group_queue p) {} [] [] G"
    by (rule qrep_only [OF m(2), of "{g}"]) (use dis in \<open>auto simp: only_def\<close>)
  moreover have "groups_ok Map.empty ((ps_group_size p)(g := None)) G"
  proof -
    have "full_first (ps_group_size p) G" using ok by (simp add: groups_ok_def full_first_def)
    then have "full_first ((ps_group_size p)(g := None)) G"
      unfolding full_first_def by (rule sorted_wrt_mono_rel [rotated]) (use dis in auto)
    then show ?thesis using ok dis by (auto simp: groups_ok_def)
  qed
  moreover have "port_mem ?p G" using mem dis e by (auto simp: port_mem_def poll_group_free_def)
  ultimately have "port_rep ?p {} [] [] G" using rep e by (simp add: port_rep_def poll_group_free_def)
  moreover have "poll_group_delete env g p = Some ?p" using n z c m(1) by (simp add: poll_group_delete_def upd_nodes_def)
  ultimately show ?thesis using e by (auto simp: poll_group_free_def)
qed

lemma delete_groups_ok:
  assumes "port_rep p {} [] [] G" "ps_socks p = Map.empty"
  shows "\<exists>p'. delete_groups env p = Some p' \<and> port_rep p' {} [] [] [] \<and> ps_socks p' = Map.empty"
  using assms
proof (induction G arbitrary: p)
  case Nil
  then have "queue_first (ps_nodes p) (ps_group_queue p) = Some None" using queue_ends(1) by (fastforce simp: port_rep_def qrep_def)
  then show ?case using Nil by (subst delete_groups.simps) auto
next
  case (Cons g G)
  have "queue_first (ps_nodes p) (ps_group_queue p) = Some (Some g)" using Cons.prems(1) queue_ends(1) by (fastforce simp: port_rep_def qrep_def)
  then show ?case using group_delete_ok [OF Cons.prems, of env] Cons.IH by (subst delete_groups.simps) auto
qed

lemma port_delete_ok:
  assumes "port_rep p {} U D G" "ps_iocp_handle p = None"
  shows "\<exists>p'. port_delete env p = Some (0, p') \<and> port_rep p' {} [] [] [] \<and> ps_socks p' = Map.empty"
proof -
  obtain p1 U1 D1 G1 where p1: "delete_registered env p = Some p1" "port_rep p1 {} U1 D1 G1" "live_socks (ps_socks p1) = {}"
    using delete_registered_ok [OF assms(1)] by blast
  obtain p2 G2 where p2: "delete_deleted env p1 = Some p2" "port_rep p2 {} [] [] G2" "ps_socks p2 = Map.empty"
    using delete_deleted_ok [OF p1(2,3)] by blast
  obtain p3 where p3: "delete_groups env p2 = Some p3" "port_rep p3 {} [] [] []" "ps_socks p3 = Map.empty"
    using delete_groups_ok [OF p2(2,3)] by blast
  have "queue_is_empty (ps_nodes p3) (ps_update_queue p3) = Some True"
    using queue_is_empty_iff [of "ps_nodes p3" "ps_update_queue p3" "[]"] p3(2) by (simp add: port_rep_def qrep_def)
  then show ?thesis using assms(2) p1(1) p2(1) p3 by (simp add: port_delete_def)
qed

text \<open>
  C19: Closing a port in any valid state and deleting it ends, violates no
  assertion of the code, and leaves nothing behind: every socket, the deleted ones that still
  wait for their poll too, with its tree node, and every poll group is freed.
\<close>

theorem wepoll_port_delete:
  assumes "port_inv p"
  shows "\<exists>p'. port_delete env (snd (port_close env p)) = Some (0, p') \<and> ps_socks p' = Map.empty \<and>
    tr_nodes (ps_sock_tree p') = Map.empty \<and> ps_group_size p' = Map.empty \<and> ps_group_handle p' = Map.empty"
proof -
  obtain U D G where rep: "port_rep p {} U D G" using assms by (auto simp: port_inv_def)
  let ?q = "snd (port_close env p)"
  have "port_rep ?q {} U D G" "ps_iocp_handle ?q = None" using rep by (auto simp: port_close_def Let_def split: prod.split)
  then obtain p' where p': "port_delete env ?q = Some (0, p')" "port_rep p' {} [] [] []" "ps_socks p' = Map.empty"
    using port_delete_ok by blast
  have "dom (tr_nodes (ps_sock_tree p')) = {}" "dom (ps_group_size p') = {}" "dom (ps_group_handle p') = {}"
    using p'(2,3) by (auto simp: port_rep_def index_ok_def groups_ok_def port_mem_def)
  then show ?thesis using p' by auto
qed

theorem wepoll_port_delete_witness:
  "\<exists>p'. port_delete sample_driver (snd (port_close sample_driver sample_port)) = Some (0, p') \<and> ps_socks p' = Map.empty \<and>
    ps_group_handle p' = Map.empty"
  using wepoll_port_delete [OF sample_port_inv, of sample_driver] by blast

end
