(* ===== verification/Wepoll_Frame.thy ===== *)
theory Wepoll_Frame
  imports Wepoll_Port
begin

unbundle bit_operations_syntax

text \<open>
  What the operations on the sockets of a port have in common: whatever relation between
  ports the primitive steps respect, every operation that ends respects.  The relation is
  the parameter of a locale; the theories that follow use it for the registration of the
  sockets, for what the user asked for, and for the polls that the driver holds.
\<close>

subsection \<open>Relations that the primitive steps respect\<close>

lemma post_upd_sock:
  "(\<And>so. ps_socks p a = Some so \<Longrightarrow> post Q (g (p\<lparr>ps_socks := (ps_socks p)(a \<mapsto> f so)\<rparr>))) \<Longrightarrow> post Q (upd_sock a f p \<bind> g)"
  by (auto simp: upd_sock_def intro!: post_read [of "ps_socks p a"])

lemma post_upd_nodes: "(\<And>m. post Q (g (p\<lparr>ps_nodes := m\<rparr>))) \<Longrightarrow> post Q (upd_nodes f p \<bind> g)"
  by (auto simp: upd_nodes_def intro!: post_read [of "f (ps_nodes p)"])

lemma post_status:
  "(s = SOCK_POLL_IDLE \<Longrightarrow> post P l) \<Longrightarrow> (s = SOCK_POLL_PENDING \<Longrightarrow> post P m) \<Longrightarrow> (s = SOCK_POLL_CANCELLED \<Longrightarrow> post P k) \<Longrightarrow>
   post P (case s of SOCK_POLL_IDLE \<Rightarrow> l | SOCK_POLL_PENDING \<Rightarrow> m | SOCK_POLL_CANCELLED \<Rightarrow> k)"
  by (cases s) simp_all

locale port_frame =
  fixes env :: "'w port_env" and R :: "'w port \<Rightarrow> 'w port \<Rightarrow> bool"
  assumes R_refl: "R p p" and R_trans: "R p q \<Longrightarrow> R q r \<Longrightarrow> R p r"
    and R_nodes: "R p (p\<lparr>ps_nodes := m\<rparr>)" and R_error: "R p (p\<lparr>ps_last_error := e\<rparr>)" and R_sizes: "R p (p\<lparr>ps_group_size := z\<rparr>)"
    and R_tree: "tree_del a (ps_sock_tree p) = Some t \<Longrightarrow> R p (p\<lparr>ps_sock_tree := t\<rparr>)"
    and R_mark: "ps_socks p a = Some so \<Longrightarrow> R p (p\<lparr>ps_socks := (ps_socks p)(a \<mapsto> so\<lparr>so_delete_pending := True\<rparr>)\<rparr>)"
    and R_free: "ps_socks p a = Some so \<Longrightarrow> so_poll_status so = SOCK_POLL_IDLE \<Longrightarrow> sock_free a p = Some q \<Longrightarrow> R p q"
    and R_cancel_call: "afd_cancel_poll env h a (ps_world p) = (x, err, w) \<Longrightarrow> R p (p\<lparr>ps_world := w\<rparr>)"
    and R_cancelled: "ps_socks p a = Some so \<Longrightarrow> so_poll_status so = SOCK_POLL_PENDING \<Longrightarrow>
      R p (p\<lparr>ps_socks := (ps_socks p)(a \<mapsto> so\<lparr>so_poll_status := SOCK_POLL_CANCELLED, so_pending_events := 0\<rparr>)\<rparr>)"
    and R_rejected: "afd_poll env h a s evs (ps_world p) = (x, err, w) \<Longrightarrow> x < 0 \<Longrightarrow> err \<noteq> ERROR_IO_PENDING \<Longrightarrow> R p (p\<lparr>ps_world := w\<rparr>)"
    and R_polled: "afd_poll env h a (so_base_socket so) (epoll_events_to_afd_events (so_user_events so)) (ps_world p) = (x, err, w) \<Longrightarrow>
      \<not> x < 0 \<or> err = ERROR_IO_PENDING \<Longrightarrow> ps_socks p a = Some so \<Longrightarrow> so_poll_status so = SOCK_POLL_IDLE \<Longrightarrow>
      R p (p\<lparr>ps_world := w, ps_socks := (ps_socks p)(a \<mapsto> so\<lparr>so_poll_status := SOCK_POLL_PENDING, so_pending_events := so_user_events so\<rparr>)\<rparr>)"
begin

lemma step: "post (R p) m \<Longrightarrow> R z p \<Longrightarrow> (\<And>q. R z q \<Longrightarrow> post Q (g q)) \<Longrightarrow> post Q (m \<bind> g)"
  by (rule post_bind [of "R z"]) (auto elim: post_mono intro: R_trans)

lemma step2: "post (\<lambda>r. R p (snd r)) m \<Longrightarrow> R z p \<Longrightarrow> (\<And>r q. R z q \<Longrightarrow> post Q (g (r, q))) \<Longrightarrow> post Q (m \<bind> g)"
  by (rule post_bind [of "\<lambda>r. R z (snd r)"]) (auto elim: post_mono intro: R_trans)

lemma block: "post (R z) (if b then m else k) \<Longrightarrow> (\<And>q. R z q \<Longrightarrow> post Q (g q)) \<Longrightarrow> post Q ((if b then m else k) \<bind> g)"
  by (rule post_bind [of "R z"])

lemma end_with: "post (R p) m \<Longrightarrow> R z p \<Longrightarrow> post (R z) m"
  by (auto elim: post_mono intro: R_trans)

lemma end_with2: "post (\<lambda>r. R p (snd r)) m \<Longrightarrow> R z p \<Longrightarrow> post (\<lambda>r. R z (snd r)) m"
  by (auto elim: post_mono intro: R_trans)

lemma nodes_error: "R z p \<Longrightarrow> R z (p\<lparr>ps_nodes := m\<rparr>)" "R z p \<Longrightarrow> R z (p\<lparr>ps_last_error := e\<rparr>)" "R z p \<Longrightarrow> R z (p\<lparr>ps_group_size := s\<rparr>)"
  using R_trans R_nodes R_error R_sizes by blast+

lemma upd_nodes_R: "post (\<lambda>q. R p q \<and> ps_socks q = ps_socks p) (upd_nodes f p)"
  by (auto simp: upd_nodes_def bind_eq_Some_conv intro!: postI R_nodes)

lemma queues_R:
  "post (\<lambda>q. R p q \<and> ps_socks q = ps_socks p) (port_request_socket_update a p)"
  "post (\<lambda>q. R p q \<and> ps_socks q = ps_socks p) (port_cancel_socket_update a p)"
  "post (\<lambda>q. R p q \<and> ps_socks q = ps_socks p) (port_add_deleted_socket a p)"
  "post (\<lambda>q. R p q \<and> ps_socks q = ps_socks p) (port_remove_deleted_socket a p)"
  unfolding port_request_socket_update_def port_cancel_socket_update_def port_add_deleted_socket_def port_remove_deleted_socket_def
  by (auto intro!: post_read post_if upd_nodes_R R_refl)

lemma release_R: "post (\<lambda>q. R p q \<and> ps_socks q = ps_socks p) (poll_group_release g p)"
  unfolding poll_group_release_def Let_def upd_nodes_def
  by (auto intro!: post_read [of "ps_group_size _ _"] post_read [of "queue_move_to_end _ _ _"] post_if nodes_error R_refl)

lemma unregister_R: "post (R p) (port_unregister_socket a p)"
  by (auto simp: port_unregister_socket_def bind_eq_Some_conv intro!: postI R_tree)

lemma mark_R: "post (R p) (upd_sock a (\<lambda>so. so\<lparr>so_delete_pending := True\<rparr>) p)"
  by (auto simp: upd_sock_def bind_eq_Some_conv intro!: postI R_mark)

lemma cancel_steps:
  assumes "afd_cancel_poll env h a (ps_world p) = (x, err, w)" "ps_socks p a = Some so" "so_poll_status so = SOCK_POLL_PENDING"
  shows "R p (p\<lparr>ps_world := w, ps_last_error := err\<rparr>)"
    "R p (p\<lparr>ps_world := w, ps_socks := (ps_socks p)(a \<mapsto> so\<lparr>so_poll_status := SOCK_POLL_CANCELLED, so_pending_events := 0\<rparr>)\<rparr>)"
  using R_cancel_call [OF assms(1)] R_cancelled [of "p\<lparr>ps_world := w\<rparr>" a so] assms(2,3) nodes_error(2) by (auto intro: R_trans)

lemma cancel_poll_R: "post (\<lambda>r. R p (snd r)) (sock_cancel_poll env a p)"
  unfolding sock_cancel_poll_def Let_def
  by (rule post_upd_sock post_rules post_read post_None | simp add: cancel_steps)+

lemma free_R:
  assumes "ps_socks p a = Some so" "so_poll_status so = SOCK_POLL_IDLE"
  shows "post (R p) (do { p \<leftarrow> port_remove_deleted_socket a p; p \<leftarrow> poll_group_release g p; sock_free a p })"
proof (rule post_bind [OF queues_R(4)])
  fix q assume q: "R p q \<and> ps_socks q = ps_socks p"
  show "post (R p) (poll_group_release g q \<bind> sock_free a)"
    by (rule post_bind [OF release_R], rule postI) (use q assms R_free in \<open>metis R_trans\<close>)
qed

lemma queue_R:
  "post (R p) (port_request_socket_update a p)" "post (R p) (port_cancel_socket_update a p)" "post (R p) (port_add_deleted_socket a p)"
  by (auto intro: post_mono [OF queues_R(1)] post_mono [OF queues_R(2)] post_mono [OF queues_R(3)])

lemmas steps = step [OF queue_R(1)] step [OF queue_R(2)] step [OF queue_R(3)] step [OF unregister_R] step [OF mark_R] step2 [OF cancel_poll_R]

lemma delete_R: "post (\<lambda>r. R p (snd r)) (sock_delete_with env a False p)"
  unfolding sock_delete_with_def
  by (rule block [of p] steps [where z = p] end_with [OF free_R] end_with [OF queue_R(3)] end_with [OF mark_R] post_rules post_read | assumption | simp add: R_refl)+

lemma polled_R:
  assumes "afd_poll env h a (so_base_socket so) (epoll_events_to_afd_events (so_user_events so)) (ps_world p) = (x, err, w)"
    and "ps_socks p a = Some so" "so_poll_status so = SOCK_POLL_IDLE"
    and "\<not> (x < 0 \<and> err = ERROR_INVALID_HANDLE)" "\<not> (x < 0 \<and> err \<noteq> ERROR_IO_PENDING)"
  shows "post (\<lambda>r. R p (snd r)) (do {
      p \<leftarrow> upd_sock a (\<lambda>so. so\<lparr>so_poll_status := SOCK_POLL_PENDING, so_pending_events := so_user_events so\<rparr>)
        (if x < 0 then p\<lparr>ps_world := w, ps_last_error := err\<rparr> else p\<lparr>ps_world := w\<rparr>);
      p \<leftarrow> port_cancel_socket_update a p;
      Some (0, p)
    })"
proof -
  let ?s = "(ps_socks p)(a \<mapsto> so\<lparr>so_poll_status := SOCK_POLL_PENDING, so_pending_events := so_user_events so\<rparr>)"
  have s: "R p (p\<lparr>ps_world := w, ps_socks := ?s\<rparr>)" using R_polled [OF assms(1) _ assms(2,3)] assms(5) by blast
  have e: "p\<lparr>ps_world := w, ps_last_error := err, ps_socks := ?s\<rparr> = p\<lparr>ps_world := w, ps_socks := ?s, ps_last_error := err\<rparr>"
    by (cases p) simp
  have "R p (p\<lparr>ps_world := w, ps_last_error := err, ps_socks := ?s\<rparr>)" unfolding e by (rule nodes_error(2) [OF s])
  then have "R p ((if x < 0 then p\<lparr>ps_world := w, ps_last_error := err\<rparr> else p\<lparr>ps_world := w\<rparr>)\<lparr>ps_socks := ?s\<rparr>)" using s by simp
  then show ?thesis using assms(2)
    by (intro post_upd_sock step [OF queue_R(2), where z = p]) auto
qed

lemma update_R: "post (\<lambda>r. R p (snd r)) (sock_update env a p)"
  unfolding sock_update_def Let_def
  by (rule steps [where z = p] polled_R end_with2 [OF delete_R] post_status post_rules post_read post_None | assumption
      | simp add: R_refl R_rejected nodes_error error_defs)+

lemma update_events_R: "post (\<lambda>r. R p (snd r)) (port_update_events env p)"
proof (rule postI)
  fix r assume r: "port_update_events env p = Some r"
  show "R p (snd r)"
  proof (rule port_update_events.raw_induct [OF _ r, where P = "\<lambda>x p r. x = env \<longrightarrow> R p (snd r)", THEN mp], goal_cases)
    case (1 rec x p r)
    have IH: "post (\<lambda>r. R q (snd r)) (rec env q)" for q using 1(1) by (auto intro: postI)
    show ?case
    proof
      assume x: "x = env"
      show "R p (snd r)" by (rule postD [OF _ 1(2)], unfold x)
        (rule step2 [OF update_R, where z = p] end_with2 [OF IH] post_rules post_read | assumption | simp add: R_refl)+
    qed
  qed simp
qed

lemma if_polling_R: "post (R p) (port_update_events_if_polling env p)"
  unfolding port_update_events_if_polling_def
  by (rule step2 [OF update_events_R, where z = p] post_rules | assumption | simp add: R_refl)+

end

subsection \<open>Completions\<close>

text \<open>
  A completion first makes the socket idle.  The rest of its treatment respects a relation
  that also allows what a reported event does to a socket that asked for one event only.
\<close>

definition idled :: "addr \<Rightarrow> 'w port \<Rightarrow> 'w port" where
  "idled a p = p\<lparr>ps_socks := (ps_socks p)
     (a := map_option (\<lambda>so. so\<lparr>so_poll_status := SOCK_POLL_IDLE, so_pending_events := 0\<rparr>) (ps_socks p a))\<rparr>"

lemma post_idled:
  "post Q (g (idled a p)) \<Longrightarrow> post Q (upd_sock a (\<lambda>so. so\<lparr>so_poll_status := SOCK_POLL_IDLE, so_pending_events := 0\<rparr>) p \<bind> g)"
  by (cases "ps_socks p a") (auto simp: upd_sock_def idled_def)

locale feed_frame = port_frame +
  assumes R_oneshot: "ps_socks p a = Some so \<Longrightarrow> R p (p\<lparr>ps_socks := (ps_socks p)(a \<mapsto> so\<lparr>so_user_events := 0\<rparr>)\<rparr>)"
begin

lemma oneshot_R: "post (R p) (upd_sock a (\<lambda>so. so\<lparr>so_user_events := 0\<rparr>) p)"
  by (auto simp: upd_sock_def bind_eq_Some_conv intro!: postI R_oneshot)

lemma feed_event_R: "post (\<lambda>r. R (idled a p) (snd (snd r))) (sock_feed_event env a io p)"
  unfolding sock_feed_event_def Let_def
  by (rule post_idled block [of "idled a p"] steps [where z = "idled a p"] step2 [OF delete_R, where z = "idled a p"] end_with [OF oneshot_R]
      post_rules post_read | assumption | simp add: R_refl)+

end

locale full_frame = feed_frame +
  assumes R_idled: "R p (idled a p)"
begin

lemma feed_events_R: "post (\<lambda>r. R p (snd r)) (port_feed_events env ios p)"
proof (induction ios arbitrary: p)
  case (Cons x ios)
  obtain a io where x: "x = (a, io)" by fastforce
  have f: "post (\<lambda>r. R p (snd (snd r))) (sock_feed_event env a io p)"
    using feed_event_R by (rule post_mono) (rule R_trans [OF R_idled])
  show ?case unfolding x port_feed_events.simps
    by (rule post_bind [OF f], rule post_prod, rule post_prod, rule step2 [OF Cons.IH, where z = p]) (auto intro: post_prod)
qed (simp add: R_refl)

end

subsection \<open>New sockets\<close>

text \<open>
  Making a socket changes the world by the allocator, the calls that make a helper handle and
  those that look up the base socket; what a relation says beyond that about the port may
  concern its handle and the number of waiting threads only.
\<close>

locale make_frame =
  fixes env :: "'w port_env" and S :: "'w port \<Rightarrow> 'w port \<Rightarrow> bool"
  assumes S_trans: "S p q \<Longrightarrow> S q r \<Longrightarrow> S p r"
    and S_same: "ps_active_poll_count q = ps_active_poll_count p \<Longrightarrow> ps_iocp_handle q = ps_iocp_handle p \<Longrightarrow> ps_world q = ps_world p \<Longrightarrow> S p q"
    and S_malloc: "malloc_ok env (ps_world p) = (got, w) \<Longrightarrow> S p (p\<lparr>ps_world := w\<rparr>)"
    and S_helper: "afd_create_helper_handle env h (ps_world p) = (x, err, y, w) \<Longrightarrow> S p (p\<lparr>ps_world := w\<rparr>)"
    and S_base: "ws_get_base_socket env s (ps_world p) = Some (b, err, w) \<Longrightarrow> S p (p\<lparr>ps_world := w\<rparr>)"
begin

lemma S_cong:
  "ps_active_poll_count q = ps_active_poll_count p \<Longrightarrow> ps_iocp_handle q = ps_iocp_handle p \<Longrightarrow> ps_world q = ps_world p \<Longrightarrow> S z q = S z p"
  using S_same [of p q] S_same [of q p] by (metis S_trans)

lemma S_refl [simp]: "S p p"
  by (simp add: S_same)

lemma S_fields [simp]:
  "S z (p\<lparr>ps_nodes := m\<rparr>) = S z p" "S z (p\<lparr>ps_last_error := e\<rparr>) = S z p" "S z (p\<lparr>ps_group_size := s\<rparr>) = S z p"
  "S z (p\<lparr>ps_group_handle := h\<rparr>) = S z p" "S z (p\<lparr>ps_brk := b\<rparr>) = S z p" "S z (p\<lparr>ps_sock_tree := t\<rparr>) = S z p"
  "S z (p\<lparr>ps_socks := k\<rparr>) = S z p" "S z (poll_group_free g p) = S z p"
  by (rule S_cong; simp add: poll_group_free_def)+

lemma S_world [simp]:
  "S z (p\<lparr>ps_nodes := m, ps_world := w\<rparr>) = S z (p\<lparr>ps_world := w\<rparr>)" "S z (p\<lparr>ps_brk := b, ps_world := w\<rparr>) = S z (p\<lparr>ps_world := w\<rparr>)"
  "S z (p\<lparr>ps_group_size := s, ps_world := w\<rparr>) = S z (p\<lparr>ps_world := w\<rparr>)"
  "S z (p\<lparr>ps_group_handle := h, ps_world := w\<rparr>) = S z (p\<lparr>ps_world := w\<rparr>)"
  by (rule S_cong; simp)+

lemma malloc_step: "S z p \<Longrightarrow> malloc_ok env (ps_world p) = (got, w) \<Longrightarrow> S z (p\<lparr>ps_world := w\<rparr>)"
  using S_malloc S_trans by blast

lemma helper_step:
  assumes "S z p" "malloc_ok env (ps_world p) = (got, w)" "afd_create_helper_handle env h w = (x, err, y, w')"
  shows "S z (p\<lparr>ps_world := w'\<rparr>)"
  using S_trans [OF malloc_step [OF assms(1,2)] S_helper [of h "p\<lparr>ps_world := w\<rparr>" x err y w']] assms(3) by simp

lemma group_new_S: "S z p \<Longrightarrow> post (\<lambda>r. S z (snd r)) (poll_group_new env p)"
  unfolding poll_group_new_def Let_def
  by (rule post_upd_nodes post_rules post_read | simp add: malloc_step helper_step)+

lemma upd_nodes_S: "S z p \<Longrightarrow> post (S z) (upd_nodes f p)"
  by (auto simp: upd_nodes_def bind_eq_Some_conv intro!: postI)

lemma block_S: "post (S z) (if b then m else k) \<Longrightarrow> (\<And>q. S z q \<Longrightarrow> post Q (g q)) \<Longrightarrow> post Q ((if b then m else k) \<bind> g)"
  by (rule post_bind [of "S z"])

lemma acquire_S: "S z p \<Longrightarrow> post (\<lambda>r. S z (snd r)) (poll_group_acquire env p)"
  unfolding poll_group_acquire_def Let_def
  apply (rule post_read, rule post_read, rule post_bind [of "\<lambda>r. S z (snd r)"])
   apply (simp add: group_new_S)
  apply (rule block_S [of z] post_rules post_read upd_nodes_S | assumption | simp)+
  done

lemma release_S: "S z p \<Longrightarrow> post (S z) (poll_group_release g p)"
  unfolding poll_group_release_def Let_def
  by (rule post_rules post_read post_None upd_nodes_S | simp)+

lemma alloc_S:
  assumes "S z p" "\<And>x q. S z q \<Longrightarrow> post Q (f x q)"
  shows "post Q (case sock_alloc env p of (x, q) \<Rightarrow> f x q)"
proof -
  obtain x q where q: "sock_alloc env p = (x, q)" by fastforce
  have "S z q" using q malloc_step [OF assms(1)] by (auto simp: sock_alloc_def Let_def split: prod.splits if_splits)
  then show ?thesis using assms(2) q by simp
qed

lemma setup_S: "S z p \<Longrightarrow> post (\<lambda>r. S z (snd r)) (sock_setup a b g k p)"
  unfolding sock_setup_def port_register_socket_def Let_def
  by (rule post_upd_sock post_upd_nodes post_rules post_read | simp)+

lemma free_S: "S z p \<Longrightarrow> post (S z) (sock_free a p)"
  by (auto simp: sock_free_def bind_eq_Some_conv intro!: postI)

lemma new_steps:
  "S z p \<Longrightarrow> (\<And>q. S z q \<Longrightarrow> post Q (h q)) \<Longrightarrow> post Q (poll_group_release g p \<bind> h)"
  "S z p \<Longrightarrow> (\<And>q. S z q \<Longrightarrow> post Q (h q)) \<Longrightarrow> post Q (sock_free a p \<bind> h)"
  "S z p \<Longrightarrow> (\<And>r q. S z q \<Longrightarrow> post Q (k (r, q))) \<Longrightarrow> post Q (sock_setup a b g s p \<bind> k)"
  "S z p \<Longrightarrow> (\<And>r q. S z q \<Longrightarrow> post Q (l (r, q))) \<Longrightarrow> post Q (poll_group_acquire env p \<bind> l)"
  by (auto intro!: post_bind [OF release_S] post_bind [OF free_S] post_bind [OF setup_S] post_bind [OF acquire_S])

lemma base_step:
  assumes "S z p" "\<And>b err w. S z (p\<lparr>ps_world := w\<rparr>) \<Longrightarrow> post Q (f (b, err, w))"
  shows "post Q (ws_get_base_socket env s (ps_world p) \<bind> f)"
proof (rule post_read)
  fix x assume x: "ws_get_base_socket env s (ps_world p) = Some x"
  obtain b err w where y: "x = (b, err, w)" by (metis prod_cases3)
  show "post Q (f x)" using assms(2) S_trans [OF assms(1) S_base] x unfolding y by blast
qed

lemma sock_new_S: "post (\<lambda>r. S p (snd r)) (sock_new env sock p)"
  unfolding sock_new_def Let_def
  by (rule base_step [where z = p] alloc_S [where z = p] new_steps [where z = p] post_rules | assumption | simp)+

end

end
