(* ===== verification/Wepoll_Ctl.thy ===== *)
theory Wepoll_Ctl
  imports Wepoll_Frame
begin

unbundle bit_operations_syntax

text \<open>
  What the control of a port does to the set of sockets the user is interested in.  The
  abstract state is a partial map from sockets to the events and the data of the user; the
  port implements it by a red-black tree, three queues and the polls of the driver.
\<close>

subsection \<open>Keys\<close>

text \<open>The key of a tree node is written when the node is added and never after.\<close>

definition node_keys :: "tree_t \<Rightarrow> addr \<rightharpoonup> nat" where
  "node_keys t a = map_option tn_key (tr_nodes t a)"

lemma keys_root [simp]: "node_keys (t\<lparr>tr_root := r\<rparr>) = node_keys t"
  by (simp add: node_keys_def fun_eq_iff)

lemma keys_upd_node: "upd_node a f t = Some t' \<Longrightarrow> (\<And>y. tn_key (f y) = tn_key y) \<Longrightarrow> node_keys t' = node_keys t"
  by (auto simp: upd_node_def node_keys_def fun_eq_iff bind_eq_Some_conv)

lemma key_set_child [simp]: "tn_key (set_child s x y) = tn_key y"
  by (cases s) (simp_all add: set_child_def)

lemma keys_set_red: "set_red a c t = Some t' \<Longrightarrow> node_keys t' = node_keys t"
  by (auto simp: set_red_def dest: keys_upd_node)

lemma keys_relink: "relink p old new t = Some t' \<Longrightarrow> node_keys t' = node_keys t"
  by (auto simp: relink_def bind_eq_Some_conv dest!: keys_upd_node split: option.splits if_splits)

lemma keys_rotate: "tree_rotate s a t = Some t' \<Longrightarrow> node_keys t' = node_keys t"
  unfolding tree_rotate_def Let_def
  by (auto simp: bind_eq_Some_conv dest!: keys_upd_node keys_relink split: option.splits)

lemma keys_rebalance_sibling: "rebalance_sibling s p a t = Some (x, t') \<Longrightarrow> node_keys t' = node_keys t"
  unfolding rebalance_sibling_def Let_def
  by (auto simp: bind_eq_Some_conv dest!: keys_set_red keys_rotate split: if_splits)

lemma keys_rebalance_after_remove: "rebalance_after_remove s p t = Some (x, t') \<Longrightarrow> node_keys t' = node_keys t"
  unfolding rebalance_after_remove_def Let_def
  by (auto simp: bind_eq_Some_conv dest!: keys_set_red keys_rotate keys_rebalance_sibling split: if_splits)

lemma keys_bind:
  "node_keys t = K \<Longrightarrow> (\<And>y. tn_key (f y) = tn_key y) \<Longrightarrow> (\<And>t'. node_keys t' = K \<Longrightarrow> post Q (g t')) \<Longrightarrow> post Q (upd_node a f t \<bind> g)"
  "node_keys t = K \<Longrightarrow> (\<And>t'. node_keys t' = K \<Longrightarrow> post Q (g t')) \<Longrightarrow> post Q (set_red a c t \<bind> g)"
  "node_keys t = K \<Longrightarrow> (\<And>t'. node_keys t' = K \<Longrightarrow> post Q (g t')) \<Longrightarrow> post Q (relink p old new t \<bind> g)"
  by (auto intro!: post_read dest: keys_upd_node keys_set_red keys_relink)

lemma keys_del_rebalance:
  assumes "del_rebalance n p t = Some r"
  shows "node_keys (snd r) = node_keys t"
proof (rule del_rebalance.raw_induct [OF _ assms, where P = "\<lambda>n p t r. node_keys (snd r) = node_keys t"], goal_cases)
  case (1 rec n p t r)
  have IH: "post (\<lambda>r. node_keys (snd r) = node_keys t') (rec n p t')" for n p t' using 1(1) by (auto intro: postI)
  have rb: "post (\<lambda>r. node_keys (snd r) = node_keys t) (rebalance_after_remove s q t)" for s q
    using keys_rebalance_after_remove by (fastforce intro: postI)
  show ?case
    by (rule postD [OF _ 1(2)])
      (auto intro!: post_if post_read [of p] post_read [of "tr_nodes _ _"] post_bind [OF rb] post_mono [OF IH])
qed

lemma keys_del_splice: "post (\<lambda>r. node_keys (snd (snd (snd r))) = node_keys t) (del_splice a t)"
  unfolding del_splice_def Let_def
  apply (rule post_read, rule post_read, rule keys_bind(3) [OF refl], rule post_bind [where P = "\<lambda>r. node_keys (snd (snd (snd r))) = node_keys t"])
  apply (rule keys_bind [where K = "node_keys t"] post_rules post_read refl | assumption | simp)+
  apply (auto split: option.splits dest!: keys_upd_node)
  done

lemma keys_tree_del: "tree_del a t = Some t' \<Longrightarrow> node_keys t' = node_keys t"
  unfolding tree_del_def
  by (auto simp: bind_eq_Some_conv dest!: keys_del_splice [THEN postD] keys_del_rebalance keys_set_red split: if_splits option.splits)

text \<open>So a socket that is registered is found under the key of its node.\<close>

lemma sh_keys: "sh h par t \<Longrightarrow> (k, a) \<in> set (items t) \<Longrightarrow> map_option tn_key (h a) = Some k"
  by (induction h par t rule: sh.induct) (auto simp: mkn_def)

lemma indexes_keys:
  assumes "tr.indexes t f"
  shows "f k = Some a \<longleftrightarrow> a \<in> ran f \<and> node_keys t a = Some k"
proof -
  have key: "node_keys t a = Some l" if "f l = Some a" for l
  proof -
    obtain L s where "f = map_of L" "trep t s" "items s = L" using assms by (auto simp: tr.indexes_def tree_holds_def)
    then show ?thesis using that sh_keys [of "tr_nodes t" None s l a] by (auto simp: trep_def node_keys_def dest: map_of_SomeD)
  qed
  then show ?thesis by (auto simp: ran_def)
qed


subsection \<open>What no operation on the sockets changes\<close>

definition kept :: "'w port \<Rightarrow> 'w port \<Rightarrow> bool" where
  "kept p p' \<longleftrightarrow> ps_iocp_handle p' = ps_iocp_handle p \<and> ps_active_poll_count p' = ps_active_poll_count p \<and>
     dom (ps_socks p') \<subseteq> dom (ps_socks p) \<and>
     (\<forall>a\<in>dom (ps_socks p'). node_keys (ps_sock_tree p') a = node_keys (ps_sock_tree p) a)"

interpretation kp: full_frame env kept for env
proof unfold_locales
  show "kept p r" if "kept p q" "kept q r" for p q r :: "'a port" using that unfolding kept_def by (metis subset_iff)
  show "kept p (p\<lparr>ps_sock_tree := t\<rparr>)" if "tree_del a (ps_sock_tree p) = Some t" for a t and p :: "'a port"
    using keys_tree_del [OF that] by (simp add: kept_def)
  show "kept p q" if "ps_socks p a = Some so" "so_poll_status so = SOCK_POLL_IDLE" "sock_free a p = Some q" for a so and p q :: "'a port"
    using that by (auto simp: sock_free_def kept_def node_keys_def split: if_splits)
qed (auto simp: kept_def idled_def split: if_splits)

text \<open>What the user asked for: nothing but the deletion of a socket changes it.\<close>

definition asked :: "'w port \<Rightarrow> 'w port \<Rightarrow> bool" where
  "asked p p' \<longleftrightarrow> (\<forall>a so'. ps_socks p' a = Some so' \<longrightarrow> (\<exists>so. ps_socks p a = Some so \<and> so_user_events so' = so_user_events so \<and>
     so_user_data so' = so_user_data so \<and> (so_delete_pending so \<longrightarrow> so_delete_pending so')))"

interpretation ak: port_frame env asked for env
proof unfold_locales
  show "asked p r" if "asked p q" "asked q r" for p q r :: "'a port" using that unfolding asked_def by metis
qed (auto simp: asked_def sock_free_def bind_eq_Some_conv split: if_splits)

subsection \<open>The sockets the user is interested in\<close>

definition interest :: "'w port \<Rightarrow> nat \<rightharpoonup> 32 word \<times> nat" where
  "interest p k = (case tree_find (ps_sock_tree p) k of
     Some (Some a) \<Rightarrow> map_option (\<lambda>so. (so_user_events so, so_user_data so)) (ps_socks p a) | _ \<Rightarrow> None)"

lemma interest_error [simp]: "interest (p\<lparr>ps_last_error := e\<rparr>) = interest p"
  by (simp add: interest_def fun_eq_iff split: option.split)

lemma interest_indexes:
  "tr.indexes (ps_sock_tree p) f \<Longrightarrow>
    interest p k = (case f k of None \<Rightarrow> None | Some a \<Rightarrow> map_option (\<lambda>so. (so_user_events so, so_user_data so)) (ps_socks p a))"
  by (simp add: interest_def tr.find_indexes)

lemma interest_iff:
  assumes "port_rep p X U D G"
  shows "interest p k = Some v \<longleftrightarrow> (\<exists>a so. ps_socks p a = Some so \<and> \<not> so_delete_pending so \<and> node_keys (ps_sock_tree p) a = Some k \<and>
    v = (so_user_events so, so_user_data so))"
proof -
  obtain f where f: "tr.indexes (ps_sock_tree p) f" "ran f = live_socks (ps_socks p)" using assms by (auto simp: port_rep_def index_ok_def)
  have e: "(f k = Some a \<and> ps_socks p a = Some so) \<longleftrightarrow>
      (ps_socks p a = Some so \<and> \<not> so_delete_pending so \<and> node_keys (ps_sock_tree p) a = Some k)" for a so
    unfolding indexes_keys [OF f(1)] f(2) live_socks_def by auto
  have "interest p k = Some v \<longleftrightarrow> (\<exists>a so. (f k = Some a \<and> ps_socks p a = Some so) \<and> v = (so_user_events so, so_user_data so))"
    by (auto simp: interest_indexes [OF f(1)] split: option.splits)
  then show ?thesis unfolding e by (simp only: conj_assoc)
qed

lemma interest_shrinks:
  assumes "port_rep p X U D G" "port_rep p' X' U' D' G'" "kept p p'" "asked p p'"
  shows "interest p' \<subseteq>\<^sub>m interest p"
proof -
  have "interest p k = Some v" if v: "interest p' k = Some v" for k v
  proof -
    obtain a so' where a: "ps_socks p' a = Some so'" "\<not> so_delete_pending so'" "node_keys (ps_sock_tree p') a = Some k"
        "v = (so_user_events so', so_user_data so')" using iffD1 [OF interest_iff [OF assms(2)] v] by blast
    obtain so where "ps_socks p a = Some so" "so_user_events so' = so_user_events so" "so_user_data so' = so_user_data so" "\<not> so_delete_pending so"
      using assms(4) a(1,2) unfolding asked_def by blast
    moreover have "node_keys (ps_sock_tree p) a = Some k" using assms(3) a(1,3) unfolding kept_def by (metis domI)
    ultimately show ?thesis using a(4) by (intro iffD2 [OF interest_iff [OF assms(1)]] exI [of _ a] exI [of _ so]) simp
  qed
  then show ?thesis by (auto simp: map_le_def)
qed

text \<open>What control means on the abstract state; \<open>None\<close> is an error.\<close>

definition ctl_spec :: "int \<Rightarrow> nat \<Rightarrow> epoll_event_t \<Rightarrow> (nat \<rightharpoonup> 32 word \<times> nat) \<Rightarrow> (nat \<rightharpoonup> 32 word \<times> nat) option" where
  "ctl_spec op sock ev I =
     (let v = (ee_events ev OR EPOLLERR OR EPOLLHUP, ee_data ev)
      in if op = EPOLL_CTL_ADD_win then (if sock \<in> dom I then None else Some (I(sock \<mapsto> v)))
         else if op = EPOLL_CTL_MOD_win then (if sock \<in> dom I then Some (I(sock \<mapsto> v)) else None)
         else if op = EPOLL_CTL_DEL_win then (if sock \<in> dom I then Some (I(sock := None)) else None)
         else None)"

text \<open>The base sockets of the registered sockets.\<close>

definition bases :: "'w port \<Rightarrow> nat \<rightharpoonup> nat" where
  "bases p k = (case tree_find (ps_sock_tree p) k of Some (Some a) \<Rightarrow> map_option so_base_socket (ps_socks p a) | _ \<Rightarrow> None)"

lemma bases_indexes:
  "tr.indexes (ps_sock_tree p) f \<Longrightarrow> bases p k = (case f k of None \<Rightarrow> None | Some a \<Rightarrow> map_option so_base_socket (ps_socks p a))"
  by (simp add: bases_def tr.find_indexes)

lemma bases_frame [simp]: "bases (p\<lparr>ps_world := w\<rparr>) = bases p" "bases (p\<lparr>ps_last_error := e\<rparr>) = bases p"
  by (simp_all add: bases_def fun_eq_iff split: option.split)

definition all_gone :: "'w port_env \<Rightarrow> (nat \<rightharpoonup> nat) \<Rightarrow> nat set \<Rightarrow> bool" where
  "all_gone env B K \<longleftrightarrow> (\<forall>k\<in>K. \<exists>b. reported_gone env b \<and> B k = Some b)"

text \<open>
  When threads wait on the port, control submits polls at once, and then the user's requests \<open>I\<close>
  may lose sockets: those, and only those, that the driver can report gone.  The base socket
  of a socket that is only just being added is the one the provider names.
\<close>

definition up_to_gone :: "'w port_env \<Rightarrow> 'w port \<Rightarrow> nat \<Rightarrow> (nat \<rightharpoonup> 32 word \<times> nat) \<Rightarrow> (nat \<rightharpoonup> 32 word \<times> nat) \<Rightarrow> bool" where
  "up_to_gone env p sock I J \<longleftrightarrow> J \<subseteq>\<^sub>m I \<and> (ps_active_poll_count p = 0 \<longrightarrow> J = I) \<and>
     (\<forall>k \<in> dom I - dom J. \<exists>b. reported_gone env b \<and>
        (bases p k = Some b \<or> k = sock \<and> (\<exists>err w. ws_get_base_socket env sock (ps_world p) = Some (b, err, w))))"

lemma up_to_goneI:
  assumes "J \<subseteq>\<^sub>m I" "ps_active_poll_count p = 0 \<longrightarrow> J = I" "all_gone env B (dom I - dom J)"
    and "\<And>k b. B k = Some b \<Longrightarrow> bases p k = Some b \<or> k = sock \<and> (\<exists>err w. ws_get_base_socket env sock (ps_world p) = Some (b, err, w))"
  shows "up_to_gone env p sock I J"
  using assms unfolding up_to_gone_def all_gone_def by meson

lemma up_to_gone_refl [simp]: "up_to_gone env p sock I I"
  by (simp add: up_to_gone_def)

lemma up_to_gone_idle: "up_to_gone env p sock I J \<Longrightarrow> ps_active_poll_count p = 0 \<Longrightarrow> J = I"
  by (simp add: up_to_gone_def)

lemma interest_stays:
  assumes rep: "port_rep p X U D G" "port_rep p' X' U' D' G'" and st: "kept p p'" "socks_stay env (ps_socks p) (ps_socks p')"
    and k: "k \<in> dom (interest p) - dom (interest p')"
  shows "\<exists>b. reported_gone env b \<and> bases p k = Some b"
proof -
  obtain a so where a: "ps_socks p a = Some so" "\<not> so_delete_pending so" "node_keys (ps_sock_tree p) a = Some k"
    using k iffD1 [OF interest_iff [OF rep(1)]] by blast
  obtain f where f: "tr.indexes (ps_sock_tree p) f" "ran f = live_socks (ps_socks p)" using rep(1) by (auto simp: port_rep_def index_ok_def)
  have "a \<in> ran f" using f(2) a(1,2) by (auto simp: live_socks_def)
  then have "f k = Some a" using indexes_keys [OF f(1)] a(3) by blast
  then have b: "bases p k = Some (so_base_socket so)" using a(1) by (simp add: bases_indexes [OF f(1)])
  consider "reported_gone env (so_base_socket so)" | so' where "ps_socks p' a = Some so'" "\<not> so_delete_pending so'"
    using st(2) a(1,2) unfolding socks_stay_def by metis
  then show ?thesis
  proof cases
    case (2 so')
    then have "node_keys (ps_sock_tree p') a = Some k" using st(1) a(3) unfolding kept_def by (metis domI)
    then have "interest p' k = Some (so_user_events so', so_user_data so')" using iffD2 [OF interest_iff [OF rep(2)]] 2 by blast
    then show ?thesis using k by blast
  qed (use b in blast)
qed

lemma if_polling_ok:
  assumes "port_rep p {} U D G"
  shows "\<exists>p' U' D' G'. port_update_events_if_polling env p = Some p' \<and> port_rep p' {} U' D' G' \<and> interest p' \<subseteq>\<^sub>m interest p \<and>
    (ps_active_poll_count p = 0 \<longrightarrow> p' = p) \<and> all_gone env (bases p) (dom (interest p) - dom (interest p'))"
proof (cases "ps_active_poll_count p > 0")
  case True
  obtain r p' U' D' G' where u: "port_update_events env p = Some (r, p')" "port_rep p' {} U' D' G'"
      "socks_stay env (ps_socks p) (ps_socks p')" using update_events_rep [OF assms, of env] by blast
  then have e: "port_update_events_if_polling env p = Some p'" using True by (simp add: port_update_events_if_polling_def)
  have "kept p p'" "asked p p'" using postD [OF kp.if_polling_R e] postD [OF ak.if_polling_R e] .
  moreover have "all_gone env (bases p) (dom (interest p) - dom (interest p'))"
    using interest_stays [OF assms u(2) \<open>kept p p'\<close> u(3)] by (simp add: all_gone_def)
  ultimately show ?thesis using e u(2) True interest_shrinks [OF assms u(2)] by auto
next
  case False
  then show ?thesis using assms by (auto simp: port_update_events_if_polling_def all_gone_def)
qed

lemma request_frame:
  "post (\<lambda>q. ps_sock_tree q = ps_sock_tree p \<and> ps_iocp_handle q = ps_iocp_handle p \<and> ps_active_poll_count q = ps_active_poll_count p)
    (port_request_socket_update a p)"
  by (auto simp: port_request_socket_update_def upd_nodes_def intro!: post_read post_if)

lemma set_event_post:
  "post (\<lambda>(r, q). ps_sock_tree q = ps_sock_tree p \<and> ps_iocp_handle q = ps_iocp_handle p \<and> ps_active_poll_count q = ps_active_poll_count p)
    (sock_set_event a ev p)"
  unfolding sock_set_event_def Let_def
  apply (rule post_upd_sock, rule post_read, rule post_bind [of "\<lambda>q. ps_sock_tree q = ps_sock_tree p \<and>
      ps_iocp_handle q = ps_iocp_handle p \<and> ps_active_poll_count q = ps_active_poll_count p"])
   apply (rule post_if)
    apply (rule post_mono [OF request_frame])
    apply simp_all
  done

lemma set_event_frame:
  "sock_set_event a ev p = Some (r, p') \<Longrightarrow> ps_sock_tree p' = ps_sock_tree p \<and> ps_iocp_handle p' = ps_iocp_handle p \<and>
    ps_active_poll_count p' = ps_active_poll_count p"
  using postD [OF set_event_post] by blast

text \<open>\<open>sock_set_event\<close> on a registered socket, and what follows it.\<close>

lemma set_and_update:
  assumes rep: "port_rep p {} U D G" and f: "tr.indexes (ps_sock_tree p) f" "f k = Some a"
  shows "\<exists>q p'. sock_set_event a ev p = Some (0, q) \<and> port_update_events_if_polling env q = Some p' \<and> port_inv p' \<and> (let I = (interest p)(k \<mapsto> (ee_events ev OR EPOLLERR OR EPOLLHUP, ee_data ev)) in
      interest p' \<subseteq>\<^sub>m I \<and> (ps_active_poll_count p = 0 \<longrightarrow> interest p' = I) \<and>
      all_gone env (bases p) (dom I - dom (interest p')))"
proof -
  have "a \<in> live_socks (ps_socks p)"
  proof -
    obtain f' where f': "tr.indexes (ps_sock_tree p) f'" "ran f' = live_socks (ps_socks p)" using rep by (auto simp: port_rep_def index_ok_def)
    have "f' = f" using tr.find_indexes [OF f(1)] tr.find_indexes [OF f'(1)] by (auto simp: fun_eq_iff)
    then show ?thesis using f'(2) f(2) by (auto simp: ran_def)
  qed
  then obtain so where so: "ps_socks p a = Some so" "\<not> so_delete_pending so" by (auto simp: live_socks_def)
  obtain p1 U1 where p1: "sock_set_event a ev p = Some (0, p1)" "port_rep p1 {} U1 D G"
      "ps_socks p1 = (ps_socks p)(a \<mapsto> so\<lparr>so_user_events := ee_events ev OR EPOLLERR OR EPOLLHUP, so_user_data := ee_data ev\<rparr>)"
    using set_event_rep [OF rep so, of ev] by blast
  have fr: "ps_sock_tree p1 = ps_sock_tree p" "ps_active_poll_count p1 = ps_active_poll_count p" using set_event_frame [OF p1(1)] by simp_all
  have i1: "interest p1 = (interest p)(k \<mapsto> (ee_events ev OR EPOLLERR OR EPOLLHUP, ee_data ev))"
  proof
    fix l
    have f1: "tr.indexes (ps_sock_tree p1) f" using f(1) fr(1) by simp
    show "interest p1 l = ((interest p)(k \<mapsto> (ee_events ev OR EPOLLERR OR EPOLLHUP, ee_data ev))) l"
    proof (cases "l = k")
      case False
      then have "f l \<noteq> Some a" using tr.indexes_inj [OF f, of l] by blast
      then show ?thesis using False by (simp add: interest_indexes [OF f(1)] interest_indexes [OF f1] p1(3) split: option.split)
    qed (simp add: interest_indexes [OF f1] f(2) p1(3))
  qed
  have b1: "bases p1 = bases p"
  proof
    fix l
    have f1: "tr.indexes (ps_sock_tree p1) f" using f(1) fr(1) by simp
    show "bases p1 l = bases p l" using so(1) by (simp add: bases_indexes [OF f(1)] bases_indexes [OF f1] p1(3) split: option.split)
  qed
  obtain p2 U2 D2 G2 where p2: "port_update_events_if_polling env p1 = Some p2" "port_rep p2 {} U2 D2 G2" "interest p2 \<subseteq>\<^sub>m interest p1"
      "ps_active_poll_count p1 = 0 \<longrightarrow> p2 = p1"
      "all_gone env (bases p1) (dom (interest p1) - dom (interest p2))"
    using if_polling_ok [OF p1(2), of env] by metis
  have "ps_active_poll_count p = 0 \<longrightarrow> interest p2 = interest p1" using p2(4) fr(2) by simp
  then show ?thesis
    using p1(1) p2(1,3,5) port_invI [OF p2(2)] unfolding i1 b1 Let_def by (intro exI [of _ p1] exI [of _ p2]) (intro conjI)
qed

lemma rep_index:
  assumes "port_rep p X U D G"
  obtains f where "tr.indexes (ps_sock_tree p) f" "ran f = live_socks (ps_socks p)" "dom (interest p) = dom f"
proof -
  obtain f where f: "tr.indexes (ps_sock_tree p) f" "ran f = live_socks (ps_socks p)" using assms by (auto simp: port_rep_def index_ok_def)
  have "k \<in> dom (interest p) \<longleftrightarrow> k \<in> dom f" for k
  proof (cases "f k")
    case (Some a)
    then have "a \<in> live_socks (ps_socks p)" using f(2) by (auto simp: ran_def)
    then show ?thesis using Some by (auto simp: domIff interest_indexes [OF f(1)] live_socks_def)
  qed (simp add: domIff interest_indexes [OF f(1)])
  then show ?thesis using that f by blast
qed

lemma ctl_mod_ok:
  assumes rep: "port_rep p {} U D G"
  shows "if sock \<in> dom (interest p)
    then \<exists>p'. port_ctl_mod env sock ev p = Some (0, p') \<and> port_inv p' \<and>
      (let I = (interest p)(sock \<mapsto> (ee_events ev OR EPOLLERR OR EPOLLHUP, ee_data ev)) in
        up_to_gone env p sock I (interest p'))
    else port_ctl_mod env sock ev p = Some (-1, p\<lparr>ps_last_error := ERROR_NOT_FOUND\<rparr>)"
proof -
  obtain f where f: "tr.indexes (ps_sock_tree p) f" "dom (interest p) = dom f" using rep_index [OF rep] by metis
  show ?thesis
  proof (cases "f sock")
    case None
    then show ?thesis using f(2) by (simp add: port_ctl_mod_def port_find_socket_def tr.find_indexes [OF f(1)] domIff)
  next
    case (Some a)
    then have "sock \<in> dom (interest p)" using f(2) by blast
    moreover have "port_find_socket sock p = Some (Some a, p)" using Some by (simp add: port_find_socket_def tr.find_indexes [OF f(1)])
    moreover obtain q p' where "sock_set_event a ev p = Some (0, q)" "port_update_events_if_polling env q = Some p'" "port_inv p'"
        "up_to_gone env p sock ((interest p)(sock \<mapsto> (ee_events ev OR EPOLLERR OR EPOLLHUP, ee_data ev))) (interest p')"
      using set_and_update [OF rep f(1) Some, of ev env] up_to_goneI [where B = "bases p" and p = p] unfolding Let_def by metis
    ultimately show ?thesis by (simp add: port_ctl_mod_def)
  qed
qed

lemma delete_interest:
  assumes rep: "port_rep p {} U D G" and so: "ps_socks p a = Some so" and k: "node_keys (ps_sock_tree p) a = Some k" "\<not> so_delete_pending so"
  shows "\<exists>p'. sock_delete env a p = Some p' \<and> port_inv p' \<and> interest p' = (interest p)(k := None)"
proof -
  obtain p' D' G' where p': "sock_delete_with env a False p = Some (0, p')" "port_rep p' {} (remove1 a U) D' G'"
    "if so_poll_status so = SOCK_POLL_IDLE then ps_socks p' = (ps_socks p)(a := None)
     else \<exists>so'. ps_socks p' = (ps_socks p)(a \<mapsto> so') \<and> so_delete_pending so' \<and> so_poll_status so' \<noteq> SOCK_POLL_IDLE"
    using sock_delete_rep [OF rep so, of env False] by auto
  have keys: "node_keys (ps_sock_tree p') b = node_keys (ps_sock_tree p) b" if "ps_socks p' b = Some x" for b x
    using postD [OF kp.delete_R p'(1)] that unfolding kept_def by auto
  have live: "(ps_socks p' b = Some x \<and> \<not> so_delete_pending x) \<longleftrightarrow> (b \<noteq> a \<and> ps_socks p b = Some x \<and> \<not> so_delete_pending x)" for b x
    using p'(3) by (auto split: if_splits)
  have inj: "b = a" if "ps_socks p b = Some x" "\<not> so_delete_pending x" "node_keys (ps_sock_tree p) b = Some k" for b x
  proof -
    obtain f where f: "tr.indexes (ps_sock_tree p) f" "ran f = live_socks (ps_socks p)" using rep_index [OF rep] by metis
    have "a \<in> ran f" "b \<in> ran f" using f(2) that so k(2) by (auto simp: live_socks_def)
    then have "f k = Some a" "f k = Some b" using indexes_keys [OF f(1)] k(1) that(3) by auto
    then show ?thesis by simp
  qed
  have "interest p' l = Some v \<longleftrightarrow> ((interest p)(k := None)) l = Some v" for l v
  proof (cases "l = k")
    case True
    then show ?thesis using inj keys live interest_iff [OF p'(2), of l v] by fastforce
  next
    case False
    then have "interest p' l = Some v \<longleftrightarrow> interest p l = Some v"
      unfolding interest_iff [OF p'(2)] interest_iff [OF rep] using keys live k(1) by (metis option.inject)
    then show ?thesis using False by simp
  qed
  then have "interest p' = (interest p)(k := None)" by (intro ext) (metis not_Some_eq)
  then show ?thesis using p'(1) port_invI [OF p'(2)] by (auto simp: sock_delete_def)
qed

lemma ctl_del_ok:
  assumes rep: "port_rep p {} U D G"
  shows "if sock \<in> dom (interest p)
    then \<exists>p'. port_ctl_del env sock p = Some (0, p') \<and> port_inv p' \<and> interest p' = (interest p)(sock := None)
    else port_ctl_del env sock p = Some (-1, p\<lparr>ps_last_error := ERROR_NOT_FOUND\<rparr>)"
proof -
  obtain f where f: "tr.indexes (ps_sock_tree p) f" "dom (interest p) = dom f" "ran f = live_socks (ps_socks p)" using rep_index [OF rep] by metis
  show ?thesis
  proof (cases "f sock")
    case None
    then show ?thesis using f(2) by (simp add: port_ctl_del_def port_find_socket_def tr.find_indexes [OF f(1)] domIff)
  next
    case (Some a)
    then have "sock \<in> dom (interest p)" using f(2) by blast
    moreover have key: "a \<in> ran f" "node_keys (ps_sock_tree p) a = Some sock" using indexes_keys [OF f(1), of sock a] Some by simp_all
    moreover obtain so where "ps_socks p a = Some so" "\<not> so_delete_pending so" using key(1) f(3) by (auto simp: live_socks_def)
    ultimately show ?thesis using delete_interest [OF rep, of a so sock env] Some
      by (auto simp: port_ctl_del_def port_find_socket_def tr.find_indexes [OF f(1)])
  qed
qed

text \<open>Making a socket changes neither the handle of the port nor the number of waiting threads.\<close>

definition same_port :: "'w port \<Rightarrow> 'w port \<Rightarrow> bool" where
  "same_port p q \<longleftrightarrow> ps_active_poll_count q = ps_active_poll_count p \<and> ps_iocp_handle q = ps_iocp_handle p"

lemma same_trans: "same_port p q \<Longrightarrow> same_port q r \<Longrightarrow> same_port p r"
  by (simp add: same_port_def)

lemma same_simps [simp]: "same_port p p" "same_port p (q\<lparr>ps_world := w\<rparr>) = same_port p q" "same_port p (q\<lparr>ps_last_error := e\<rparr>) = same_port p q"
  by (simp_all add: same_port_def)

interpretation sm: make_frame env same_port for env
  by unfold_locales (auto simp: same_port_def)

lemma ctl_add_ok:
  assumes rep: "port_rep p {} U D G" and h: "ps_iocp_handle p \<noteq> None \<or> port_ctl_add env sock ev p \<noteq> None" and ends: "chain_ends env rank"
  shows "\<exists>r p'. port_ctl_add env sock ev p = Some (r, p') \<and> port_inv p' \<and>
    (r = -1 \<and> interest p' = interest p \<and>
       (resources env \<longrightarrow> add_error env (dom (interest p)) sock (ps_world p) = Some (ps_last_error p')) \<or>
     r = 0 \<and> add_error env (dom (interest p)) sock (ps_world p) = None \<and> sock \<notin> dom (interest p) \<and>
      (let I = (interest p)(sock \<mapsto> (ee_events ev OR EPOLLERR OR EPOLLHUP, ee_data ev)) in
        up_to_gone env p sock I (interest p')))"
proof -
  obtain f where f: "tr.indexes (ps_sock_tree p) f" "dom (interest p) = dom f" "ran f = live_socks (ps_socks p)" using rep_index [OF rep] by metis
  have h1: "ps_iocp_handle p \<noteq> None \<or> sock_new env sock p \<noteq> None"
    using h by (cases "sock_new env sock p") (auto simp: port_ctl_add_def)
  obtain r p1 G1 where p1: "sock_new env sock p = Some (r, p1)" "port_rep p1 {} U D G1"
    "case r of None \<Rightarrow> ps_socks p1 = ps_socks p \<and> ps_sock_tree p1 = ps_sock_tree p \<and>
         (resources env \<longrightarrow> add_error env (dom f) sock (ps_world p) = Some (ps_last_error p1))
     | Some a \<Rightarrow> add_error env (dom f) sock (ps_world p) = None \<and> sock \<notin> dom f \<and> ps_socks p a = None \<and> tr.indexes (ps_sock_tree p1) (f(sock \<mapsto> a)) \<and>
         (\<exists>b g err w. ws_get_base_socket env sock (ps_world p) = Some (b, err, w) \<and>
            ps_socks p1 = (ps_socks p)(a \<mapsto> blank_sock\<lparr>so_base_socket := b, so_poll_group := g\<rparr>))"
    using sock_new_gen [OF rep h1 f(1) ends] by blast
  show ?thesis
  proof (cases r)
    case None
    then have "interest p1 = interest p" using p1(3) by (auto simp: interest_def fun_eq_iff split: option.splits)
    then show ?thesis using None p1(1,3) port_invI [OF p1(2)] f(2) by (auto simp: port_ctl_add_def)
  next
    case (Some a)
    then have "sock \<notin> dom f" "ps_socks p a = None" "tr.indexes (ps_sock_tree p1) (f(sock \<mapsto> a))"
      "\<exists>b g err w. ws_get_base_socket env sock (ps_world p) = Some (b, err, w) \<and>
        ps_socks p1 = (ps_socks p)(a \<mapsto> blank_sock\<lparr>so_base_socket := b, so_poll_group := g\<rparr>)" using p1(3) by simp_all
    then obtain b g err w where base: "ws_get_base_socket env sock (ps_world p) = Some (b, err, w)" and a: "sock \<notin> dom f" "ps_socks p a = None"
        "tr.indexes (ps_sock_tree p1) (f(sock \<mapsto> a))"
        "ps_socks p1 = (ps_socks p)(a \<mapsto> blank_sock\<lparr>so_base_socket := b, so_poll_group := g\<rparr>)" by blast
    have "f l \<noteq> Some a" for l using a(2) ranI [of f l a] f(3) by (auto simp: live_socks_def)
    then have i: "(interest p1)(sock \<mapsto> v) = (interest p)(sock \<mapsto> v)" for v
      by (auto simp: fun_eq_iff interest_indexes [OF f(1)] interest_indexes [OF a(3)] a(4) split: option.splits)
    have bs: "bases p1 l = (if l = sock then Some b else bases p l)" for l
      using a(1) \<open>\<And>l. f l \<noteq> Some a\<close> by (auto simp: bases_indexes [OF f(1)] bases_indexes [OF a(3)] a(4) split: option.splits)
    have "(f(sock \<mapsto> a)) sock = Some a" by (rule map_upd_Some_unfold [THEN iffD2]) simp
    from set_and_update [OF p1(2) a(3) this, of ev env] obtain q p' where q:
        "sock_set_event a ev p1 = Some (0, q)" "port_update_events_if_polling env q = Some p'" "port_inv p'"
        "let I = (interest p)(sock \<mapsto> (ee_events ev OR EPOLLERR OR EPOLLHUP, ee_data ev)) in
          interest p' \<subseteq>\<^sub>m I \<and> (ps_active_poll_count p1 = 0 \<longrightarrow> interest p' = I) \<and>
          all_gone env (bases p1) (dom I - dom (interest p'))" unfolding i by blast
    moreover have "ps_active_poll_count p1 = ps_active_poll_count p" using postD [OF sm.sock_new_S p1(1)] by (simp add: same_port_def)
    ultimately have "up_to_gone env p sock ((interest p)(sock \<mapsto> (ee_events ev OR EPOLLERR OR EPOLLHUP, ee_data ev))) (interest p')"
      using base unfolding Let_def by (intro up_to_goneI [where B = "bases p1"]) (auto simp: bs split: if_splits)
    then show ?thesis using q(1-3) p1(1,3) Some a(1) f(2)
      by (intro exI [of _ 0] exI [of _ p']) (simp add: port_ctl_add_def)
  qed
qed

lemma kept_same: "kept p q \<Longrightarrow> same_port p q"
  by (simp add: kept_def same_port_def)

lemma same_ctl_steps:
  "same_port z p \<Longrightarrow> (\<And>r q. same_port z q \<Longrightarrow> post Q (k (r, q))) \<Longrightarrow> post Q (sock_new env sock p \<bind> k)"
  "same_port z p \<Longrightarrow> (\<And>r q. same_port z q \<Longrightarrow> post Q (m (r, q))) \<Longrightarrow> post Q (sock_set_event a ev p \<bind> m)"
  "same_port z p \<Longrightarrow> (\<And>q. same_port z q \<Longrightarrow> post Q (h q)) \<Longrightarrow> post Q (sock_delete env a p \<bind> h)"
  "same_port z p \<Longrightarrow> (\<And>q. same_port z q \<Longrightarrow> post Q (h q)) \<Longrightarrow> post Q (port_update_events_if_polling env p \<bind> h)"
  "same_port z p \<Longrightarrow> (\<And>r q. same_port z q \<Longrightarrow> post Q (l (r, q))) \<Longrightarrow> post Q (port_find_socket sock p \<bind> l)"
proof -
  have f: "post (\<lambda>r. same_port p (snd r)) (port_find_socket sock p)"
    by (auto simp: port_find_socket_def intro!: post_read [of "tree_find _ _"] split: option.split)
  have e: "post (\<lambda>r. same_port p (snd r)) (sock_set_event a ev p)"
    by (rule postI) (auto simp: same_port_def dest: set_event_frame)
  have d: "post (same_port p) (sock_delete env a p)"
    using postD [OF kp.delete_R] by (fastforce simp: sock_delete_def bind_eq_Some_conv intro!: postI kept_same)
  have u: "post (same_port p) (port_update_events_if_polling env p)" using kp.if_polling_R by (rule post_mono) (rule kept_same)
  assume z: "same_port z p"
  then show "(\<And>r q. same_port z q \<Longrightarrow> post Q (k (r, q))) \<Longrightarrow> post Q (sock_new env sock p \<bind> k)"
    "(\<And>r q. same_port z q \<Longrightarrow> post Q (m (r, q))) \<Longrightarrow> post Q (sock_set_event a ev p \<bind> m)"
    "(\<And>q. same_port z q \<Longrightarrow> post Q (h q)) \<Longrightarrow> post Q (sock_delete env a p \<bind> h)"
    "(\<And>q. same_port z q \<Longrightarrow> post Q (h q)) \<Longrightarrow> post Q (port_update_events_if_polling env p \<bind> h)"
    "(\<And>r q. same_port z q \<Longrightarrow> post Q (l (r, q))) \<Longrightarrow> post Q (port_find_socket sock p \<bind> l)"
    by (auto intro!: post_bind [OF sm.sock_new_S] post_bind [OF e] post_bind [OF d] post_bind [OF u] post_bind [OF f] dest: same_trans)
qed

lemma same_ctl: "post (\<lambda>r. same_port p (snd r)) (port_ctl env op sock ev p)"
  unfolding port_ctl_def port_ctl_op_def port_ctl_add_def port_ctl_mod_def port_ctl_del_def
  by (rule same_ctl_steps [where z = p] post_rules | assumption | simp)+

text \<open>On a closed port the same holds of the calls that do not fail an assertion.\<close>

lemma ctl_refines:
  assumes "port_inv p" "ps_iocp_handle p \<noteq> None \<or> port_ctl env op sock ev p \<noteq> None" "chain_ends env rank"
  shows "\<exists>r p'. port_ctl env op sock ev p = Some (r, p') \<and> port_inv p' \<and> ps_iocp_handle p' = ps_iocp_handle p \<and>
    ps_active_poll_count p' = ps_active_poll_count p \<and>
    (r = 0 \<and> (\<exists>I. ctl_spec op sock ev (interest p) = Some I \<and> up_to_gone env p sock I (interest p')) \<and>
       (op = EPOLL_CTL_ADD_win \<longrightarrow> add_error env (dom (interest p)) sock (ps_world p) = None) \<or>
     r = -1 \<and> interest p' = interest p \<and>
       (op = EPOLL_CTL_ADD_win \<longrightarrow> resources env \<longrightarrow> add_error env (dom (interest p)) sock (ps_world p) = Some (ps_last_error p')) \<and>
       (op \<noteq> EPOLL_CTL_ADD_win \<longrightarrow> ctl_spec op sock ev (interest p) = None \<and>
       ps_last_error p' = (if op = EPOLL_CTL_MOD_win \<or> op = EPOLL_CTL_DEL_win then ERROR_NOT_FOUND else ERROR_INVALID_PARAMETER)))"
proof -
  obtain U D G where rep: "port_rep p {} U D G" using assms(1) by (auto simp: port_inv_def)
  have e: "port_inv (p\<lparr>ps_last_error := x\<rparr>)" for x
    using port_invI [of "p\<lparr>ps_last_error := x\<rparr>" U D G] rep by simp
  have main: "\<exists>r p'. port_ctl env op sock ev p = Some (r, p') \<and> port_inv p' \<and>
    (r = 0 \<and> (\<exists>I. ctl_spec op sock ev (interest p) = Some I \<and> up_to_gone env p sock I (interest p')) \<and>
       (op = EPOLL_CTL_ADD_win \<longrightarrow> add_error env (dom (interest p)) sock (ps_world p) = None) \<or>
     r = -1 \<and> interest p' = interest p \<and>
       (op = EPOLL_CTL_ADD_win \<longrightarrow> resources env \<longrightarrow> add_error env (dom (interest p)) sock (ps_world p) = Some (ps_last_error p')) \<and>
       (op \<noteq> EPOLL_CTL_ADD_win \<longrightarrow> ctl_spec op sock ev (interest p) = None \<and>
       ps_last_error p' = (if op = EPOLL_CTL_MOD_win \<or> op = EPOLL_CTL_DEL_win then ERROR_NOT_FOUND else ERROR_INVALID_PARAMETER)))"
  proof -
    consider (add) "op = EPOLL_CTL_ADD_win" | (mod) "op = EPOLL_CTL_MOD_win" | (del) "op = EPOLL_CTL_DEL_win"
      | (bad) "op \<notin> {EPOLL_CTL_ADD_win, EPOLL_CTL_MOD_win, EPOLL_CTL_DEL_win}" by blast
    then show ?thesis
    proof cases
      case add
      then have "ps_iocp_handle p \<noteq> None \<or> port_ctl_add env sock ev p \<noteq> None"
        using assms(2) by (simp add: port_ctl_def port_ctl_op_def)
      from ctl_add_ok [OF rep this assms(3)] show ?thesis using add
        by (auto simp: port_ctl_def port_ctl_op_def ctl_spec_def Let_def)
    next
      case mod
      then have "port_ctl env op sock ev p = port_ctl_mod env sock ev p" by (simp add: port_ctl_def port_ctl_op_def ctl_defs)
      then show ?thesis using ctl_mod_ok [OF rep, of sock env ev] e mod by (auto simp: ctl_spec_def Let_def ctl_defs split: if_splits)
    next
      case del
      then have "port_ctl env op sock ev p = port_ctl_del env sock p" by (simp add: port_ctl_def port_ctl_op_def ctl_defs)
      then show ?thesis using ctl_del_ok [OF rep, of sock env] e del by (auto simp: ctl_spec_def Let_def ctl_defs split: if_splits)
    next
      case bad
      then show ?thesis using e by (auto simp: port_ctl_def port_ctl_op_def ctl_spec_def)
    qed
  qed
  then obtain r p' where "port_ctl env op sock ev p = Some (r, p')" by blast
  then have "same_port p p'" using postD [OF same_ctl] by fastforce
  then show ?thesis using main assms(2) \<open>port_ctl env op sock ev p = Some (r, p')\<close> by (auto simp: same_port_def)
qed

text \<open>
  C10: Control of a port refines the update of a partial map from sockets to what
  the user asks for.  A call that succeeds updates the map as specified; when threads wait on
  the port it also submits polls, and then the map may lose sockets, but only those for whose
  base socket the driver answers a poll with \<open>ERROR_INVALID_HANDLE\<close> (\<open>up_to_gone\<close>).
  A call that fails leaves the map as it was.  Changing and deleting fail exactly when the
  socket is not registered, with \<open>ERROR_NOT_FOUND\<close>.  Adding succeeds only if \<open>add_error\<close> has
  nothing to object, and when there is memory and the helper handles can be opened it fails
  only with the error that \<open>add_error\<close> names: an invalid number, a number the socket provider
  does not know (\<open>WSAENOTSOCK\<close>), or a socket that is registered already.
  The state after the call is valid, whatever the call returned.
\<close>

theorem wepoll_ctl:
  assumes "port_inv p" "ps_iocp_handle p = Some h" "chain_ends env rank"
  shows "\<exists>r p'. port_ctl env op sock ev p = Some (r, p') \<and> port_inv p' \<and> ps_iocp_handle p' = Some h \<and>
    ps_active_poll_count p' = ps_active_poll_count p \<and>
    (r = 0 \<and> (\<exists>I. ctl_spec op sock ev (interest p) = Some I \<and> up_to_gone env p sock I (interest p')) \<and>
       (op = EPOLL_CTL_ADD_win \<longrightarrow> add_error env (dom (interest p)) sock (ps_world p) = None) \<or>
     r = -1 \<and> interest p' = interest p \<and>
       (op = EPOLL_CTL_ADD_win \<longrightarrow> resources env \<longrightarrow> add_error env (dom (interest p)) sock (ps_world p) = Some (ps_last_error p')) \<and>
       (op \<noteq> EPOLL_CTL_ADD_win \<longrightarrow> ctl_spec op sock ev (interest p) = None \<and>
       ps_last_error p' = (if op = EPOLL_CTL_MOD_win \<or> op = EPOLL_CTL_DEL_win then ERROR_NOT_FOUND else ERROR_INVALID_PARAMETER)))"
  using ctl_refines [OF assms(1) _ assms(3), of op sock ev] assms(2) by auto

lemma sample_chain: "chain_ends sample_driver (\<lambda>_. 0)"
  by (simp add: chain_ends_def sample_driver_def)

lemma sample_interest: "interest sample_port = [70 \<mapsto> (EPOLLIN OR EPOLLONESHOT, 9)]"
proof -
  have "tr.indexes (ps_sock_tree sample_port) [70 \<mapsto> 5]" using sample_tree_indexes by (simp add: sample_port_def)
  from interest_indexes [OF this] show ?thesis by (auto simp: fun_eq_iff sample_socks waiting_sock_def split: if_splits)
qed

theorem wepoll_ctl_witness:
  "\<exists>p'. port_ctl sample_driver EPOLL_CTL_DEL_win 70 \<lparr>ee_events = 0, ee_data = 0\<rparr> sample_port = Some (0, p') \<and> port_inv p' \<and>
    interest p' = Map.empty"
proof -
  have "ps_iocp_handle sample_port = Some 3" "ps_active_poll_count sample_port = 0" by (simp_all add: sample_port_def)
  then show ?thesis
    using wepoll_ctl [OF sample_port_inv _ sample_chain, of 3 EPOLL_CTL_DEL_win 70 "\<lparr>ee_events = 0, ee_data = 0\<rparr>"]
    by (auto simp: ctl_spec_def ctl_defs sample_interest dest: up_to_gone_idle)
qed

end
