(* ===== verification/Wepoll_Wait.thy ===== *)
theory Wepoll_Wait
  imports Wepoll_Ctl
begin

unbundle bit_operations_syntax

text \<open>
  Threads that wait on a port (src/src/wepoll.c lines 1216--1324).  \<open>port__poll\<close> gives up the
  lock while it is in the kernel, so that other threads can change the port between the
  dequeuing of completions and their treatment.  What is asked of the driver is that it
  holds exactly the polls that were submitted to it and not yet dequeued, each with the base
  socket and the events it was submitted with: \<open>out w\<close> maps the sockets (by their addresses) to these.
\<close>

subsection \<open>The polls that the driver holds\<close>

definition keeps_polls :: "('w \<Rightarrow> addr \<rightharpoonup> nat \<times> 32 word) \<Rightarrow> ('w \<Rightarrow> 'a \<times> 'w) \<Rightarrow> bool" where
  "keeps_polls out call \<longleftrightarrow> (\<forall>w. out (snd (call w)) = out w)"

definition driver_ok :: "'w port_env \<Rightarrow> ('w \<Rightarrow> addr \<rightharpoonup> nat \<times> 32 word) \<Rightarrow> bool" where
  "driver_ok env out \<longleftrightarrow>
     (\<forall>a st w. out (set_iosb_Status env a st w) = out w) \<and>
     (\<forall>h a s e w. out (snd (NtDeviceIoControlFile env h a s e w)) =
        (if fst (NtDeviceIoControlFile env h a s e w) \<in> {STATUS_SUCCESS, STATUS_PENDING} then (out w)(a \<mapsto> (s, e)) else out w)) \<and>
     (\<forall>h a. keeps_polls out (NtCancelIoFileEx env h a)) \<and>
     (\<forall>st. RtlNtStatusToDosError env st = ERROR_IO_PENDING \<longrightarrow> st = STATUS_PENDING) \<and>
     (\<forall>h n t w cs err w'. GetQueuedCompletionStatusEx env h n t w = (Some cs, err, w') \<longrightarrow>
        distinct (map fst cs) \<and> fst ` set cs \<subseteq> dom (out w) \<and> out w' = out w |` (- (fst ` set cs)) \<and> length cs \<le> n) \<and>
     (\<forall>h n t w err w'. GetQueuedCompletionStatusEx env h n t w = (None, err, w') \<longrightarrow> out w' = out w)"

text \<open>The other calls have nothing to do with polls.\<close>

definition system_ok :: "'w port_env \<Rightarrow> ('w \<Rightarrow> addr \<rightharpoonup> nat \<times> 32 word) \<Rightarrow> bool" where
  "system_ok env out \<longleftrightarrow> keeps_polls out (malloc_ok env) \<and> keeps_polls out (GetTickCount64 env) \<and>
     (\<forall>w. out (snd (snd (NtCreateFile env w))) = out w) \<and>
     (\<forall>h k w. out (snd (snd (CreateIoCompletionPort env h k w))) = out w) \<and>
     (\<forall>h w. out (snd (snd (SetFileCompletionNotificationModes env h w))) = out w) \<and>
     (\<forall>h w. out (snd (snd (CloseHandle env h w))) = out w) \<and> (\<forall>s c w. out (snd (snd (WSAIoctl env s c w))) = out w)"

definition busy :: "(addr \<rightharpoonup> sock_state_t) \<Rightarrow> addr set" where
  "busy h = {a. \<exists>so. h a = Some so \<and> so_poll_status so \<noteq> SOCK_POLL_IDLE}"

text \<open>
  The driver holds the polls of the busy sockets, up to those a thread has just dequeued.  It
  was given the base socket, and for a poll that is not being cancelled the driver's names
  of the events that the socket takes it to wait for.
\<close>

definition submitted :: "sock_state_t \<Rightarrow> nat \<times> 32 word \<Rightarrow> bool" where
  "submitted so v \<longleftrightarrow> fst v = so_base_socket so \<and>
     (so_poll_status so = SOCK_POLL_PENDING \<longrightarrow> snd v = epoll_events_to_afd_events (so_pending_events so))"

definition polls :: "('w \<Rightarrow> addr \<rightharpoonup> nat \<times> 32 word) \<Rightarrow> addr set \<Rightarrow> 'w port \<Rightarrow> bool" where
  "polls out X p \<longleftrightarrow> busy (ps_socks p) = dom (out (ps_world p)) \<union> X \<and> dom (out (ps_world p)) \<inter> X = {} \<and>
     (\<forall>a so v. ps_socks p a = Some so \<longrightarrow> out (ps_world p) a = Some v \<longrightarrow> submitted so v)"

definition same_polls :: "'w port_env \<Rightarrow> ('w \<Rightarrow> addr \<rightharpoonup> nat \<times> 32 word) \<Rightarrow> 'w port \<Rightarrow> 'w port \<Rightarrow> bool" where
  "same_polls env out p p' \<longleftrightarrow> (driver_ok env out \<longrightarrow> system_ok env out \<longrightarrow> (\<forall>X. polls out X p \<longrightarrow> polls out X p'))"

text \<open>What a busy socket looks like to the driver.\<close>

definition same_request :: "sock_state_t \<Rightarrow> sock_state_t \<Rightarrow> bool" where
  "same_request so so' \<longleftrightarrow> so_base_socket so' = so_base_socket so \<and>
     (so_poll_status so' = SOCK_POLL_PENDING \<longrightarrow> so_poll_status so = SOCK_POLL_PENDING \<and> so_pending_events so' = so_pending_events so)"

lemma same_pollsI:
  assumes "driver_ok env out \<Longrightarrow> system_ok env out \<Longrightarrow> busy (ps_socks p') = busy (ps_socks p) \<and> out (ps_world p') = out (ps_world p)"
    and "\<And>a so'. ps_socks p' a = Some so' \<Longrightarrow> so_poll_status so' \<noteq> SOCK_POLL_IDLE \<Longrightarrow> \<exists>so. ps_socks p a = Some so \<and> same_request so so'"
  shows "same_polls env out p p'"
  unfolding same_polls_def
proof (intro impI allI)
  fix X assume d: "driver_ok env out" "system_ok env out" and p: "polls out X p"
  have eq: "busy (ps_socks p') = busy (ps_socks p)" "out (ps_world p') = out (ps_world p)" using assms(1) [OF d] by simp_all
  have "submitted so' v" if h: "ps_socks p' a = Some so'" "out (ps_world p) a = Some v" for a so' v
  proof -
    have "a \<in> busy (ps_socks p')" using p h(2) eq(1) by (auto simp: polls_def)
    then have "so_poll_status so' \<noteq> SOCK_POLL_IDLE" using h(1) by (simp add: busy_def)
    then obtain so where "ps_socks p a = Some so" "same_request so so'" using assms(2) h(1) by blast
    moreover from this have "submitted so v" using p h(2) unfolding polls_def by blast
    ultimately show ?thesis by (simp add: submitted_def same_request_def)
  qed
  then show "polls out X p'" using p eq by (simp add: polls_def)
qed

lemma same_request_refl [simp]: "same_request so so"
  by (simp add: same_request_def)

lemma busy_upd: "busy (h(a \<mapsto> so)) = (if so_poll_status so = SOCK_POLL_IDLE then busy h - {a} else insert a (busy h))"
  by (auto simp: busy_def)

lemma busy_free: "busy (h(a := None)) = busy h - {a}"
  by (auto simp: busy_def)

lemma in_busy: "h a = Some so \<Longrightarrow> a \<in> busy h \<longleftrightarrow> so_poll_status so \<noteq> SOCK_POLL_IDLE"
  by (simp add: busy_def)

lemma cancel_call_polls:
  assumes "driver_ok env out" "afd_cancel_poll env h a w = (x, err, w')"
  shows "out w' = out w"
proof -
  obtain st w1 where n: "NtCancelIoFileEx env h a w = (st, w1)" by fastforce
  have "out w1 = out w" using assms(1) n unfolding driver_ok_def keeps_polls_def by (metis snd_conv)
  then show ?thesis using assms(2) n by (auto simp: afd_cancel_poll_def split: if_splits)
qed

lemma poll_call_polls:
  assumes "driver_ok env out" "afd_poll env h a s evs w = (x, err, w')"
  shows "out w' = (if x < 0 \<and> err \<noteq> ERROR_IO_PENDING then out w else (out w)(a \<mapsto> (s, evs)))"
proof -
  let ?w = "set_iosb_Status env a STATUS_PENDING w"
  obtain st w1 where n: "NtDeviceIoControlFile env h a s evs ?w = (st, w1)" by fastforce
  have o: "out ?w = out w" "out w1 = (if st \<in> {STATUS_SUCCESS, STATUS_PENDING} then (out ?w)(a \<mapsto> (s, evs)) else out ?w)"
    and r: "RtlNtStatusToDosError env st = ERROR_IO_PENDING \<Longrightarrow> st = STATUS_PENDING"
    using assms(1) n unfolding driver_ok_def by (metis fst_conv snd_conv)+
  show ?thesis using assms(2) n o r by (auto simp: afd_poll_def Let_def split: if_splits)
qed

interpretation pl: feed_frame env "same_polls env out" for env :: "'w port_env" and out
proof unfold_locales
  show "same_polls env out p r" if "same_polls env out p q" "same_polls env out q r" for p q r using that by (simp add: same_polls_def)
  show "same_polls env out p q" if "ps_socks p a = Some so" "so_poll_status so = SOCK_POLL_IDLE" "sock_free a p = Some q" for p q a so
    using that by (intro same_pollsI) (auto simp: sock_free_def busy_free in_busy split: if_splits)
  show "same_polls env out p (p\<lparr>ps_world := w\<rparr>)" if "afd_cancel_poll env h a (ps_world p) = (x, err, w)" for p h a x err w
    using cancel_call_polls [OF _ that] by (intro same_pollsI) auto
  show "same_polls env out p (p\<lparr>ps_world := w\<rparr>)"
    if "afd_poll env h a s evs (ps_world p) = (x, err, w)" "x < 0" "err \<noteq> ERROR_IO_PENDING" for p h a s evs x err w
    using poll_call_polls [OF _ that(1)] that(2,3) by (intro same_pollsI) auto
  show "same_polls env out p (p\<lparr>ps_world := w, ps_socks := (ps_socks p)(a \<mapsto> so\<lparr>so_poll_status := SOCK_POLL_PENDING, so_pending_events := so_user_events so\<rparr>)\<rparr>)"
    if "afd_poll env h a (so_base_socket so) (epoll_events_to_afd_events (so_user_events so)) (ps_world p) = (x, err, w)"
      "\<not> x < 0 \<or> err = ERROR_IO_PENDING" "ps_socks p a = Some so" "so_poll_status so = SOCK_POLL_IDLE" for p h a x err w so
    unfolding same_polls_def
  proof (intro impI allI)
    fix X assume d: "driver_ok env out" and X: "polls out X p"
    have o: "out w = (out (ps_world p))(a \<mapsto> (so_base_socket so, epoll_events_to_afd_events (so_user_events so)))"
      using poll_call_polls [OF d that(1)] that(2) by auto
    have "a \<notin> busy (ps_socks p)" using in_busy [of "ps_socks p" a so] that(3,4) by simp
    then show "polls out X (p\<lparr>ps_world := w, ps_socks := (ps_socks p)(a \<mapsto> so\<lparr>so_poll_status := SOCK_POLL_PENDING, so_pending_events := so_user_events so\<rparr>)\<rparr>)"
      using X by (auto simp: polls_def busy_upd o submitted_def)
  qed
qed (auto intro!: same_pollsI simp: busy_upd in_busy same_request_def split: if_splits)

lemma polls_step:
  assumes "same_polls env out p q" "driver_ok env out" "system_ok env out" "polls out X p"
  shows "polls out X q"
  using assms by (simp add: same_polls_def)

text \<open>A completion that was dequeued ends the poll of its socket.\<close>

lemma polls_idled: "polls out (insert a X) p \<Longrightarrow> a \<notin> X \<Longrightarrow> polls out X (idled a p)"
proof -
  assume p: "polls out (insert a X) p" and a: "a \<notin> X"
  have "a \<in> busy (ps_socks p)" using p by (auto simp: polls_def)
  then obtain so where "ps_socks p a = Some so" by (auto simp: busy_def)
  then show ?thesis using p a by (auto simp: polls_def idled_def busy_upd)
qed

lemma feed_events_ok:
  assumes "port_inv p" "polls out (fst ` set cs \<union> X) p" "distinct (map fst cs)" "fst ` set cs \<inter> X = {}"
    and d: "driver_ok env out" "system_ok env out"
  shows "\<exists>evs p'. port_feed_events env cs p = Some (evs, p') \<and> port_inv p' \<and> polls out X p' \<and> length evs \<le> length cs"
  using assms(1-4)
proof (induction cs arbitrary: p)
  case (Cons x cs)
  obtain a io where x: "x = (a, io)" by fastforce
  obtain U D G where rep: "port_rep p {} U D G" using Cons.prems(1) by (auto simp: port_inv_def)
  have "a \<in> busy (ps_socks p)" using Cons.prems(2) x by (auto simp: polls_def)
  then obtain so where "ps_socks p a = Some so" by (auto simp: busy_def)
  then obtain r ev p1 U1 D1 G1 where p1: "sock_feed_event env a io p = Some (r, ev, p1)" "port_rep p1 {} U1 D1 G1"
    using feed_rep [OF rep, of a so env io] by blast
  have "polls out (fst ` set cs \<union> X) (idled a p)" by (rule polls_idled) (use Cons.prems x in auto)
  moreover have "same_polls env out (idled a p) p1" using postD [OF pl.feed_event_R p1(1)] by simp
  ultimately have "polls out (fst ` set cs \<union> X) p1" using polls_step d by blast
  moreover have "distinct (map fst cs)" "fst ` set cs \<inter> X = {}" using Cons.prems(3,4) by auto
  ultimately obtain evs p2 where p2: "port_feed_events env cs p1 = Some (evs, p2)" "port_inv p2" "polls out X p2" "length evs \<le> length cs"
    using Cons.IH [OF port_invI [OF p1(2)]] by blast
  then show ?case using p1(1) x by (auto split: option.split)
qed simp

subsection \<open>Control\<close>

lemma ws_polls:
  assumes "ws_get_base_socket env s w = Some r" "system_ok env out"
  shows "out (snd (snd r)) = out w"
proof (rule ws_get_base_socket.raw_induct [OF _ assms(1), where P = "\<lambda>x s w r. x = env \<longrightarrow> out (snd (snd r)) = out w", THEN mp], goal_cases)
  case (1 rec x s w r)
  have io: "out (snd (snd (WSAIoctl env s c w))) = out w" for s c w using assms(2) by (simp add: system_ok_def)
  have bsp: "ws_ioctl_get_bsp_socket env s c w = (b, e, w') \<Longrightarrow> out w' = out w" for s c w b e w'
    using io [of s c w] by (auto simp: ws_ioctl_get_bsp_socket_def split: prod.splits)
  obtain b e w1 where b: "ws_ioctl_get_bsp_socket env s SIO_BASE_HANDLE w = (b, e, w1)" by (metis prod_cases3)
  obtain c e2 w2 where c: "ws_ioctl_get_bsp_socket env s SIO_BSP_HANDLE_POLL w1 = (c, e2, w2)" by (metis prod_cases3)
  have o: "out w1 = out w" "out w2 = out w1" using bsp [OF b] bsp [OF c] .
  show ?case
  proof
    assume x: "x = env"
    show "out (snd (snd r)) = out w" using 1(2) 1(1) [of env c w2 r] b c o unfolding x by (cases r) (auto split: if_splits)
  qed
qed simp

lemma helper_polls:
  assumes "system_ok env out" "afd_create_helper_handle env h w = (r, err, hdl, w')"
  shows "out w' = out w"
proof -
  have k: "out (snd (snd (NtCreateFile env w))) = out w" "out (snd (snd (CreateIoCompletionPort env h k w))) = out w"
    "out (snd (snd (SetFileCompletionNotificationModes env h' w))) = out w" "out (snd (snd (CloseHandle env h' w))) = out w" for h h' k w
    using assms(1) by (simp_all add: system_ok_def)
  then have "NtCreateFile env w = (a, b, w1) \<Longrightarrow> out w1 = out w" "CreateIoCompletionPort env h' k w = (c, b, w1) \<Longrightarrow> out w1 = out w"
    "SetFileCompletionNotificationModes env h' w = (d, b, w1) \<Longrightarrow> out w1 = out w" "CloseHandle env h' w = (d, b, w1) \<Longrightarrow> out w1 = out w"
    for a b c d h' k w w1 by (metis snd_conv)+
  note call = this
  show ?thesis using assms(2) unfolding afd_create_helper_handle_def Let_def
    by (auto dest!: call split: prod.splits if_splits)
qed

definition same_world :: "'w port_env \<Rightarrow> ('w \<Rightarrow> addr \<rightharpoonup> nat \<times> 32 word) \<Rightarrow> 'w port \<Rightarrow> 'w port \<Rightarrow> bool" where
  "same_world env out p q \<longleftrightarrow> (system_ok env out \<longrightarrow> out (ps_world q) = out (ps_world p))"

interpretation wd: make_frame env "same_world env out" for env :: "'w port_env" and out
proof unfold_locales
  show "same_world env out p (p\<lparr>ps_world := w\<rparr>)" if "malloc_ok env (ps_world p) = (got, w)" for p got w
    using that by (auto simp: same_world_def system_ok_def keeps_polls_def) (metis snd_conv)+
  show "same_world env out p (p\<lparr>ps_world := w\<rparr>)" if "afd_create_helper_handle env h (ps_world p) = (x, err, y, w)" for p h x err y w
    using helper_polls [OF _ that] by (simp add: same_world_def)
  show "same_world env out p (p\<lparr>ps_world := w\<rparr>)" if "ws_get_base_socket env s (ps_world p) = Some (b, err, w)" for p s b err w
    using ws_polls [OF that] by (simp add: same_world_def)
qed (auto simp: same_world_def)

lemma set_event_polls: "post (\<lambda>r. same_polls env out p (snd r)) (sock_set_event a ev p)"
  unfolding sock_set_event_def Let_def
proof (rule post_upd_sock, rule post_read)
  fix so so'
  let ?q = "p\<lparr>ps_socks := (ps_socks p)(a \<mapsto> so\<lparr>so_user_events := ee_events ev OR EPOLLERR OR EPOLLHUP, so_user_data := ee_data ev\<rparr>)\<rparr>"
  assume "ps_socks p a = Some so"
  then have "same_polls env out p ?q" by (intro same_pollsI) (auto simp: busy_upd in_busy same_request_def split: if_splits)
  then show "post (\<lambda>r. same_polls env out p (snd r)) ((if (ee_events ev OR EPOLLERR OR EPOLLHUP) AND SOCK_KNOWN_EPOLL_EVENTS AND NOT (so_pending_events so') \<noteq> 0
        then port_request_socket_update a ?q else Some ?q) \<bind> (\<lambda>p. Some (0, p)))"
    by (intro pl.block [of env out p] post_if pl.end_with [OF pl.queue_R(1)]) auto
qed

lemma ctl_polls:
  assumes inv: "port_inv p" "ps_iocp_handle p = Some h" "chain_ends env rank" and d: "driver_ok env out" "system_ok env out"
    and p: "polls out X p" "port_ctl env op sock ev p = Some (r, p')"
  shows "polls out X p'"
proof -
  have set: "polls out X q1" if "sock_set_event a ev q = Some (x, q1)" "polls out X q" for q q1 a x
    using polls_step [OF _ d] postD [OF set_event_polls that(1)] that(2) by (metis snd_conv)
  have upd: "polls out X q'" if "port_update_events_if_polling env q = Some q'" "polls out X q" for q q'
    using polls_step [OF _ d] postD [OF pl.if_polling_R that(1)] that(2) by blast
  have new: "polls out X p1" if n: "sock_new env sock p = Some (x, p1)" for x p1
  proof -
    obtain U D G f where rep: "port_rep p {} U D G" and f: "tr.indexes (ps_sock_tree p) f" using inv(1) rep_index unfolding port_inv_def by metis
    consider (same) "ps_socks p1 = ps_socks p" | (added) a b g where "ps_socks p a = None"
        "ps_socks p1 = (ps_socks p)(a \<mapsto> blank_sock\<lparr>so_base_socket := b, so_poll_group := g\<rparr>)"
      using sock_new_ok [OF rep inv(2) f inv(3), of sock] n by (auto split: option.splits)
    then have b: "busy (ps_socks p1) = busy (ps_socks p)" "ps_socks p1 a = Some so' \<Longrightarrow> so_poll_status so' \<noteq> SOCK_POLL_IDLE \<Longrightarrow> ps_socks p a = Some so'" for a so'
      by (cases; auto simp: busy_def blank_sock_def split: if_splits)+
    have "out (ps_world p1) = out (ps_world p)" using postD [OF wd.sock_new_S n] d(2) by (auto simp: same_world_def)
    then have "same_polls env out p p1" using b by (intro same_pollsI) auto
    then show ?thesis using polls_step [OF _ d p(1)] by blast
  qed
  have del: "polls out X q'" if "sock_delete env a q = Some q'" "polls out X q" for q q' a
    using that polls_step [OF _ d] postD [OF pl.delete_R] by (fastforce simp: sock_delete_def bind_eq_Some_conv)
  have err: "polls out X (q\<lparr>ps_last_error := e\<rparr>) = polls out X q" for q e by (simp add: polls_def)
  have find: "polls out X q" if "port_find_socket sock p = Some (x, q)" for x q
    using that p(1) err by (auto simp: port_find_socket_def bind_eq_Some_conv split: option.splits)
  show ?thesis using p(2) p(1)
    by (auto simp: port_ctl_def port_ctl_op_def port_ctl_add_def port_ctl_mod_def port_ctl_del_def bind_eq_Some_conv err
        split: if_splits option.splits dest!: new find dest: set upd del)
qed

subsection \<open>An empty update queue\<close>

text \<open>
  A driver that does not fail: it accepts every poll of a socket that exists and every
  cancellation.  Then the loop that submits the polls leaves no socket behind.
\<close>

definition healthy :: "'w port_env \<Rightarrow> bool" where
  "healthy env \<longleftrightarrow>
     (\<forall>h a s e w. fst (afd_poll env h a s e w) < 0 \<longrightarrow> fst (snd (afd_poll env h a s e w)) \<in> {ERROR_IO_PENDING, ERROR_INVALID_HANDLE}) \<and>
     (\<forall>h a w. 0 \<le> fst (afd_cancel_poll env h a w))"

definition flushed :: "'w port \<Rightarrow> bool" where
  "flushed p \<longleftrightarrow> queue_is_empty (ps_nodes p) (ps_update_queue p) = Some True"

lemma flushed_rep: "port_rep p X U D G \<Longrightarrow> flushed p \<longleftrightarrow> U = []"
  using queue_is_empty_iff [of "ps_nodes p" "ps_update_queue p" U] by (auto simp: flushed_def port_rep_def qrep_def)

lemma delete_zero: "post (\<lambda>r. fst r = 0) (sock_delete_with env a force p)"
  unfolding sock_delete_with_def by (rule post_rules post_read | simp)+

lemma cancel_zero: "healthy env \<Longrightarrow> post (\<lambda>r. fst r = 0) (sock_cancel_poll env a p)"
proof -
  assume h: "healthy env"
  have c: "0 \<le> x" if "afd_cancel_poll env hh a w = (x, err, w')" for hh w x err w'
    using h that unfolding healthy_def by (metis fst_conv)
  show ?thesis unfolding sock_cancel_poll_def Let_def
    by (rule post_rules post_read post_None | drule c, simp | simp)+
qed

lemma update_zero: "healthy env \<Longrightarrow> post (\<lambda>r. fst r = 0) (sock_update env a p)"
proof -
  assume h: "healthy env"
  have c: "x < 0 \<Longrightarrow> err = ERROR_IO_PENDING \<or> err = ERROR_INVALID_HANDLE" if "afd_poll env hh a s evs w = (x, err, w')" for hh s evs w x err w'
    using h that unfolding healthy_def by (metis fst_conv snd_conv insertE singletonD)
  have d: "post (\<lambda>r. fst r = 0) (sock_cancel_poll env a p \<bind> (\<lambda>(r, p). if r < 0 then Some (-1, p) else port_cancel_socket_update a p \<bind> (\<lambda>p. Some (0, p))))"
    by (rule post_bind [OF cancel_zero [OF h]]) (auto intro!: post_read)
  show ?thesis unfolding sock_update_def Let_def
    by (rule d delete_zero post_status post_rules post_read post_None | drule c, simp | simp)+
qed

lemma update_events_flush: "post (\<lambda>r. (fst r = 0 \<longrightarrow> flushed (snd r)) \<and> (healthy env \<longrightarrow> fst r = 0)) (port_update_events env p)"
proof (rule postI)
  fix r assume r: "port_update_events env p = Some r"
  show "(fst r = 0 \<longrightarrow> flushed (snd r)) \<and> (healthy env \<longrightarrow> fst r = 0)"
  proof (rule port_update_events.raw_induct [OF _ r,
      where P = "\<lambda>x p r. x = env \<longrightarrow> (fst r = 0 \<longrightarrow> flushed (snd r)) \<and> (healthy env \<longrightarrow> fst r = 0)", THEN mp], goal_cases)
    case (1 rec x p r)
    have IH: "post (\<lambda>r. (fst r = 0 \<longrightarrow> flushed (snd r)) \<and> (healthy env \<longrightarrow> fst r = 0)) (rec env q)" for q
      using 1(1) by (auto intro!: postI)
    have z: "post (\<lambda>r. healthy env \<longrightarrow> fst r = 0) (sock_update env a q)" for a q
      using update_zero [of env a q] by (cases "healthy env") (simp_all add: post_def)
    show ?case
    proof
      assume x: "x = env"
      show "(fst r = 0 \<longrightarrow> flushed (snd r)) \<and> (healthy env \<longrightarrow> fst r = 0)"
        by (rule postD [OF _ 1(2)], unfold x)
          (rule IH post_bind [OF z] post_if post_prod post_read | simp add: flushed_def)+
    qed
  qed simp
qed

lemma if_polling_flush: "post (\<lambda>q. healthy env \<longrightarrow> ps_active_poll_count p > 0 \<longrightarrow> flushed q) (port_update_events_if_polling env p)"
  unfolding port_update_events_if_polling_def
  by (rule post_if, rule post_bind [OF update_events_flush]) (auto split: prod.split)

lemma ctl_flush:
  assumes inv: "port_inv p" "ps_iocp_handle p = Some h" "chain_ends env rank" and f: "flushed p" "healthy env" "ps_active_poll_count p > 0"
    and p: "port_ctl env op sock ev p = Some (r, p')"
  shows "flushed p'"
proof -
  obtain D G where rep: "port_rep p {} [] D G" using inv(1) f(1) flushed_rep unfolding port_inv_def by metis
  have err: "flushed (q\<lparr>ps_last_error := e\<rparr>) = flushed q" for q :: "'a port" and e by (simp add: flushed_def)
  have act: "ps_active_poll_count q = ps_active_poll_count p"
    if "sock_set_event a ev q0 = Some (x, q)" "ps_active_poll_count q0 = ps_active_poll_count p" for a x q q0
    using set_event_frame [OF that(1)] that(2) by simp
  have upd: "flushed q'" if "port_update_events_if_polling env q = Some q'" "ps_active_poll_count q = ps_active_poll_count p" for q q'
    using postD [OF if_polling_flush that(1)] f(2,3) that(2) by simp
  have new: "ps_active_poll_count p1 = ps_active_poll_count p \<and> (x = None \<longrightarrow> flushed p1)" if n: "sock_new env sock p = Some (x, p1)" for x p1
  proof -
    obtain f where "tr.indexes (ps_sock_tree p) f" using rep_index [OF rep] by metis
    then obtain G' where r1: "port_rep p1 {} [] D G'" using sock_new_ok [OF rep inv(2) _ inv(3), of f sock] n by auto
    show ?thesis using flushed_rep [OF r1] postD [OF sm.sock_new_S n] by (simp add: same_port_def)
  qed
  have gone: "flushed q" if d: "sock_delete env a p = Some q" and a: "a \<in> dom (ps_socks p)" for a q
  proof -
    obtain so where so: "ps_socks p a = Some so" using a by blast
    obtain q' D' G' where q': "sock_delete_with env a False p = Some (0, q')" "port_rep q' {} (remove1 a []) D' G'"
      using sock_delete_rep [OF rep so, of env False] by auto
    then show ?thesis using d flushed_rep [OF q'(2)] by (simp add: sock_delete_def)
  qed
  have find: "(x = None \<longrightarrow> flushed q) \<and> ps_active_poll_count q = ps_active_poll_count p \<and> (\<forall>a. x = Some a \<longrightarrow> q = p \<and> a \<in> dom (ps_socks p))"
    if "port_find_socket sock p = Some (x, q)" for x q
  proof -
    obtain f' where f': "tr.indexes (ps_sock_tree p) f'" "ran f' = live_socks (ps_socks p)" using rep_index [OF rep] by metis
    have "a \<in> dom (ps_socks p)" if "f' sock = Some a" for a using that f'(2) ranI [of f' sock a] by (auto simp: live_socks_def)
    then show ?thesis using that f(1) err by (auto simp: port_find_socket_def tr.find_indexes [OF f'(1)] split: option.splits)
  qed
  have z: "x = 0" if "sock_set_event a ev q0 = Some (x, q)" for a x q q0
    using that by (auto simp: sock_set_event_def bind_eq_Some_conv Let_def)
  consider (add) "port_ctl_add env sock ev p = Some (r, p')" | (mod) "port_ctl_mod env sock ev p = Some (r, p')"
    | (del) "port_ctl_del env sock p = Some (r, p')" | (bad) "p' = p\<lparr>ps_last_error := ERROR_INVALID_PARAMETER\<rparr>"
    using p by (auto simp: port_ctl_def port_ctl_op_def split: if_splits)
  then show ?thesis
  proof cases
    case add
    then show ?thesis by (auto simp: port_ctl_add_def bind_eq_Some_conv split: option.splits if_splits dest!: new dest: z act upd)
  next
    case mod
    then show ?thesis by (auto simp: port_ctl_mod_def bind_eq_Some_conv split: option.splits if_splits dest!: find dest: z act upd)
  next
    case del
    then show ?thesis by (auto simp: port_ctl_del_def bind_eq_Some_conv split: option.splits dest!: find dest: gone [OF _ domI])
  qed (simp add: err f(1))
qed

subsection \<open>The pieces of \<open>port__poll\<close>\<close>

text \<open>Everything a critical section of the port keeps, up to its own count of waiting threads.\<close>

definition port_good :: "'w port_env \<Rightarrow> ('w \<Rightarrow> addr \<rightharpoonup> nat \<times> 32 word) \<Rightarrow> addr set \<Rightarrow> 'w port \<Rightarrow> bool" where
  "port_good env out X p \<longleftrightarrow> port_inv p \<and> ps_iocp_handle p \<noteq> None \<and> polls out X p \<and> driver_ok env out \<and> system_ok env out \<and>
     (healthy env \<longrightarrow> ps_active_poll_count p > 0 \<longrightarrow> flushed p)"

lemma kept_counts: "kept p q \<Longrightarrow> ps_active_poll_count q = ps_active_poll_count p \<and> ps_iocp_handle q = ps_iocp_handle p"
  by (simp add: kept_def)

lemma if_polling_good:
  assumes "port_inv p" "ps_iocp_handle p \<noteq> None" "polls out X p" and d: "driver_ok env out" "system_ok env out"
  shows "\<exists>q. port_update_events_if_polling env p = Some q \<and> port_good env out X q \<and> ps_active_poll_count q = ps_active_poll_count p"
proof -
  obtain U D G where rep: "port_rep p {} U D G" using assms(1) by (auto simp: port_inv_def)
  obtain q U' D' G' where q: "port_update_events_if_polling env p = Some q" "port_rep q {} U' D' G'"
    using if_polling_ok [OF rep, of env] by blast
  have "polls out X q" using polls_step [OF postD [OF pl.if_polling_R q(1)] d assms(3)] .
  then show ?thesis
    using q kept_counts [OF postD [OF kp.if_polling_R q(1)]] postD [OF if_polling_flush q(1)] port_invI [OF q(2)] assms(2) d
    by (simp add: port_good_def)
qed

lemma enter_good:
  assumes g: "port_inv p" "ps_iocp_handle p \<noteq> None" "polls out X p" and d: "driver_ok env out" "system_ok env out"
  shows "\<exists>r q. port_poll_enter env p = Some (r, q) \<and> port_inv q \<and> ps_iocp_handle q \<noteq> None \<and> polls out X q \<and>
    (r = -1 \<and> ps_active_poll_count q = ps_active_poll_count p \<or>
     r = 0 \<and> ps_active_poll_count q = ps_active_poll_count p + 1 \<and> port_good env out X q)"
proof -
  obtain U D G where rep: "port_rep p {} U D G" using g(1) by (auto simp: port_inv_def)
  obtain r q U' D' G' where q: "port_update_events env p = Some (r, q)" "r = 0 \<or> r = -1" "port_rep q {} U' D' G'"
    using update_events_rep [OF rep, of env] by blast
  have p: "polls out X q" using polls_step [OF _ d g(3)] postD [OF pl.update_events_R q(1)] by simp
  have k: "ps_active_poll_count q = ps_active_poll_count p" "ps_iocp_handle q = ps_iocp_handle p"
    using kept_counts [of p q] postD [OF kp.update_events_R q(1)] by simp_all
  let ?q = "q\<lparr>ps_active_poll_count := ps_active_poll_count q + 1\<rparr>"
  have "port_inv ?q" using port_invI [of ?q U' D' G'] q(3) by simp
  moreover have "polls out X ?q" "flushed ?q = flushed q" using p by (simp_all add: polls_def flushed_def)
  moreover have "r = 0 \<longrightarrow> flushed q" using postD [OF update_events_flush q(1)] by simp
  ultimately show ?thesis using q p k port_invI [OF q(3)] g(2) d by (auto simp: port_poll_enter_def port_good_def)
qed

lemma leave_good:
  assumes g: "port_inv p" "ps_iocp_handle p \<noteq> None" and d: "driver_ok env out" "system_ok env out"
    and X: "case fst res of None \<Rightarrow> polls out X p
      | Some cs \<Rightarrow> polls out (fst ` set cs \<union> X) p \<and> distinct (map fst cs) \<and> fst ` set cs \<inter> X = {} \<and> length cs \<le> n"
  shows "\<exists>r evs q. port_poll_leave env res p = Some (r, evs, q) \<and> port_inv q \<and> ps_iocp_handle q \<noteq> None \<and> polls out X q \<and>
    ps_active_poll_count q = ps_active_poll_count p - 1 \<and> length evs \<le> n \<and> (r = -1 \<and> evs = [] \<or> r = int (length evs))"
proof -
  let ?p = "p\<lparr>ps_active_poll_count := ps_active_poll_count p - 1\<rparr>"
  have inv: "port_inv ?p" using g(1) by (auto simp: port_inv_def)
  have eq: "polls out Y ?p = polls out Y p" for Y by (simp add: polls_def)
  obtain ocs err where res: "res = (ocs, err)" by fastforce
  show ?thesis
  proof (cases ocs)
    case None
    then show ?thesis using X g(2) inv res by (auto simp: port_poll_leave_def Let_def polls_def port_inv_def)
  next
    case (Some cs)
    then have "polls out (fst ` set cs \<union> X) ?p" "distinct (map fst cs)" "fst ` set cs \<inter> X = {}" "length cs \<le> n" using X res eq by simp_all
    from feed_events_ok [OF inv this(1-3) d] obtain evs q where
      q: "port_feed_events env cs ?p = Some (evs, q)" "port_inv q" "polls out X q" "length evs \<le> length cs" by blast
    have "ps_active_poll_count q = ps_active_poll_count p - 1" "ps_iocp_handle q = ps_iocp_handle p"
      using kept_counts [of ?p q] postD [OF kp.feed_events_R q(1)] by simp_all
    then show ?thesis using q g(2) res Some \<open>length cs \<le> n\<close> by (simp add: port_poll_leave_def Let_def)
  qed
qed

lemma polls_removed:
  assumes "polls out X p" "A \<subseteq> dom (out (ps_world p))" "out w = out (ps_world p) |` (- A)"
  shows "polls out (A \<union> X) (p\<lparr>ps_world := w\<rparr>)"
proof -
  have "dom (out w) = dom (out (ps_world p)) - A" using assms(3) by auto
  then have "busy (ps_socks p) = dom (out w) \<union> (A \<union> X)" "dom (out w) \<inter> (A \<union> X) = {}" using assms(1,2) by (auto simp: polls_def)
  moreover have "out (ps_world p) a = Some v" if "out w a = Some v" for a v using that assms(3) by (simp add: restrict_map_def split: if_splits)
  ultimately show ?thesis using assms(1) by (simp add: polls_def)
qed

lemma dequeue_good:
  assumes "port_good env out X p" "port_poll_dequeue env n t p = (res, q)"
  shows "q = p\<lparr>ps_world := ps_world q\<rparr>" "case fst res of None \<Rightarrow> port_good env out X q
      | Some cs \<Rightarrow> port_good env out (fst ` set cs \<union> X) q \<and> distinct (map fst cs) \<and> fst ` set cs \<inter> X = {} \<and> length cs \<le> n"
proof -
  let ?h = "case ps_iocp_handle p of Some h \<Rightarrow> h | None \<Rightarrow> NULL_handle"
  obtain ocs err w where c: "GetQueuedCompletionStatusEx env ?h n t (ps_world p) = (ocs, err, w)" by (metis prod_cases3)
  have q: "q = p\<lparr>ps_world := w\<rparr>" "res = (ocs, err)" using assms(2) c by (simp_all add: port_poll_dequeue_def)
  then show "q = p\<lparr>ps_world := ps_world q\<rparr>" by simp
  have d: "driver_ok env out" and P: "polls out X p" using assms(1) by (simp_all add: port_good_def)
  have inv: "port_inv (p\<lparr>ps_world := w\<rparr>)" "flushed (p\<lparr>ps_world := w\<rparr>) = flushed p"
    using assms(1) by (auto simp: port_good_def port_inv_def flushed_def)
  show "case fst res of None \<Rightarrow> port_good env out X q
      | Some cs \<Rightarrow> port_good env out (fst ` set cs \<union> X) q \<and> distinct (map fst cs) \<and> fst ` set cs \<inter> X = {} \<and> length cs \<le> n"
  proof (cases ocs)
    case None
    then have "out w = out (ps_world p)" using d c unfolding driver_ok_def by blast
    then show ?thesis using assms(1) inv None q by (simp add: port_good_def polls_def)
  next
    case (Some cs)
    then have cs: "distinct (map fst cs)" "fst ` set cs \<subseteq> dom (out (ps_world p))" "out w = out (ps_world p) |` (- (fst ` set cs))" "length cs \<le> n"
      using d c unfolding driver_ok_def by blast+
    have "polls out (fst ` set cs \<union> X) (p\<lparr>ps_world := w\<rparr>)" using P cs(2,3) by (simp add: polls_removed)
    moreover have "fst ` set cs \<inter> X = {}" using P cs(2) by (auto simp: polls_def)
    ultimately show ?thesis using assms(1) inv Some q cs by (simp add: port_good_def)
  qed
qed

subsection \<open>Threads\<close>

text \<open>
  A thread is outside, or in the kernel with room for so many completions, or back from it
  and waiting for the lock.  Everything between taking and giving up the lock is one step.
\<close>

datatype phase = Outside | Waiting nat | Dequeued nat "(addr \<times> completion) list option \<times> int"

record 'w wait_sys =
  ws_port :: "'w port"
  ws_thr :: "nat \<Rightarrow> phase"

text \<open>
  Control; entering \<open>port__poll\<close>, which may fail at once; the dequeuing, without the lock; then
  the treatment of the completions, after which \<open>port_wait\<close> returns or polls again; the clock.
\<close>

inductive wait_step :: "'w port_env \<Rightarrow> 'w wait_sys \<Rightarrow> 'w wait_sys \<Rightarrow> bool" for env where
  control: "port_ctl env op sock ev (ws_port s) = Some (r, p) \<Longrightarrow> wait_step env s (s\<lparr>ws_port := p\<rparr>)"
| enter: "ws_thr s t = Outside \<Longrightarrow> port_poll_enter env (ws_port s) = Some (0, p) \<Longrightarrow>
    wait_step env s (s\<lparr>ws_port := p, ws_thr := (ws_thr s)(t := Waiting n)\<rparr>)"
| refused: "ws_thr s t = Outside \<Longrightarrow> port_poll_enter env (ws_port s) = Some (-1, p) \<Longrightarrow> port_update_events_if_polling env p = Some q \<Longrightarrow>
    wait_step env s (s\<lparr>ws_port := q\<rparr>)"
| dequeue: "ws_thr s t = Waiting n \<Longrightarrow> port_poll_dequeue env n timeout (ws_port s) = (res, p) \<Longrightarrow>
    wait_step env s (s\<lparr>ws_port := p, ws_thr := (ws_thr s)(t := Dequeued n res)\<rparr>)"
| leave: "ws_thr s t = Dequeued n res \<Longrightarrow> port_poll_leave env res (ws_port s) = Some (r, evs, p) \<Longrightarrow>
    port_update_events_if_polling env p = Some q \<Longrightarrow>
    wait_step env s (s\<lparr>ws_port := q, ws_thr := (ws_thr s)(t := Outside)\<rparr>)"
| again: "ws_thr s t = Dequeued n res \<Longrightarrow> port_poll_leave env res (ws_port s) = Some (0, evs, p) \<Longrightarrow>
    port_poll_enter env p = Some (0, q) \<Longrightarrow>
    wait_step env s (s\<lparr>ws_port := q, ws_thr := (ws_thr s)(t := Waiting n)\<rparr>)"
| again_refused: "ws_thr s t = Dequeued n res \<Longrightarrow> port_poll_leave env res (ws_port s) = Some (0, evs, p) \<Longrightarrow>
    port_poll_enter env p = Some (-1, q) \<Longrightarrow> port_update_events_if_polling env q = Some q' \<Longrightarrow>
    wait_step env s (s\<lparr>ws_port := q', ws_thr := (ws_thr s)(t := Outside)\<rparr>)"
| clock: "GetTickCount64 env (ps_world (ws_port s)) = (now, w) \<Longrightarrow> wait_step env s (s\<lparr>ws_port := (ws_port s)\<lparr>ps_world := w\<rparr>\<rparr>)"

inductive_cases wait_stepE: "wait_step env s s'"

inductive wait_reach :: "'w port_env \<Rightarrow> ('w \<Rightarrow> addr \<rightharpoonup> nat \<times> 32 word) \<Rightarrow> 'w wait_sys \<Rightarrow> bool" for env out where
  start: "port_new env w = Some (Some (h, p), err, w') \<Longrightarrow> out w = Map.empty \<Longrightarrow> wait_reach env out \<lparr>ws_port = p, ws_thr = \<lambda>_. Outside\<rparr>"
| step: "wait_reach env out s \<Longrightarrow> wait_step env s s' \<Longrightarrow> wait_reach env out s'"

text \<open>The completions a thread holds: their polls are done, but their sockets do not know it.\<close>

fun pending :: "phase \<Rightarrow> addr set" where
  "pending (Dequeued n (Some cs, err)) = fst ` set cs"
| "pending _ = {}"

fun room :: "phase \<Rightarrow> bool" where
  "room (Dequeued n (Some cs, err)) \<longleftrightarrow> distinct (map fst cs) \<and> length cs \<le> n"
| "room _ \<longleftrightarrow> True"

definition wait_inv :: "'w port_env \<Rightarrow> ('w \<Rightarrow> addr \<rightharpoonup> nat \<times> 32 word) \<Rightarrow> 'w wait_sys \<Rightarrow> bool" where
  "wait_inv env out s \<longleftrightarrow> port_good env out (\<Union>t. pending (ws_thr s t)) (ws_port s) \<and>
     (\<forall>t u. t \<noteq> u \<longrightarrow> pending (ws_thr s t) \<inter> pending (ws_thr s u) = {}) \<and> (\<forall>t. room (ws_thr s t)) \<and>
     finite {t. ws_thr s t \<noteq> Outside} \<and> ps_active_poll_count (ws_port s) = card {t. ws_thr s t \<noteq> Outside}"

lemma threads_upd: "{u. (T(t := x)) u \<noteq> Outside} = (if x = Outside then {u. T u \<noteq> Outside} - {t} else insert t {u. T u \<noteq> Outside})"
  by auto

lemma pending_upd: "(\<Union>u. pending ((T(t := x)) u)) = pending x \<union> (\<Union>u\<in>-{t}. pending (T u))"
  by (auto split: if_splits)

text \<open>A step of one thread, from what it did to the port and to its own phase.\<close>

lemma wait_invI:
  assumes inv: "wait_inv env out s" and g: "port_good env out (pending x \<union> (\<Union>u\<in>-{t}. pending (ws_thr s u))) p"
    and x: "room x" "pending x \<inter> (\<Union>u\<in>-{t}. pending (ws_thr s u)) = {}"
    and c: "ps_active_poll_count p + (if ws_thr s t = Outside then 0 else 1) = ps_active_poll_count (ws_port s) + (if x = Outside then 0 else 1)"
  shows "wait_inv env out (s\<lparr>ws_port := p, ws_thr := (ws_thr s)(t := x)\<rparr>)"
proof -
  let ?A = "{u. ws_thr s u \<noteq> Outside}"
  have A: "finite ?A" "ps_active_poll_count (ws_port s) = card ?A" using inv by (simp_all add: wait_inv_def)
  have "card {u. ((ws_thr s)(t := x)) u \<noteq> Outside} + (if ws_thr s t = Outside then 0 else 1) = card ?A + (if x = Outside then 0 else 1)"
  proof (cases "ws_thr s t = Outside")
    case True
    then show ?thesis using A(1) unfolding threads_upd by auto
  next
    case False
    then have "t \<in> ?A" "card ?A > 0" using A(1) by (auto simp: card_gt_0_iff)
    then show ?thesis using A(1) False unfolding threads_upd by (auto simp: insert_absorb card_Diff_singleton)
  qed
  then have "ps_active_poll_count p = card {u. ((ws_thr s)(t := x)) u \<noteq> Outside}" using c A(2) by linarith
  moreover have "finite {u. ((ws_thr s)(t := x)) u \<noteq> Outside}" using A(1) unfolding threads_upd by simp
  moreover have "pending (((ws_thr s)(t := x)) a) \<inter> pending (((ws_thr s)(t := x)) b) = {}" if "a \<noteq> b" for a b
    using that inv x(2) by (auto simp: wait_inv_def) 
  moreover have "room (((ws_thr s)(t := x)) a)" for a using inv x(1) by (simp add: wait_inv_def)
  ultimately show ?thesis using g unfolding wait_inv_def by (simp add: pending_upd del: fun_upd_apply)
qed

lemma good_parts:
  "port_good env out X p \<Longrightarrow> port_inv p \<and> ps_iocp_handle p \<noteq> None \<and> polls out X p \<and> driver_ok env out \<and> system_ok env out"
  by (simp add: port_good_def)

lemma split_pending: "(\<Union>u. pending (T u)) = pending (T t) \<union> (\<Union>u\<in>-{t}. pending (T u))"
  by auto

lemma wait_inv_good: "wait_inv env out s \<Longrightarrow> port_good env out (pending (ws_thr s t) \<union> (\<Union>u\<in>-{t}. pending (ws_thr s u))) (ws_port s)"
  using split_pending [of "ws_thr s" t] by (simp add: wait_inv_def)

lemma wait_inv_disjoint: "wait_inv env out s \<Longrightarrow> pending (ws_thr s t) \<inter> (\<Union>u\<in>-{t}. pending (ws_thr s u)) = {}"
  by (auto simp: wait_inv_def)

lemma control_inv:
  assumes inv: "wait_inv env out s" and c: "chain_ends env rank" and p: "port_ctl env op sock ev (ws_port s) = Some (r, p)"
  shows "wait_inv env out (s\<lparr>ws_port := p\<rparr>)"
proof -
  let ?X = "\<Union>t. pending (ws_thr s t)"
  have g: "port_good env out ?X (ws_port s)" using inv by (simp add: wait_inv_def)
  then obtain h where h: "ps_iocp_handle (ws_port s) = Some h" by (auto simp: port_good_def)
  note i = good_parts [OF g]
  have r: "port_inv p" "ps_iocp_handle p = Some h" "ps_active_poll_count p = ps_active_poll_count (ws_port s)"
    using ctl_refines [of "ws_port s" env op sock ev rank] i h c p by auto
  have "polls out ?X p" using ctl_polls [OF _ h c _ _ _ p] i by blast
  moreover have "healthy env \<longrightarrow> ps_active_poll_count p > 0 \<longrightarrow> flushed p"
    using ctl_flush [OF _ h c _ _ _ p] i r(3) g by (auto simp: port_good_def)
  ultimately show ?thesis using inv r i by (simp add: wait_inv_def port_good_def)
qed

lemma leave_parts:
  assumes inv: "wait_inv env out s" and t: "ws_thr s t = Dequeued n res"
  shows "\<exists>r evs q. port_poll_leave env res (ws_port s) = Some (r, evs, q) \<and> port_inv q \<and> ps_iocp_handle q \<noteq> None \<and>
    polls out (\<Union>u\<in>-{t}. pending (ws_thr s u)) q \<and> ps_active_poll_count q + 1 = ps_active_poll_count (ws_port s) \<and>
    length evs \<le> n \<and> (r = -1 \<and> evs = [] \<or> r = int (length evs))"
proof -
  have g: "port_good env out (pending (ws_thr s t) \<union> (\<Union>u\<in>-{t}. pending (ws_thr s u))) (ws_port s)" using wait_inv_good [OF inv] .
  have "t \<in> {u. ws_thr s u \<noteq> Outside}" "finite {u. ws_thr s u \<noteq> Outside}" using t inv by (auto simp: wait_inv_def)
  then have "ps_active_poll_count (ws_port s) > 0" using inv unfolding wait_inv_def by (metis card_gt_0_iff empty_iff)
  moreover have "room (ws_thr s t)" using inv by (simp add: wait_inv_def)
  then have "case fst res of None \<Rightarrow> polls out (\<Union>u\<in>-{t}. pending (ws_thr s u)) (ws_port s)
      | Some cs \<Rightarrow> polls out (fst ` set cs \<union> (\<Union>u\<in>-{t}. pending (ws_thr s u))) (ws_port s) \<and> distinct (map fst cs) \<and>
          fst ` set cs \<inter> (\<Union>u\<in>-{t}. pending (ws_thr s u)) = {} \<and> length cs \<le> n"
    using good_parts [OF g] wait_inv_disjoint [OF inv, of t] unfolding t by (cases res; cases "fst res") simp_all
  from leave_good [OF _ _ _ _ this] show ?thesis using good_parts [OF g] calculation by force
qed

lemma port_only_inv:
  assumes "wait_inv env out s" "port_good env out (\<Union>t. pending (ws_thr s t)) p" "ps_active_poll_count p = ps_active_poll_count (ws_port s)"
  shows "wait_inv env out (s\<lparr>ws_port := p\<rparr>)"
  using assms by (simp add: wait_inv_def)

text \<open>Returning to the caller, from whatever phase, is the last thing a thread does under the lock.\<close>

lemma outside_inv:
  assumes inv: "wait_inv env out s" and p: "port_inv p" "ps_iocp_handle p \<noteq> None" "polls out (\<Union>u\<in>-{t}. pending (ws_thr s u)) p"
    and q: "port_update_events_if_polling env p = Some q" and t: "ws_thr s t \<noteq> Outside"
    and c: "ps_active_poll_count p + 1 = ps_active_poll_count (ws_port s)"
  shows "wait_inv env out (s\<lparr>ws_port := q, ws_thr := (ws_thr s)(t := Outside)\<rparr>)"
proof -
  have d: "driver_ok env out" "system_ok env out" using good_parts wait_inv_good [OF inv] by blast+
  have "port_good env out (\<Union>u\<in>-{t}. pending (ws_thr s u)) q" "ps_active_poll_count q = ps_active_poll_count p"
    using if_polling_good [OF p d] q by simp_all
  then show ?thesis using c t by (intro wait_invI [OF inv]) simp_all
qed

lemma waiting_inv:
  assumes inv: "wait_inv env out s" and p: "port_inv p" "ps_iocp_handle p \<noteq> None" "polls out (\<Union>u\<in>-{t}. pending (ws_thr s u)) p"
    and q: "port_poll_enter env p = Some (0, q)"
    and c: "ps_active_poll_count p + (if ws_thr s t = Outside then 0 else 1) = ps_active_poll_count (ws_port s)"
  shows "wait_inv env out (s\<lparr>ws_port := q, ws_thr := (ws_thr s)(t := Waiting n)\<rparr>)"
proof -
  have d: "driver_ok env out" "system_ok env out" using good_parts wait_inv_good [OF inv] by blast+
  have "port_good env out (\<Union>u\<in>-{t}. pending (ws_thr s u)) q" "ps_active_poll_count q = ps_active_poll_count p + 1"
    using enter_good [OF p d] q by auto
  then show ?thesis using c by (intro wait_invI [OF inv]) simp_all
qed

lemma wait_step_inv:
  assumes "wait_step env s s'" "wait_inv env out s" "chain_ends env rank"
  shows "wait_inv env out s'"
  using assms
proof cases
  case (control op sock ev r p)
  then show ?thesis using control_inv [OF assms(2,3)] by simp
next
  case (enter t p n)
  have g: "port_good env out (\<Union>u\<in>-{t}. pending (ws_thr s u)) (ws_port s)" using wait_inv_good [OF assms(2), of t] enter(2) by simp
  show ?thesis unfolding enter(1) by (rule waiting_inv [OF assms(2) _ _ _ enter(3)]) (use good_parts [OF g] enter(2) in auto)
next
  case (refused t p q)
  have g: "port_good env out (\<Union>t. pending (ws_thr s t)) (ws_port s)" using assms(2) by (simp add: wait_inv_def)
  note i = good_parts [OF g]
  have p: "port_inv p" "ps_iocp_handle p \<noteq> None" "polls out (\<Union>t. pending (ws_thr s t)) p" "ps_active_poll_count p = ps_active_poll_count (ws_port s)"
    using enter_good [of "ws_port s" out "\<Union>t. pending (ws_thr s t)" env] i refused(3) by auto
  show ?thesis unfolding refused(1) by (rule port_only_inv [OF assms(2)]) (use if_polling_good [OF p(1-3), of env] i refused(4) p(4) in auto)
next
  case (dequeue t n timeout res p)
  have g: "port_good env out (\<Union>u\<in>-{t}. pending (ws_thr s u)) (ws_port s)" using wait_inv_good [OF assms(2), of t] dequeue(2) by simp
  note dq = dequeue_good [OF g dequeue(3)]
  have c: "ps_active_poll_count p = ps_active_poll_count (ws_port s)" by (subst dq(1)) simp
  show ?thesis unfolding dequeue(1)
    by (rule wait_invI [OF assms(2)]) (use dq(2) c dequeue(2) in \<open>cases res; cases "fst res"; simp\<close>)+
next
  case (leave t n res r evs p q)
  then show ?thesis using leave_parts [OF assms(2) leave(2)] outside_inv [OF assms(2) _ _ _ leave(4), of t] by auto
next
  case (again t n res evs p q)
  then show ?thesis using leave_parts [OF assms(2) again(2)] waiting_inv [OF assms(2) _ _ _ again(4), of t] by auto
next
  case (again_refused t n res evs p q q')
  let ?X = "\<Union>u\<in>-{t}. pending (ws_thr s u)"
  have d: "driver_ok env out" "system_ok env out" using good_parts wait_inv_good [OF assms(2)] by blast+
  have p: "port_inv p" "ps_iocp_handle p \<noteq> None" "polls out ?X p" "ps_active_poll_count p + 1 = ps_active_poll_count (ws_port s)"
    using leave_parts [OF assms(2) again_refused(2)] again_refused(3) by auto
  have "port_inv q" "ps_iocp_handle q \<noteq> None" "polls out ?X q" "ps_active_poll_count q = ps_active_poll_count p"
    using enter_good [OF p(1-3) d] again_refused(4) by auto
  then show ?thesis unfolding again_refused(1) using outside_inv [OF assms(2) _ _ _ again_refused(5)] p(4) again_refused(2) by auto
next
  case (clock now w)
  have g: "port_good env out (\<Union>t. pending (ws_thr s t)) (ws_port s)" using assms(2) by (simp add: wait_inv_def)
  have "out w = out (ps_world (ws_port s))"
    using good_parts [OF g] clock(2) unfolding system_ok_def keeps_polls_def by (metis snd_conv)
  then show ?thesis unfolding clock(1)
    by (intro port_only_inv [OF assms(2)]) (use g in \<open>auto simp: port_good_def polls_def flushed_def port_inv_def\<close>)
qed

lemma start_inv:
  assumes "port_new env w = Some (Some (h, p), err, w')" "out w = Map.empty" "driver_ok env out" "system_ok env out"
  shows "wait_inv env out \<lparr>ws_port = p, ws_thr = \<lambda>_. Outside\<rparr>"
proof -
  have p: "port_rep p {} [] [] []" "ps_iocp_handle p = Some h" "ps_socks p = Map.empty" "ps_active_poll_count p = 0" "ps_world p = w'"
    using port_new_ok [of env w] assms(1) by auto
  have k: "out (snd (malloc_ok env w)) = out w" "out (snd (snd (CreateIoCompletionPort env INVALID_HANDLE_VALUE None v))) = out v" for v
    using assms(4) by (simp_all add: system_ok_def keeps_polls_def)
  have "out w' = out w"
    using k(1) k(2) [of "snd (malloc_ok env w)"] assms(1)
    by (auto simp: port_new_def port_create_iocp_def bind_eq_Some_conv split: prod.splits if_splits option.splits)
  then have "out w' = Map.empty" using assms(2) by simp
  then have "port_good env out {} p" using p assms(3,4) port_invI [OF p(1)] by (simp add: port_good_def polls_def busy_def)
  then show ?thesis using p(4) by (simp add: wait_inv_def)
qed

lemma wait_reach_inv:
  assumes "wait_reach env out s" "driver_ok env out" "system_ok env out" "chain_ends env rank"
  shows "wait_inv env out s"
  using assms by (induction rule: wait_reach.induct) (auto intro: start_inv wait_step_inv)

subsection \<open>A run\<close>

text \<open>
  A driver whose world is the list of the polls it holds, a thread that waits on an empty
  port, and another one that registers a socket in the meantime.
\<close>

type_synonym poll_list = "(addr \<times> nat \<times> 32 word) list"

definition list_driver :: "poll_list port_env" where
  "list_driver = \<lparr>NtCreateFile = (\<lambda>w. (STATUS_SUCCESS, 9, w)), NtDeviceIoControlFile = (\<lambda>_ a s e w. (STATUS_PENDING, (a, s, e) # w)),
     NtCancelIoFileEx = (\<lambda>_ _ w. (STATUS_SUCCESS, w)), RtlNtStatusToDosError = (\<lambda>_. 87), iosb_Status = (\<lambda>_ _. STATUS_PENDING),
     set_iosb_Status = (\<lambda>_ _ w. w), CreateIoCompletionPort = (\<lambda>_ _ w. (Some 3, 0, w)),
     SetFileCompletionNotificationModes = (\<lambda>_ w. (True, 0, w)), CloseHandle = (\<lambda>_ w. (True, 0, w)),
     GetQueuedCompletionStatusEx = (\<lambda>_ n _ w. if w = [] then (None, WAIT_TIMEOUT, w)
        else let as = take n (remdups (map fst w)) in
          (Some (map (\<lambda>a. (a, \<lparr>cp_status = STATUS_SUCCESS, cp_handles = 1, cp_events = AFD_POLL_RECEIVE\<rparr>)) as), 0, filter (\<lambda>x. fst x \<notin> set as) w)),
     GetTickCount64 = (\<lambda>w. (0, w)), WSAIoctl = (\<lambda>s _ w. (Some s, 0, w)), malloc_ok = (\<lambda>w. (True, w))\<rparr>"

lemma map_of_without: "map_of (filter (\<lambda>x. fst x \<notin> A) w) = map_of w |` (- A)"
  by (induction w) (auto simp: restrict_map_def fun_eq_iff)

lemma list_driver_taken:
  assumes "GetQueuedCompletionStatusEx list_driver h n t w = (Some cs, err, w')"
  shows "distinct (map fst cs)" "fst ` set cs \<subseteq> dom (map_of w)" "map_of w' = map_of w |` (- (fst ` set cs))" "length cs \<le> n"
proof -
  let ?as = "take n (remdups (map fst w))"
  have cs: "cs = map (\<lambda>a. (a, \<lparr>cp_status = STATUS_SUCCESS, cp_handles = 1, cp_events = AFD_POLL_RECEIVE\<rparr>)) ?as"
    and w': "w' = filter (\<lambda>x. fst x \<notin> set ?as) w" using assms by (auto simp: list_driver_def Let_def split: if_splits)
  have f: "map fst cs = ?as" unfolding cs by (simp add: comp_def)
  then have a: "fst ` set cs = set ?as" by (metis list.set_map)
  show "distinct (map fst cs)" unfolding f by simp
  show "fst ` set cs \<subseteq> dom (map_of w)" unfolding a dom_map_of_conv_image_fst by (auto dest: in_set_takeD)
  show "map_of w' = map_of w |` (- (fst ` set cs))" unfolding a w' by (rule map_of_without)
  show "length cs \<le> n" unfolding cs by simp
qed

lemma list_driver_ok: "driver_ok list_driver map_of" "system_ok list_driver map_of" "chain_ends list_driver (\<lambda>_. 0)" "healthy list_driver"
proof -
  have none: "map_of w' = map_of w" if "GetQueuedCompletionStatusEx list_driver h n t w = (None, err, w')" for h n t w err w'
    using that by (auto simp: list_driver_def Let_def split: if_splits)
  show "driver_ok list_driver map_of" unfolding driver_ok_def
  proof (intro conjI)
    show "\<forall>h n t w cs err w'. GetQueuedCompletionStatusEx list_driver h n t w = (Some cs, err, w') \<longrightarrow> distinct (map fst cs) \<and>
        fst ` set cs \<subseteq> dom (map_of w) \<and> map_of w' = map_of w |` (- fst ` set cs) \<and> length cs \<le> n"
      by (intro allI impI conjI) (erule list_driver_taken)+
    show "\<forall>h n t w err w'. GetQueuedCompletionStatusEx list_driver h n t w = (None, err, w') \<longrightarrow> map_of w' = map_of w"
      by (intro allI impI) (rule none)
  qed (simp_all add: list_driver_def keeps_polls_def status_defs error_defs)
qed (auto simp: system_ok_def list_driver_def keeps_polls_def chain_ends_def healthy_def afd_poll_def afd_cancel_poll_def status_defs error_defs)

definition run_polls :: poll_list where
  "run_polls = [(5, 70, epoll_events_to_afd_events (EPOLLIN OR EPOLLERR OR EPOLLHUP))]"

definition port0 :: "poll_list port" where
  "port0 = \<lparr>ps_iocp_handle = Some 3, ps_sock_tree = \<lparr>tr_root = None, tr_nodes = Map.empty\<rparr>,
               ps_update_queue = 1, ps_deleted_queue = 2, ps_group_queue = 3, ps_active_poll_count = 0,
               ps_nodes = \<lparr>qn_prev = [1 \<mapsto> 1, 2 \<mapsto> 2, 3 \<mapsto> 3], qn_next = [1 \<mapsto> 1, 2 \<mapsto> 2, 3 \<mapsto> 3]\<rparr>,
               ps_socks = Map.empty, ps_group_size = Map.empty, ps_group_handle = Map.empty, ps_brk = 4, ps_last_error = 0,
               ps_world = []\<rparr>"

definition port1 :: "poll_list port" where
  "port1 = \<lparr>ps_iocp_handle = Some 3,
     ps_sock_tree = \<lparr>tr_root = Some 5, tr_nodes =
       [5 \<mapsto> \<lparr>tn_left = None, tn_right = None, tn_parent = None, tn_key = 70, tn_red = False\<rparr>]\<rparr>,
     ps_update_queue = 1, ps_deleted_queue = 2, ps_group_queue = 3, ps_active_poll_count = 1,
     ps_nodes = \<lparr>qn_prev = [1 \<mapsto> 1, 2 \<mapsto> 2, 4 \<mapsto> 3, 3 \<mapsto> 4, 5 \<mapsto> 5], qn_next = [1 \<mapsto> 1, 2 \<mapsto> 2, 4 \<mapsto> 3, 3 \<mapsto> 4, 5 \<mapsto> 5]\<rparr>,
     ps_socks = [5 \<mapsto> blank_sock\<lparr>so_base_socket := 70, so_poll_group := 4\<rparr>],
     ps_group_size = [4 \<mapsto> 1], ps_group_handle = [4 \<mapsto> 9], ps_brk = 6, ps_last_error = 0, ps_world = []\<rparr>"

lemma run_new: "port_new list_driver [] = Some (Some (3, port0), 0, [])"
  by (simp add: port_new_def port0_def list_driver_def port_create_iocp_def queue_init_def queue_node_init_def set_qprev_def
      set_qnext_def tree_init_def fun_eq_iff)

lemma run_enter: "port_poll_enter list_driver port0 = Some (0, port0\<lparr>ps_active_poll_count := 1\<rparr>)"
  by (simp add: port_poll_enter_def port_update_events.simps [of list_driver port0])
    (simp add: port0_def queue_is_empty_def queue_is_enqueued_def)

lemma run_base: "ws_get_base_socket list_driver 70 [] = Some (70, 0, [])"
  by (subst ws_get_base_socket.simps) (simp add: ws_ioctl_get_bsp_socket_def list_driver_def INVALID_SOCKET_def)

lemma run_sock_new: "sock_new list_driver 70 (port0\<lparr>ps_active_poll_count := 1\<rparr>) = Some (Some 5, port1)"
  unfolding sock_new_def
  apply (simp add: run_base port0_def INVALID_SOCKET_def)
  apply (simp add: poll_group_acquire_def queue_last_def queue_is_empty_def queue_is_enqueued_def poll_group_new_def
      port_get_iocp_handle_def Let_def)
  apply (simp add: afd_create_helper_handle_def list_driver_def)
  apply (simp add: upd_nodes_def queue_node_init_def set_qprev_def set_qnext_def queue_append_def POLL_GROUP_MAX_GROUP_SIZE_def)
  apply (simp add: sock_alloc_def sock_setup_def list_driver_def upd_sock_def tree_node_init_def upd_node_def upd_nodes_def
      queue_node_init_def set_qprev_def set_qnext_def)
  apply (simp add: port_register_socket_def tree_add_def upd_node_def add_rebalance.simps set_red_def)
  apply (simp add: port1_def)
  done

lemma run_control: "\<exists>p. port_ctl list_driver EPOLL_CTL_ADD_win 70 \<lparr>ee_events = EPOLLIN, ee_data = 7\<rparr> (port0\<lparr>ps_active_poll_count := 1\<rparr>) = Some (0, p) \<and>
    ps_world p = run_polls \<and> (\<exists>so. ps_socks p 5 = Some so \<and> \<not> so_delete_pending so \<and> so_poll_status so = SOCK_POLL_PENDING \<and> so_user_events so = EPOLLIN OR EPOLLERR OR EPOLLHUP)"
  unfolding port_ctl_def port_ctl_op_def port_ctl_add_def
  apply (simp add: run_sock_new [simplified])
  apply (simp add: port1_def sock_set_event_def upd_sock_def blank_sock_def Let_def)
  apply (simp add: port_request_socket_update_def queue_is_enqueued_def upd_nodes_def queue_append_def set_qnext_def set_qprev_def wepoll_defs SOCK_KNOWN_EPOLL_EVENTS_def)
  apply (simp add: port_update_events_if_polling_def port_update_events.simps [of list_driver] queue_is_empty_def queue_first_def queue_is_enqueued_def)
  apply (simp add: sock_update_def afd_poll_def list_driver_def status_defs)
  apply (simp add: error_defs upd_sock_def)
  apply (simp add: port_cancel_socket_update_def queue_is_enqueued_def upd_nodes_def queue_remove_def queue_detach_node_def
      queue_node_init_def set_qnext_def set_qprev_def)
  apply (simp add: port_update_events.simps queue_is_empty_def queue_is_enqueued_def)
  apply (simp add: run_polls_def wepoll_defs)
  done

lemma run_reach:
  obtains s so where "wait_reach list_driver map_of s" "ws_thr s = (\<lambda>_. Outside)(0 := Waiting 8)" "ps_world (ws_port s) = run_polls"
    "ps_socks (ws_port s) 5 = Some so" "\<not> so_delete_pending so" "so_poll_status so = SOCK_POLL_PENDING" "so_user_events so = EPOLLIN OR EPOLLERR OR EPOLLHUP"
proof -
  obtain p so where p: "port_ctl list_driver EPOLL_CTL_ADD_win 70 \<lparr>ee_events = EPOLLIN, ee_data = 7\<rparr> (port0\<lparr>ps_active_poll_count := 1\<rparr>) = Some (0, p)"
    "ps_world p = run_polls" "ps_socks p 5 = Some so" "\<not> so_delete_pending so" "so_poll_status so = SOCK_POLL_PENDING" "so_user_events so = EPOLLIN OR EPOLLERR OR EPOLLHUP"
    using run_control by auto
  let ?a = "\<lparr>ws_port = port0, ws_thr = \<lambda>_. Outside\<rparr>"
  let ?b = "\<lparr>ws_port = port0\<lparr>ps_active_poll_count := 1\<rparr>, ws_thr = (\<lambda>_. Outside)(0 := Waiting 8)\<rparr>"
  have "wait_reach list_driver map_of ?a" using start [OF run_new] by simp
  moreover have "wait_step list_driver ?a ?b" using enter [of ?a 0 list_driver "port0\<lparr>ps_active_poll_count := 1\<rparr>" 8] run_enter by simp
  moreover have "wait_step list_driver ?b \<lparr>ws_port = p, ws_thr = (\<lambda>_. Outside)(0 := Waiting 8)\<rparr>" using control [of list_driver _ _ _ ?b 0 p] p(1) by simp
  ultimately have "wait_reach list_driver map_of \<lparr>ws_port = p, ws_thr = (\<lambda>_. Outside)(0 := Waiting 8)\<rparr>" using step by blast
  then show ?thesis using that p by auto
qed

subsection \<open>The properties\<close>



text \<open>
  C11: However many threads control a port and wait on it, in every state they
  can reach the port is valid, every completion that a thread has taken from the kernel and
  not yet treated is for a socket that is still allocated, and treating them violates no
  assertion of the code and reports no more events than the caller has room for.
\<close>

theorem wepoll_threads:
  assumes "wait_reach env out s" "driver_ok env out" "system_ok env out" "chain_ends env rank"
  shows "port_inv (ws_port s) \<and> ps_active_poll_count (ws_port s) = card {t. ws_thr s t \<noteq> Outside} \<and>
    (\<forall>t n res. ws_thr s t = Dequeued n res \<longrightarrow>
       (\<forall>cs err. res = (Some cs, err) \<longrightarrow> fst ` set cs \<subseteq> dom (ps_socks (ws_port s))) \<and>
       (\<exists>r evs p. port_poll_leave env res (ws_port s) = Some (r, evs, p) \<and> port_inv p \<and> length evs \<le> n \<and>
          (r = -1 \<and> evs = [] \<or> r = int (length evs))))"
proof -
  have inv: "wait_inv env out s" by (rule wait_reach_inv [OF assms])
  have "fst ` set cs \<subseteq> dom (ps_socks (ws_port s))" if "ws_thr s t = Dequeued n (Some cs, err)" for t n cs err
  proof -
    have "polls out (fst ` set cs \<union> (\<Union>u\<in>-{t}. pending (ws_thr s u))) (ws_port s)"
      using good_parts [OF wait_inv_good [OF inv, of t]] that by simp
    then show ?thesis by (auto simp: polls_def busy_def)
  qed
  moreover have "\<exists>r evs p. port_poll_leave env res (ws_port s) = Some (r, evs, p) \<and> port_inv p \<and> length evs \<le> n \<and>
      (r = -1 \<and> evs = [] \<or> r = int (length evs))" if "ws_thr s t = Dequeued n res" for t n res
    using leave_parts [OF inv that] by blast
  moreover have "port_inv (ws_port s)" "ps_active_poll_count (ws_port s) = card {t. ws_thr s t \<noteq> Outside}"
    using inv by (simp_all add: wait_inv_def port_good_def)
  ultimately show ?thesis by blast
qed





theorem wepoll_threads_witness:
  "\<exists>(s :: poll_list wait_sys) n cs. ws_thr s 0 = Dequeued n (Some cs, 0) \<and> fst ` set cs = {5} \<and> 5 \<in> dom (ps_socks (ws_port s)) \<and>
    (\<exists>r evs p. port_poll_leave list_driver (Some cs, 0) (ws_port s) = Some (r, evs, p) \<and> port_inv p)"
proof -
  obtain s so where s: "wait_reach list_driver map_of s" "ws_thr s = (\<lambda>_. Outside)(0 := Waiting 8)" "ps_world (ws_port s) = run_polls" by (rule run_reach)
  let ?cs = "[(5, \<lparr>cp_status = STATUS_SUCCESS, cp_handles = 1, cp_events = AFD_POLL_RECEIVE\<rparr>)]"
  let ?s = "s\<lparr>ws_port := (ws_port s)\<lparr>ps_world := []\<rparr>, ws_thr := (ws_thr s)(0 := Dequeued 8 (Some ?cs, 0))\<rparr>"
  have "port_poll_dequeue list_driver 8 INFINITE (ws_port s) = ((Some ?cs, 0), (ws_port s)\<lparr>ps_world := []\<rparr>)"
    using s(3) by (simp add: port_poll_dequeue_def list_driver_def run_polls_def)
  then have "wait_step list_driver s ?s" using dequeue [of s 0 8 list_driver INFINITE] s(2) by simp
  then have "wait_reach list_driver map_of ?s" using step s(1) by blast
  note th = wepoll_threads [OF this list_driver_ok(1,2,3)]
  have "ws_thr ?s 0 = Dequeued 8 (Some ?cs, 0)" by simp
  with th have "fst ` set ?cs \<subseteq> dom (ps_socks (ws_port ?s))"
    "\<exists>r evs p. port_poll_leave list_driver (Some ?cs, 0) (ws_port ?s) = Some (r, evs, p) \<and> port_inv p" by blast+
  moreover have "ws_thr ?s 0 = Dequeued 8 (Some ?cs, 0)" "fst ` set ?cs = {5 :: addr}" by simp_all
  ultimately show ?thesis by (metis insert_subset)
qed

end
