(* ===== verification/Wepoll_Reflock.thy ===== *)
theory Wepoll_Reflock
  imports Prelude
begin

unbundle bit_operations_syntax

text \<open>
  The reference lock of the Windows event port, src/src/wepoll.c lines 1527--1592.

  One 32-bit word holds the number of references in its low 28 bits and the fact that the
  owner is destroying the object in the bits above.  Each operation is one atomic addition
  or exchange, so an execution of several threads is a sequence of them; waiting for the
  keyed event splits \<open>reflock_unref_and_destroy\<close> in two steps.  A failing assertion has no
  result.
\<close>

type_synonym reflock_t = "32 word"

definition REFLOCK_REF :: reflock_t where "REFLOCK_REF = 0x00000001"
definition REFLOCK_REF_MASK :: reflock_t where "REFLOCK_REF_MASK = 0x0fffffff"
definition REFLOCK_DESTROY :: reflock_t where "REFLOCK_DESTROY = 0x10000000"
definition REFLOCK_DESTROY_MASK :: reflock_t where "REFLOCK_DESTROY_MASK = 0xf0000000"
definition REFLOCK_POISON :: reflock_t where "REFLOCK_POISON = 0x300dead0"

lemmas reflock_defs = REFLOCK_REF_def REFLOCK_REF_MASK_def REFLOCK_DESTROY_def REFLOCK_DESTROY_MASK_def REFLOCK_POISON_def

definition reflock_init :: reflock_t where
  "reflock_init = 0"

definition reflock_ref :: "reflock_t \<Rightarrow> reflock_t option" where
  "reflock_ref reflock =
     (let state = reflock + REFLOCK_REF
      in if state AND REFLOCK_DESTROY_MASK = 0 then Some state else None)"

text \<open>The new state, and whether the event is signalled.\<close>

definition reflock_unref :: "reflock_t \<Rightarrow> (bool \<times> reflock_t) option" where
  "reflock_unref reflock =
     (let state = reflock - REFLOCK_REF
      in if state AND REFLOCK_DESTROY_MASK AND NOT REFLOCK_DESTROY = 0
         then Some (state = REFLOCK_DESTROY, state) else None)"

text \<open>The first step of \<open>reflock_unref_and_destroy\<close>: the new state, and whether it waits for the event.\<close>

definition reflock_destroy_begin :: "reflock_t \<Rightarrow> (bool \<times> reflock_t) option" where
  "reflock_destroy_begin reflock =
     (let state = reflock + (REFLOCK_DESTROY - REFLOCK_REF);
          ref_count = state AND REFLOCK_REF_MASK
      in if state AND REFLOCK_DESTROY_MASK = REFLOCK_DESTROY then Some (ref_count \<noteq> 0, state) else None)"

text \<open>The second step: the lock is poisoned.\<close>

definition reflock_destroy_end :: "reflock_t \<Rightarrow> reflock_t option" where
  "reflock_destroy_end reflock = (if reflock = REFLOCK_DESTROY then Some REFLOCK_POISON else None)"

subsection \<open>The word as a counter\<close>

definition live :: "nat \<Rightarrow> reflock_t" where "live r = of_nat r"
definition dying :: "nat \<Rightarrow> reflock_t" where "dying r = REFLOCK_DESTROY + of_nat r"

lemma masks: "REFLOCK_REF_MASK = mask 28" "REFLOCK_DESTROY_MASK = NOT (mask 28)"
  by (simp_all add: reflock_defs mask_eq_exp_minus_1)

lemma low_bits:
  assumes "r < 2 ^ 28"
  shows "(of_nat r :: reflock_t) AND REFLOCK_REF_MASK = of_nat r" "(of_nat r :: reflock_t) AND REFLOCK_DESTROY_MASK = 0"
proof -
  have "take_bit 28 (of_nat r :: reflock_t) = of_nat (take_bit 28 r)" by (simp add: take_bit_of_nat)
  also have "take_bit 28 r = r" using assms by (simp add: take_bit_nat_eq_self)
  finally show a: "(of_nat r :: reflock_t) AND REFLOCK_REF_MASK = of_nat r" by (simp add: masks take_bit_eq_mask)
  have "(of_nat r :: reflock_t) AND REFLOCK_DESTROY_MASK = (of_nat r AND REFLOCK_REF_MASK) AND REFLOCK_DESTROY_MASK"
    by (simp only: a)
  also have "\<dots> = 0" by (simp add: masks and.assoc)
  finally show "(of_nat r :: reflock_t) AND REFLOCK_DESTROY_MASK = 0" .
qed

lemma dying_bits:
  assumes "r < 2 ^ 28"
  shows "dying r AND REFLOCK_REF_MASK = of_nat r" "dying r AND REFLOCK_DESTROY_MASK = REFLOCK_DESTROY"
proof -
  have d: "REFLOCK_DESTROY AND REFLOCK_REF_MASK = 0" "REFLOCK_DESTROY AND REFLOCK_DESTROY_MASK = REFLOCK_DESTROY"
    by (simp_all add: reflock_defs)
  have "REFLOCK_DESTROY AND of_nat r = REFLOCK_DESTROY AND (of_nat r AND REFLOCK_REF_MASK)" by (simp only: low_bits [OF assms])
  also have "\<dots> = (REFLOCK_DESTROY AND REFLOCK_REF_MASK) AND of_nat r" by (simp only: ac_simps)
  finally have "REFLOCK_DESTROY AND of_nat r = 0" by (simp add: d)
  then have "\<not> bit REFLOCK_DESTROY i \<or> \<not> bit (of_nat r :: reflock_t) i" for i by (metis bit_0_eq bit_and_iff bot_apply bot_bool_def)
  then have "dying r = REFLOCK_DESTROY OR of_nat r" unfolding dying_def by (rule disjunctive_add)
  then show "dying r AND REFLOCK_REF_MASK = of_nat r" "dying r AND REFLOCK_DESTROY_MASK = REFLOCK_DESTROY"
    by (simp_all add: bit.conj_disj_distrib2 d low_bits [OF assms])
qed

lemma ref_live: "Suc r < 2 ^ 28 \<Longrightarrow> reflock_ref (live r) = Some (live (Suc r))"
  using low_bits(2) [of "Suc r"] by (simp add: reflock_ref_def live_def REFLOCK_REF_def add.commute)

lemma unat_small: "r < 2 ^ 28 \<Longrightarrow> unat (of_nat r :: reflock_t) = r"
  by (simp add: unat_of_nat)

lemma live_not_destroy: "r < 2 ^ 28 \<Longrightarrow> live r \<noteq> REFLOCK_DESTROY"
  using unat_small [of r] by (auto simp: live_def REFLOCK_DESTROY_def)

lemma unref_live: "Suc r < 2 ^ 28 \<Longrightarrow> reflock_unref (live (Suc r)) = Some (False, live r)"
proof -
  assume r: "Suc r < 2 ^ 28"
  have "live (Suc r) - REFLOCK_REF = live r" by (simp add: live_def REFLOCK_REF_def)
  then show ?thesis
    using r low_bits(2) [of r] live_not_destroy [of r]
    by (simp add: reflock_unref_def live_def flip: and.assoc)
qed

lemma destroy_live: "Suc r < 2 ^ 28 \<Longrightarrow> reflock_destroy_begin (live (Suc r)) = Some (r \<noteq> 0, dying r)"
proof -
  assume r: "Suc r < 2 ^ 28"
  have "live (Suc r) + (REFLOCK_DESTROY - REFLOCK_REF) = dying r" by (simp add: live_def dying_def REFLOCK_REF_def)
  moreover have "(of_nat r :: reflock_t) \<noteq> 0 \<longleftrightarrow> r \<noteq> 0" using r unat_small [of r] by (cases r) auto
  ultimately show ?thesis using r dying_bits [of r] by (simp add: reflock_destroy_begin_def)
qed

lemma unref_dying: "Suc r < 2 ^ 28 \<Longrightarrow> reflock_unref (dying (Suc r)) = Some (r = 0, dying r)"
proof -
  assume r: "Suc r < 2 ^ 28"
  have "dying (Suc r) - REFLOCK_REF = dying r" by (simp add: dying_def REFLOCK_REF_def)
  moreover have "dying r = REFLOCK_DESTROY \<longleftrightarrow> r = 0" using r unat_small [of r] by (auto simp: dying_def)
  ultimately show ?thesis using r dying_bits(2) [of r] by (simp add: reflock_unref_def flip: and.assoc)
qed

subsection \<open>Properties\<close>

text \<open>The calls other threads make while the owner has not begun to destroy the object.\<close>

datatype reflock_op = Ref | Unref

primrec reflock_step :: "reflock_op \<Rightarrow> reflock_t \<Rightarrow> (bool \<times> reflock_t) option" where
  "reflock_step Ref s = map_option (Pair False) (reflock_ref s)"
| "reflock_step Unref s = reflock_unref s"

primrec reflock_run :: "reflock_op list \<Rightarrow> reflock_t \<Rightarrow> (bool list \<times> reflock_t) option" where
  "reflock_run [] s = Some ([], s)"
| "reflock_run (x # xs) s = do { (b, s) \<leftarrow> reflock_step x s; (bs, s) \<leftarrow> reflock_run xs s; Some (b # bs, s) }"

text \<open>The number of references after a sequence of calls, if it never leaves the range of the counter.\<close>

primrec refs :: "reflock_op list \<Rightarrow> nat \<Rightarrow> nat option" where
  "refs [] r = Some r"
| "refs (x # xs) r = (case x of
     Ref \<Rightarrow> if Suc r < 2 ^ 28 then refs xs (Suc r) else None
   | Unref \<Rightarrow> (case r of 0 \<Rightarrow> None | Suc k \<Rightarrow> refs xs k))"

lemma run_live:
  "refs ops r = Some k \<Longrightarrow> r < 2 ^ 28 \<Longrightarrow> reflock_run ops (live r) = Some (replicate (length ops) False, live k) \<and> k < 2 ^ 28"
proof (induction ops arbitrary: r)
  case (Cons x ops)
  show ?case
  proof (cases x)
    case Ref
    then show ?thesis using Cons.prems Cons.IH [of "Suc r"] by (auto simp: ref_live split: if_splits)
  next
    case Unref
    then obtain k' where "r = Suc k'" using Cons.prems by (auto split: nat.splits)
    then show ?thesis using Unref Cons.prems Cons.IH [of k'] by (auto simp: unref_live)
  qed
qed simp

lemma run_dying:
  "r < 2 ^ 28 \<Longrightarrow> reflock_run (replicate r Unref) (dying r) =
     Some (if r = 0 then [] else replicate (r - 1) False @ [True], dying 0)"
proof (induction r)
  case (Suc r)
  then show ?case by (cases r) (simp_all add: unref_dying)
qed simp

text \<open>
  C24: the reference lock lets the owner destroy an object exactly when the last
  other user is gone.  Start with no reference; let any sequence of \<open>reflock_ref\<close> and
  \<open>reflock_unref\<close> calls leave \<open>Suc r\<close> references; let the owner of one of them begin to
  destroy and the \<open>r\<close> others give theirs back.  No assertion fails, the owner waits exactly
  when there are others, the event is signalled once, by the last of them, and then the
  assertion before the lock is poisoned holds.
\<close>

theorem reflock_protocol:
  assumes "refs ops 0 = Some (Suc r)"
  shows "reflock_run ops reflock_init = Some (replicate (length ops) False, live (Suc r)) \<and>
    reflock_destroy_begin (live (Suc r)) = Some (r \<noteq> 0, dying r) \<and>
    reflock_run (replicate r Unref) (dying r) =
      Some (if r = 0 then [] else replicate (r - 1) False @ [True], REFLOCK_DESTROY) \<and>
    reflock_destroy_end REFLOCK_DESTROY = Some REFLOCK_POISON"
proof -
  have run: "reflock_run ops (live 0) = Some (replicate (length ops) False, live (Suc r))" "Suc r < 2 ^ 28"
    using run_live [OF assms] by simp_all
  then show ?thesis
    using destroy_live [of r] run_dying [of r]
    by (simp add: reflock_destroy_end_def reflock_init_def) (simp add: live_def dying_def)
qed

theorem reflock_protocol_witness:
  "refs [Ref, Ref, Unref, Ref] 0 = Some (Suc 1) \<and>
   reflock_run [Ref, Ref, Unref, Ref] reflock_init = Some ([False, False, False, False], live (Suc 1)) \<and>
   reflock_destroy_begin (live (Suc 1)) = Some (True, dying 1)"
proof -
  have "refs [Ref, Ref, Unref, Ref] 0 = Some (Suc 1)" by simp
  moreover have "replicate (length [Ref, Ref, Unref, Ref]) False = [False, False, False, False]" by simp
  ultimately show ?thesis
    using reflock_protocol [of "[Ref, Ref, Unref, Ref]" 1] by (simp del: reflock_run.simps refs.simps)
qed

end
