(* ===== verification/Wepoll_Errno.thy ===== *)
theory Wepoll_Errno
  imports Wepoll_Afd
begin

text \<open>
  The errors of src/src/wepoll.c, lines 692--804: the codes of Windows are mapped to those
  of \<open>errno\<close> by a table, and a code that is not in the table to EINVAL.  The three codes
  that the Linux part of the model has as numbers end in \<open>_win\<close> here.
\<close>

datatype errno =
    EACCES | EADDRINUSE | EADDRNOTAVAIL | EAFNOSUPPORT | EBADF | EBUSY | ECHILD | ECONNABORTED |
    ECONNREFUSED | ECONNRESET | EEXIST | EFAULT | EHOSTUNREACH | EINPROGRESS_win | EINTR_win | EINVAL |
    EISCONN | EMFILE | EMSGSIZE | ENETDOWN | ENETUNREACH | ENOENT | ENOEXEC | ENOMEM | ENOSPC |
    ENOSYS | ENOTCONN | ENOTEMPTY | ENOTSOCK | ENOTSUP | EOPNOTSUPP | EPIPE | ETIMEDOUT |
    EWOULDBLOCK_win | EXDEV

text \<open>The codes of the system, with the numbers that its documentation gives them.\<close>

definition ERROR_ACCESS_DENIED :: int where "ERROR_ACCESS_DENIED = 5"
definition ERROR_BAD_COMMAND :: int where "ERROR_BAD_COMMAND = 22"
definition ERROR_BAD_EXE_FORMAT :: int where "ERROR_BAD_EXE_FORMAT = 193"
definition ERROR_BAD_LENGTH :: int where "ERROR_BAD_LENGTH = 24"
definition ERROR_BAD_NETPATH :: int where "ERROR_BAD_NETPATH = 53"
definition ERROR_BAD_NET_NAME :: int where "ERROR_BAD_NET_NAME = 67"
definition ERROR_BAD_NET_RESP :: int where "ERROR_BAD_NET_RESP = 58"
definition ERROR_BAD_PATHNAME :: int where "ERROR_BAD_PATHNAME = 161"
definition ERROR_BROKEN_PIPE :: int where "ERROR_BROKEN_PIPE = 109"
definition ERROR_CANNOT_MAKE :: int where "ERROR_CANNOT_MAKE = 82"
definition ERROR_COMMITMENT_LIMIT :: int where "ERROR_COMMITMENT_LIMIT = 1455"
definition ERROR_CONNECTION_ABORTED :: int where "ERROR_CONNECTION_ABORTED = 1236"
definition ERROR_CONNECTION_ACTIVE :: int where "ERROR_CONNECTION_ACTIVE = 1230"
definition ERROR_CONNECTION_REFUSED :: int where "ERROR_CONNECTION_REFUSED = 1225"
definition ERROR_CRC :: int where "ERROR_CRC = 23"
definition ERROR_DIR_NOT_EMPTY :: int where "ERROR_DIR_NOT_EMPTY = 145"
definition ERROR_DISK_FULL :: int where "ERROR_DISK_FULL = 112"
definition ERROR_DUP_NAME :: int where "ERROR_DUP_NAME = 52"
definition ERROR_FILENAME_EXCED_RANGE :: int where "ERROR_FILENAME_EXCED_RANGE = 206"
definition ERROR_FILE_NOT_FOUND :: int where "ERROR_FILE_NOT_FOUND = 2"
definition ERROR_GEN_FAILURE :: int where "ERROR_GEN_FAILURE = 31"
definition ERROR_GRACEFUL_DISCONNECT :: int where "ERROR_GRACEFUL_DISCONNECT = 1226"
definition ERROR_HOST_DOWN :: int where "ERROR_HOST_DOWN = 1256"
definition ERROR_HOST_UNREACHABLE :: int where "ERROR_HOST_UNREACHABLE = 1232"
definition ERROR_INSUFFICIENT_BUFFER :: int where "ERROR_INSUFFICIENT_BUFFER = 122"
definition ERROR_INVALID_ADDRESS :: int where "ERROR_INVALID_ADDRESS = 487"
definition ERROR_INVALID_FUNCTION :: int where "ERROR_INVALID_FUNCTION = 1"
definition ERROR_INVALID_NETNAME :: int where "ERROR_INVALID_NETNAME = 1214"
definition ERROR_INVALID_USER_BUFFER :: int where "ERROR_INVALID_USER_BUFFER = 1784"
definition ERROR_LOCK_VIOLATION :: int where "ERROR_LOCK_VIOLATION = 33"
definition ERROR_MORE_DATA :: int where "ERROR_MORE_DATA = 234"
definition ERROR_NETNAME_DELETED :: int where "ERROR_NETNAME_DELETED = 64"
definition ERROR_NETWORK_ACCESS_DENIED :: int where "ERROR_NETWORK_ACCESS_DENIED = 65"
definition ERROR_NETWORK_BUSY :: int where "ERROR_NETWORK_BUSY = 54"
definition ERROR_NETWORK_UNREACHABLE :: int where "ERROR_NETWORK_UNREACHABLE = 1231"
definition ERROR_NOACCESS :: int where "ERROR_NOACCESS = 998"
definition ERROR_NONPAGED_SYSTEM_RESOURCES :: int where "ERROR_NONPAGED_SYSTEM_RESOURCES = 1451"
definition ERROR_NOT_ENOUGH_QUOTA :: int where "ERROR_NOT_ENOUGH_QUOTA = 1816"
definition ERROR_NOT_LOCKED :: int where "ERROR_NOT_LOCKED = 158"
definition ERROR_NOT_READY :: int where "ERROR_NOT_READY = 21"
definition ERROR_NOT_SAME_DEVICE :: int where "ERROR_NOT_SAME_DEVICE = 17"
definition ERROR_NOT_SUPPORTED :: int where "ERROR_NOT_SUPPORTED = 50"
definition ERROR_NO_MORE_FILES :: int where "ERROR_NO_MORE_FILES = 18"
definition ERROR_NO_SYSTEM_RESOURCES :: int where "ERROR_NO_SYSTEM_RESOURCES = 1450"
definition ERROR_OPERATION_ABORTED :: int where "ERROR_OPERATION_ABORTED = 995"
definition ERROR_OUT_OF_PAPER :: int where "ERROR_OUT_OF_PAPER = 28"
definition ERROR_PAGED_SYSTEM_RESOURCES :: int where "ERROR_PAGED_SYSTEM_RESOURCES = 1452"
definition ERROR_PAGEFILE_QUOTA :: int where "ERROR_PAGEFILE_QUOTA = 1454"
definition ERROR_PATH_NOT_FOUND :: int where "ERROR_PATH_NOT_FOUND = 3"
definition ERROR_PIPE_NOT_CONNECTED :: int where "ERROR_PIPE_NOT_CONNECTED = 233"
definition ERROR_PORT_UNREACHABLE :: int where "ERROR_PORT_UNREACHABLE = 1234"
definition ERROR_PROTOCOL_UNREACHABLE :: int where "ERROR_PROTOCOL_UNREACHABLE = 1233"
definition ERROR_REM_NOT_LIST :: int where "ERROR_REM_NOT_LIST = 51"
definition ERROR_REQUEST_ABORTED :: int where "ERROR_REQUEST_ABORTED = 1235"
definition ERROR_REQ_NOT_ACCEP :: int where "ERROR_REQ_NOT_ACCEP = 71"
definition ERROR_SECTOR_NOT_FOUND :: int where "ERROR_SECTOR_NOT_FOUND = 27"
definition ERROR_SEM_TIMEOUT :: int where "ERROR_SEM_TIMEOUT = 121"
definition ERROR_SHARING_VIOLATION :: int where "ERROR_SHARING_VIOLATION = 32"
definition ERROR_TOO_MANY_NAMES :: int where "ERROR_TOO_MANY_NAMES = 68"
definition ERROR_TOO_MANY_OPEN_FILES :: int where "ERROR_TOO_MANY_OPEN_FILES = 4"
definition ERROR_UNEXP_NET_ERR :: int where "ERROR_UNEXP_NET_ERR = 59"
definition ERROR_WAIT_NO_CHILDREN :: int where "ERROR_WAIT_NO_CHILDREN = 128"
definition ERROR_WORKING_SET_QUOTA :: int where "ERROR_WORKING_SET_QUOTA = 1453"
definition ERROR_WRITE_PROTECT :: int where "ERROR_WRITE_PROTECT = 19"
definition ERROR_WRONG_DISK :: int where "ERROR_WRONG_DISK = 34"
definition WSAEACCES :: int where "WSAEACCES = 10013"
definition WSAEADDRINUSE :: int where "WSAEADDRINUSE = 10048"
definition WSAEADDRNOTAVAIL :: int where "WSAEADDRNOTAVAIL = 10049"
definition WSAEAFNOSUPPORT :: int where "WSAEAFNOSUPPORT = 10047"
definition WSAECONNABORTED :: int where "WSAECONNABORTED = 10053"
definition WSAECONNREFUSED :: int where "WSAECONNREFUSED = 10061"
definition WSAECONNRESET :: int where "WSAECONNRESET = 10054"
definition WSAEDISCON :: int where "WSAEDISCON = 10101"
definition WSAEFAULT :: int where "WSAEFAULT = 10014"
definition WSAEHOSTDOWN :: int where "WSAEHOSTDOWN = 10064"
definition WSAEHOSTUNREACH :: int where "WSAEHOSTUNREACH = 10065"
definition WSAEINPROGRESS :: int where "WSAEINPROGRESS = 10036"
definition WSAEINTR :: int where "WSAEINTR = 10004"
definition WSAEINVAL :: int where "WSAEINVAL = 10022"
definition WSAEISCONN :: int where "WSAEISCONN = 10056"
definition WSAEMSGSIZE :: int where "WSAEMSGSIZE = 10040"
definition WSAENETDOWN :: int where "WSAENETDOWN = 10050"
definition WSAENETRESET :: int where "WSAENETRESET = 10052"
definition WSAENETUNREACH :: int where "WSAENETUNREACH = 10051"
definition WSAENOBUFS :: int where "WSAENOBUFS = 10055"
definition WSAENOTCONN :: int where "WSAENOTCONN = 10057"
definition WSAEOPNOTSUPP :: int where "WSAEOPNOTSUPP = 10045"
definition WSAEPROCLIM :: int where "WSAEPROCLIM = 10067"
definition WSAESHUTDOWN :: int where "WSAESHUTDOWN = 10058"
definition WSAETIMEDOUT :: int where "WSAETIMEDOUT = 10060"
definition WSAEWOULDBLOCK :: int where "WSAEWOULDBLOCK = 10035"
definition WSANOTINITIALISED :: int where "WSANOTINITIALISED = 10093"
definition WSASYSNOTREADY :: int where "WSASYSNOTREADY = 10091"
definition WSAVERNOTSUPPORTED :: int where "WSAVERNOTSUPPORTED = 10092"

lemmas win_error_defs =
  ERROR_ACCESS_DENIED_def ERROR_BAD_COMMAND_def ERROR_BAD_EXE_FORMAT_def ERROR_BAD_LENGTH_def ERROR_BAD_NETPATH_def
  ERROR_BAD_NET_NAME_def ERROR_BAD_NET_RESP_def ERROR_BAD_PATHNAME_def ERROR_BROKEN_PIPE_def ERROR_CANNOT_MAKE_def
  ERROR_COMMITMENT_LIMIT_def ERROR_CONNECTION_ABORTED_def ERROR_CONNECTION_ACTIVE_def ERROR_CONNECTION_REFUSED_def
  ERROR_CRC_def ERROR_DIR_NOT_EMPTY_def ERROR_DISK_FULL_def ERROR_DUP_NAME_def ERROR_FILENAME_EXCED_RANGE_def
  ERROR_FILE_NOT_FOUND_def ERROR_GEN_FAILURE_def ERROR_GRACEFUL_DISCONNECT_def ERROR_HOST_DOWN_def
  ERROR_HOST_UNREACHABLE_def ERROR_INSUFFICIENT_BUFFER_def ERROR_INVALID_ADDRESS_def ERROR_INVALID_FUNCTION_def
  ERROR_INVALID_NETNAME_def ERROR_INVALID_USER_BUFFER_def ERROR_LOCK_VIOLATION_def ERROR_MORE_DATA_def
  ERROR_NETNAME_DELETED_def ERROR_NETWORK_ACCESS_DENIED_def ERROR_NETWORK_BUSY_def ERROR_NETWORK_UNREACHABLE_def
  ERROR_NOACCESS_def ERROR_NONPAGED_SYSTEM_RESOURCES_def ERROR_NOT_ENOUGH_QUOTA_def ERROR_NOT_LOCKED_def
  ERROR_NOT_READY_def ERROR_NOT_SAME_DEVICE_def ERROR_NOT_SUPPORTED_def ERROR_NO_MORE_FILES_def
  ERROR_NO_SYSTEM_RESOURCES_def ERROR_OPERATION_ABORTED_def ERROR_OUT_OF_PAPER_def ERROR_PAGED_SYSTEM_RESOURCES_def
  ERROR_PAGEFILE_QUOTA_def ERROR_PATH_NOT_FOUND_def ERROR_PIPE_NOT_CONNECTED_def ERROR_PORT_UNREACHABLE_def
  ERROR_PROTOCOL_UNREACHABLE_def ERROR_REM_NOT_LIST_def ERROR_REQUEST_ABORTED_def ERROR_REQ_NOT_ACCEP_def
  ERROR_SECTOR_NOT_FOUND_def ERROR_SEM_TIMEOUT_def ERROR_SHARING_VIOLATION_def ERROR_TOO_MANY_NAMES_def
  ERROR_TOO_MANY_OPEN_FILES_def ERROR_UNEXP_NET_ERR_def ERROR_WAIT_NO_CHILDREN_def ERROR_WORKING_SET_QUOTA_def
  ERROR_WRITE_PROTECT_def ERROR_WRONG_DISK_def WSAEACCES_def WSAEADDRINUSE_def WSAEADDRNOTAVAIL_def WSAEAFNOSUPPORT_def
  WSAECONNABORTED_def WSAECONNREFUSED_def WSAECONNRESET_def WSAEDISCON_def WSAEFAULT_def WSAEHOSTDOWN_def
  WSAEHOSTUNREACH_def WSAEINPROGRESS_def WSAEINTR_def WSAEINVAL_def WSAEISCONN_def WSAEMSGSIZE_def WSAENETDOWN_def
  WSAENETRESET_def WSAENETUNREACH_def WSAENOBUFS_def WSAENOTCONN_def WSAEOPNOTSUPP_def WSAEPROCLIM_def WSAESHUTDOWN_def
  WSAETIMEDOUT_def WSAEWOULDBLOCK_def WSANOTINITIALISED_def WSASYSNOTREADY_def WSAVERNOTSUPPORTED_def

definition err_errno_mappings :: "(int \<times> errno) list" where
  "err_errno_mappings =
    [(ERROR_ACCESS_DENIED, EACCES), (ERROR_ALREADY_EXISTS, EEXIST), (ERROR_BAD_COMMAND, EACCES),
     (ERROR_BAD_EXE_FORMAT, ENOEXEC), (ERROR_BAD_LENGTH, EACCES), (ERROR_BAD_NETPATH, ENOENT),
     (ERROR_BAD_NET_NAME, ENOENT), (ERROR_BAD_NET_RESP, ENETDOWN), (ERROR_BAD_PATHNAME, ENOENT),
     (ERROR_BROKEN_PIPE, EPIPE), (ERROR_CANNOT_MAKE, EACCES), (ERROR_COMMITMENT_LIMIT, ENOMEM),
     (ERROR_CONNECTION_ABORTED, ECONNABORTED), (ERROR_CONNECTION_ACTIVE, EISCONN), (ERROR_CONNECTION_REFUSED, ECONNREFUSED),
     (ERROR_CRC, EACCES), (ERROR_DIR_NOT_EMPTY, ENOTEMPTY), (ERROR_DISK_FULL, ENOSPC),
     (ERROR_DUP_NAME, EADDRINUSE), (ERROR_FILENAME_EXCED_RANGE, ENOENT), (ERROR_FILE_NOT_FOUND, ENOENT),
     (ERROR_GEN_FAILURE, EACCES), (ERROR_GRACEFUL_DISCONNECT, EPIPE), (ERROR_HOST_DOWN, EHOSTUNREACH),
     (ERROR_HOST_UNREACHABLE, EHOSTUNREACH), (ERROR_INSUFFICIENT_BUFFER, EFAULT), (ERROR_INVALID_ADDRESS, EADDRNOTAVAIL),
     (ERROR_INVALID_FUNCTION, EINVAL), (ERROR_INVALID_HANDLE, EBADF), (ERROR_INVALID_NETNAME, EADDRNOTAVAIL),
     (ERROR_INVALID_PARAMETER, EINVAL), (ERROR_INVALID_USER_BUFFER, EMSGSIZE), (ERROR_IO_PENDING, EINPROGRESS_win),
     (ERROR_LOCK_VIOLATION, EACCES), (ERROR_MORE_DATA, EMSGSIZE), (ERROR_NETNAME_DELETED, ECONNABORTED),
     (ERROR_NETWORK_ACCESS_DENIED, EACCES), (ERROR_NETWORK_BUSY, ENETDOWN), (ERROR_NETWORK_UNREACHABLE, ENETUNREACH),
     (ERROR_NOACCESS, EFAULT), (ERROR_NONPAGED_SYSTEM_RESOURCES, ENOMEM), (ERROR_NOT_ENOUGH_MEMORY, ENOMEM),
     (ERROR_NOT_ENOUGH_QUOTA, ENOMEM), (ERROR_NOT_FOUND, ENOENT), (ERROR_NOT_LOCKED, EACCES),
     (ERROR_NOT_READY, EACCES), (ERROR_NOT_SAME_DEVICE, EXDEV), (ERROR_NOT_SUPPORTED, ENOTSUP),
     (ERROR_NO_MORE_FILES, ENOENT), (ERROR_NO_SYSTEM_RESOURCES, ENOMEM), (ERROR_OPERATION_ABORTED, EINTR_win),
     (ERROR_OUT_OF_PAPER, EACCES), (ERROR_PAGED_SYSTEM_RESOURCES, ENOMEM), (ERROR_PAGEFILE_QUOTA, ENOMEM),
     (ERROR_PATH_NOT_FOUND, ENOENT), (ERROR_PIPE_NOT_CONNECTED, EPIPE), (ERROR_PORT_UNREACHABLE, ECONNRESET),
     (ERROR_PROTOCOL_UNREACHABLE, ENETUNREACH), (ERROR_REM_NOT_LIST, ECONNREFUSED), (ERROR_REQUEST_ABORTED, EINTR_win),
     (ERROR_REQ_NOT_ACCEP, EWOULDBLOCK_win), (ERROR_SECTOR_NOT_FOUND, EACCES), (ERROR_SEM_TIMEOUT, ETIMEDOUT),
     (ERROR_SHARING_VIOLATION, EACCES), (ERROR_TOO_MANY_NAMES, ENOMEM), (ERROR_TOO_MANY_OPEN_FILES, EMFILE),
     (ERROR_UNEXP_NET_ERR, ECONNABORTED), (ERROR_WAIT_NO_CHILDREN, ECHILD), (ERROR_WORKING_SET_QUOTA, ENOMEM),
     (ERROR_WRITE_PROTECT, EACCES), (ERROR_WRONG_DISK, EACCES), (WSAEACCES, EACCES),
     (WSAEADDRINUSE, EADDRINUSE), (WSAEADDRNOTAVAIL, EADDRNOTAVAIL), (WSAEAFNOSUPPORT, EAFNOSUPPORT),
     (WSAECONNABORTED, ECONNABORTED), (WSAECONNREFUSED, ECONNREFUSED), (WSAECONNRESET, ECONNRESET),
     (WSAEDISCON, EPIPE), (WSAEFAULT, EFAULT), (WSAEHOSTDOWN, EHOSTUNREACH),
     (WSAEHOSTUNREACH, EHOSTUNREACH), (WSAEINPROGRESS, EBUSY), (WSAEINTR, EINTR_win),
     (WSAEINVAL, EINVAL), (WSAEISCONN, EISCONN), (WSAEMSGSIZE, EMSGSIZE),
     (WSAENETDOWN, ENETDOWN), (WSAENETRESET, EHOSTUNREACH), (WSAENETUNREACH, ENETUNREACH),
     (WSAENOBUFS, ENOMEM), (WSAENOTCONN, ENOTCONN), (WSAENOTSOCK, ENOTSOCK),
     (WSAEOPNOTSUPP, EOPNOTSUPP), (WSAEPROCLIM, ENOMEM), (WSAESHUTDOWN, EPIPE),
     (WSAETIMEDOUT, ETIMEDOUT), (WSAEWOULDBLOCK, EWOULDBLOCK_win), (WSANOTINITIALISED, ENETDOWN),
     (WSASYSNOTREADY, ENETDOWN), (WSAVERNOTSUPPORTED, ENOSYS)]"

definition err_map_win_error_to_errno :: "int \<Rightarrow> errno" where
  "err_map_win_error_to_errno error = (case map_of err_errno_mappings error of Some e \<Rightarrow> e | None \<Rightarrow> EINVAL)"

lemmas errno_map_defs = err_map_win_error_to_errno_def err_errno_mappings_def error_defs win_error_defs

text \<open>The labels of the \<open>switch\<close> are pairwise different.\<close>

lemma errno_labels_distinct: "distinct (map fst err_errno_mappings)"
  by (simp add: err_errno_mappings_def error_defs win_error_defs)

lemma errno_own:
  "err_map_win_error_to_errno ERROR_INVALID_HANDLE = EBADF" "err_map_win_error_to_errno ERROR_INVALID_PARAMETER = EINVAL"
  "err_map_win_error_to_errno ERROR_NOT_FOUND = ENOENT" "err_map_win_error_to_errno ERROR_ALREADY_EXISTS = EEXIST"
  "err_map_win_error_to_errno ERROR_NOT_ENOUGH_MEMORY = ENOMEM" "err_map_win_error_to_errno WSAENOTSOCK = ENOTSOCK"
  by (simp_all add: errno_map_defs)

end
