(* ===== verification/Wepoll_Epoll.thy ===== *)
theory Wepoll_Epoll
  imports Wepoll_Wait Wepoll_Reflock Wepoll_Errno
begin

unbundle bit_operations_syntax

text \<open>
  The interface of src/src/wepoll.c (lines 555--688): the tree of open handles with a
  reference lock in each of its nodes (lines 1911--1976), the initialisation of the library
  (lines 815--911, 1535--1541, 2200--2209), \<open>epoll_create\<close>, \<open>epoll_ctl\<close>, \<open>epoll_wait\<close> and
  \<open>epoll_close\<close>.

  A port is identified with its handle tree node.  \<open>errno\<close> is the image of the last error
  that the code sets, and means something only after a call that failed.
\<close>

subsection \<open>State\<close>

record 'w epoll_env =
  sys_port :: "'w port_env"
  WSAStartup :: "'w \<Rightarrow> int \<times> 'w"
  GetModuleHandleW :: "'w \<Rightarrow> bool \<times> int \<times> 'w"
  GetProcAddress :: "string \<Rightarrow> 'w \<Rightarrow> bool \<times> int \<times> 'w"
  NtCreateKeyedEvent :: "'w \<Rightarrow> ntstatus \<times> 'w"
  GetHandleInformation :: "int \<Rightarrow> 'w \<Rightarrow> bool \<times> int \<times> 'w"

record 'w epoll_state =
  ep_init_done :: bool
  ep_handle_tree :: tree_t
  ep_reflock :: "addr \<rightharpoonup> reflock_t"
  ep_ports :: "addr \<rightharpoonup> 'w port"
  ep_brk :: addr
  ep_last_error :: int
  ep_errno :: errno
  ep_world :: 'w

type_synonym 'w epoll = "'w epoll_state"

text \<open>A call of the port at an address, with the thread's last error and the world.\<close>

definition on_port :: "addr \<Rightarrow> ('w port \<Rightarrow> ('r \<times> 'w port) option) \<Rightarrow> 'w epoll \<Rightarrow> ('r \<times> 'w epoll) option" where
  "on_port a f s = do {
     p \<leftarrow> ep_ports s a;
     (r, p) \<leftarrow> f (p\<lparr>ps_world := ep_world s, ps_last_error := ep_last_error s\<rparr>);
     Some (r, s\<lparr>ep_ports := (ep_ports s)(a \<mapsto> p), ep_last_error := ps_last_error p,
                ep_errno := err_map_win_error_to_errno (ps_last_error p), ep_world := ps_world p\<rparr>)
   }"

subsection \<open>Errors\<close>

definition err_map_win_error :: "'w epoll \<Rightarrow> 'w epoll" where
  "err_map_win_error s = s\<lparr>ep_errno := err_map_win_error_to_errno (ep_last_error s)\<rparr>"

definition err_set_win_error :: "int \<Rightarrow> 'w epoll \<Rightarrow> 'w epoll" where
  "err_set_win_error error s = s\<lparr>ep_last_error := error, ep_errno := err_map_win_error_to_errno error\<rparr>"

definition err_check_handle :: "'w epoll_env \<Rightarrow> int \<Rightarrow> 'w epoll \<Rightarrow> int \<times> 'w epoll" where
  "err_check_handle env handle s =
     (if handle = INVALID_HANDLE_VALUE then (-1, err_set_win_error ERROR_INVALID_HANDLE s)
      else let (ok, err, w) = GetHandleInformation env handle (ep_world s); s = s\<lparr>ep_world := w\<rparr>
           in if \<not> ok then (-1, err_map_win_error (s\<lparr>ep_last_error := err\<rparr>)) else (0, s))"

subsection \<open>The handle tree\<close>

definition ts_tree_init :: "'w epoll \<Rightarrow> 'w epoll" where
  "ts_tree_init s = s\<lparr>ep_handle_tree := tree_init (ep_handle_tree s)\<rparr>"

definition ts_tree_node_init :: "addr \<Rightarrow> 'w epoll \<Rightarrow> 'w epoll option" where
  "ts_tree_node_init node s = do {
     tree \<leftarrow> tree_node_init node (ep_handle_tree s);
     Some (s\<lparr>ep_handle_tree := tree, ep_reflock := (ep_reflock s)(node \<mapsto> reflock_init)\<rparr>)
   }"

definition ts_tree_add :: "addr \<Rightarrow> nat \<Rightarrow> 'w epoll \<Rightarrow> (int \<times> 'w epoll) option" where
  "ts_tree_add node key s = do {
     (r, tree) \<leftarrow> tree_add node key (ep_handle_tree s);
     Some (r, s\<lparr>ep_handle_tree := tree\<rparr>)
   }"

definition ts_tree_find_node :: "nat \<Rightarrow> 'w epoll \<Rightarrow> addr option option" where
  "ts_tree_find_node key s = tree_find (ep_handle_tree s) key"

definition ts_tree_ref :: "addr \<Rightarrow> 'w epoll \<Rightarrow> 'w epoll option" where
  "ts_tree_ref node s = do {
     l \<leftarrow> ep_reflock s node;
     l \<leftarrow> reflock_ref l;
     Some (s\<lparr>ep_reflock := (ep_reflock s)(node \<mapsto> l)\<rparr>)
   }"

definition ts_tree_del_and_ref :: "nat \<Rightarrow> 'w epoll \<Rightarrow> (addr option \<times> 'w epoll) option" where
  "ts_tree_del_and_ref key s = do {
     ts_tree_node \<leftarrow> ts_tree_find_node key s;
     case ts_tree_node of None \<Rightarrow> Some (None, s)
     | Some a \<Rightarrow> do {
         tree \<leftarrow> tree_del a (ep_handle_tree s);
         s \<leftarrow> ts_tree_ref a (s\<lparr>ep_handle_tree := tree\<rparr>);
         Some (Some a, s)
       }
   }"

definition ts_tree_find_and_ref :: "nat \<Rightarrow> 'w epoll \<Rightarrow> (addr option \<times> 'w epoll) option" where
  "ts_tree_find_and_ref key s = do {
     ts_tree_node \<leftarrow> ts_tree_find_node key s;
     case ts_tree_node of None \<Rightarrow> Some (None, s)
     | Some a \<Rightarrow> do { s \<leftarrow> ts_tree_ref a s; Some (Some a, s) }
   }"

text \<open>The flag says whether the thread that waits to destroy the node is woken.\<close>

definition ts_tree_node_unref :: "addr \<Rightarrow> 'w epoll \<Rightarrow> (bool \<times> 'w epoll) option" where
  "ts_tree_node_unref node s = do {
     l \<leftarrow> ep_reflock s node;
     (signal, l) \<leftarrow> reflock_unref l;
     Some (signal, s\<lparr>ep_reflock := (ep_reflock s)(node \<mapsto> l)\<rparr>)
   }"

text \<open>\<open>ts_tree_node_unref_and_destroy\<close>, before and after the wait for the event.\<close>

definition ts_tree_destroy_begin :: "addr \<Rightarrow> 'w epoll \<Rightarrow> (bool \<times> 'w epoll) option" where
  "ts_tree_destroy_begin node s = do {
     l \<leftarrow> ep_reflock s node;
     (await, l) \<leftarrow> reflock_destroy_begin l;
     Some (await, s\<lparr>ep_reflock := (ep_reflock s)(node \<mapsto> l)\<rparr>)
   }"

definition ts_tree_destroy_end :: "addr \<Rightarrow> 'w epoll \<Rightarrow> 'w epoll option" where
  "ts_tree_destroy_end node s = do {
     l \<leftarrow> ep_reflock s node;
     l \<leftarrow> reflock_destroy_end l;
     Some (s\<lparr>ep_reflock := (ep_reflock s)(node \<mapsto> l)\<rparr>)
   }"

subsection \<open>Initialisation\<close>

definition ws_global_init :: "'w epoll_env \<Rightarrow> 'w epoll \<Rightarrow> int \<times> 'w epoll" where
  "ws_global_init env s =
     (let (r, w) = WSAStartup env (ep_world s); s = s\<lparr>ep_world := w\<rparr>
      in if r \<noteq> 0 then (-1, err_set_win_error r s) else (0, s))"

definition NT_NTDLL_IMPORT_LIST :: "string list" where
  "NT_NTDLL_IMPORT_LIST = [''NtCancelIoFileEx'', ''NtCreateFile'', ''NtCreateKeyedEvent'', ''NtDeviceIoControlFile'',
     ''NtReleaseKeyedEvent'', ''NtWaitForKeyedEvent'', ''RtlNtStatusToDosError'']"

text \<open>The statements that the import list expands to.  The system sets the last error.\<close>

primrec nt_imports :: "'w epoll_env \<Rightarrow> string list \<Rightarrow> 'w epoll \<Rightarrow> int \<times> 'w epoll" where
  "nt_imports env [] s = (0, s)"
| "nt_imports env (name # names) s =
     (let (found, err, w) = GetProcAddress env name (ep_world s); s = s\<lparr>ep_world := w\<rparr>
      in if \<not> found then (-1, s\<lparr>ep_last_error := err\<rparr>) else nt_imports env names s)"

definition nt_global_init :: "'w epoll_env \<Rightarrow> 'w epoll \<Rightarrow> int \<times> 'w epoll" where
  "nt_global_init env s =
     (let (found, err, w) = GetModuleHandleW env (ep_world s); s = s\<lparr>ep_world := w\<rparr>
      in if \<not> found then (-1, s\<lparr>ep_last_error := err\<rparr>) else nt_imports env NT_NTDLL_IMPORT_LIST s)"

definition reflock_global_init :: "'w epoll_env \<Rightarrow> 'w epoll \<Rightarrow> int \<times> 'w epoll" where
  "reflock_global_init env s =
     (let (status, w) = NtCreateKeyedEvent env (ep_world s); s = s\<lparr>ep_world := w\<rparr>
      in if status \<noteq> STATUS_SUCCESS then (-1, err_set_win_error (RtlNtStatusToDosError (sys_port env) status) s) else (0, s))"

definition epoll_global_init :: "'w epoll \<Rightarrow> int \<times> 'w epoll" where
  "epoll_global_init s = (0, ts_tree_init s)"

definition init_once_callback :: "'w epoll_env \<Rightarrow> 'w epoll \<Rightarrow> bool \<times> 'w epoll" where
  "init_once_callback env s =
     (let (r, s) = ws_global_init env s in if r < 0 then (False, s)
      else let (r, s) = nt_global_init env s in if r < 0 then (False, s)
      else let (r, s) = reflock_global_init env s in if r < 0 then (False, s)
      else let (r, s) = epoll_global_init s in if r < 0 then (False, s)
      else (True, s\<lparr>ep_init_done := True\<rparr>))"

text \<open>A callback that gives FALSE runs again at the next call.\<close>

definition epoll_init :: "'w epoll_env \<Rightarrow> 'w epoll \<Rightarrow> int \<times> 'w epoll" where
  "epoll_init env s =
     (if ep_init_done s then (0, s)
      else let (ok, s) = init_once_callback env s in (if ok then 0 else -1, s))"

subsection \<open>The interface\<close>

text \<open>\<open>(uintptr_t) ephnd\<close> and \<open>(HANDLE) sock\<close>.\<close>

definition handle_key :: "int \<Rightarrow> nat" where
  "handle_key h = unat (word_of_int h :: 64 word)"

definition sock_handle :: "nat \<Rightarrow> int" where
  "sock_handle sock = sint (of_nat sock :: 64 word)"

text \<open>The memory of a port: its handle tree node is in it.\<close>

definition port_alloc :: "'w port \<Rightarrow> 'w epoll \<Rightarrow> addr \<times> 'w epoll" where
  "port_alloc p s = (let a = ep_brk s in
     (a, s\<lparr>ep_brk := a + 1, ep_ports := (ep_ports s)(a \<mapsto> p), ep_reflock := (ep_reflock s)(a \<mapsto> 0),
          ep_handle_tree := (ep_handle_tree s)\<lparr>tr_nodes := (tr_nodes (ep_handle_tree s))
            (a \<mapsto> \<lparr>tn_left = None, tn_right = None, tn_parent = None, tn_key = 0, tn_red = False\<rparr>)\<rparr>\<rparr>))"

definition port_free :: "addr \<Rightarrow> 'w epoll \<Rightarrow> 'w epoll" where
  "port_free a s = s\<lparr>ep_ports := (ep_ports s)(a := None), ep_reflock := (ep_reflock s)(a := None),
     ep_handle_tree := (ep_handle_tree s)\<lparr>tr_nodes := (tr_nodes (ep_handle_tree s))(a := None)\<rparr>\<rparr>"

text \<open>\<open>port_delete\<close> with the \<open>port__free\<close> at its end.\<close>

definition port_delete_at :: "'w epoll_env \<Rightarrow> addr \<Rightarrow> 'w epoll \<Rightarrow> (int \<times> 'w epoll) option" where
  "port_delete_at env a s = do {
     (r, s) \<leftarrow> on_port a (port_delete (sys_port env)) s;
     Some (r, port_free a s)
   }"

definition epoll_create_port :: "'w epoll_env \<Rightarrow> 'w epoll \<Rightarrow> (int option \<times> 'w epoll) option" where
  "epoll_create_port env s =
     (let (r, s) = epoll_init env s
      in if r < 0 then Some (None, s)
         else do {
           (port_state, err, w) \<leftarrow> port_new (sys_port env) (ep_world s);
           let s = s\<lparr>ep_world := w\<rparr>;
           case port_state of None \<Rightarrow> Some (None, err_set_win_error err s)
           | Some (ephnd, p) \<Rightarrow> do {
               let (a, s) = port_alloc p s;
               s \<leftarrow> ts_tree_node_init a s;
               (r, s) \<leftarrow> ts_tree_add a (handle_key ephnd) s;
               if r < 0 then do {
                 (_, s) \<leftarrow> port_delete_at env a s;
                 Some (None, err_set_win_error ERROR_ALREADY_EXISTS s)
               } else Some (Some ephnd, s)
             }
         })"

definition epoll_create_win :: "'w epoll_env \<Rightarrow> int \<Rightarrow> 'w epoll \<Rightarrow> (int option \<times> 'w epoll) option" where
  "epoll_create_win env sz s =
     (if sz \<le> 0 then Some (None, err_set_win_error ERROR_INVALID_PARAMETER s) else epoll_create_port env s)"

definition epoll_create1_win :: "'w epoll_env \<Rightarrow> int \<Rightarrow> 'w epoll \<Rightarrow> (int option \<times> 'w epoll) option" where
  "epoll_create1_win env flags s =
     (if flags \<noteq> 0 then Some (None, err_set_win_error ERROR_INVALID_PARAMETER s) else epoll_create_port env s)"

text \<open>
  The three calls below are run by one thread while no other is in the library; one that
  would wait for another thread has no result.
\<close>

definition epoll_close :: "'w epoll_env \<Rightarrow> int \<Rightarrow> 'w epoll \<Rightarrow> (int \<times> 'w epoll) option" where
  "epoll_close env ephnd s =
     (let (r, s) = epoll_init env s
      in if r < 0 then Some (-1, s)
         else do {
           (tree_node, s) \<leftarrow> ts_tree_del_and_ref (handle_key ephnd) s;
           case tree_node of
             None \<Rightarrow> Some (-1, snd (err_check_handle env ephnd (err_set_win_error ERROR_INVALID_PARAMETER s)))
           | Some a \<Rightarrow> do {
               (_, s) \<leftarrow> on_port a (\<lambda>p. Some (port_close (sys_port env) p)) s;
               (await, s) \<leftarrow> ts_tree_destroy_begin a s;
               if await then None
               else do {
                 s \<leftarrow> ts_tree_destroy_end a s;
                 port_delete_at env a s
               }
             }
         })"

definition epoll_ctl_err :: "'w epoll_env \<Rightarrow> int \<Rightarrow> nat \<Rightarrow> 'w epoll \<Rightarrow> int \<times> 'w epoll" where
  "epoll_ctl_err env ephnd sock s =
     (let (_, s) = err_check_handle env ephnd s; (_, s) = err_check_handle env (sock_handle sock) s in (-1, s))"

definition epoll_ctl_win :: "'w epoll_env \<Rightarrow> int \<Rightarrow> int \<Rightarrow> nat \<Rightarrow> epoll_event_t \<Rightarrow> 'w epoll \<Rightarrow> (int \<times> 'w epoll) option" where
  "epoll_ctl_win env ephnd op sock ev s =
     (let (r, s) = epoll_init env s
      in if r < 0 then Some (-1, s)
         else do {
           (tree_node, s) \<leftarrow> ts_tree_find_and_ref (handle_key ephnd) s;
           case tree_node of
             None \<Rightarrow> Some (epoll_ctl_err env ephnd sock (err_set_win_error ERROR_INVALID_PARAMETER s))
           | Some a \<Rightarrow> do {
               (r, s) \<leftarrow> on_port a (port_ctl (sys_port env) op sock ev) s;
               (_, s) \<leftarrow> ts_tree_node_unref a s;
               if r < 0 then Some (epoll_ctl_err env ephnd sock s) else Some (0, s)
             }
         })"

definition epoll_wait_win :: "'w epoll_env \<Rightarrow> int \<Rightarrow> int \<Rightarrow> int \<Rightarrow> 'w epoll \<Rightarrow> (int \<times> epoll_event_t list \<times> 'w epoll) option" where
  "epoll_wait_win env ephnd maxevents timeout s =
     (if maxevents \<le> 0 then Some (-1, [], err_set_win_error ERROR_INVALID_PARAMETER s)
      else let (r, s) = epoll_init env s
      in if r < 0 then Some (-1, [], s)
         else do {
           (tree_node, s) \<leftarrow> ts_tree_find_and_ref (handle_key ephnd) s;
           case tree_node of
             None \<Rightarrow> Some (-1, [], snd (err_check_handle env ephnd (err_set_win_error ERROR_INVALID_PARAMETER s)))
           | Some a \<Rightarrow> do {
               ((num_events, evs), s) \<leftarrow> on_port a (\<lambda>p. map_option (\<lambda>(r, evs, p). ((r, evs), p)) (port_wait (sys_port env) maxevents timeout p)) s;
               (_, s) \<leftarrow> ts_tree_node_unref a s;
               if num_events < 0 then Some (-1, evs, snd (err_check_handle env ephnd s)) else Some (num_events, evs, s)
             }
         })"

end
