(* ===== verification/Wepoll_Handles.thy ===== *)
theory Wepoll_Handles
  imports Wepoll_Epoll
begin

unbundle bit_operations_syntax

text \<open>
  Threads that share epoll handles (src/src/wepoll.c lines 598--688).  A thread looks a
  handle up and holds a reference to its port while it works on it; another one may close
  the handle in the meantime.  The references, the wait for them to be given back and the
  deletion of the port are the steps of a transition system; its invariant ties the lock
  word of every port to the threads that hold it.
\<close>

subsection \<open>Work on a port\<close>

text \<open>What \<open>epoll_ctl\<close> and \<open>epoll_wait\<close> do to the port, each with the port's lock held.\<close>

datatype port_call =
    Call_Ctl int nat epoll_event_t
  | Call_Enter
  | Call_Dequeue nat "32 word"
  | Call_Leave "(addr \<times> completion) list option \<times> int"
  | Call_Update

fun port_call_run :: "'w port_env \<Rightarrow> port_call \<Rightarrow> 'w port \<Rightarrow> (int \<times> 'w port) option" where
  "port_call_run env (Call_Ctl op sock ev) p = port_ctl env op sock ev p"
| "port_call_run env Call_Enter p = port_poll_enter env p"
| "port_call_run env (Call_Dequeue n timeout) p = Some (0, snd (port_poll_dequeue env n timeout p))"
| "port_call_run env (Call_Leave res) p = map_option (\<lambda>(r, evs, p). (r, p)) (port_poll_leave env res p)"
| "port_call_run env Call_Update p = map_option (Pair 0) (port_update_events_if_polling env p)"

text \<open>
  A port that another thread has closed has no completion port any more.  Adding a socket to
  it that needs a new poll group then fails the assertion of \<open>port_get_iocp_handle\<close>; such a
  call has no result, and is no step below.
\<close>

lemma closed_no_group: "poll_group_new env (snd (port_close env p)) = None"
  by (simp add: poll_group_new_def port_get_iocp_handle_def port_close_def Let_def split: prod.split)

text \<open>No call invalidates a port, whether it is open or closed, or changes its handle.\<close>

lemma feed_events_inv:
  assumes "port_feed_events env cs p = Some (evs, q)" "port_inv p"
  shows "port_inv q"
  using assms
proof (induction cs arbitrary: p evs)
  case (Cons x cs)
  obtain a io where x: "x = (a, io)" by fastforce
  obtain r ev p1 evs1 where p1: "sock_feed_event env a io p = Some (r, ev, p1)" "port_feed_events env cs p1 = Some (evs1, q)"
    using Cons.prems(1) x by (auto simp: bind_eq_Some_conv split: prod.splits)
  obtain U D G where rep: "port_rep p {} U D G" using Cons.prems(2) by (auto simp: port_inv_def)
  have "ps_socks p a \<noteq> None" using p1(1) by (auto simp: sock_feed_event_def upd_sock_def bind_eq_Some_conv)
  then obtain so where "ps_socks p a = Some so" by blast
  then have "port_inv p1" using feed_rep [OF rep, of a so env io] p1(1) by (auto intro: port_invI)
  then show ?case using Cons.IH p1(2) by blast
qed simp

lemma port_inv_frame [simp]:
  "port_inv (p\<lparr>ps_world := w\<rparr>) = port_inv p" "port_inv (p\<lparr>ps_last_error := e\<rparr>) = port_inv p"
  "port_inv (p\<lparr>ps_active_poll_count := c\<rparr>) = port_inv p" "port_inv (p\<lparr>ps_iocp_handle := h\<rparr>) = port_inv p"
  by (simp_all add: port_inv_def)

lemma port_call_inv:
  assumes c: "port_call_run env c p = Some (r, q)" and p: "port_inv p" "chain_ends env rank"
  shows "port_inv q \<and> ps_iocp_handle q = ps_iocp_handle p"
proof (cases c)
  case (Call_Ctl op sock ev)
  then show ?thesis using ctl_refines [OF p(1) _ p(2), of op sock ev] c by auto
next
  case Call_Enter
  obtain U D G where rep: "port_rep p {} U D G" using p(1) by (auto simp: port_inv_def)
  obtain r' q' U' D' G' where u: "port_update_events env p = Some (r', q')" "port_rep q' {} U' D' G'"
    using update_events_rep [OF rep, of env] by blast
  have "ps_iocp_handle q' = ps_iocp_handle p" using kept_counts [of p q'] postD [OF kp.update_events_R u(1)] by simp
  then show ?thesis using Call_Enter c u port_invI [OF u(2)] by (auto simp: port_poll_enter_def split: if_splits)
next
  case (Call_Dequeue n t)
  then show ?thesis using c p(1) by (auto simp: port_poll_dequeue_def split: prod.splits)
next
  case (Call_Leave res)
  then obtain evs where l: "port_poll_leave env res p = Some (r, evs, q)" using c by (auto split: prod.splits)
  let ?p = "p\<lparr>ps_active_poll_count := ps_active_poll_count p - 1\<rparr>"
  have "port_inv q \<and> ps_iocp_handle q = ps_iocp_handle p" if f: "port_feed_events env cs ?p = Some (e, q)" for cs e
    using feed_events_inv [OF f] kept_counts [of ?p q] postD [OF kp.feed_events_R f] p(1) by simp
  then show ?thesis using l p(1) by (auto simp: port_poll_leave_def Let_def bind_eq_Some_conv split: option.splits prod.splits)
next
  case Call_Update
  obtain U D G where rep: "port_rep p {} U D G" using p(1) by (auto simp: port_inv_def)
  obtain q' U' D' G' where u: "port_update_events_if_polling env p = Some q'" "port_rep q' {} U' D' G'"
    using if_polling_ok [OF rep, of env] by blast
  have "ps_iocp_handle q' = ps_iocp_handle p" using kept_counts [of p q'] postD [OF kp.if_polling_R u(1)] by simp
  then show ?thesis using Call_Update c u port_invI [OF u(2)] by auto
qed

subsection \<open>Threads\<close>

text \<open>
  Where a thread is: outside; with a reference to a port; or on its way through \<open>epoll_close\<close>:
  before \<open>port_close\<close>, before it gives up its own reference, waiting for those of the
  others, woken, and about to delete the port.
\<close>

datatype hphase = Away | Using addr | Closing addr | Closed addr | Awaiting addr | Ready addr | Deleting addr

fun held :: "hphase \<Rightarrow> addr option" where
  "held Away = None"
| "held (Using a) = Some a"
| "held (Closing a) = Some a"
| "held (Closed a) = Some a"
| "held (Awaiting a) = Some a"
| "held (Ready a) = Some a"
| "held (Deleting a) = Some a"

text \<open>The next thing a thread does; the port whose closing thread it wakes; the new state.\<close>

fun finish_step :: "'w epoll_env \<Rightarrow> hphase \<Rightarrow> 'w epoll \<Rightarrow> (hphase \<times> addr option \<times> 'w epoll) option" where
  "finish_step env Away s = None"
| "finish_step env (Using a) s = do {
     (signal, s) \<leftarrow> ts_tree_node_unref a s;
     Some (Away, if signal then Some a else None, s)
   }"
| "finish_step env (Closing a) s = do {
     (_, s) \<leftarrow> on_port a (\<lambda>p. Some (port_close (sys_port env) p)) s;
     Some (Closed a, None, s)
   }"
| "finish_step env (Closed a) s = do {
     (await, s) \<leftarrow> ts_tree_destroy_begin a s;
     Some (if await then Awaiting a else Ready a, None, s)
   }"
| "finish_step env (Awaiting a) s = None"
| "finish_step env (Ready a) s = do {
     s \<leftarrow> ts_tree_destroy_end a s;
     Some (Deleting a, None, s)
   }"
| "finish_step env (Deleting a) s = do {
     (_, s) \<leftarrow> port_delete_at env a s;
     Some (Away, None, s)
   }"

definition wake_up :: "addr option \<Rightarrow> (nat \<Rightarrow> hphase) \<Rightarrow> nat \<Rightarrow> hphase" where
  "wake_up w T t = (case w of Some a \<Rightarrow> if T t = Awaiting a then Ready a else T t | None \<Rightarrow> T t)"

record 'w handle_sys =
  hs_ep :: "'w epoll"
  hs_thr :: "nat \<Rightarrow> hphase"

text \<open>At most \<open>n\<close> threads.\<close>

inductive handle_step :: "'w epoll_env \<Rightarrow> nat \<Rightarrow> 'w handle_sys \<Rightarrow> 'w handle_sys \<Rightarrow> bool" for env n where
  create: "epoll_create_port env (hs_ep s) = Some (r, ep) \<Longrightarrow> handle_step env n s (s\<lparr>hs_ep := ep\<rparr>)"
| find: "t < n \<Longrightarrow> hs_thr s t = Away \<Longrightarrow> ts_tree_find_and_ref key (hs_ep s) = Some (Some a, ep) \<Longrightarrow>
    handle_step env n s (s\<lparr>hs_ep := ep, hs_thr := (hs_thr s)(t := Using a)\<rparr>)"
| work: "hs_thr s t = Using a \<Longrightarrow> on_port a (port_call_run (sys_port env) c) (hs_ep s) = Some (r, ep) \<Longrightarrow>
    handle_step env n s (s\<lparr>hs_ep := ep\<rparr>)"
| delete: "t < n \<Longrightarrow> hs_thr s t = Away \<Longrightarrow> ts_tree_del_and_ref key (hs_ep s) = Some (Some a, ep) \<Longrightarrow>
    handle_step env n s (s\<lparr>hs_ep := ep, hs_thr := (hs_thr s)(t := Closing a)\<rparr>)"
| finish: "finish_step env (hs_thr s t) (hs_ep s) = Some (ph, w, ep) \<Longrightarrow>
    handle_step env n s (s\<lparr>hs_ep := ep, hs_thr := (wake_up w (hs_thr s))(t := ph)\<rparr>)"

definition epoll_start :: "'w \<Rightarrow> 'w epoll" where
  "epoll_start w = \<lparr>ep_init_done = False, ep_handle_tree = \<lparr>tr_root = None, tr_nodes = Map.empty\<rparr>, ep_reflock = Map.empty,
     ep_ports = Map.empty, ep_brk = 1, ep_last_error = 0, ep_errno = EINVAL, ep_world = w\<rparr>"

inductive handle_reach :: "'w epoll_env \<Rightarrow> nat \<Rightarrow> 'w handle_sys \<Rightarrow> bool" for env n where
  start: "handle_reach env n \<lparr>hs_ep = epoll_start w, hs_thr = \<lambda>_. Away\<rparr>"
| step: "handle_reach env n s \<Longrightarrow> handle_step env n s s' \<Longrightarrow> handle_reach env n s'"

subsection \<open>References\<close>

fun closes :: "hphase \<Rightarrow> addr option" where
  "closes (Closing a) = Some a"
| "closes (Closed a) = Some a"
| "closes (Awaiting a) = Some a"
| "closes (Ready a) = Some a"
| "closes (Deleting a) = Some a"
| "closes _ = None"

text \<open>The phases that count in the lock word.\<close>

fun shares :: "hphase \<Rightarrow> addr option" where
  "shares (Using a) = Some a"
| "shares (Closing a) = Some a"
| "shares (Closed a) = Some a"
| "shares _ = None"

definition refcount :: "(nat \<Rightarrow> hphase) \<Rightarrow> addr \<Rightarrow> nat" where
  "refcount T a = card {t. shares (T t) = Some a}"

lemma held_cases: "held x = (if closes x = None then shares x else closes x)"
  by (cases x) auto

lemma closes_held: "closes x = Some a \<Longrightarrow> held x = Some a"
  by (simp add: held_cases)

lemma shares_held: "shares x = Some a \<Longrightarrow> held x = Some a"
  by (cases x) auto

definition threads_below :: "nat \<Rightarrow> (nat \<Rightarrow> hphase) \<Rightarrow> bool" where
  "threads_below n T \<longleftrightarrow> (\<forall>t. T t \<noteq> Away \<longrightarrow> t < n)"

lemma sharers_below: "threads_below n T \<Longrightarrow> {t. shares (T t) = Some a} \<subseteq> {..<n}"
  by (auto simp: threads_below_def) (metis option.distinct(1) shares.simps(4))

lemma refcount_le: "threads_below n T \<Longrightarrow> refcount T a \<le> n"
  unfolding refcount_def using card_mono [OF _ sharers_below [of n T a]] by simp

lemma refcount_in:
  assumes "threads_below n T" "shares (T t) = Some a" "shares x \<noteq> Some a"
  shows "refcount T a = Suc (refcount (T(t := x)) a)"
proof -
  have "finite {u. shares (T u) = Some a}" using sharers_below [OF assms(1), of a] by (rule finite_subset) simp
  moreover have "{u. shares ((T(t := x)) u) = Some a} = {u. shares (T u) = Some a} - {t}" using assms(3) by auto
  moreover have "t \<in> {u. shares (T u) = Some a}" using assms(2) by simp
  ultimately show ?thesis unfolding refcount_def by (metis card_Suc_Diff1)
qed

lemma refcount_new:
  assumes "threads_below n T" "shares (T t) \<noteq> Some a" "shares x = Some a"
  shows "refcount (T(t := x)) a = Suc (refcount T a)"
proof -
  have "finite {u. shares (T u) = Some a}" using sharers_below [OF assms(1), of a] by (rule finite_subset) simp
  moreover have "{u. shares ((T(t := x)) u) = Some a} = insert t {u. shares (T u) = Some a}" using assms(3) by auto
  ultimately show ?thesis using assms(2) by (simp add: refcount_def)
qed

lemma refcount_same: "shares x = shares (T t) \<Longrightarrow> refcount (T(t := x)) a = refcount T a"
proof -
  assume "shares x = shares (T t)"
  then have "shares ((T(t := x)) u) = shares (T u)" for u by simp
  then show ?thesis by (simp add: refcount_def)
qed

lemma refcount_zero: "threads_below n T \<Longrightarrow> refcount T a = 0 \<longleftrightarrow> (\<forall>t. shares (T t) \<noteq> Some a)"
proof -
  assume "threads_below n T"
  from finite_subset [OF sharers_below [OF this, of a]] show ?thesis by (auto simp: refcount_def)
qed

lemma wake_shares [simp]: "shares (wake_up w T t) = shares (T t)" "closes (wake_up w T t) = closes (T t)" "held (wake_up w T t) = held (T t)"
  by (auto simp: wake_up_def split: option.split)

lemma wake_away [simp]: "wake_up w T t = Away \<longleftrightarrow> T t = Away"
  by (auto simp: wake_up_def split: option.split)

lemma wake_None [simp]: "wake_up None T = T"
  by (simp add: wake_up_def fun_eq_iff)

lemma wake_refcount [simp]: "refcount (wake_up w T) a = refcount T a"
  by (simp add: refcount_def)

subsection \<open>The invariant\<close>

text \<open>The lock word and the handle of a port, from the phase of the thread that closes it.\<close>

fun stage_ok :: "hphase \<Rightarrow> nat \<Rightarrow> reflock_t \<Rightarrow> int option \<Rightarrow> bool" where
  "stage_ok (Closing a) r l h \<longleftrightarrow> l = live r \<and> h \<noteq> None"
| "stage_ok (Closed a) r l h \<longleftrightarrow> l = live r \<and> h = None"
| "stage_ok (Awaiting a) r l h \<longleftrightarrow> l = dying r \<and> 0 < r \<and> h = None"
| "stage_ok (Ready a) r l h \<longleftrightarrow> l = dying r \<and> r = 0 \<and> h = None"
| "stage_ok (Deleting a) r l h \<longleftrightarrow> l = REFLOCK_POISON \<and> r = 0 \<and> h = None"
| "stage_ok _ r l h \<longleftrightarrow> l = live r \<and> h \<noteq> None"

definition port_ok :: "(nat \<Rightarrow> hphase) \<Rightarrow> bool \<Rightarrow> addr \<Rightarrow> reflock_t \<Rightarrow> 'w port \<Rightarrow> bool" where
  "port_ok T in_tree a l p \<longleftrightarrow> port_inv p \<and>
     (if in_tree then (\<forall>t. closes (T t) \<noteq> Some a) \<and> l = live (refcount T a) \<and> ps_iocp_handle p \<noteq> None
      else \<exists>t. (\<forall>u. closes (T u) = Some a \<longleftrightarrow> u = t) \<and> stage_ok (T t) (refcount T a) l (ps_iocp_handle p))"

definition handle_index :: "(nat \<Rightarrow> hphase) \<Rightarrow> 'w epoll \<Rightarrow> (nat \<rightharpoonup> addr) \<Rightarrow> bool" where
  "handle_index T s f \<longleftrightarrow> tr.indexes (ep_handle_tree s) f \<and> dom (tr_nodes (ep_handle_tree s)) = dom (ep_ports s) \<and>
     dom (ep_reflock s) = dom (ep_ports s) \<and> (\<forall>a\<in>dom (ep_ports s). a < ep_brk s) \<and> ran f \<subseteq> dom (ep_ports s) \<and>
     (\<not> ep_init_done s \<longrightarrow> ep_ports s = Map.empty) \<and>
     (\<forall>a p l. ep_ports s a = Some p \<longrightarrow> ep_reflock s a = Some l \<longrightarrow> port_ok T (a \<in> ran f) a l p)"

definition handle_inv :: "nat \<Rightarrow> (nat \<Rightarrow> hphase) \<Rightarrow> 'w epoll \<Rightarrow> bool" where
  "handle_inv n T s \<longleftrightarrow> threads_below n T \<and> (\<forall>t a. held (T t) = Some a \<longrightarrow> a \<in> dom (ep_ports s)) \<and> (\<exists>f. handle_index T s f)"

lemma port_ok_cong:
  assumes "\<And>t. held (T t) = Some a \<or> held (T' t) = Some a \<Longrightarrow> T' t = T t"
  shows "port_ok T' x a l p = port_ok T x a l p"
proof -
  have s: "shares (T' t) = Some a \<longleftrightarrow> shares (T t) = Some a" and c: "closes (T' t) = Some a \<longleftrightarrow> closes (T t) = Some a" for t
    using assms [of t] shares_held closes_held by metis+
  have "refcount T' a = refcount T a" by (simp add: refcount_def s)
  moreover have "(\<forall>u. closes (T u) = Some a \<longleftrightarrow> u = t) \<and> stage_ok (T' t) k l h \<longleftrightarrow>
      (\<forall>u. closes (T u) = Some a \<longleftrightarrow> u = t) \<and> stage_ok (T t) k l h" for t k h
    using assms closes_held by metis
  ultimately show ?thesis unfolding port_ok_def c by simp
qed

text \<open>A step that concerns one port.\<close>

lemma one_port_step:
  assumes inv: "handle_inv n T s" "handle_index T s f" "a \<in> dom (ep_ports s)"
    and t: "threads_below n T'" "\<And>t b. b \<noteq> a \<Longrightarrow> held (T t) = Some b \<or> held (T' t) = Some b \<Longrightarrow> T' t = T t"
    and f': "tr.indexes (ep_handle_tree s') f'" "dom (tr_nodes (ep_handle_tree s')) = dom (tr_nodes (ep_handle_tree s))"
      "ran f' - {a} = ran f - {a}"
    and s': "ep_ports s' = (ep_ports s)(a \<mapsto> p)" "ep_reflock s' = (ep_reflock s)(a \<mapsto> l)" "ep_brk s' = ep_brk s"
      "ep_init_done s' = ep_init_done s"
    and ok: "port_ok T' (a \<in> ran f') a l p"
  shows "handle_inv n T' s'"
proof -
  have other: "port_ok T' (b \<in> ran f') b l' q = port_ok T (b \<in> ran f) b l' q" if "b \<noteq> a" for b l' q
  proof -
    have "b \<in> ran f' \<longleftrightarrow> b \<in> ran f" using that f'(3) by (metis Diff_iff singletonD)
    moreover have "port_ok T' x b l' q = port_ok T x b l' q" for x by (rule port_ok_cong) (rule t(2) [OF that])
    ultimately show ?thesis by simp
  qed
  have "ran f \<subseteq> dom (ep_ports s)" using inv(2) by (simp add: handle_index_def)
  then have "ran f' \<subseteq> dom (ep_ports s)" using f'(3) inv(3) by blast
  moreover have "port_ok T' (b \<in> ran f') b l' q" if "ep_ports s' b = Some q" "ep_reflock s' b = Some l'" for b l' q
  proof (cases "b = a")
    case False
    then have "ep_ports s b = Some q" "ep_reflock s b = Some l'" using that s'(1,2) by simp_all
    then have "port_ok T (b \<in> ran f) b l' q" using inv(2) unfolding handle_index_def by blast
    then show ?thesis using other [OF False] by blast
  next
    case True
    then have "q = p" "l' = l" using that s'(1,2) by simp_all
    then show ?thesis using ok True by blast
  qed
  moreover have "dom (ep_ports s') = dom (ep_ports s)" using s'(1) inv(3) by (simp add: insert_absorb)
  moreover have "dom (ep_reflock s') = dom (ep_reflock s)" using s'(2) inv(2,3) by (simp add: handle_index_def insert_absorb)
  moreover have "ep_init_done s" using inv(2,3) unfolding handle_index_def by force
  ultimately have "handle_index T' s' f'" using inv(2) f'(1,2) s'(3,4) unfolding handle_index_def by metis
  moreover have "b \<in> dom (ep_ports s')" if h: "held (T' t) = Some b" for t b
  proof (cases "b = a")
    case False
    then have "T' t = T t" using t(2) h by blast
    then show ?thesis using h inv(1) s'(1) by (auto simp: handle_inv_def)
  qed (simp add: s'(1))
  ultimately show ?thesis using t(1) unfolding handle_inv_def by blast
qed

lemma handle_port:
  assumes "handle_index T s f" "a \<in> dom (ep_ports s)"
  obtains p l where "ep_ports s a = Some p" "ep_reflock s a = Some l" "port_ok T (a \<in> ran f) a l p"
proof -
  have "a \<in> dom (ep_reflock s)" using assms by (simp add: handle_index_def)
  then show ?thesis using that assms unfolding handle_index_def by blast
qed

lemma below_upd: "threads_below n T \<Longrightarrow> t < n \<Longrightarrow> threads_below n (T(t := x))"
  by (simp add: threads_below_def)

lemma below_thread: "threads_below n T \<Longrightarrow> T t \<noteq> Away \<Longrightarrow> t < n"
  by (simp add: threads_below_def)

lemma ref_step:
  assumes "threads_below n T" "n < 2 ^ 28" "t < n" "T t = Away" "shares x = Some a"
  shows "reflock_ref (live (refcount T a)) = Some (live (refcount (T(t := x)) a))"
    "refcount (T(t := x)) a = Suc (refcount T a)"
proof -
  show "refcount (T(t := x)) a = Suc (refcount T a)" by (rule refcount_new [OF assms(1)]) (simp_all add: assms(4,5))
  moreover have "refcount (T(t := x)) a < 2 ^ 28" using refcount_le [OF below_upd [OF assms(1,3)], of x a] assms(2) by simp
  ultimately show "reflock_ref (live (refcount T a)) = Some (live (refcount (T(t := x)) a))" using ref_live by simp
qed

lemma find_ok:
  assumes inv: "handle_inv n T s" and n: "n < 2 ^ 28" and t: "t < n" "T t = Away"
  shows "\<exists>r s'. ts_tree_find_and_ref key s = Some (r, s') \<and>
    (case r of None \<Rightarrow> s' = s | Some a \<Rightarrow> handle_inv n (T(t := Using a)) s')"
proof -
  obtain f where f: "handle_index T s f" and below: "threads_below n T" using inv by (auto simp: handle_inv_def)
  have look: "ts_tree_find_node key s = Some (f key)"
    using f tr.find_indexes [of "ep_handle_tree s" f] by (simp add: handle_index_def ts_tree_find_node_def)
  show ?thesis
  proof (cases "f key")
    case None
    then show ?thesis using look by (simp add: ts_tree_find_and_ref_def)
  next
    case (Some a)
    have a: "a \<in> ran f" using Some by (rule ranI)
    then have dom: "a \<in> dom (ep_ports s)" using f by (auto simp: handle_index_def)
    from handle_port [OF f dom] obtain p l where p: "ep_ports s a = Some p" "ep_reflock s a = Some l" "port_ok T (a \<in> ran f) a l p" by metis
    let ?T = "T(t := Using a)" and ?s = "s\<lparr>ep_reflock := (ep_reflock s)(a \<mapsto> live (refcount (T(t := Using a)) a))\<rparr>"
    have l: "l = live (refcount T a)" using p(3) a by (simp add: port_ok_def)
    have "port_ok ?T (a \<in> ran f) a (live (refcount ?T a)) p" using p(3) a t(2) by (auto simp: port_ok_def)
    then have "handle_inv n ?T ?s"
      by (intro one_port_step [OF inv f dom below_upd [OF below t(1)], where f' = f and p = p])
        (use f p(1) t(2) in \<open>auto simp: handle_index_def fun_upd_idem split: if_splits\<close>)
    moreover have "ts_tree_find_and_ref key s = Some (Some a, ?s)"
      using look Some p(2) ref_step(1) [OF below n t, of "Using a" a] unfolding l by (simp add: ts_tree_find_and_ref_def ts_tree_ref_def)
    ultimately show ?thesis by simp
  qed
qed

lemma ran_delete: "f k = Some a \<Longrightarrow> (\<And>j. f j = Some a \<Longrightarrow> j = k) \<Longrightarrow> ran (f(k := None)) = ran f - {a}"
proof -
  assume k: "f k = Some a" and u: "\<And>j. f j = Some a \<Longrightarrow> j = k"
  have "(f(k := None)) j = Some b \<longleftrightarrow> f j = Some b \<and> b \<noteq> a" for j b using k u [of j] by (cases "j = k") auto
  then show ?thesis unfolding ran_def by blast
qed

lemma delete_ok:
  assumes inv: "handle_inv n T s" and n: "n < 2 ^ 28" and t: "t < n" "T t = Away"
  shows "\<exists>r s'. ts_tree_del_and_ref key s = Some (r, s') \<and>
    (case r of None \<Rightarrow> s' = s | Some a \<Rightarrow> handle_inv n (T(t := Closing a)) s')"
proof -
  obtain f where f: "handle_index T s f" and below: "threads_below n T" using inv by (auto simp: handle_inv_def)
  have ix: "tr.indexes (ep_handle_tree s) f" using f by (simp add: handle_index_def)
  have look: "ts_tree_find_node key s = Some (f key)" using tr.find_indexes [OF ix] by (simp add: ts_tree_find_node_def)
  show ?thesis
  proof (cases "f key")
    case None
    then show ?thesis using look by (simp add: ts_tree_del_and_ref_def)
  next
    case (Some a)
    have a: "a \<in> ran f" using Some by (rule ranI)
    then have dom: "a \<in> dom (ep_ports s)" using f by (auto simp: handle_index_def)
    from handle_port [OF f dom] obtain p l where p: "ep_ports s a = Some p" "ep_reflock s a = Some l" "port_ok T (a \<in> ran f) a l p" by metis
    obtain tree where tree: "tree_del a (ep_handle_tree s) = Some tree" "tr.indexes tree (f(key := None))"
        "dom (tr_nodes tree) = dom (tr_nodes (ep_handle_tree s))" using tr.del_indexes [OF ix Some] by auto
    have ran: "ran (f(key := None)) = ran f - {a}"
    proof (rule ran_delete)
      show "f key = Some a" by (rule Some)
      show "j = key" if "f j = Some a" for j using tr.indexes_inj [OF ix that Some] .
    qed
    let ?T = "T(t := Closing a)"
      and ?s = "s\<lparr>ep_handle_tree := tree, ep_reflock := (ep_reflock s)(a \<mapsto> live (refcount (T(t := Closing a)) a))\<rparr>"
    have l: "l = live (refcount T a)" using p(3) a by (simp add: port_ok_def)
    have "port_ok ?T (a \<in> ran (f(key := None))) a (live (refcount ?T a)) p"
      using p(3) a t(2) ran by (auto simp: port_ok_def intro!: exI [of _ t])
    then have "handle_inv n ?T ?s"
      by (intro one_port_step [OF inv f dom below_upd [OF below t(1)], where f' = "f(key := None)" and p = p])
        (use tree(2,3) ran f p(1) t(2) in \<open>auto simp: fun_upd_idem split: if_splits\<close>)
    moreover have "ts_tree_del_and_ref key s = Some (Some a, ?s)"
      using look Some p(2) tree(1) ref_step(1) [OF below n t, of "Closing a" a] unfolding l by (simp add: ts_tree_del_and_ref_def ts_tree_ref_def)
    ultimately show ?thesis by simp
  qed
qed

subsection \<open>The steps of a thread\<close>

lemma port_ok_port: "port_ok T x a l p \<Longrightarrow> port_inv q \<Longrightarrow> ps_iocp_handle q = ps_iocp_handle p \<Longrightarrow> port_ok T x a l q"
  by (simp add: port_ok_def)

lemma handle_inv_dom: "handle_inv n T s \<Longrightarrow> held (T t) = Some a \<Longrightarrow> a \<in> dom (ep_ports s)"
  by (simp add: handle_inv_def)

lemma work_ok:
  assumes inv: "handle_inv n T s" and t: "T t = Using a" and ends: "chain_ends (sys_port env) rank"
    and run: "on_port a (port_call_run (sys_port env) c) s = Some (r, s')"
  shows "handle_inv n T s'"
proof -
  obtain f where f: "handle_index T s f" and below: "threads_below n T" using inv by (auto simp: handle_inv_def)
  have dom: "a \<in> dom (ep_ports s)" using handle_inv_dom [OF inv, of t] t by simp
  from handle_port [OF f dom] obtain p l where p: "ep_ports s a = Some p" "ep_reflock s a = Some l" "port_ok T (a \<in> ran f) a l p" by metis
  let ?p = "p\<lparr>ps_world := ep_world s, ps_last_error := ep_last_error s\<rparr>"
  obtain q where q: "port_call_run (sys_port env) c ?p = Some (r, q)" and s': "s' = s\<lparr>ep_ports := (ep_ports s)(a \<mapsto> q), ep_last_error := ps_last_error q,
      ep_errno := err_map_win_error_to_errno (ps_last_error q), ep_world := ps_world q\<rparr>"
    using run p(1) by (auto simp: on_port_def bind_eq_Some_conv)
  have "port_inv ?p" using p(3) by (simp add: port_ok_def)
  then have "port_inv q" "ps_iocp_handle q = ps_iocp_handle p" using port_call_inv [OF q _ ends] by simp_all
  then have "port_ok T (a \<in> ran f) a l q" using port_ok_port [OF p(3)] by blast
  then show ?thesis
    by (intro one_port_step [OF inv f dom below, where f' = f and p = q and l = l])
      (use f p(2) s' in \<open>auto simp: handle_index_def fun_upd_idem\<close>)
qed

text \<open>Giving a reference back, seen from the thread that closes the port.\<close>

lemma unref_stage:
  assumes "stage_ok x (Suc r) l h" "closes x = Some a" "Suc r < 2 ^ 28"
  shows "\<exists>signal l'. reflock_unref l = Some (signal, l') \<and> (signal \<longrightarrow> x = Awaiting a) \<and> stage_ok (if signal then Ready a else x) r l' h"
  using assms by (cases x) (auto simp: unref_live unref_dying)

lemma unref_ok:
  assumes inv: "handle_inv n T s" and n: "n < 2 ^ 28" and t: "T t = Using a"
  shows "\<exists>signal s'. ts_tree_node_unref a s = Some (signal, s') \<and> handle_inv n ((wake_up (if signal then Some a else None) T)(t := Away)) s'"
proof -
  obtain f where f: "handle_index T s f" and below: "threads_below n T" using inv by (auto simp: handle_inv_def)
  have tn: "t < n" using below_thread [OF below, of t] t by simp
  have dom: "a \<in> dom (ep_ports s)" using handle_inv_dom [OF inv, of t] t by simp
  from handle_port [OF f dom] obtain p l where p: "ep_ports s a = Some p" "ep_reflock s a = Some l" "port_ok T (a \<in> ran f) a l p" by metis
  define r where "r = refcount (T(t := Away)) a"
  have r: "refcount T a = Suc r" using refcount_in [OF below, of t a Away] t unfolding r_def by simp
  then have small: "Suc r < 2 ^ 28" using refcount_le [OF below, of a] n by simp
  have rw: "refcount ((wake_up w T)(t := Away)) a = r" for w
  proof -
    have "shares (((wake_up w T)(t := Away)) u) = shares ((T(t := Away)) u)" for u by simp
    then show ?thesis unfolding r_def refcount_def by simp
  qed
  have "\<exists>signal l'. reflock_unref l = Some (signal, l') \<and> port_ok ((wake_up (if signal then Some a else None) T)(t := Away)) (a \<in> ran f) a l' p"
  proof (cases "a \<in> ran f")
    case True
    then have "\<forall>u. closes (T u) \<noteq> Some a" "l = live (Suc r)" "port_inv p" "ps_iocp_handle p \<noteq> None" using p(3) r by (simp_all add: port_ok_def)
    then show ?thesis using True unref_live [OF small] rw [of None]
      by (intro exI [of _ False] exI [of _ "live r"]) (simp add: port_ok_def)
  next
    case False
    then obtain u where u: "\<forall>v. closes (T v) = Some a \<longleftrightarrow> v = u" "stage_ok (T u) (Suc r) l (ps_iocp_handle p)" "port_inv p"
      using p(3) r by (auto simp: port_ok_def)
    from u(1) have cu: "closes (T u) = Some a" by blast
    obtain signal l' where l': "reflock_unref l = Some (signal, l')" "signal \<longrightarrow> T u = Awaiting a"
        "stage_ok (if signal then Ready a else T u) r l' (ps_iocp_handle p)" using unref_stage [OF u(2) cu small] by blast
    let ?T = "(wake_up (if signal then Some a else None) T)(t := Away)"
    have "u \<noteq> t" using cu t by auto
    then have "?T u = (if signal then Ready a else T u)" using l'(2) by (cases signal) (simp_all add: wake_up_def)
    moreover have "closes (?T v) = Some a \<longleftrightarrow> v = u" for v
      using u(1) \<open>u \<noteq> t\<close> by (cases "v = t") (simp_all del: fun_upd_apply add: fun_upd_other fun_upd_same)
    ultimately have "port_ok ?T (a \<in> ran f) a l' p" using l'(3) u(3) False rw by (auto simp: port_ok_def)
    then show ?thesis using l'(1) by blast
  qed
  then obtain signal l' where l': "reflock_unref l = Some (signal, l')"
    "port_ok ((wake_up (if signal then Some a else None) T)(t := Away)) (a \<in> ran f) a l' p" by blast
  let ?s = "s\<lparr>ep_reflock := (ep_reflock s)(a \<mapsto> l')\<rparr>"
  have "threads_below n (wake_up w T)" for w using below by (simp add: threads_below_def)
  then have "handle_inv n ((wake_up (if signal then Some a else None) T)(t := Away)) ?s"
    by (intro one_port_step [OF inv f dom below_upd [OF _ tn] _ _ _ _ _ _ _ _ l'(2)])
      (use f p(1) t in \<open>auto simp: handle_index_def fun_upd_idem wake_up_def split: if_splits\<close>)
  moreover have "ts_tree_node_unref a s = Some (signal, ?s)" using p(2) l'(1) by (simp add: ts_tree_node_unref_def)
  ultimately show ?thesis by blast
qed

lemma closer_port:
  assumes inv: "handle_inv n T s" and c: "closes (T t) = Some a"
  obtains f p l where "handle_index T s f" "ep_ports s a = Some p" "ep_reflock s a = Some l" "a \<notin> ran f" "port_inv p"
    "stage_ok (T t) (refcount T a) l (ps_iocp_handle p)" "\<And>u. closes (T u) = Some a \<Longrightarrow> u = t" "t < n" "threads_below n T"
proof -
  obtain f where f: "handle_index T s f" and below: "threads_below n T" using inv by (auto simp: handle_inv_def)
  have dom: "a \<in> dom (ep_ports s)" by (rule handle_inv_dom [OF inv closes_held [OF c]])
  from handle_port [OF f dom] obtain p l where p: "ep_ports s a = Some p" "ep_reflock s a = Some l" "port_ok T (a \<in> ran f) a l p" by metis
  have ran: "a \<notin> ran f" using p(3) c by (auto simp: port_ok_def)
  then obtain u where u: "\<forall>v. closes (T v) = Some a \<longleftrightarrow> v = u" "stage_ok (T u) (refcount T a) l (ps_iocp_handle p)" "port_inv p"
    using p(3) by (auto simp: port_ok_def)
  moreover have "u = t" using u(1) c by metis
  moreover have "T t \<noteq> Away" using c by auto
  ultimately show ?thesis using that [OF f p(1,2) ran] below_thread [OF below, of t] below by blast
qed

text \<open>The closing thread goes on; the lock word and the port may change.\<close>

lemma closer_step:
  assumes inv: "handle_inv n T s" and c: "closes (T t) = Some a" "closes x = Some a"
    and s': "ep_handle_tree s' = ep_handle_tree s" "ep_ports s' = (ep_ports s)(a \<mapsto> p)" "ep_reflock s' = (ep_reflock s)(a \<mapsto> l)"
      "ep_brk s' = ep_brk s" "ep_init_done s' = ep_init_done s"
    and ok: "port_inv p" "stage_ok x (refcount (T(t := x)) a) l (ps_iocp_handle p)"
  shows "handle_inv n (T(t := x)) s'"
proof -
  obtain f where f: "handle_index T s f" "a \<notin> ran f" "\<And>u. closes (T u) = Some a \<Longrightarrow> u = t" "t < n" "threads_below n T"
    using closer_port [OF inv c(1)] by metis
  have dom: "a \<in> dom (ep_ports s)" by (rule handle_inv_dom [OF inv closes_held [OF c(1)]])
  have "\<forall>u. closes ((T(t := x)) u) = Some a \<longleftrightarrow> u = t" using f(3) c(2) by auto
  then have "port_ok (T(t := x)) (a \<in> ran f) a l p" using f(2) ok by (auto simp: port_ok_def)
  then show ?thesis
    by (intro one_port_step [OF inv f(1) dom below_upd [OF f(5,4)], where f' = f and p = p and l = l])
      (use f(1) s' closes_held [OF c(1)] closes_held [OF c(2)] in \<open>auto simp: handle_index_def split: if_splits\<close>)
qed

lemma close_ok:
  assumes inv: "handle_inv n T s" and t: "T t = Closing a"
  shows "\<exists>r s'. on_port a (\<lambda>p. Some (port_close env p)) s = Some (r, s') \<and> handle_inv n (T(t := Closed a)) s'"
proof -
  have c: "closes (T t) = Some a" using t by simp
  obtain p l where p: "ep_ports s a = Some p" "ep_reflock s a = Some l" "port_inv p" "stage_ok (T t) (refcount T a) l (ps_iocp_handle p)"
    using closer_port [OF inv c] by metis
  let ?p = "p\<lparr>ps_world := ep_world s, ps_last_error := ep_last_error s\<rparr>"
  obtain r q where q: "port_close env ?p = (r, q)" by fastforce
  have "port_inv q" "ps_iocp_handle q = None" using q p(3) by (auto simp: port_close_def Let_def split: prod.splits if_splits)
  moreover have "refcount (T(t := Closed a)) a = refcount T a" by (rule refcount_same) (simp add: t)
  ultimately have "handle_inv n (T(t := Closed a)) (s\<lparr>ep_ports := (ep_ports s)(a \<mapsto> q), ep_last_error := ps_last_error q,
      ep_errno := err_map_win_error_to_errno (ps_last_error q), ep_world := ps_world q\<rparr>)"
    by (intro closer_step [OF inv c, where p = q and l = l]) (use p(2,4) t in \<open>simp_all add: fun_upd_idem\<close>)
  then show ?thesis using p(1) q by (simp add: on_port_def)
qed

lemma begin_ok:
  assumes inv: "handle_inv n T s" and n: "n < 2 ^ 28" and t: "T t = Closed a"
  shows "\<exists>await s'. ts_tree_destroy_begin a s = Some (await, s') \<and> handle_inv n (T(t := if await then Awaiting a else Ready a)) s'"
proof -
  have c: "closes (T t) = Some a" using t by simp
  obtain p l where p: "ep_ports s a = Some p" "ep_reflock s a = Some l" "port_inv p" "stage_ok (T t) (refcount T a) l (ps_iocp_handle p)"
      and below: "threads_below n T" using closer_port [OF inv c] by metis
  define r where "r = refcount (T(t := Away)) a"
  have r: "refcount T a = Suc r" using refcount_in [OF below, of t a Away] t unfolding r_def by simp
  then have small: "Suc r < 2 ^ 28" using refcount_le [OF below, of a] n by simp
  let ?x = "if r \<noteq> 0 then Awaiting a else Ready a"
  have "refcount (T(t := ?x)) a = r" using refcount_same [of ?x "T(t := Away)" t a] unfolding r_def by simp
  then have "handle_inv n (T(t := ?x)) (s\<lparr>ep_reflock := (ep_reflock s)(a \<mapsto> dying r)\<rparr>)"
    by (intro closer_step [OF inv c, where p = p and l = "dying r"]) (use p t in \<open>simp_all add: fun_upd_idem\<close>)
  moreover have "l = live (Suc r)" using p(4) t r by simp
  ultimately show ?thesis using p(2) destroy_live [OF small] unfolding ts_tree_destroy_begin_def
    by (intro exI [of _ "r \<noteq> 0"] exI [of _ "s\<lparr>ep_reflock := (ep_reflock s)(a \<mapsto> dying r)\<rparr>"]) simp
qed

lemma end_ok:
  assumes inv: "handle_inv n T s" and t: "T t = Ready a"
  shows "\<exists>s'. ts_tree_destroy_end a s = Some s' \<and> handle_inv n (T(t := Deleting a)) s'"
proof -
  have c: "closes (T t) = Some a" using t by simp
  obtain p l where p: "ep_ports s a = Some p" "ep_reflock s a = Some l" "port_inv p" "stage_ok (T t) (refcount T a) l (ps_iocp_handle p)"
    using closer_port [OF inv c] by metis
  have "refcount (T(t := Deleting a)) a = refcount T a" by (rule refcount_same) (simp add: t)
  then have "handle_inv n (T(t := Deleting a)) (s\<lparr>ep_reflock := (ep_reflock s)(a \<mapsto> REFLOCK_POISON)\<rparr>)"
    by (intro closer_step [OF inv c, where p = p and l = REFLOCK_POISON]) (use p t in \<open>simp_all add: fun_upd_idem\<close>)
  moreover have "l = REFLOCK_DESTROY" using p(4) t by (simp add: dying_def)
  ultimately show ?thesis using p(2) by (simp add: ts_tree_destroy_end_def reflock_destroy_end_def)
qed

text \<open>The port goes away when nobody is left.\<close>

lemma indexes_free:
  assumes "tr.indexes t f" "a \<notin> ran f"
  shows "tr.indexes (t\<lparr>tr_nodes := (tr_nodes t)(a := None)\<rparr>) f"
proof -
  obtain L where L: "tree_holds t L" "f = map_of L" using assms(1) by (auto simp: tr.indexes_def)
  have "a \<notin> snd ` set L"
  proof
    assume "a \<in> snd ` set L"
    then obtain k where "(k, a) \<in> set L" by auto
    then have "f k = Some a" using tr.keys_distinct [OF L(1)] L(2) by simp
    then show False using assms(2) by (simp add: ranI)
  qed
  then show ?thesis using tree_holds_free [OF L(1)] L(2) unfolding tr.indexes_def by blast
qed

lemma free_inv:
  assumes inv: "handle_inv n T s" and t: "T t = Deleting a"
    and s': "ep_handle_tree s' = (ep_handle_tree s)\<lparr>tr_nodes := (tr_nodes (ep_handle_tree s))(a := None)\<rparr>"
      "ep_ports s' = (ep_ports s)(a := None)" "ep_reflock s' = (ep_reflock s)(a := None)" "ep_brk s' = ep_brk s"
      "ep_init_done s' = ep_init_done s"
  shows "handle_inv n (T(t := Away)) s'"
proof -
  have c: "closes (T t) = Some a" using t by simp
  obtain f p l where f: "handle_index T s f" "ep_ports s a = Some p" "a \<notin> ran f" "stage_ok (T t) (refcount T a) l (ps_iocp_handle p)"
      "\<And>u. closes (T u) = Some a \<Longrightarrow> u = t" "t < n" and below: "threads_below n T"
    using closer_port [OF inv c] by metis
  have "shares (T u) \<noteq> Some a" for u using f(4) t refcount_zero [OF below] by simp
  then have alone: "held (T u) \<noteq> Some a" if "u \<noteq> t" for u using that f(5) [of u] by (auto simp: held_cases split: if_splits)
  have other: "port_ok (T(t := Away)) x b l' q = port_ok T x b l' q" if "b \<noteq> a" for x b l' q
    by (rule port_ok_cong) (use that t in \<open>auto split: if_splits\<close>)
  have "\<forall>b q k. ep_ports s' b = Some q \<longrightarrow> ep_reflock s' b = Some k \<longrightarrow> port_ok (T(t := Away)) (b \<in> ran f) b k q"
  proof (intro allI impI)
    fix b q k assume h: "ep_ports s' b = Some q" "ep_reflock s' b = Some k"
    then have b: "b \<noteq> a" using s'(2) by auto
    then have "port_ok T (b \<in> ran f) b k q" using h s'(2,3) f(1) by (simp add: handle_index_def)
    then show "port_ok (T(t := Away)) (b \<in> ran f) b k q" using other [OF b] by blast
  qed
  moreover have "tr.indexes (ep_handle_tree s') f" using indexes_free f(1,3) s'(1) by (simp add: handle_index_def)
  moreover have "dom (tr_nodes (ep_handle_tree s')) = dom (ep_ports s')" "dom (ep_reflock s') = dom (ep_ports s')"
    using f(1) s'(1,2,3) by (simp_all add: handle_index_def)
  moreover have "\<forall>b\<in>dom (ep_ports s'). b < ep_brk s'" "ran f \<subseteq> dom (ep_ports s')" "\<not> ep_init_done s' \<longrightarrow> ep_ports s' = Map.empty"
    using f(1,3) s'(2,4,5) by (auto simp: handle_index_def)
  ultimately have "handle_index (T(t := Away)) s' f" unfolding handle_index_def by blast
  moreover have "b \<in> dom (ep_ports s')" if "held ((T(t := Away)) u) = Some b" for u b
    using that alone handle_inv_dom [OF inv] s'(2) by (auto split: if_splits)
  ultimately show ?thesis using below_upd [OF below f(6)] unfolding handle_inv_def by blast
qed

lemma delete_port_ok:
  assumes inv: "handle_inv n T s" and t: "T t = Deleting a"
  shows "\<exists>s'. port_delete_at env a s = Some (0, s') \<and> handle_inv n (T(t := Away)) s'"
proof -
  have c: "closes (T t) = Some a" using t by simp
  obtain p l where p: "ep_ports s a = Some p" "port_inv p" "stage_ok (T t) (refcount T a) l (ps_iocp_handle p)"
    using closer_port [OF inv c] by metis
  let ?p = "p\<lparr>ps_world := ep_world s, ps_last_error := ep_last_error s\<rparr>"
  obtain U D G where rep: "port_rep p {} U D G" using p(2) by (auto simp: port_inv_def)
  have "port_rep ?p {} U D G" using rep by simp
  moreover have "ps_iocp_handle ?p = None" using p(3) t by simp
  ultimately obtain q where q: "port_delete (sys_port env) ?p = Some (0, q)" using port_delete_ok by blast
  let ?s = "s\<lparr>ep_ports := (ep_ports s)(a \<mapsto> q), ep_last_error := ps_last_error q,
      ep_errno := err_map_win_error_to_errno (ps_last_error q), ep_world := ps_world q\<rparr>"
  have "port_delete_at env a s = Some (0, port_free a ?s)" using p(1) q by (simp add: port_delete_at_def on_port_def)
  moreover have "handle_inv n (T(t := Away)) (port_free a ?s)"
    by (rule free_inv [OF inv t]) (simp_all add: port_free_def)
  ultimately show ?thesis by blast
qed

subsection \<open>Creation\<close>

definition same_handles :: "'w epoll \<Rightarrow> 'w epoll \<Rightarrow> bool" where
  "same_handles s s' \<longleftrightarrow> ep_handle_tree s' = ep_handle_tree s \<and> ep_ports s' = ep_ports s \<and> ep_reflock s' = ep_reflock s \<and>
     ep_brk s' = ep_brk s \<and> ep_init_done s' = ep_init_done s"

lemma same_handles_refl [simp]: "same_handles s s"
  by (simp add: same_handles_def)

lemma same_handles_trans: "same_handles r s \<Longrightarrow> same_handles s t \<Longrightarrow> same_handles r t"
  by (simp add: same_handles_def)

lemma same_handles_err [simp]:
  "same_handles r (err_set_win_error e s) = same_handles r s" "same_handles r (err_map_win_error s) = same_handles r s"
  "same_handles r (s\<lparr>ep_world := w\<rparr>) = same_handles r s" "same_handles r (s\<lparr>ep_last_error := e\<rparr>) = same_handles r s"
  by (simp_all add: same_handles_def err_set_win_error_def err_map_win_error_def)

lemma same_handles_inv: "same_handles s s' \<Longrightarrow> handle_inv n T s' = handle_inv n T s"
  by (simp add: same_handles_def handle_inv_def handle_index_def)

lemma nt_imports_same: "same_handles r s \<Longrightarrow> same_handles r (snd (nt_imports env names s))"
  by (induction names arbitrary: s) (auto simp: Let_def split: prod.split)

lemma init_callback_same:
  "\<exists>t. same_handles s t \<and> init_once_callback env s = (case t of _ \<Rightarrow>
     if fst (init_once_callback env s) then (True, (ts_tree_init t)\<lparr>ep_init_done := True\<rparr>) else (False, t))"
proof -
  obtain r1 s1 where 1: "ws_global_init env s = (r1, s1)" by fastforce
  obtain r2 s2 where 2: "nt_global_init env s1 = (r2, s2)" by fastforce
  obtain r3 s3 where 3: "reflock_global_init env s2 = (r3, s3)" by fastforce
  have s1: "same_handles s s1" using 1 by (auto simp: ws_global_init_def Let_def split: prod.splits if_splits)
  have "same_handles s1 s2" using 2 nt_imports_same [of s1 _ env NT_NTDLL_IMPORT_LIST]
    by (auto simp: nt_global_init_def Let_def split: prod.splits if_splits) (metis same_handles_err(3) same_handles_refl snd_conv)
  then have s2: "same_handles s s2" using same_handles_trans s1 by blast
  have "same_handles s2 s3" using 3 by (auto simp: reflock_global_init_def Let_def split: prod.splits if_splits)
  then have s3: "same_handles s s3" using same_handles_trans s2 by blast
  show ?thesis using 1 2 3 s1 s2 s3 by (auto simp: init_once_callback_def epoll_global_init_def)
qed

lemma init_ok:
  assumes inv: "handle_inv n T s" and r: "epoll_init env s = (r, s')"
  shows "handle_inv n T s' \<and> ep_ports s' = ep_ports s \<and> (r = 0 \<and> ep_init_done s' \<or> r = -1)"
proof (cases "ep_init_done s")
  case True
  then show ?thesis using inv r by (simp add: epoll_init_def)
next
  case False
  obtain t where t: "same_handles s t" "init_once_callback env s = (True, (ts_tree_init t)\<lparr>ep_init_done := True\<rparr>) \<or> init_once_callback env s = (False, t)"
    using init_callback_same [of s env] by (auto split: if_splits)
  obtain f where f: "handle_index T s f" using inv by (auto simp: handle_inv_def)
  then have e: "ep_ports s = Map.empty" using False by (simp add: handle_index_def)
  then have nodes: "tr_nodes (ep_handle_tree s) = Map.empty" "ep_reflock s = Map.empty" using f by (auto simp: handle_index_def)
  have "handle_index T ((ts_tree_init t)\<lparr>ep_init_done := True\<rparr>) Map.empty"
    using t(1) e nodes tree_init_ok [of "ep_handle_tree s"]
    by (auto simp: handle_index_def same_handles_def ts_tree_init_def tr.indexes_def tree_init_def intro!: exI [of _ "[]"])
  then have "handle_inv n T ((ts_tree_init t)\<lparr>ep_init_done := True\<rparr>)"
    using inv t(1) by (auto simp: handle_inv_def same_handles_def ts_tree_init_def)
  then show ?thesis
    using t False inv r same_handles_inv [OF t(1), of n T] by (auto simp: epoll_init_def same_handles_def ts_tree_init_def)
qed

lemma indexes_alloc:
  assumes "tr.indexes t f" "tr_nodes t a = None"
  shows "tr.indexes (t\<lparr>tr_nodes := (tr_nodes t)(a \<mapsto> x)\<rparr>) f"
  using assms tree_holds_alloc unfolding tr.indexes_def by blast

lemma register_port:
  assumes inv: "handle_inv n T s" and i: "ep_init_done s" and p: "port_inv p" "ps_iocp_handle p \<noteq> None"
  shows "\<exists>s2 r s3. ts_tree_node_init (fst (port_alloc p s)) (snd (port_alloc p s)) = Some s2 \<and>
    ts_tree_add (fst (port_alloc p s)) key s2 = Some (r, s3) \<and>
    (r = 0 \<and> handle_inv n T s3 \<or> r = -1 \<and> ep_ports s3 (fst (port_alloc p s)) = Some p)"
proof -
  obtain f where f: "handle_index T s f" using inv by (auto simp: handle_inv_def)
  let ?a = "ep_brk s" and ?x = "\<lparr>tn_left = None, tn_right = None, tn_parent = None, tn_key = 0, tn_red = False\<rparr>"
  let ?t = "(ep_handle_tree s)\<lparr>tr_nodes := (tr_nodes (ep_handle_tree s))(?a \<mapsto> ?x)\<rparr>"
  let ?s = "s\<lparr>ep_brk := ?a + 1, ep_ports := (ep_ports s)(?a \<mapsto> p), ep_reflock := (ep_reflock s)(?a \<mapsto> reflock_init), ep_handle_tree := ?t\<rparr>"
  have fresh: "?a \<notin> dom (ep_ports s)" using f by (auto simp: handle_index_def)
  then have "tr_nodes (ep_handle_tree s) ?a = None" "?a \<notin> ran f" using f by (auto simp: handle_index_def domIff)
  then have ix: "tr.indexes ?t f" "?a \<in> dom (tr_nodes ?t)" "?a \<notin> ran f" using indexes_alloc f by (simp_all add: handle_index_def)
  have run: "fst (port_alloc p s) = ?a" "ts_tree_node_init ?a (snd (port_alloc p s)) = Some ?s"
    by (simp_all add: port_alloc_def Let_def ts_tree_node_init_def tree_node_init_def upd_node_def)
  have alone: "held (T t) \<noteq> Some ?a" for t using handle_inv_dom [OF inv] fresh by blast
  then have "{t. shares (T t) = Some ?a} = {}" using shares_held by blast
  then have zero: "refcount T ?a = 0" unfolding refcount_def by (metis card.empty)
  have new: "port_ok T True ?a reflock_init p"
    using p zero alone closes_held by (auto simp: port_ok_def reflock_init_def live_def)
  show ?thesis
  proof (cases "key \<in> dom f")
    case True
    then have "tree_add ?a key ?t = Some (-1, ?t)" using tr.add_indexes [OF ix, of key] by simp
    then show ?thesis unfolding run by (intro exI [of _ ?s]) (simp add: ts_tree_add_def)
  next
    case False
    then obtain t' where t': "tree_add ?a key ?t = Some (0, t')" "tr.indexes t' (f(key \<mapsto> ?a))" "dom (tr_nodes t') = dom (tr_nodes ?t)"
      using tr.add_indexes [OF ix, of key] by auto
    have ran: "ran (f(key \<mapsto> ?a)) = insert ?a (ran f)" using False by (simp add: ran_map_upd domIff)
    have "handle_index T (?s\<lparr>ep_handle_tree := t'\<rparr>) (f(key \<mapsto> ?a))"
      using f t'(2,3) ran new i unfolding handle_index_def by (auto simp: less_Suc_eq)
    then have "handle_inv n T (?s\<lparr>ep_handle_tree := t'\<rparr>)" using inv by (auto simp: handle_inv_def)
    then show ?thesis unfolding run using t'(1) by (intro exI [of _ ?s]) (simp add: ts_tree_add_def)
  qed
qed

lemma create_ok:
  assumes inv: "handle_inv n T s" and c: "epoll_create_port env s = Some (r, s')"
  shows "handle_inv n T s'"
proof -
  obtain i s1 where i: "epoll_init env s = (i, s1)" by fastforce
  have s1: "handle_inv n T s1" "i = 0 \<and> ep_init_done s1 \<or> i = -1" using init_ok [OF inv i] by auto
  obtain q err w where q: "port_new (sys_port env) (ep_world s1) = Some (q, err, w)"
    "case q of None \<Rightarrow> True | Some (h, p) \<Rightarrow> port_rep p {} [] [] [] \<and> ps_iocp_handle p = Some h"
    using port_new_ok [of "sys_port env" "ep_world s1"] by (auto split: option.splits)
  let ?s = "s1\<lparr>ep_world := w\<rparr>"
  have s2: "handle_inv n T ?s" using s1(1) same_handles_inv [of s1 ?s] by simp
  have none: "handle_inv n T (err_set_win_error err ?s)" using s2 same_handles_inv [of ?s "err_set_win_error err ?s"] by simp
  show ?thesis
  proof (cases "i = 0")
    case False
    then show ?thesis using c i s1 by (auto simp: epoll_create_port_def)
  next
    case True
    then have d: "ep_init_done ?s" using s1(2) by auto
    show ?thesis
    proof (cases q)
      case None
      then show ?thesis using c i True q(1) none by (simp add: epoll_create_port_def)
    next
      case (Some hp)
      then obtain h p where hp: "q = Some (h, p)" "port_inv p" "ps_iocp_handle p \<noteq> None" using q(2) by (cases hp) (auto intro: port_invI)
      obtain a s3 where a: "port_alloc p ?s = (a, s3)" by fastforce
      obtain s4 k s5 where s5: "ts_tree_node_init a s3 = Some s4" "ts_tree_add a (handle_key h) s4 = Some (k, s5)"
          "k = 0 \<and> handle_inv n T s5 \<or> k = -1 \<and> ep_ports s5 a = Some p"
        using register_port [OF s2 d hp(2,3), of "handle_key h"] a by auto
      have "port_delete_at env a s5 = None" if "ep_ports s5 a = Some p"
        using that hp(3) by (auto simp: port_delete_at_def on_port_def port_delete_def)
      then show ?thesis using c i True q(1) hp(1) a s5 by (auto simp: epoll_create_port_def)
    qed
  qed
qed

subsection \<open>Reachable states\<close>

lemma finish_ok:
  assumes inv: "handle_inv n T s" and n: "n < 2 ^ 28" and t: "T t \<noteq> Away" "\<And>a. T t \<noteq> Awaiting a"
  shows "\<exists>ph w s'. finish_step env (T t) s = Some (ph, w, s') \<and> handle_inv n ((wake_up w T)(t := ph)) s'"
proof (cases "T t")
  case (Using a)
  then show ?thesis using unref_ok [OF inv n Using] by force
next
  case (Closing a)
  then show ?thesis using close_ok [OF inv Closing, of "sys_port env"] by auto
next
  case (Closed a)
  then show ?thesis using begin_ok [OF inv n Closed] by force
next
  case (Ready a)
  then show ?thesis using end_ok [OF inv Ready] by auto
next
  case (Deleting a)
  then show ?thesis using delete_port_ok [OF inv Deleting, of env] by auto
qed (use t in auto)

lemma handle_step_inv:
  assumes "handle_step env n s s'" "handle_inv n (hs_thr s) (hs_ep s)" "n < 2 ^ 28" "chain_ends (sys_port env) rank"
  shows "handle_inv n (hs_thr s') (hs_ep s')"
  using assms(1)
proof (cases rule: handle_step.cases)
  case (create r ep)
  then show ?thesis using create_ok [OF assms(2)] by simp
next
  case (find t key a ep)
  then show ?thesis using find_ok [OF assms(2,3), of t key] by simp
next
  case (work t a c r ep)
  then show ?thesis using work_ok [OF assms(2) work(2) assms(4)] by simp
next
  case (delete t key a ep)
  then show ?thesis using delete_ok [OF assms(2,3), of t key] by simp
next
  case (finish t ph w ep)
  then have "hs_thr s t \<noteq> Away" "\<And>a. hs_thr s t \<noteq> Awaiting a" by auto
  then show ?thesis using finish_ok [OF assms(2,3), of t env] finish by auto
qed

lemma handle_reach_inv:
  assumes "handle_reach env n s" "n < 2 ^ 28" "chain_ends (sys_port env) rank"
  shows "handle_inv n (hs_thr s) (hs_ep s)"
  using assms(1)
proof induction
  case (start w)
  have "tr.indexes \<lparr>tr_root = None, tr_nodes = Map.empty\<rparr> Map.empty"
    using tree_init_ok [of "\<lparr>tr_root = None, tr_nodes = Map.empty\<rparr>"] by (auto simp: tr.indexes_def tree_init_def intro!: exI [of _ "[]"])
  then show ?case by (auto simp: handle_inv_def threads_below_def handle_index_def epoll_start_def intro!: exI [of _ Map.empty])
next
  case (step s s')
  then show ?case using handle_step_inv assms(2,3) by blast
qed

lemma index_lookup: "handle_index T s f \<Longrightarrow> ts_tree_find_node key s = Some (f key)"
  using tr.find_indexes [of "ep_handle_tree s" f] by (simp add: handle_index_def ts_tree_find_node_def)

lemma awaited:
  assumes inv: "handle_inv n T s" and t: "T t = Awaiting a"
  shows "\<exists>u. T u = Using a"
proof -
  have "closes (T t) = Some a" using t by simp
  from closer_port [OF inv this] obtain l h where r: "stage_ok (T t) (refcount T a) l h" "threads_below n T"
    and u: "\<And>u. closes (T u) = Some a \<Longrightarrow> u = t" by metis
  then have "refcount T a \<noteq> 0" using t by simp
  then obtain v where v: "shares (T v) = Some a" using refcount_zero [OF r(2)] by auto
  then show ?thesis using u [of v] t by (cases "T v") auto
qed

lemma alone:
  assumes inv: "handle_inv n T s" and t: "T t = Deleting a"
  shows "u \<noteq> t \<Longrightarrow> held (T u) \<noteq> Some a" "ts_tree_find_node key s \<noteq> Some (Some a)"
proof -
  have "closes (T t) = Some a" using t by simp
  from closer_port [OF inv this] obtain f l h where r: "stage_ok (T t) (refcount T a) l h" "threads_below n T" "handle_index T s f" "a \<notin> ran f"
    and u: "\<And>u. closes (T u) = Some a \<Longrightarrow> u = t" by metis
  have "shares (T v) \<noteq> Some a" for v using r(1) t refcount_zero [OF r(2)] by simp
  then show "u \<noteq> t \<Longrightarrow> held (T u) \<noteq> Some a" using u [of u] by (auto simp: held_cases split: if_splits)
  show "ts_tree_find_node key s \<noteq> Some (Some a)" using r(4) index_lookup [OF r(3)] ranI [of f key a] by auto
qed

lemma no_leak:
  assumes inv: "handle_inv n T s" and a: "a \<in> dom (ep_ports s)"
  shows "(\<exists>key. ts_tree_find_node key s = Some (Some a)) \<or> (\<exists>t. closes (T t) = Some a)"
proof -
  obtain f where f: "handle_index T s f" using inv by (auto simp: handle_inv_def)
  from handle_port [OF f a] obtain p l where "ep_ports s a = Some p" "port_ok T (a \<in> ran f) a l p" by metis
  then show ?thesis using index_lookup [OF f] by (auto simp: port_ok_def ran_def split: if_splits)
qed

text \<open>
  C13: Handles are shared safely: whatever up to \<open>n\<close> threads do, a thread that has
  looked a handle up works on a port that is still allocated, also when another thread closes
  the handle in the meantime; the next thing each of them does violates no assertion of the
  reference lock or of \<open>port_delete\<close> and returns; a thread that waits in \<open>epoll_close\<close>
  always waits for one that still uses the port; the thread that deletes a port is alone with
  it, and nobody can find it any more; and a port that is neither in the handle tree nor
  being closed does not exist, so none is leaked.
\<close>

theorem epoll_handles:
  assumes "handle_reach env n s" "n < 2 ^ 28" "chain_ends (sys_port env) rank"
  shows "(\<forall>t a. held (hs_thr s t) = Some a \<longrightarrow> a \<in> dom (ep_ports (hs_ep s))) \<and>
    (\<forall>t. hs_thr s t \<noteq> Away \<longrightarrow> (\<forall>a. hs_thr s t \<noteq> Awaiting a) \<longrightarrow> finish_step env (hs_thr s t) (hs_ep s) \<noteq> None) \<and>
    (\<forall>t a. hs_thr s t = Awaiting a \<longrightarrow> (\<exists>u. hs_thr s u = Using a)) \<and>
    (\<forall>t a. hs_thr s t = Deleting a \<longrightarrow> (\<forall>u. u \<noteq> t \<longrightarrow> held (hs_thr s u) \<noteq> Some a) \<and>
       (\<forall>key. ts_tree_find_node key (hs_ep s) \<noteq> Some (Some a))) \<and>
    (\<forall>a\<in>dom (ep_ports (hs_ep s)). (\<exists>key. ts_tree_find_node key (hs_ep s) = Some (Some a)) \<or> (\<exists>t. closes (hs_thr s t) = Some a))"
proof -
  have inv: "handle_inv n (hs_thr s) (hs_ep s)" by (rule handle_reach_inv [OF assms])
  have "finish_step env (hs_thr s t) (hs_ep s) \<noteq> None" if "hs_thr s t \<noteq> Away" "\<forall>a. hs_thr s t \<noteq> Awaiting a" for t
    using finish_ok [OF inv assms(2) that(1), of env] that(2) by auto
  then show ?thesis using handle_inv_dom [OF inv] awaited [OF inv] alone [OF inv] no_leak [OF inv] by blast
qed

subsection \<open>A run\<close>

definition list_epoll :: "poll_list epoll_env" where
  "list_epoll = \<lparr>sys_port = list_driver, WSAStartup = (\<lambda>w. (0, w)), GetModuleHandleW = (\<lambda>w. (True, 0, w)),
     GetProcAddress = (\<lambda>_ w. (True, 0, w)), NtCreateKeyedEvent = (\<lambda>w. (STATUS_SUCCESS, w)),
     GetHandleInformation = (\<lambda>h w. (h \<in> {3, 70}, ERROR_INVALID_HANDLE, w))\<rparr>"

definition one_port :: "poll_list epoll" where
  "one_port = \<lparr>ep_init_done = True, ep_handle_tree = \<lparr>tr_root = Some 1, tr_nodes =
       [1 \<mapsto> \<lparr>tn_left = None, tn_right = None, tn_parent = None, tn_key = 3, tn_red = False\<rparr>]\<rparr>,
     ep_reflock = [1 \<mapsto> 0], ep_ports = [1 \<mapsto> port0], ep_brk = 2, ep_last_error = 0, ep_errno = EINVAL, ep_world = []\<rparr>"

lemma run_create: "epoll_create_port list_epoll (epoll_start []) = Some (Some 3, one_port)"
proof -
  have "epoll_init list_epoll (epoll_start []) = (0, (epoll_start [])\<lparr>ep_init_done := True\<rparr>)"
    by (simp add: epoll_init_def init_once_callback_def ws_global_init_def nt_global_init_def NT_NTDLL_IMPORT_LIST_def
        reflock_global_init_def epoll_global_init_def ts_tree_init_def tree_init_def list_epoll_def epoll_start_def)
  moreover have "sys_port list_epoll = list_driver" "handle_key 3 = 3" by (simp_all add: list_epoll_def handle_key_def)
  ultimately show ?thesis
    by (simp add: epoll_create_port_def run_new port_alloc_def ts_tree_node_init_def tree_node_init_def upd_node_def
        ts_tree_add_def tree_add_def add_rebalance.simps set_red_def epoll_start_def one_port_def reflock_init_def)
qed

definition shared_port :: "poll_list epoll" where
  "shared_port = one_port\<lparr>ep_handle_tree := \<lparr>tr_root = None, tr_nodes =
       [1 \<mapsto> \<lparr>tn_left = None, tn_right = None, tn_parent = None, tn_key = 3, tn_red = False\<rparr>]\<rparr>,
     ep_reflock := [1 \<mapsto> 2]\<rparr>"

lemma run_find: "ts_tree_find_and_ref 3 one_port = Some (Some 1, one_port\<lparr>ep_reflock := [1 \<mapsto> 1]\<rparr>)"
  by (simp add: ts_tree_find_and_ref_def ts_tree_find_node_def tree_find_def find_from.simps one_port_def ts_tree_ref_def
      reflock_ref_def reflock_defs)

lemma run_delete: "ts_tree_del_and_ref 3 (one_port\<lparr>ep_reflock := [1 \<mapsto> 1]\<rparr>) = Some (Some 1, shared_port)"
  by (simp add: ts_tree_del_and_ref_def ts_tree_find_node_def tree_find_def find_from.simps one_port_def shared_port_def ts_tree_ref_def
      reflock_ref_def reflock_defs tree_del_def del_splice_def del_rebalance.simps relink_def is_red_def)

lemma run_close: "finish_step list_epoll (Closing 1) shared_port = Some (Closed 1, None, shared_port
    \<lparr>ep_ports := [1 \<mapsto> port0\<lparr>ps_iocp_handle := None\<rparr>], ep_errno := err_map_win_error_to_errno 0\<rparr>)"
  by (simp add: on_port_def shared_port_def one_port_def list_epoll_def list_driver_def port_close_def port0_def)

lemma run_begin: "finish_step list_epoll (Closed 1) (shared_port\<lparr>ep_ports := P, ep_errno := e\<rparr>) =
    Some (Awaiting 1, None, shared_port\<lparr>ep_ports := P, ep_errno := e, ep_reflock := [1 \<mapsto> 0x10000001]\<rparr>)"
  by (simp add: ts_tree_destroy_begin_def shared_port_def reflock_destroy_begin_def reflock_defs)

lemma run_shared:
  "handle_reach list_epoll 2 \<lparr>hs_ep = shared_port, hs_thr = (\<lambda>_. Away)(0 := Using 1, 1 := Closing 1)\<rparr>"
proof -
  let ?s = "\<lambda>ep T. \<lparr>hs_ep = ep, hs_thr = T\<rparr>" and ?ep = "one_port\<lparr>ep_reflock := [1 \<mapsto> 1]\<rparr>" and ?T = "(\<lambda>_. Away)(0 := Using 1)"
  have "handle_step list_epoll 2 (?s (epoll_start []) (\<lambda>_. Away)) (?s one_port (\<lambda>_. Away))"
    using create [where env = list_epoll and s = "?s (epoll_start []) (\<lambda>_. Away)" and n = 2] run_create by simp
  with start have "handle_reach list_epoll 2 (?s one_port (\<lambda>_. Away))" by (rule step)
  moreover have "handle_step list_epoll 2 (?s one_port (\<lambda>_. Away)) (?s ?ep ?T)"
    using find [where t = 0 and n = 2 and s = "?s one_port (\<lambda>_. Away)" and key = 3] run_find by simp
  ultimately have "handle_reach list_epoll 2 (?s ?ep ?T)" by (rule step)
  moreover have "handle_step list_epoll 2 (?s ?ep ?T) (?s shared_port (?T(1 := Closing 1)))"
    using delete [where t = 1 and n = 2 and s = "?s ?ep ?T" and key = 3] run_delete by simp
  ultimately show ?thesis by (rule step)
qed

theorem epoll_handles_witness:
  "\<exists>s :: poll_list handle_sys. hs_thr s 0 = Using 1 \<and> hs_thr s 1 = Awaiting 1 \<and> 1 \<in> dom (ep_ports (hs_ep s)) \<and>
    finish_step list_epoll (Using 1) (hs_ep s) \<noteq> None \<and> ep_reflock (hs_ep s) 1 = Some 0x10000001"
proof -
  let ?s = "\<lambda>ep x. \<lparr>hs_ep = ep, hs_thr = (\<lambda>_. Away)(0 := Using 1, 1 := x)\<rparr>"
  let ?ep4 = "shared_port\<lparr>ep_ports := [1 \<mapsto> port0\<lparr>ps_iocp_handle := None\<rparr>], ep_errno := err_map_win_error_to_errno 0\<rparr>"
  let ?ep5 = "?ep4\<lparr>ep_reflock := [1 \<mapsto> 0x10000001]\<rparr>"
  have "handle_step list_epoll 2 (?s shared_port (Closing 1)) (?s ?ep4 (Closed 1))"
    using finish [where t = 1 and n = 2 and s = "?s shared_port (Closing 1)" and env = list_epoll and ph = "Closed 1" and w = None and ep = ?ep4]
      run_close by (simp del: finish_step.simps)
  with run_shared have "handle_reach list_epoll 2 (?s ?ep4 (Closed 1))" by (rule step)
  moreover have "handle_step list_epoll 2 (?s ?ep4 (Closed 1)) (?s ?ep5 (Awaiting 1))"
    using finish [where t = 1 and n = 2 and s = "?s ?ep4 (Closed 1)" and env = list_epoll and ph = "Awaiting 1" and w = None and ep = ?ep5]
      run_begin by (simp del: finish_step.simps)
  ultimately have reach: "handle_reach list_epoll 2 (?s ?ep5 (Awaiting 1))" by (rule step)
  have "chain_ends (sys_port list_epoll) (\<lambda>_. 0)" using list_driver_ok(3) by (simp add: list_epoll_def)
  moreover have "(2::nat) < 2 ^ 28" by simp
  ultimately have th: "held (hs_thr (?s ?ep5 (Awaiting 1)) 0) = Some 1 \<Longrightarrow> 1 \<in> dom (ep_ports (hs_ep (?s ?ep5 (Awaiting 1))))"
    "hs_thr (?s ?ep5 (Awaiting 1)) 0 \<noteq> Away \<Longrightarrow> \<forall>a. hs_thr (?s ?ep5 (Awaiting 1)) 0 \<noteq> Awaiting a \<Longrightarrow>
       finish_step list_epoll (hs_thr (?s ?ep5 (Awaiting 1)) 0) (hs_ep (?s ?ep5 (Awaiting 1))) \<noteq> None"
    using epoll_handles [OF reach] by blast+
  have "finish_step list_epoll (Using 1) ?ep5 \<noteq> None" using th(2) by (simp del: finish_step.simps)
  moreover have "1 \<in> dom (ep_ports ?ep5)" using th(1) by simp
  ultimately show ?thesis by (intro exI [of _ "?s ?ep5 (Awaiting 1)"]) (simp del: finish_step.simps)
qed

end
