(* ===== verification/Wepoll_Calls.thy ===== *)
theory Wepoll_Calls
  imports Wepoll_Handles
begin

unbundle bit_operations_syntax







lemma sock_handle_null: "sock_handle 0 = 0" "sock_handle INVALID_SOCKET = INVALID_HANDLE_VALUE"
  by (simp_all add: sock_handle_def INVALID_SOCKET_def INVALID_HANDLE_VALUE_def)








subsection \<open>A run\<close>






end
