(* ===== verification/Wepoll_Return.thy ===== *)
theory Wepoll_Return
  imports Wepoll_Wait
begin

unbundle bit_operations_syntax

text \<open>
  \<open>port_wait\<close> of src/src/wepoll.c, lines 1248--1324, returns when it has a timeout.  Its loop
  polls again after completions that report nothing, so it ends because time passes: the
  clock counts an amount of time that no call lowers and that every trip into
  \<open>GetQueuedCompletionStatusEx\<close> raises, however little; ticks are multiples of a unit.  A
  clock of 64 bits does not get to its last tick in practice; it stays there if it does.
\<close>

definition clock_ok :: "'w port_env \<Rightarrow> ('w \<Rightarrow> nat) \<Rightarrow> nat \<Rightarrow> bool" where
  "clock_ok env tm unit \<longleftrightarrow> 0 < unit \<and> (\<forall>w. tm w div unit < 2 ^ 64) \<and>
     (\<forall>w. \<exists>w'. GetTickCount64 env w = (of_nat (tm w div unit), w') \<and> tm w \<le> tm w') \<and>
     (\<forall>h n t w. tm w < tm (snd (snd (GetQueuedCompletionStatusEx env h n t w))) \<or>
        tm w = tm (snd (snd (GetQueuedCompletionStatusEx env h n t w))) \<and> tm w div unit = 2 ^ 64 - 1) \<and>
     (\<forall>a st w. tm w \<le> tm (set_iosb_Status env a st w)) \<and>
     (\<forall>h a s e w. tm w \<le> tm (snd (NtDeviceIoControlFile env h a s e w))) \<and>
     (\<forall>h a w. tm w \<le> tm (snd (NtCancelIoFileEx env h a w))) \<and> (\<forall>w. tm w \<le> tm (snd (malloc_ok env w)))"

definition later :: "'w port_env \<Rightarrow> ('w \<Rightarrow> nat) \<Rightarrow> nat \<Rightarrow> 'w port \<Rightarrow> 'w port \<Rightarrow> bool" where
  "later env tm unit p q \<longleftrightarrow> (clock_ok env tm unit \<longrightarrow> tm (ps_world p) \<le> tm (ps_world q))"

lemma cancel_later:
  assumes "clock_ok env tm unit" "afd_cancel_poll env h a w = (x, err, w')"
  shows "tm w \<le> tm w'"
proof -
  obtain st w1 where n: "NtCancelIoFileEx env h a w = (st, w1)" by fastforce
  have "tm w \<le> tm w1" using assms(1) n unfolding clock_ok_def by (metis snd_conv)
  then show ?thesis using assms(2) n by (auto simp: afd_cancel_poll_def split: if_splits)
qed

lemma poll_later:
  assumes "clock_ok env tm unit" "afd_poll env h a s evs w = (x, err, w')"
  shows "tm w \<le> tm w'"
proof -
  let ?w = "set_iosb_Status env a STATUS_PENDING w"
  obtain st w1 where n: "NtDeviceIoControlFile env h a s evs ?w = (st, w1)" by fastforce
  have "tm w \<le> tm ?w" "tm ?w \<le> tm w1" using assms(1) n unfolding clock_ok_def by (metis snd_conv)+
  then show ?thesis using assms(2) n by (auto simp: afd_poll_def Let_def split: if_splits)
qed

interpretation la: full_frame env "later env tm unit" for env :: "'w port_env" and tm unit
proof unfold_locales
  show "later env tm unit p r" if "later env tm unit p q" "later env tm unit q r" for p q r using that by (auto simp: later_def)
  show "later env tm unit p q" if "sock_free a p = Some q" for p q a
    using that by (auto simp: sock_free_def later_def bind_eq_Some_conv split: if_splits)
  show "later env tm unit p (p\<lparr>ps_world := w\<rparr>)" if "afd_cancel_poll env h a (ps_world p) = (x, err, w)" for p h a x err w
    using cancel_later [OF _ that] by (simp add: later_def)
  show "later env tm unit p (p\<lparr>ps_world := w\<rparr>)"
    if "afd_poll env h a s evs (ps_world p) = (x, err, w)" for p h a s evs x err w
    using poll_later [OF _ that(1)] by (simp add: later_def)
  show "later env tm unit p (p\<lparr>ps_world := w, ps_socks := (ps_socks p)(a \<mapsto> so\<lparr>so_poll_status := SOCK_POLL_PENDING, so_pending_events := so_user_events so\<rparr>)\<rparr>)"
    if "afd_poll env h a s evs (ps_world p) = (x, err, w)" for p h a s evs x err w so
    using poll_later [OF _ that(1)] by (simp add: later_def)
qed (auto simp: later_def idled_def)

subsection \<open>One round\<close>

text \<open>What holds at the head of the loop.\<close>

definition round_ok :: "'w port_env \<Rightarrow> ('w \<Rightarrow> addr \<rightharpoonup> nat \<times> 32 word) \<Rightarrow> nat \<Rightarrow> 'w port \<Rightarrow> bool" where
  "round_ok env out c p \<longleftrightarrow> port_inv p \<and> ps_iocp_handle p \<noteq> None \<and> polls out {} p \<and> driver_ok env out \<and> system_ok env out \<and>
     ps_active_poll_count p = c"

definition reply_ok :: "nat \<Rightarrow> int \<Rightarrow> epoll_event_t list \<Rightarrow> bool" where
  "reply_ok n r evs \<longleftrightarrow> length evs \<le> n \<and> (r = int (length evs) \<or> r = -1 \<and> evs = [])"

lemma dequeue_later:
  assumes "clock_ok env tm unit" "port_poll_dequeue env n t p = (res, q)"
  shows "tm (ps_world p) < tm (ps_world q) \<or> tm (ps_world p) = tm (ps_world q) \<and> tm (ps_world q) div unit = 2 ^ 64 - 1"
proof -
  let ?h = "case ps_iocp_handle p of Some h \<Rightarrow> h | None \<Rightarrow> NULL_handle"
  obtain cs err w where c: "GetQueuedCompletionStatusEx env ?h n t (ps_world p) = (cs, err, w)" by (metis prod_cases3)
  have "tm (ps_world p) < tm w \<or> tm (ps_world p) = tm w \<and> tm (ps_world p) div unit = 2 ^ 64 - 1"
    using assms(1) c unfolding clock_ok_def by (metis snd_conv)
  then show ?thesis using assms(2) c by (auto simp: port_poll_dequeue_def)
qed

lemma leave_later:
  assumes "clock_ok env tm unit" "port_poll_leave env res p = Some (r, evs, q)"
  shows "tm (ps_world p) \<le> tm (ps_world q)"
proof (cases "fst res")
  case None
  then show ?thesis using assms(2) by (cases res) (auto simp: port_poll_leave_def Let_def)
next
  case (Some cs)
  then obtain f where f: "port_feed_events env cs (p\<lparr>ps_active_poll_count := ps_active_poll_count p - 1\<rparr>) = Some (f, q)"
    using assms(2) by (cases res) (auto simp: port_poll_leave_def Let_def bind_eq_Some_conv)
  show ?thesis using postD [OF la.feed_events_R f, of tm unit] assms(1) by (simp add: later_def)
qed

lemma tick_polls:
  "system_ok env out \<Longrightarrow> GetTickCount64 env (ps_world p) = (now, w) \<Longrightarrow> polls out X p \<Longrightarrow> polls out X (p\<lparr>ps_world := w\<rparr>)"
proof -
  assume "system_ok env out" "GetTickCount64 env (ps_world p) = (now, w)"
  then have "out w = out (ps_world p)" unfolding system_ok_def keeps_polls_def by (metis snd_conv)
  then show "polls out X p \<Longrightarrow> polls out X (p\<lparr>ps_world := w\<rparr>)" by (simp add: polls_def)
qed

lemma round_ends:
  assumes p: "round_ok env out c p" and clock: "clock_ok env tm unit"
  shows "\<exists>r evs q. port_poll env n t p = Some (r, evs, q) \<and> round_ok env out c q \<and> reply_ok n r evs \<and>
    (0 \<le> r \<longrightarrow> tm (ps_world p) < tm (ps_world q) \<or> 2 ^ 64 - 1 \<le> tm (ps_world q) div unit)"
proof -
  have inv: "port_inv p" "ps_iocp_handle p \<noteq> None" "polls out {} p" "driver_ok env out" "system_ok env out" "ps_active_poll_count p = c"
    using p by (simp_all add: round_ok_def)
  obtain r1 p1 where p1: "port_poll_enter env p = Some (r1, p1)" "port_inv p1" "ps_iocp_handle p1 \<noteq> None" "polls out {} p1"
      "r1 = -1 \<and> ps_active_poll_count p1 = c \<or> r1 = 0 \<and> ps_active_poll_count p1 = c + 1 \<and> port_good env out {} p1"
    using enter_good [OF inv(1-5)] inv(6) by auto
  obtain x u where u: "port_update_events env p = Some (x, u)" "ps_world p1 = ps_world u"
    using p1(1) by (auto simp: port_poll_enter_def bind_eq_Some_conv split: if_splits)
  then have t1: "tm (ps_world p) \<le> tm (ps_world p1)"
    using postD [OF la.update_events_R u(1), of tm unit] clock by (simp add: later_def)
  show ?thesis
  proof (cases "r1 = 0")
    case False
    then have "port_poll env n t p = Some (-1, [], p1)" using p1(1,5) by (simp add: port_poll_def)
    then show ?thesis using p1 False inv(4,5) by (auto simp: round_ok_def reply_ok_def)
  next
    case True
    then have good: "port_good env out {} p1" and c1: "ps_active_poll_count p1 = c + 1" using p1(5) by auto
    obtain res p2 where p2: "port_poll_dequeue env n t p1 = (res, p2)" by fastforce
    obtain w where w: "p2 = p1\<lparr>ps_world := w\<rparr>" using dequeue_good(1) [OF good p2] by blast
    have q: "port_inv p2" "ps_iocp_handle p2 \<noteq> None" "ps_active_poll_count p2 = c + 1"
      using p1(2,3) c1 unfolding w by (simp_all add: port_inv_def)
    have t2: "tm (ps_world p1) < tm (ps_world p2) \<or> tm (ps_world p1) = tm (ps_world p2) \<and> tm (ps_world p2) div unit = 2 ^ 64 - 1"
      using dequeue_later [OF clock p2] .
    have "case fst res of None \<Rightarrow> polls out {} p2
        | Some cs \<Rightarrow> polls out (fst ` set cs \<union> {}) p2 \<and> distinct (map fst cs) \<and> fst ` set cs \<inter> {} = {} \<and> length cs \<le> n"
      using dequeue_good(2) [OF good p2] by (auto simp: port_good_def split: option.splits)
    from leave_good [OF q(1,2) inv(4,5) this] obtain r evs p3 where p3: "port_poll_leave env res p2 = Some (r, evs, p3)" "port_inv p3"
        "ps_iocp_handle p3 \<noteq> None" "polls out {} p3" "ps_active_poll_count p3 = c" "length evs \<le> n" "r = -1 \<and> evs = [] \<or> r = int (length evs)"
      using q(3) by auto
    have t3: "tm (ps_world p2) \<le> tm (ps_world p3)" using leave_later [OF clock p3(1)] .
    have "tm (ps_world p) < tm (ps_world p3) \<or> 2 ^ 64 - 1 \<le> tm (ps_world p3) div unit"
      using t1 t2 div_le_mono [OF t3, of unit] t3 by linarith
    moreover have "port_poll env n t p = Some (r, evs, p3)" using p1(1) True p2 p3(1) by (simp add: port_poll_def)
    ultimately show ?thesis using p3 inv(4,5) by (auto simp: round_ok_def reply_ok_def)
  qed
qed

subsection \<open>The loop\<close>

lemma loop_ends:
  assumes "round_ok env out c p" "clock_ok env tm unit" "0 \<le> timeout"
  shows "\<exists>r evs q. port_wait_loop env n timeout due_time t p = Some (r, evs, q) \<and> round_ok env out c q \<and> reply_ok n r evs"
  using assms(1)
proof (induction "unat due_time * unit - tm (ps_world p)" arbitrary: p t rule: less_induct)
  case less
  obtain r evs q where q: "port_poll env n t p = Some (r, evs, q)" "round_ok env out c q" "reply_ok n r evs"
      "0 \<le> r \<longrightarrow> tm (ps_world p) < tm (ps_world q) \<or> 2 ^ 64 - 1 \<le> tm (ps_world q) div unit" using round_ends [OF less.prems assms(2), of n t] by blast
  obtain w where w: "GetTickCount64 env (ps_world q) = (of_nat (tm (ps_world q) div unit), w)" "tm (ps_world q) \<le> tm w"
    and u: "0 < unit" "tm (ps_world q) div unit < 2 ^ 64" using assms(2) unfolding clock_ok_def by metis
  let ?now = "of_nat (tm (ps_world q) div unit) :: 64 word"
  have q': "round_ok env out c (q\<lparr>ps_world := w\<rparr>)" using q(2) w(1) tick_polls unfolding round_ok_def by (auto simp: port_inv_def)
  consider (stop) "r \<noteq> 0" | (due) "r = 0" "due_time \<le> ?now" | (early) "r = 0" "?now < due_time" by fastforce
  then show ?case
  proof cases
    case stop
    then show ?thesis using q(1-3) by (subst port_wait_loop.simps) auto
  next
    case due
    have "round_ok env out c (q\<lparr>ps_world := w, ps_last_error := WAIT_TIMEOUT\<rparr>)" using q' by (simp add: round_ok_def port_inv_def polls_def)
    then show ?thesis using due q(1,3) w(1) assms(3) by (subst port_wait_loop.simps) auto
  next
    case early
    have "tm (ps_world q) div unit < unat due_time" using early(2) u(2) by (simp add: word_less_nat_alt unat_of_nat)
    then have "tm (ps_world q) < unat due_time * unit" using u(1) by (simp add: div_less_iff_less_mult)
    moreover have "tm (ps_world q) div unit < 2 ^ 64 - 1" using early(2) u(2) unsigned_less [of due_time, where 'a = nat]
      by (simp add: word_less_nat_alt unat_of_nat)
    then have "tm (ps_world p) < tm (ps_world q)" using q(4) early(1) by auto
    ultimately have "unat due_time * unit - tm w < unat due_time * unit - tm (ps_world p)" using w(2) by linarith
    then have m: "unat due_time * unit - tm (ps_world (q\<lparr>ps_world := w\<rparr>)) < unat due_time * unit - tm (ps_world p)" by simp
    from less.hyps [OF m q', of "ucast (due_time - ?now)"] show ?thesis
      using early q(1) w(1) assms(3) by (subst port_wait_loop.simps) auto
  qed
qed

subsection \<open>The call\<close>

text \<open>
  C16: A wait with a timeout that is not negative, for at least one event,
  always returns, whatever the driver completes in the meantime.  It reports at most as many
  events as the caller has room for, or 0, or -1; the port is valid afterwards, its polls
  are accounted for, and the thread is no longer counted as waiting.
\<close>

theorem wepoll_wait_returns:
  assumes "port_good env out {} p" "clock_ok env tm unit" "0 < maxevents" "0 \<le> timeout"
  shows "\<exists>r evs q. port_wait env maxevents timeout p = Some (r, evs, q) \<and> port_good env out {} q \<and>
    ps_active_poll_count q = ps_active_poll_count p \<and> length evs \<le> nat maxevents \<and> (r = int (length evs) \<or> r = -1 \<and> evs = [])"
proof -
  obtain n p1 where n: "(if nat maxevents \<le> PORT_MAX_ON_STACK_COMPLETIONS then (nat maxevents, p)
       else let (ok, w) = malloc_ok env (ps_world p)
            in (if ok then nat maxevents else PORT_MAX_ON_STACK_COMPLETIONS, p\<lparr>ps_world := w\<rparr>)) = (n, p1)" by fastforce
  obtain due_time t p2 where t: "(if timeout > 0 then let (now, w) = GetTickCount64 env (ps_world p1)
                               in (now + word_of_int timeout, word_of_int timeout, p1\<lparr>ps_world := w\<rparr>)
           else if timeout = 0 then (0, 0, p1) else (0, INFINITE, p1)) = (due_time, t, p2)" by (metis prod_cases3)
  have g: "round_ok env out (ps_active_poll_count p) p" using assms(1) by (simp add: port_good_def round_ok_def)
  have w: "round_ok env out c (q\<lparr>ps_world := w\<rparr>)" if "round_ok env out c q" "out w = out (ps_world q)" for c q w
    using that by (simp add: round_ok_def port_inv_def polls_def)
  have "system_ok env out" using assms(1) by (simp add: port_good_def)
  then have k: "out (snd (malloc_ok env v)) = out v" "out (snd (GetTickCount64 env v)) = out v" for v
    by (simp_all add: system_ok_def keeps_polls_def)
  have n1: "n \<le> nat maxevents" "round_ok env out (ps_active_poll_count p) p1"
    using n g w [OF g] k(1) [of "ps_world p"] by (auto split: if_splits prod.splits)
  have p2: "round_ok env out (ps_active_poll_count p) p2"
    using t n1(2) w [OF n1(2)] k(2) [of "ps_world p1"] by (auto split: if_splits prod.splits)
  obtain r evs q where q: "port_wait_loop env n timeout due_time t p2 = Some (r, evs, q)" "round_ok env out (ps_active_poll_count p) q" "reply_ok n r evs"
    using loop_ends [OF p2 assms(2,4)] by blast
  then have "port_inv q" "ps_iocp_handle q \<noteq> None" "polls out {} q" "driver_ok env out" "system_ok env out"
      "ps_active_poll_count q = ps_active_poll_count p" by (simp_all add: round_ok_def)
  then obtain q' where q': "port_update_events_if_polling env q = Some q'" "port_good env out {} q'" "ps_active_poll_count q' = ps_active_poll_count p"
    using if_polling_good [of q out "{}" env] by auto
  have "port_wait env maxevents timeout p = Some (if 0 \<le> r then r else if ps_last_error q' = WAIT_TIMEOUT then 0 else -1, evs, q')"
    using assms(3) n t q(1) q'(1) unfolding port_wait_def by simp
  then show ?thesis using q' q(3) n1(1) by (auto simp: reply_ok_def)
qed

text \<open>
  A driver that takes no poll, and whose completions report nothing: each trip into the
  kernel takes a tenth of a tick.
\<close>

definition idle_driver :: "nat port_env" where
  "idle_driver = \<lparr>NtCreateFile = (\<lambda>w. (STATUS_SUCCESS, 9, w)), NtDeviceIoControlFile = (\<lambda>_ a _ _ w. (STATUS_NOT_FOUND, w)),
     NtCancelIoFileEx = (\<lambda>_ _ w. (STATUS_SUCCESS, w)), RtlNtStatusToDosError = (\<lambda>_. 87), iosb_Status = (\<lambda>_ _. STATUS_PENDING),
     set_iosb_Status = (\<lambda>_ _ w. w), CreateIoCompletionPort = (\<lambda>_ _ w. (Some 3, 0, w)),
     SetFileCompletionNotificationModes = (\<lambda>_ w. (True, 0, w)), CloseHandle = (\<lambda>_ w. (True, 0, w)),
     GetQueuedCompletionStatusEx = (\<lambda>_ n _ w. (Some [], 0, min (w + 1) (10 * (2 ^ 64 - 1)))),
     GetTickCount64 = (\<lambda>w. (of_nat (min w (10 * (2 ^ 64 - 1)) div 10), w)), WSAIoctl = (\<lambda>s _ w. (Some s, 0, w)), malloc_ok = (\<lambda>w. (True, w))\<rparr>"

lemma idle_driver_ok: "driver_ok idle_driver (\<lambda>_. Map.empty)" "system_ok idle_driver (\<lambda>_. Map.empty)"
  by (auto simp: driver_ok_def system_ok_def keeps_polls_def idle_driver_def status_defs error_defs)

lemma idle_clock_ok: "clock_ok idle_driver (\<lambda>w. min w (10 * (2 ^ 64 - 1))) 10"
proof -
  have "min w (10 * (2 ^ 64 - 1)) div 10 < 2 ^ 64" for w :: nat by (simp add: div_less_iff_less_mult)
  moreover have "min w (10 * (2 ^ 64 - 1)) < min (min (w + 1) (10 * (2 ^ 64 - 1))) (10 * (2 ^ 64 - 1)) \<or>
      min w (10 * (2 ^ 64 - 1)) = min (min (w + 1) (10 * (2 ^ 64 - 1))) (10 * (2 ^ 64 - 1)) \<and> min w (10 * (2 ^ 64 - 1)) div 10 = 2 ^ 64 - 1" for w :: nat
    by (cases "w < 10 * (2 ^ 64 - 1)") (simp_all add: min_def)
  ultimately show ?thesis by (simp add: clock_ok_def idle_driver_def)
qed

theorem wepoll_wait_returns_witness:
  "\<exists>h p w r evs q. port_new idle_driver 0 = Some (Some (h, p), 0, w) \<and> port_wait idle_driver 1 20 p = Some (r, evs, q) \<and> port_inv q"
proof -
  obtain h p w where p: "port_new idle_driver 0 = Some (Some (h, p), 0, w)"
    using port_new_ok [of idle_driver 0] by (auto simp: port_new_def port_create_iocp_def idle_driver_def bind_eq_Some_conv split: option.splits)
  have "port_good idle_driver (\<lambda>_. Map.empty) {} p"
    using start_inv [OF p _ idle_driver_ok] by (simp add: wait_inv_def)
  from wepoll_wait_returns [OF this idle_clock_ok, of 1 20] show ?thesis using p by (auto simp: port_good_def)
qed

end
