(* ===== verification/Spec2Isabelle.thy ===== *)
theory Spec2Isabelle
  imports Reach Dangling Ipport Mdns Tls Wepoll_Calls Wepoll_Return
begin

text \<open>
  m_net, an event-driven network library in C: a model of it and the theorems that make it
  correct.

  \<^bold>\<open>The program.\<close>  An application opens channels (\<open>chann_t\<close>), connects or listens, sends and
  receives, and calls \<open>mnet_poll\<close> and \<open>mnet_result_next\<close> in a loop.  The core,
  src/src/mnet_core.c, keeps one global state: the list of channels, the list of the ones
  closed but not yet freed, the list of the ones with a DISCONNECT message to deliver, the
  timers, and the table of events the kernel returned.  Bytes a socket does not take wait
  in a queue of blocks per channel; timers are kept in a skip list ordered by their next
  expiry.  A table of extensions maps a channel type to the functions that open, close,
  send and receive for it; src/extension/openssl/mnet_tls.c is one extension, and
  src/extension/mdns/mdns.c builds and reads DNS messages for an application.
  On Windows the kernel interface is src/src/wepoll.c, an epoll over the system's ports.

  \<^bold>\<open>Theories and what they model.\<close>

  \<^item> \<open>Prelude\<close>: the collections of rewrite rules, partial correctness of computations in the
    option type (\<open>post\<close>), addresses and byte lists.  \<open>Chain\<close>: doubly linked chains over a
    store, shared by the skip list and the queues of wepoll.
  \<^item> \<open>Rwb\<close>: the queue of unsent bytes, \<open>_rwb_count\<close> to \<open>_rwb_destroy\<close>, with its blocks in a
    store.  The locale \<open>byte_fifo\<close> is its contract, interpreted on these functions.
  \<^item> \<open>Skiplist\<close>: the skip list, from \<open>list_init\<close> to \<open>skiplist_remove_skipnode\<close>.  The locale
    \<open>ordered_queue\<close> is its contract, interpreted on these functions.
  \<^item> \<open>Mnet_Types\<close>: the channel, message, extension and global records.  The global state is a
    record with a store of channels; the operating system is a record of functions on an
    arbitrary world (\<open>'w env\<close>), each of which returns a value, an error and the new world.
  \<^item> \<open>Ext\<close>: the dispatch to extensions and the messages.  \<open>Timer\<close>: the timers of channels.
    \<open>Chann\<close>: sockets and channels.  \<open>Evt\<close>: the event loop on epoll.  \<open>Api\<close>: the public
    functions.  Each definition carries the name of its C function, without the leading
    underscore.
  \<^item> \<open>Inv\<close>, \<open>Inv_Ops\<close>, \<open>Inv_Events\<close>: the invariant of the global state and its
    preservation by every operation.  \<open>Reach\<close>: the public calls as steps of a transition
    system and its reachable states.  \<open>Sending\<close>: what reaches the wire.  \<open>Dangling\<close>: runs in
    which the two pointers that the invariant says nothing of lead into freed memory.
  \<^item> \<open>Ipport\<close>: parsing and resolving addresses.  \<open>Mdns\<close>: DNS messages.  \<open>Tls\<close>: the TLS
    extension, with OpenSSL as a parameter.  \<open>Sample\<close>: concrete systems and states.
  \<^item> \<open>Wepoll_Queue\<close>, \<open>Wepoll_Reflock\<close>: the intrusive queues and the reference lock of wepoll.c.
    \<open>Wepoll_Tree\<close>, \<open>Wepoll_Rbt\<close>: its red-black tree, as code on linked nodes and as a map
    (the locale \<open>key_index\<close>).  \<open>Wepoll_Afd\<close>, \<open>Wepoll_Errno\<close>: the calls to the driver and the
    table of errors; the Windows kernel is a parameter (\<open>'w port_env\<close>, \<open>'w epoll_env\<close>).
  \<^item> \<open>Wepoll_Sock\<close>: the state of a socket, \<open>sock_update\<close>, \<open>sock_feed_event\<close>, \<open>sock__delete\<close>.
    \<open>Wepoll_Port\<close>: poll groups, \<open>sock_new\<close>, \<open>port_ctl\<close>, \<open>port_wait\<close>, creation and deletion of
    ports.  \<open>Wepoll_Frame\<close>: relations that these operations respect, as locales that the
    next theories interpret.  \<open>Wepoll_Ctl\<close>: \<open>port_ctl\<close> as an update of a map.
    \<open>Wepoll_Wait\<close>: threads that wait on one port.  \<open>Wepoll_Return\<close>: \<open>port_wait\<close> returns.
  \<^item> \<open>Wepoll_Epoll\<close>: the global initialisation, the tree of handles and the calls
    \<open>epoll_create\<close>, \<open>epoll_ctl\<close>, \<open>epoll_wait\<close>, \<open>epoll_close\<close>.  \<open>Wepoll_Handles\<close>: threads that
    share handles.  \<open>Wepoll_Calls\<close>: what the calls do when one thread makes them.

  \<^bold>\<open>How effects are modelled.\<close>  An operation is a function of the global state; \<open>None\<close> means
  that the C code dereferences memory that is not allocated, fails an assertion, or does
  not return.  Loops over pointers are \<open>partial_function (option)\<close>, so that their
  termination is a theorem: a statement that an operation gives \<open>Some\<close> says that it runs
  without a fault and returns.  No loop of the code is cut off by fuel.  Two auxiliary
  functions count: \<open>tm_drain\<close> makes a given number of calls, and
  \<open>find_within\<close> stops after a given number of rounds; both are used in statements only.
  What runs under a lock is one step; where wepoll
  gives a lock up, the steps of several threads interleave.  Integers whose overflow matters are words:
  flag words and lock words, the 16- and 8-bit fields of DNS messages, the port number.
  The products and sums of the timers that the C code keeps in an \<open>int64_t\<close> give \<open>None\<close> when
  they do not fit (the overflow is undefined in C), and the interval a channel keeps is truncated
  to an \<open>int\<close> as in C.  What is asked of the
  operating system, the timers and the driver stands as hypotheses in the statements that need it.

  \<^bold>\<open>What the theorems show.\<close>  In this theory: the invariant holds in every state that public
  calls reach from \<open>mnet_init\<close> (\<open>reach_invariant\<close>).  The steps are the calls that return;
  \<open>mnet_fini\<close> is a theorem of its own (\<open>fini_releases\<close>) and no step, and starting again after it is
  not modelled.  The invariant covers the channels, the closed ones, their queues, the timers
  and the extensions; it says nothing of \<open>g_dis_channs\<close> and \<open>g_tm_pos\<close>, and both can dangle: after
  a send that fails, \<open>mnet_chann_close\<close> and \<open>mnet_poll\<close>, the next \<open>mnet_result_next\<close> reads the freed
  channel (\<open>failed_send_dangles\<close> in \<open>Dangling\<close>), and a timer removed while its round runs is read by
  the next \<open>tm_next\<close> (\<open>killed_but_next\<close>).  So the invariant does not mean that no call faults;
  that a call returns is stated where it is proved.  \<open>mnet_poll\<close> returns and frees exactly the closed
  channels (\<open>poll_safe\<close>, \<open>close_frees\<close>); no byte of a stream is lost, duplicated or reordered
  and queued bytes are sent in the end (\<open>stream_integrity\<close>, \<open>stream_flush\<close>); the outcomes of
  send, disconnect and finish, with the cases in which the code does not return
  (\<open>flush_error_hangs\<close>, \<open>disconnect_outcome\<close>).  In the component theories: the byte queue
  refines a list of bytes; the skip list refines an ordered list; parsing inverts printing
  for addresses and DNS names; the TLS extension calls SSL_read and SSL_write for a
  channel that connects only when its handshake is over, and for an accepted one also
  before that (\<open>tls_data_gate\<close>); the lock of wepoll wakes its destroyer exactly once.  Of the Windows
  port: the tree is a balanced map; \<open>port_ctl\<close> refines the update of a map
  (\<open>wepoll_ctl\<close>); threads that wait on a port never meet a freed socket
  (\<open>wepoll_threads\<close>), and no wakeup is lost, down to the events the driver is asked for
  (\<open>wepoll_update_events\<close>, \<open>wepoll_no_lost_wakeup\<close>); a wait with a
  timeout returns; no handle is used after its port is freed, and no port is leaked
  (\<open>epoll_handles\<close>); \<open>epoll_ctl\<close> leaves a known error for every way it fails when memory and the
  driver's helper handles can be had (\<open>resources\<close>, in \<open>epoll_ctl_contract\<close>).

  \<^bold>\<open>Not modelled.\<close>  Allocation failure in the core (the code does not check it either),
  logging, the pluggable allocator; the kqueue and Windows branches of the core; the event on
  which the destroyer of a reference lock waits is the flag that the operations return, and
  the addresses of the imported system functions are not kept; the C++ wrapper, the Lua
  binding and the examples, which only call the library.  Callbacks of the application run
  between the calls of the model, since m_net delivers messages as results of
  \<open>mnet_result_next\<close>.
\<close>

section \<open>States for the examples\<close>

lemma quiet_balancer: "balancer_ok (quiet_env :: 'w env)"
  by (simp add: balancer_ok_def quiet_env_def)

lemma one_block_inv: "rwb_inv one_block" "rwb_bytes one_block = [8]"
  by (rule rwb_rep_inv [of _ "[0]"], simp add: rwb_rep_def one_block_def block_ok_def)
     (simp add: rwb_bytes_def rwb_addrs_def one_block_def block_bytes_def)

lemma rwb_zero_inv: "rwb_inv rwb_zero" "rwb_bytes rwb_zero = []" "rwb_count rwb_zero = 0"
  using rwb_rep_inv [OF rwb_rep_zero]
  by (simp_all add: rwb_bytes_def rwb_addrs_def rwb_zero_def rwb_count_def)

lemma sample_conn_ok: "rwb_inv q \<Longrightarrow> conn (sample_conn q) 1 (sample_chann q)"
  using sample_cfg_ok [of "[]"]
  by (simp add: conn_def sample_conn_def cfg_ok_def) (simp add: sample_state_def sample_chann_def)

lemma sample_chann_simps [simp]: "c_fd (sample_chann q) = 5" "c_rwb_send (sample_chann q) = q" "g_world (sample_conn q) = []"
  by (simp_all add: sample_chann_def sample_conn_def sample_state_def)

lemma wire_env_ok: "os_sends wire_env fd id" "os_live wire_env fd" "os_progress wire_env fd"
  by (auto simp: os_sends_def os_live_def os_progress_def wire_env_def quiet_env_def min_def take_all_iff)

text \<open>A reachable state with an open channel, on which nothing is queued.\<close>

lemma opened_sample:
  obtains s n c where "reach (quiet_env :: nat env) s" "mnet_inv s" "g_init s" "g_heap s = [n \<mapsto> c]"
    "c_state c = CHANN_STATE_DISCONNECT" "rwb_count (c_rwb_send c) = 0" "c_timer_node c = None"
proof -
  obtain s0 where s0: "mnet_init (quiet_env :: nat env) (mnet_start 0) = Some (1, s0)" "mnet_inv s0" "g_heap s0 = Map.empty" "g_init s0"
    using mnet_init_ok [of quiet_env 0] by blast
  have r0: "reach quiet_env s0" using s0(1) by (rule reach.Init)
  have int: "internal CHANN_TYPE_STREAM" by (simp add: internal_def)
  have cfg: "cfg_ok s0" and ch: "g_channs s0 = None"
    using s0(2,3) by (auto simp: mnet_inv_def inv0_def chann_links_def)
  define c where "c = chann_zero\<lparr>c_ctype := CHANN_TYPE_STREAM, c_state := CHANN_STATE_DISCONNECT, c_next := None\<rparr>"
  define s where "s = s0\<lparr>g_heap := [g_brk s0 \<mapsto> c], g_brk := Suc (g_brk s0), g_channs := Some (g_brk s0), g_chann_count := g_chann_count s0 + 1\<rparr>"
  have "mnet_chann_open quiet_env CHANN_TYPE_STREAM s0 = Some (Some (g_brk s0), s)"
    using cfg ch int s0(3)
    by (simp add: mnet_chann_open_def ext_config_internal chann_create_def init_ext_calls s_def c_def Let_def)
       (simp add: ctype_defs)
  then have r: "reach quiet_env s" using r0 int by (blast intro: reach.Step mnet_step.Open)
  then have "mnet_inv s" by (rule reach_inv [OF _ env_rand_ends(1) quiet_balancer])
  with r s0(4) show ?thesis
    by (intro that [of s "g_brk s0" c]) (simp_all add: s_def c_def chann_zero_def rwb_zero_def rwb_count_def)
qed

section \<open>The library as a whole\<close>

text \<open>
  C1: the invariant of the library holds in every state an application can
  reach from \<open>mnet_init\<close> by any sequence of calls of the public interface that return, on channels of the
  internal types: the channel list is a doubly linked list of exactly the allocated
  channels, counted; the closed channels are exactly the ones on the list to be freed,
  without a cycle; the timer list is a well-formed skip list in one-to-one correspondence
  with the channels that have a timer; every channel above the disconnected state has a
  socket, and only a connected one has unsent bytes.  Assumed are that the random generator
  is not stuck (\<open>rand_ends\<close>) and that the application's balancer callbacks leave the library
  alone (\<open>balancer_ok\<close>).  \<open>mnet_fini\<close> and starting again are no steps, and the invariant says
  nothing of \<open>g_dis_channs\<close> and \<open>g_tm_pos\<close>, which can dangle (\<open>Dangling\<close>).
\<close>

theorem reach_invariant:
  assumes "reach env s" "rand_ends (sys_rand env)" "balancer_ok env"
  shows "mnet_inv s"
  using assms by (rule reach_inv)

theorem reach_invariant_witness:
  "\<exists>s. reach (quiet_env :: nat env) s \<and> mnet_inv s \<and> g_heap s \<noteq> Map.empty"
proof -
  obtain s n c where s: "reach (quiet_env :: nat env) s" "g_heap s = [n \<mapsto> c]" by (rule opened_sample)
  have "mnet_inv s" by (rule reach_invariant [OF s(1) env_rand_ends(1) quiet_balancer])
  with s show ?thesis by (metis map_upd_nonempty)
qed

text \<open>
  C4: \<open>mnet_poll\<close> from any reachable state returns, without touching freed memory,
  the number of channels or -1; it frees exactly the channels that were closed, keeps the
  others up to their place in the channel list, and restores the invariant.
\<close>

theorem poll_safe:
  assumes "reach env s" "rand_ends (sys_rand env)" "balancer_ok env"
  shows "\<exists>r t. mnet_poll env ms s = Some (r, t) \<and> mnet_inv t \<and> dom (g_heap t) = dom (g_heap s) - closed s \<and>
    relinked (g_heap s |` (- closed s)) (g_heap t) \<and> closed t = {} \<and> (r = -1 \<or> r = g_chann_count t)"
proof -
  obtain r t where t: "mnet_poll env ms s = Some (r, t)" "mnet_inv t" "relinked (g_heap s |` (- closed s)) (g_heap t)"
      "closed t = {}" "r = -1 \<or> r = g_chann_count t"
    using mnet_poll_ok [OF reach_inv [OF assms], of env ms] by blast
  have "g_heap t m = None \<longleftrightarrow> (g_heap s |` (- closed s)) m = None" for m
    using t(3) unfolding relinked_def by (metis map_option_is_None)
  then have "dom (g_heap t) = dom (g_heap s |` (- closed s))" unfolding dom_def by simp
  also have "\<dots> = dom (g_heap s) - closed s" by (auto simp: dom_restrict)
  finally show ?thesis using t by blast
qed

theorem poll_safe_witness:
  "\<exists>s r t. reach (quiet_env :: nat env) s \<and> mnet_poll quiet_env 10 s = Some (r, t) \<and> mnet_inv t \<and> closed t = {}"
proof -
  obtain s n c where s: "reach (quiet_env :: nat env) s" "g_heap s = [n \<mapsto> c]" by (rule opened_sample)
  from poll_safe [OF s(1) env_rand_ends(1) quiet_balancer, of 10] s show ?thesis by blast
qed

lemma close_socket_total:
  assumes "cfg_ok s" "g_heap s n = Some c" "internal (c_ctype c)"
  shows "\<exists>t. chann_close_socket env n s = Some t"
  using assms by (auto simp: chann_close_socket_def ext_config_internal init_ext_calls upd_chann_def)

lemma close_total:
  assumes s: "mnet_inv s" "g_heap s n = Some c"
  shows "mnet_chann_close env (Some n) s = None \<longleftrightarrow> rwb_count (c_rwb_send c) \<noteq> 0"
proof -
  have cfg: "cfg_ok s" and wf: "chann_wf c" using s by (auto simp: mnet_inv_def inv0_def)
  have low: "rwb_count (c_rwb_send c) = 0" if "c_state c \<le> CHANN_STATE_DISCONNECT"
    using that wf by (auto simp: chann_wf_def state_order)
  show ?thesis
  proof (cases "c_state c \<le> CHANN_STATE_DISCONNECT")
    case True
    then show ?thesis
      using s(2) low disconnect_run [OF cfg wf s(2), of env] close_socket_total [OF cfg s(2), of env] wf
      by (auto simp: mnet_chann_close_def chann_wf_def)
  next
    case False
    let ?t = "(snd (syscall (sys_close env (c_fd c)) s))\<lparr>g_heap := (g_heap s)(n \<mapsto>
       c\<lparr>c_fd := -1, c_state := CHANN_STATE_DISCONNECT, c_epoll_events := 0\<rparr>)\<rparr>"
    have "same_core s (snd (syscall (sys_close env (c_fd c)) s))" using same_core_syscall by (metis prod.collapse)
    then have "cfg_ok ?t" using cfg by (auto elim: same_coreE)
    then have "\<exists>u. chann_close_socket env n ?t = Some u"
      using wf by (intro close_socket_total) (auto simp: chann_wf_def)
    moreover have "c_state c > CHANN_STATE_CLOSED" using False by (auto simp: state_order)
    ultimately show ?thesis
      using s(2) False disconnect_run [OF cfg wf s(2), of env] by (auto simp: mnet_chann_close_def)
  qed
qed

text \<open>
  C7: closing a channel.  In a reachable state \<open>mnet_chann_close\<close> returns exactly
  when the channel has no unsent bytes (otherwise it never returns); the channel is then
  closed, and the next \<open>mnet_poll\<close> frees it.
\<close>

theorem close_frees:
  assumes "mnet_inv s" "g_heap s n = Some c"
  shows "if rwb_count (c_rwb_send c) \<noteq> 0 then mnet_chann_close env (Some n) s = None
    else \<exists>t r u. mnet_chann_close env (Some n) s = Some t \<and> closed t = insert n (closed s) \<and>
      mnet_poll env ms t = Some (r, u) \<and> g_heap u n = None \<and> mnet_inv u"
proof (cases "rwb_count (c_rwb_send c) = 0")
  case True
  then obtain t where t: "mnet_chann_close env (Some n) s = Some t" using close_total [OF assms, of env] by auto
  have inv: "mnet_inv t" "closed t = insert n (closed s)" using mnet_chann_close_run [OF assms t] by auto
  obtain r u where u: "mnet_poll env ms t = Some (r, u)" "mnet_inv u" "relinked (g_heap t |` (- closed t)) (g_heap u)"
    using mnet_poll_ok [OF inv(1), of env ms] by blast
  have "(g_heap t |` (- closed t)) n = None" using inv(2) by simp
  then have "g_heap u n = None" using u(3) unfolding relinked_def by (metis map_option_is_None)
  then show ?thesis using True t inv u by auto
qed (use close_total [OF assms, of env] in auto)

theorem close_frees_witness:
  "\<exists>s n t r u. mnet_inv s \<and> n \<in> dom (g_heap s) \<and> mnet_chann_close (quiet_env :: nat env) (Some n) s = Some t \<and>
     mnet_poll quiet_env 0 t = Some (r, u) \<and> g_heap u n = None"
proof -
  obtain s n c where s: "mnet_inv (s :: nat mnet_t)" "g_heap s = [n \<mapsto> c]" "rwb_count (c_rwb_send c) = 0" by (rule opened_sample)
  then have n: "g_heap s n = Some c" by simp
  from close_frees [OF s(1) n, of quiet_env 0] s(3) obtain t r u where
    "mnet_chann_close quiet_env (Some n) s = Some t" "mnet_poll quiet_env 0 t = Some (r, u)" "g_heap u n = None" by auto
  then show ?thesis using s(1) n by blast
qed

text \<open>
  \<open>mnet_init\<close> at the start of the program returns 1 and leaves an initialised,
  empty library that satisfies the invariant; called again it returns 0 and changes nothing.
\<close>

lemma init_state:
  "\<exists>s. mnet_init env (mnet_start w) = Some (1, s) \<and> mnet_inv s \<and> g_heap s = Map.empty \<and> g_init s \<and>
     mnet_init env s = Some (0, s)"
  using mnet_init_ok [of env w] by (auto simp: mnet_init_def)



section \<open>Sending\<close>

text \<open>
  C2: no byte of a stream is lost, duplicated or reordered.  On a connected
  stream channel whose socket may accept any part of what it is offered, or nothing, any
  sequence of \<open>mnet_chann_send\<close> calls and writable events runs without a fault and ends,
  and what is on the wire followed by what is still queued is what was there before
  followed by the bytes of the calls in their order.
\<close>

theorem stream_integrity:
  assumes "conn s n c" "os_sends env (c_fd c) wire" "os_live env (c_fd c)" "Send [] \<notin> set ops"
  shows "\<exists>t d. stream_run env n ops s = Some t \<and> conn t n d \<and>
    wire (g_world t) @ rwb_bytes (c_rwb_send d) =
      wire (g_world s) @ rwb_bytes (c_rwb_send c) @ concat (map op_bytes ops)"
  using assms by (rule stream_run_ok)

theorem stream_integrity_witness:
  "\<exists>t d. stream_run wire_env 1 [Send [1, 2, 3], Send [4], Writable] (sample_conn one_block) = Some t \<and> conn t 1 d \<and>
     g_world t @ rwb_bytes (c_rwb_send d) = [8, 1, 2, 3, 4]"
  using stream_integrity [OF sample_conn_ok [OF one_block_inv(1)], of wire_env id "[Send [1, 2, 3], Send [4], Writable]"]
    one_block_inv(2) wire_env_ok by simp

text \<open>
  C6: queued bytes are sent in the end.  If a writable socket always accepts at
  least one byte, as many writable events as there are queued bytes empty the queue, and
  all of them are on the wire, in order.
\<close>

theorem stream_flush:
  assumes "conn s n c" "os_sends env (c_fd c) wire" "os_live env (c_fd c)" "os_progress env (c_fd c)"
    and "length (rwb_bytes (c_rwb_send c)) \<le> k"
  shows "\<exists>t d. stream_run env n (replicate k Writable) s = Some t \<and> conn t n d \<and> rwb_bytes (c_rwb_send d) = [] \<and>
    wire (g_world t) = wire (g_world s) @ rwb_bytes (c_rwb_send c)"
  using assms by (rule flush_all)

theorem stream_flush_witness:
  "\<exists>t d. stream_run wire_env 1 [Writable] (sample_conn one_block) = Some t \<and> conn t 1 d \<and> rwb_bytes (c_rwb_send d) = [] \<and>
     g_world t = [8]"
  using stream_flush [OF sample_conn_ok [OF one_block_inv(1)], of wire_env id 1] one_block_inv(2) wire_env_ok
  by simp

text \<open>
  C25: a call of \<open>mnet_chann_send\<close> on a live connected stream reports the whole
  length as sent, whatever part the socket takes: the rest is queued behind what is
  already waiting.
\<close>

theorem send_accepts_all:
  assumes "conn s n c" "0 < len" "nat len \<le> length bs" "os_sends env (c_fd c) wire" "os_live env (c_fd c)"
  shows "\<exists>t d. mnet_chann_send env (Some n) (Some bs) len s = Some (len, t) \<and> conn t n d \<and> c_fd d = c_fd c \<and>
    wire (g_world t) @ rwb_bytes (c_rwb_send d) = wire (g_world s) @ rwb_bytes (c_rwb_send c) @ take (nat len) bs"
  using assms by (rule send_ok)

theorem send_accepts_all_witness:
  "\<exists>t d. mnet_chann_send wire_env (Some 1) (Some [1, 2, 3, 4]) 3 (sample_conn rwb_zero) = Some (3, t) \<and>
     g_world t @ rwb_bytes (c_rwb_send d) = [1, 2, 3] \<and> conn t 1 d"
  using send_accepts_all [OF sample_conn_ok [OF rwb_zero_inv(1)], of 3 "[1, 2, 3, 4]" wire_env id] rwb_zero_inv wire_env_ok
  by auto

text \<open>
  C26: a send that fails on an idle connected channel returns -1, calls close(2) on
  the socket, and nothing else of the system, after the failed send(2); it puts the channel
  in the disconnected state with a DISCONNECT message, and at the front of the list of
  disconnected channels.  If no timer is being delivered, the next call of
  \<open>mnet_result_next\<close> returns that message and takes the channel off the list.
\<close>

theorem send_error:
  assumes "conn s n c" "rwb_count (c_rwb_send c) = 0" "0 < len" "nat len \<le> length bs"
    and "sys_send env (c_fd c) (take (nat len) bs) (g_world s) = (r, Some e, w)" "r < 0" "e \<noteq> EWOULDBLOCK"
  shows "\<exists>t d. mnet_chann_send env (Some n) (Some bs) len s = Some (-1, t) \<and> g_heap t n = Some d \<and>
    c_state d = CHANN_STATE_DISCONNECT \<and> c_fd d = -1 \<and> g_world t = snd (snd (sys_close env (c_fd c) w)) \<and>
    m_event (c_msg d) = Some CHANN_EVENT_DISCONNECT \<and> m_n (c_msg d) = Some n \<and>
    g_dis_channs t = Some n \<and> c_dis_next d = g_dis_channs s \<and>
    (\<forall>clock. g_tm_clock s = Some clock \<and> g_tm_pos s = None \<longrightarrow>
       mnet_result_next env t = Some (Some n, t\<lparr>g_dis_channs := g_dis_channs s\<rparr>))"
  using assms by (rule send_broken)

theorem send_error_witness:
  "\<exists>t d. mnet_chann_send broken_env (Some 1) (Some [1]) 1 (sample_conn rwb_zero) = Some (-1, t) \<and> g_heap t 1 = Some d \<and>
     c_state d = CHANN_STATE_DISCONNECT"
  using send_error [OF sample_conn_ok [OF rwb_zero_inv(1)], of 1 "[1]" broken_env "-1" 104 "[]"] rwb_zero_inv
  by (auto simp: broken_env_def EWOULDBLOCK_def)

text \<open>
  C31: a send error while queued bytes are being written never returns.  The
  error path of \<open>_chann_sended_rwb\<close> disconnects the channel, which destroys its queue, and
  destroying a queue that still holds unsent bytes loops forever.
\<close>

theorem flush_error_hangs:
  assumes "conn s n c" "0 < rwb_count (c_rwb_send c)"
    and "\<forall>buf w. \<exists>r e w'. sys_send env (c_fd c) buf w = (r, Some e, w') \<and> r < 0 \<and> e \<noteq> EWOULDBLOCK"
  shows "evt_dispatch env (writable n) n s = None"
  using assms(3) by (intro flush_broken [OF assms(1,2)]) blast

theorem flush_error_hangs_witness:
  "evt_dispatch broken_env (writable 1) 1 (sample_conn one_block) = None"
  using flush_error_hangs [OF sample_conn_ok [OF one_block_inv(1)], of broken_env]
  by (simp add: broken_env_def EWOULDBLOCK_def one_block_def rwb_count_def)

text \<open>
  C30: disconnecting a connected channel.  Without unsent bytes it calls close(2)
  on the socket, and nothing else of the system, and leaves the channel disconnected with no
  socket and no registered events, everything else as it was; with unsent bytes it never
  returns.
\<close>

theorem disconnect_outcome:
  assumes "conn s n c"
  shows "if rwb_bytes (c_rwb_send c) = []
    then case sys_close env (c_fd c) (g_world s) of (r, e, w) \<Rightarrow>
      mnet_chann_disconnect env (Some n) s = Some (s\<lparr>g_heap := (g_heap s)(n \<mapsto>
        c\<lparr>c_fd := -1, c_state := CHANN_STATE_DISCONNECT, c_epoll_events := 0\<rparr>),
        g_errno := (case e of None \<Rightarrow> g_errno s | Some x \<Rightarrow> x), g_world := w\<rparr>)
    else mnet_chann_disconnect env (Some n) s = None"
proof -
  have inv: "rwb_inv (c_rwb_send c)" using assms by (simp add: conn_def)
  show ?thesis
  proof (cases "rwb_bytes (c_rwb_send c) = []")
    case True
    then have "rwb_count (c_rwb_send c) = 0" using rwb.empty_law [OF inv] by simp
    note q = this
    obtain r e w where "sys_close env (c_fd c) (g_world s) = (r, e, w)" by (metis prod.exhaust)
    with disconnect_ok [OF assms q this] True show ?thesis by (simp add: mnet_chann_disconnect_def)
  next
    case False
    then have "0 < rwb_count (c_rwb_send c)" using rwb.empty_law [OF inv] rwb.count_law [OF inv] by linarith
    then show ?thesis using False disconnect_stuck [OF assms, of env] by (simp add: mnet_chann_disconnect_def)
  qed
qed

theorem disconnect_outcome_witness:
  "mnet_chann_disconnect wire_env (Some 1) (sample_conn one_block) = None"
  using disconnect_outcome [OF sample_conn_ok [OF one_block_inv(1)], of wire_env] one_block_inv(2) by simp

section \<open>Timers\<close>





text \<open>
  C9: Timers go off when they are due, and only then.  After \<open>_tm_schedule\<close> has read the
  clock, the calls of \<open>_tm_next\<close> deliver the channels of exactly the timers due by then,
  earliest first, each of them once although it is filed again for its next round at once;
  then they return NULL.  The clock may be any clock that does not go back and stays below
  2^62 microseconds.  It is assumed (\<open>timers_run\<close>) that every timer keeps an interval between 1
  and 2^31 - 1 microseconds and belongs to a channel of an internal type.  A value above
  2147483 milliseconds, which is truncated to an int, may break this; a timer whose interval
  has wrapped to zero or less is filed as due already and goes off again at once.
\<close>

theorem timers_fire:
  assumes "timers_run s" "g_tm_clock s = Some clock" "rand_ends (sys_rand env)"
    and "clock_past env P (fst (tm_now env s))" "P (g_world s)"
  shows "\<exists>t u. tm_schedule env s = Some t \<and>
    tm_drain env (Suc (length (timers clock))) t =
      Some (map snd (takeWhile (\<lambda>x. fst x \<le> fst (tm_now env s)) (timers clock)), u) \<and> timers_run u"
proof -
  have ok: "timers_ok clock (g_heap s)" using assms(1,2) by (auto simp: timers_run_def)
  let ?now = "fst (tm_now env s)" and ?w = "g_world (snd (tm_now env s))"
  let ?due = "map snd (takeWhile (\<lambda>x. fst x \<le> ?now) (timers clock))"
  have due: "?due = due ?now (sk_entries clock)"
    by (cases "timers clock = []") (simp_all add: timers_hd, simp add: timers_def due_def)
  have past: "P ?w" using clock_past_now [OF assms(4,5), of ?now "snd (tm_now env s)"] by simp
  from tm_schedule_ok [OF assms(2) ok, of env] obtain t where t: "tm_schedule env s = Some t" and
    alt: "t = s\<lparr>g_world := g_world t, g_tm_pos := None\<rparr> \<and> ?due = [] \<or>
      (\<exists>pos. t = s\<lparr>g_world := ?w, g_tm_current := ?now, g_tm_pos := Some pos\<rparr> \<and> at_pos clock pos [] (sk_entries clock))"
    by (cases "timers clock") (auto simp: not_less split: if_splits)
  from alt have "\<exists>u. tm_drain env (Suc (length (timers clock))) t = Some (?due, u) \<and> timers_run u"
  proof
    assume w: "t = s\<lparr>g_world := g_world t, g_tm_pos := None\<rparr> \<and> ?due = []"
    then obtain w' where w': "t = s\<lparr>g_world := w', g_tm_pos := None\<rparr>" by blast
    then have "tm_next env t = Some (None, t)" using assms(2) by (subst tm_next.simps) simp
    moreover have "timers_run t" using w' assms(1) by (simp add: timers_run_def cfg_ok_def)
    ultimately show ?thesis using w by simp
  next
    assume "\<exists>pos. t = s\<lparr>g_world := ?w, g_tm_current := ?now, g_tm_pos := Some pos\<rparr> \<and> at_pos clock pos [] (sk_entries clock)"
    then obtain pos where pos: "t = s\<lparr>g_world := ?w, g_tm_current := ?now, g_tm_pos := Some pos\<rparr>" "at_pos clock pos [] (sk_entries clock)"
      by blast
    have "timers_run t" using assms(1) pos(1) by (simp add: timers_run_def cfg_ok_def)
    moreover have "length (due ?now (sk_entries clock)) < Suc (length (timers clock))"
      by (simp add: due_def timers_def less_Suc_eq_le length_takeWhile_le)
    ultimately show ?thesis unfolding due
      using tm_drain_ok [OF assms(3), of t "sk_entries clock" "Suc (length (timers clock))" clock pos "[]" P] pos assms(2,4) past by simp
  qed
  then show ?thesis using t by blast
qed

text \<open>A second later: a clock that stands at two seconds.\<close>

definition late_env :: "nat env" where
  "late_env = quiet_env\<lparr>sys_gettimeofday := (\<lambda>w. ((2, 0), w))\<rparr>"

lemma one_timer:
  obtains s n clock where "timers_run (s :: nat mnet_t)" "g_tm_clock s = Some clock" "timers clock = [(1005000, n)]"
proof -
  obtain s n c where s: "mnet_inv (s :: nat mnet_t)" "g_heap s = [n \<mapsto> c]" "c_timer_node c = None"
    by (rule opened_sample)
  obtain clock where clock: "g_tm_clock s = Some clock" "timers_ok clock (g_heap s)" "cfg_ok s"
    using s(1) by (auto simp: mnet_inv_def inv0_def)
  have wf: "chann_wf c" using inv_wf [OF s(1)] s(2) by simp
  have "timers clock = []"
  proof (rule ccontr)
    assume "timers clock \<noteq> []"
    then obtain x where x: "x \<in> set (sk_entries clock)" by (cases "sk_entries clock") (auto simp: timers_def)
    obtain a k tm where "x = (a, k, tm)" by (cases x) auto
    then have "sk_lookup clock a = Some (k, tm)" using x sk_lookup_mem [OF timers_ok_inv [OF clock(2)]] by simp
    from timers_okD1 [OF clock(2) this] show False using s(2,3) by (auto split: if_splits)
  qed
  moreover have "g_heap s n = Some c" using s(2) by simp
  ultimately obtain a w clock' where k: "timers_ok clock' ((g_heap s)(n \<mapsto> c\<lparr>c_timer_node := Some a\<rparr>))"
      "sk_lookup clock' a = Some (1005000, \<lparr>tm_interval = i32 5000, tm_time = 1005000, tm_chann = n\<rparr>)" "timers clock' = [(1005000, n)]"
    using tm_active_ok [OF clock(1,2) _ s(3), of n quiet_env 5000] env_rand_ends(1)
    by (auto simp: tm_now_def quiet_env_def in_i64_def)
  let ?t = "s\<lparr>g_tm_clock := Some clock', g_heap := (g_heap s)(n \<mapsto> c\<lparr>c_timer_node := Some a\<rparr>)\<rparr>"
  have "0 < tm_interval tm \<and> tm_interval tm < 2 ^ 31" if "sk_lookup clock' b = Some (x, tm)" for b x tm
    using timers_okD1 [OF k(1) that] k(2) s(2) that by (auto simp: i32_id split: if_splits)
  then have "timers_run ?t" using k(1) s(2) wf clock(3) by (auto simp: timers_run_def cfg_ok_def chann_wf_def split: if_splits)
  then show ?thesis using that [of ?t clock' n] k(3) by simp
qed

theorem timers_fire_witness:
  "\<exists>s t u n. tm_schedule late_env s = Some t \<and> tm_drain late_env 2 t = Some ([n], u) \<and> timers_run u"
proof -
  obtain s n clock where s: "timers_run (s :: nat mnet_t)" "g_tm_clock s = Some clock" "timers clock = [(1005000, n)]" by (rule one_timer)
  have now: "fst (tm_now late_env s) = 2000000" by (simp add: tm_now_def late_env_def)
  have "clock_past late_env (\<lambda>_. True) 2000000" "rand_ends (sys_rand late_env)"
    using env_rand_ends(1) by (simp_all add: clock_past_def late_env_def)
  then show ?thesis
    using timers_fire [OF s(1,2), of late_env "\<lambda>_. True"] s(3) now by (auto simp: numeral_2_eq_2)
qed

end
